(* ===== verification/Prelude.thy ===== *)
theory Prelude
  imports Main "HOL-Library.Word" "HOL-Library.Multiset"
begin

text \<open>
  Shared vocabulary of the development: the fixed-width integer types of the C++ sources, the
  collections of simplification rules the component theories feed, and the facts about lists,
  association lists and words that several components use.
\<close>

section \<open>Collections of rules\<close>

named_theorems book_simps \<open>unfolding of the order book's small operations\<close>
named_theorems book_inv \<open>preservation of the order book's invariants\<close>
named_theorems wire_simps \<open>layout and decoding of the packed wire structures\<close>

section \<open>Fixed-width integers\<close>

type_synonym uint8_t = "8 word"
type_synonym uint16_t = "16 word"
type_synonym uint32_t = "32 word"
type_synonym uint64_t = "64 word"

lemma word_min_sub_cases:
  fixes a b :: "'a::len word"
  shows "a - min a b = 0 \<or> b - min a b = 0"
  by (simp add: min_def)

lemma unat_min: "unat (min a b) = min (unat a) (unat b)"
  by (simp add: min_def word_le_nat_alt)

lemma unat_sub_min_left: "unat (a - min a b) = unat a - unat (min a b)"
  by (rule unat_sub) simp

lemma unat_sub_min_right: "unat (b - min a b) = unat b - unat (min a b)"
  by (rule unat_sub) simp

declare word_gt_0 [simp]

lemma word_gr0_iff_unat: "(w :: 'a::len word) \<noteq> 0 \<longleftrightarrow> 0 < unat w"
  by (simp add: unat_gt_0)

section \<open>Undefined behaviour\<close>

text \<open>
  Where the C++ code would have undefined behaviour the model returns one of these values on the
  left of a sum, so that a theorem can say that it does not happen (or that it does).
\<close>

datatype undefined_behaviour =
  Dangling_iterator | Out_of_bounds_read | Use_after_free | Moved_from_read | Buffer_overrun | Integer_out_of_range

section \<open>Lists\<close>

lemma filter_fst_neq_idle: "k \<notin> fst ` set m \<Longrightarrow> filter (\<lambda>p. fst p \<noteq> k) m = m"
  by (rule filter_True) auto

lemma sum_list_map_filter_le:
  "sum_list (map f (filter P xs)) \<le> sum_list (map (f :: 'a \<Rightarrow> nat) xs)"
  by (induction xs) auto

lemma distinct_map_filter_fst: "distinct (map fst xs) \<Longrightarrow> distinct (map fst (filter P xs))"
  by (rule distinct_map_filter)

lemma distinct_map_eq:
  "distinct (map f xs) \<Longrightarrow> x \<in> set xs \<Longrightarrow> y \<in> set xs \<Longrightarrow> f x = f y \<Longrightarrow> x = y"
  by (auto simp: distinct_map dest: inj_onD)

lemma find_unique_key:
  "distinct (map f xs) \<Longrightarrow> x \<in> set xs \<Longrightarrow> find (\<lambda>y. f y = f x) xs = Some x"
  by (induction xs) auto

lemma map_of_filter_key:
  "map_of (filter (\<lambda>p. fst p \<noteq> k) xs) = (map_of xs)(k := None)"
  by (induction xs) auto

section \<open>Runs\<close>

text \<open>
  The outcome of code that may not return (\<open>None\<close>) or run into undefined behaviour
  (\<open>Inl\<close>), and its sequencing.
\<close>

type_synonym 'a run = "(undefined_behaviour + 'a) option"

abbreviation done_with :: "'a \<Rightarrow> 'a run" where
  "done_with x \<equiv> Some (Inr x)"

definition run_bind :: "'a run \<Rightarrow> ('a \<Rightarrow> 'b run) \<Rightarrow> 'b run" where
  "run_bind r f = (case r of None \<Rightarrow> None | Some (Inl ub) \<Rightarrow> Some (Inl ub) | Some (Inr x) \<Rightarrow> f x)"

lemma run_bind_simps [simp]:
  "run_bind None f = None" "run_bind (Some (Inl ub)) f = Some (Inl ub)" "run_bind (done_with x) f = f x"
  by (simp_all add: run_bind_def)

lemma run_bind_done:
  assumes "run_bind r f = done_with y"
  obtains x where "r = done_with x" "f x = done_with y"
  using assms by (auto simp: run_bind_def split: option.splits sum.splits)

fun run_each :: "('a \<Rightarrow> 's \<Rightarrow> 's run) \<Rightarrow> 'a list \<Rightarrow> 's \<Rightarrow> 's run" where
  "run_each f [] s = done_with s"
| "run_each f (x # xs) s = run_bind (f x s) (run_each f xs)"

lemma run_each_append: "run_each f (xs @ ys) s = run_bind (run_each f xs s) (run_each f ys)"
proof (induction xs arbitrary: s)
  case (Cons x xs)
  then show ?case by (auto simp: run_bind_def split: option.splits sum.splits)
qed simp

end
