(* ===== verification/Std_Map.thy ===== *)
theory Std_Map
  imports Prelude
begin

text \<open>
  \<^verbatim>\<open>std::map<K, V, Compare>\<close> as the sequence of its entries in iteration order: an association
  list whose keys are sorted by the comparator.  \<open>map_at\<close> is \<^verbatim>\<open>operator[]\<close> followed by an
  in-place update of the value it returns, \<open>map_erase\<close> is \<^verbatim>\<open>erase\<close> and \<open>map_adjust\<close>
  an update through the iterator \<^verbatim>\<open>find\<close> returned; \<^verbatim>\<open>find\<close> itself is \<open>map_of\<close>.
  The locale \<open>comparator\<close> states what the container needs of its comparator and proves once
  what the two maps of the order book (\<^verbatim>\<open>std::greater\<close> for bids, \<^verbatim>\<open>std::less\<close> for asks)
  rely on.
\<close>

fun map_at :: "('k \<Rightarrow> 'k \<Rightarrow> bool) \<Rightarrow> 'k \<Rightarrow> 'v \<Rightarrow> ('v \<Rightarrow> 'v) \<Rightarrow> ('k \<times> 'v) list \<Rightarrow> ('k \<times> 'v) list" where
  "map_at lt k d f [] = [(k, f d)]"
| "map_at lt k d f ((k', v) # m) =
     (if lt k k' then (k, f d) # (k', v) # m
      else if lt k' k then (k', v) # map_at lt k d f m
      else (k', f v) # m)"

definition map_erase :: "'k \<Rightarrow> ('k \<times> 'v) list \<Rightarrow> ('k \<times> 'v) list" where
  "map_erase k m = filter (\<lambda>p. fst p \<noteq> k) m"

definition map_adjust :: "'k \<Rightarrow> ('v \<Rightarrow> 'v) \<Rightarrow> ('k \<times> 'v) list \<Rightarrow> ('k \<times> 'v) list" where
  "map_adjust k f m = map (\<lambda>p. if fst p = k then (k, f (snd p)) else p) m"

lemma map_fst_map_adjust [simp]: "map fst (map_adjust k f m) = map fst m"
  by (induction m) (auto simp: map_adjust_def)

lemma map_of_map_adjust: "map_of (map_adjust k f m) = (map_of m)(k := map_option f (map_of m k))"
  by (induction m) (auto simp: map_adjust_def)

lemma map_of_map_erase: "map_of (map_erase k m) = (map_of m)(k := None)"
  by (simp add: map_erase_def map_of_filter_key)

lemma map_fst_map_erase: "map fst (map_erase k m) = filter (\<lambda>k'. k' \<noteq> k) (map fst m)"
  by (induction m) (auto simp: map_erase_def)

lemma map_adjust_idle: "k \<notin> fst ` set m \<Longrightarrow> map_adjust k f m = m"
  by (induction m) (auto simp: map_adjust_def)

lemma map_adjust_append [simp]: "map_adjust k f (as @ bs) = map_adjust k f as @ map_adjust k f bs"
  by (simp add: map_adjust_def)

lemma map_adjust_here [simp]: "map_adjust k f ((k, v) # m) = (k, f v) # map_adjust k f m"
  by (simp add: map_adjust_def)

lemma set_map_eraseD: "p \<in> set (map_erase k m) \<Longrightarrow> p \<in> set m"
  by (simp add: map_erase_def)

section \<open>What a comparator promises\<close>

locale comparator =
  fixes lt :: "'k \<Rightarrow> 'k \<Rightarrow> bool"
  assumes irrefl: "\<not> lt x x"
    and trans: "lt x y \<Longrightarrow> lt y z \<Longrightarrow> lt x z"
    and total: "\<not> lt x y \<Longrightarrow> \<not> lt y x \<Longrightarrow> x = y"
begin

lemma asym: "lt x y \<Longrightarrow> \<not> lt y x"
  using irrefl trans by blast

lemma not_lt_trans: "\<not> lt y x \<Longrightarrow> lt y z \<Longrightarrow> lt x z"
  using trans total by metis

lemma distinct_keys: "sorted_wrt lt ks \<Longrightarrow> distinct ks"
  by (induction ks) (auto simp: irrefl)

lemma keys_map_at: "fst ` set (map_at lt k d f m) = insert k (fst ` set m)"
proof (induction m)
  case Nil
  then show ?case by simp
next
  case (Cons p m)
  then show ?case by (cases p) (auto dest: total)
qed

lemma sorted_map_at:
  "sorted_wrt lt (map fst m) \<Longrightarrow> sorted_wrt lt (map fst (map_at lt k d f m))"
proof (induction m)
  case Nil
  then show ?case by simp
next
  case (Cons p m)
  obtain k' v where p: "p = (k', v)" by (cases p)
  have "lt k' x" if "lt k' k" "x \<in> fst ` set (map_at lt k d f m)" for x
    using that Cons.prems keys_map_at [of k d f m] by (auto simp: p)
  then show ?case
    using Cons by (auto simp: p intro: trans)
qed

lemma map_of_map_at:
  assumes "sorted_wrt lt (map fst m)"
  shows "map_of (map_at lt k d f m) = (map_of m)(k \<mapsto> f (case map_of m k of None \<Rightarrow> d | Some v \<Rightarrow> v))"
  using assms
proof (induction m)
  case Nil
  then show ?case by simp
next
  case (Cons p m)
  obtain k' v where p: "p = (k', v)" by (cases p)
  have notin: "map_of (p # m) k = None" if "lt k k'"
  proof -
    have "k \<notin> fst ` set (p # m)"
      using that Cons.prems by (auto simp: p irrefl dest: asym)
    then show ?thesis by (simp add: map_of_eq_None_iff)
  qed
  show ?case
    using Cons notin by (auto simp: p fun_eq_iff irrefl dest: total)
qed

lemma set_map_atD:
  "l \<in> set (map_at lt k d f m) \<Longrightarrow> l \<in> set m \<or> l = (k, f d) \<or> (\<exists>v. (k, v) \<in> set m \<and> l = (k, f v))"
proof (induction m)
  case Nil
  then show ?case by simp
next
  case (Cons p m)
  then show ?case by (cases p) (auto split: if_splits dest: total)
qed

text \<open>Around an entry the other keys are different, so \<^verbatim>\<open>erase\<close> and an update touch nothing else.\<close>

lemma split_at_entry:
  assumes "sorted_wrt lt (map fst m)" "(k, v) \<in> set m"
  obtains as bs where "m = as @ (k, v) # bs" "map_erase k m = as @ bs"
    "\<And>f. map_adjust k f m = as @ (k, f v) # bs" "k \<notin> fst ` set as" "k \<notin> fst ` set bs"
proof -
  obtain as bs where m: "m = as @ (k, v) # bs"
    using split_list [OF assms(2)] by blast
  have "k \<notin> fst ` set as" "k \<notin> fst ` set bs"
    using distinct_keys [OF assms(1)] by (auto simp: m)
  moreover from this have "map_erase k m = as @ bs" "\<And>f. map_adjust k f m = as @ (k, f v) # bs"
    by (simp_all add: m map_erase_def map_adjust_idle filter_fst_neq_idle)
  ultimately show thesis using m that by blast
qed

lemma sorted_map_erase:
  "sorted_wrt lt (map fst m) \<Longrightarrow> sorted_wrt lt (map fst (map_erase k m))"
  by (simp add: map_fst_map_erase sorted_wrt_filter)

lemma map_of_member:
  "sorted_wrt lt (map fst m) \<Longrightarrow> (k, v) \<in> set m \<longleftrightarrow> map_of m k = Some v"
  by (auto dest: map_of_SomeD intro!: map_of_is_SomeI distinct_keys)

end

end
