(* ===== verification/Types.thy ===== *)
theory Types
  imports Prelude
begin

text \<open>
  The data model of \<^verbatim>\<open>src/common\<close>: \<^verbatim>\<open>enums.hpp\<close>, \<^verbatim>\<open>types.hpp\<close>, \<^verbatim>\<open>constants.hpp\<close> and
  \<^verbatim>\<open>trade_id_generator.hpp\<close>, with the system clock of \<^verbatim>\<open>time_utils.cpp\<close> as an argument.
  A struct is a record; field names shared by several structs carry the struct's short name as
  a prefix.  An \<^verbatim>\<open>enum class\<close> with a fixed underlying type can hold every value of that type
  (a \<^verbatim>\<open>static_cast\<close> from a received byte is defined for all 256 values), so the enums that are
  cast from the wire have a constructor for the values without a name.
\<close>

section \<open>Scalar types and enums\<close>

type_synonym Price = uint64_t
type_synonym Quantity = uint32_t
type_synonym OrderID = uint64_t
type_synonym Symbol = string
type_synonym Timestamp = uint64_t

datatype Side = Buy | Sell | Side_other uint8_t

datatype OrderType = Limit | Market | OrderType_other uint8_t

datatype OrderStatus = New | PartiallyFilled | Filled | Cancelled | Rejected

definition DEFAULT_THREAD_POOL_SIZE :: nat where
  "DEFAULT_THREAD_POOL_SIZE = 4"

definition MAX_QUEUE_CAPACITY :: nat where
  "MAX_QUEUE_CAPACITY = 65536"

definition MIN_PRICE :: Price where
  "MIN_PRICE = 1"

definition MAX_PRICE :: Price where
  "MAX_PRICE = 99999999"

definition MAX_QUANTITY :: Quantity where
  "MAX_QUANTITY = 10000000"

section \<open>Structs\<close>

record Order =
  order_id :: OrderID
  symbol :: Symbol
  side :: Side
  order_type :: OrderType
  price :: Price
  quantity :: Quantity
  remaining_quantity :: Quantity
  timestamp :: Timestamp
  client_id :: uint32_t

definition is_filled :: "Order \<Rightarrow> bool" where
  "is_filled o' \<longleftrightarrow> remaining_quantity o' = 0"

record CancelRequest =
  creq_order_id :: OrderID
  creq_symbol :: Symbol
  creq_timestamp :: Timestamp
  creq_client_id :: uint32_t

record ModifyRequest =
  mreq_order_id :: OrderID
  mreq_symbol :: Symbol
  mreq_price :: Price
  mreq_quantity :: Quantity
  mreq_timestamp :: Timestamp
  mreq_client_id :: uint32_t

record Fill =
  fill_trade_id :: uint64_t
  fill_buy_order_id :: OrderID
  fill_sell_order_id :: OrderID
  fill_symbol :: Symbol
  fill_price :: Price
  fill_quantity :: Quantity
  fill_timestamp :: Timestamp

record Trade =
  trade_trade_id :: uint64_t
  trade_symbol :: Symbol
  trade_price :: Price
  trade_quantity :: Quantity
  trade_timestamp :: Timestamp

record ExecutionReport =
  rep_order_id :: OrderID
  rep_symbol :: Symbol
  rep_side :: Side
  rep_status :: OrderStatus
  rep_price :: Price
  rep_quantity :: Quantity
  rep_remaining_quantity :: Quantity
  rep_last_qty :: Quantity
  rep_last_px :: Price
  rep_timestamp :: Timestamp
  rep_reject_reason :: string
  rep_client_id :: uint32_t

text \<open>The default member initialisers of \<^verbatim>\<open>ExecutionReport\<close>.\<close>

definition ExecutionReport_init :: ExecutionReport where
  "ExecutionReport_init = \<lparr>rep_order_id = 0, rep_symbol = [], rep_side = Buy, rep_status = New,
     rep_price = 0, rep_quantity = 0, rep_remaining_quantity = 0, rep_last_qty = 0,
     rep_last_px = 0, rep_timestamp = 0, rep_reject_reason = [], rep_client_id = 0\<rparr>"

record MatchResult =
  res_status :: OrderStatus
  fills :: "Fill list"
  execution_reports :: "ExecutionReport list"

definition MatchResult_init :: MatchResult where
  "MatchResult_init = \<lparr>res_status = New, fills = [], execution_reports = []\<rparr>"

fun to_string :: "OrderStatus \<Rightarrow> string" where
  "to_string New = ''NEW''"
| "to_string PartiallyFilled = ''PARTIALLY_FILLED''"
| "to_string Filled = ''FILLED''"
| "to_string Cancelled = ''CANCELLED''"
| "to_string Rejected = ''REJECTED''"

section \<open>Global services: the trade-id counter and the clock\<close>

text \<open>
  \<open>counter\<close> is the atomic counter of the singleton \<^verbatim>\<open>TradeIDGenerator\<close>; its
  \<^verbatim>\<open>fetch_add\<close> returns the old value and wraps at 64 bits.  The system clock is an argument
  \<open>clk\<close>: \<open>clk k\<close> is what the \<open>k\<close>-th read of the clock returns, and
  \<open>clock_reads\<close> counts the reads made so far.  Nothing is assumed of \<open>clk\<close>, not even that
  it is monotone: the system clock can be set back.  The reads the logger makes for its own
  lines are not numbered.
\<close>

record Env =
  counter :: uint64_t
  clock_reads :: nat

type_synonym clock = "nat \<Rightarrow> Timestamp"

definition TradeIDGenerator_init :: uint64_t where
  "TradeIDGenerator_init = 1"

definition TradeIDGenerator_reset :: "uint64_t \<Rightarrow> Env \<Rightarrow> Env" where
  "TradeIDGenerator_reset start_id e = e\<lparr>counter := start_id\<rparr>"

definition next_id :: "Env \<Rightarrow> uint64_t \<times> Env" where
  "next_id e = (counter e, e\<lparr>counter := counter e + 1\<rparr>)"

definition get_current_time_ns :: "clock \<Rightarrow> Env \<Rightarrow> Timestamp \<times> Env" where
  "get_current_time_ns clk e = (clk (clock_reads e), e\<lparr>clock_reads := Suc (clock_reads e)\<rparr>)"

definition Env_init :: Env where
  "Env_init = \<lparr>counter = TradeIDGenerator_init, clock_reads = 0\<rparr>"

end
