(* ===== verification/Order_Index.thy ===== *)
theory Order_Index
  imports Types
begin

text \<open>
  \<^verbatim>\<open>src/engine/order_index.hpp\<close>: the hash map from order ids to the place of the resting order.
  A \<^verbatim>\<open>std::list<Order>::iterator\<close> is the address of a list node; addresses are natural numbers
  that the order book hands out.  The mutex of the class is held for the whole of every
  operation, so each operation is one atomic function on the map.
\<close>

type_synonym node = nat

record OrderIndexEntry =
  ie_side :: Side
  price_level :: Price
  position :: node

type_synonym OrderIndex = "OrderID \<rightharpoonup> OrderIndexEntry"

definition OrderIndex_init :: OrderIndex where
  "OrderIndex_init = Map.empty"

definition index_insert :: "OrderID \<Rightarrow> Side \<Rightarrow> Price \<Rightarrow> node \<Rightarrow> OrderIndex \<Rightarrow> OrderIndex" where
  "index_insert oid sd p pos index =
     index(oid \<mapsto> \<lparr>ie_side = sd, price_level = p, position = pos\<rparr>)"

definition index_get :: "OrderID \<Rightarrow> OrderIndex \<Rightarrow> OrderIndexEntry option" where
  "index_get oid index = index oid"

definition index_remove :: "OrderID \<Rightarrow> OrderIndex \<Rightarrow> bool \<times> OrderIndex" where
  "index_remove oid index = (index oid \<noteq> None, index(oid := None))"

definition index_clear :: "OrderIndex \<Rightarrow> OrderIndex" where
  "index_clear index = Map.empty"

definition index_size :: "OrderIndex \<Rightarrow> nat" where
  "index_size index = card (dom index)"

lemmas index_defs [book_simps] =
  index_insert_def index_get_def index_remove_def index_clear_def

section \<open>The lookup contract\<close>

text \<open>
  What the order book relies on: an entry is found exactly after it was inserted and until it
  is removed, and operations on one id leave the others alone.
\<close>

locale id_table =
  fixes ins :: "'k \<Rightarrow> 'v \<Rightarrow> 't \<Rightarrow> 't"
    and get :: "'k \<Rightarrow> 't \<Rightarrow> 'v option"
    and del :: "'k \<Rightarrow> 't \<Rightarrow> bool \<times> 't"
  assumes get_ins: "get k (ins k' v t) = (if k = k' then Some v else get k t)"
    and get_del: "get k (snd (del k' t)) = (if k = k' then None else get k t)"
    and del_found: "fst (del k t) \<longleftrightarrow> get k t \<noteq> None"
begin

lemma get_ins_del: "get k (snd (del k' (ins k' v t))) = (if k = k' then None else get k t)"
  by (simp add: get_ins get_del)

lemma del_twice: "\<not> fst (del k (snd (del k t)))"
  by (simp add: del_found get_del)

lemma last_insert_wins: "get k (ins k v (ins k w t)) = Some v"
  by (simp add: get_ins)

end

interpretation index_table: id_table
  "\<lambda>oid en. index_insert oid (ie_side en) (price_level en) (position en)" index_get index_remove
  by unfold_locales (auto simp: index_defs)

end
