(* ===== verification/Matching_Engine.thy ===== *)
theory Matching_Engine
  imports Types
begin

text \<open>
  \<^verbatim>\<open>src/engine/matching_engine.cpp\<close>: \<^verbatim>\<open>MatchingEngine::matchOrders\<close>, which crosses one buy
  order with one sell order.  The two orders are passed by reference in the source and returned
  updated here; the result object and the global services are threaded.
\<close>

definition execution_report_of :: "Order \<Rightarrow> Quantity \<Rightarrow> Price \<Rightarrow> Timestamp \<Rightarrow> ExecutionReport" where
  "execution_report_of ord match_qty exec_price now =
     ExecutionReport_init\<lparr>
       rep_order_id := order_id ord, rep_symbol := symbol ord, rep_side := side ord,
       rep_price := price ord, rep_quantity := quantity ord,
       rep_remaining_quantity := remaining_quantity ord,
       rep_last_qty := match_qty, rep_last_px := exec_price, rep_timestamp := now,
       rep_status := (if remaining_quantity ord = 0 then Filled else PartiallyFilled),
       rep_client_id := client_id ord\<rparr>"

definition exec_price_of :: "Order \<Rightarrow> Order \<Rightarrow> Price" where
  "exec_price_of buy_order sell_order =
     (if timestamp sell_order < timestamp buy_order then price sell_order else price buy_order)"

definition matchOrders ::
  "clock \<Rightarrow> Order \<Rightarrow> Order \<Rightarrow> Symbol \<Rightarrow> MatchResult \<Rightarrow> Env \<Rightarrow> Order \<times> Order \<times> MatchResult \<times> Env" where
  "matchOrders clk buy_order sell_order sy result e =
     (let match_qty = min (remaining_quantity buy_order) (remaining_quantity sell_order) in
      if match_qty = 0 then (buy_order, sell_order, result, e)
      else
        let (trade_id, e1) = next_id e;
            (now, e2) = get_current_time_ns clk e1;
            exec_price = exec_price_of buy_order sell_order;
            fill = \<lparr>fill_trade_id = trade_id, fill_buy_order_id = order_id buy_order,
                    fill_sell_order_id = order_id sell_order, fill_symbol = sy,
                    fill_price = exec_price, fill_quantity = match_qty, fill_timestamp = now\<rparr>;
            buy' = buy_order\<lparr>remaining_quantity := remaining_quantity buy_order - match_qty\<rparr>;
            sell' = sell_order\<lparr>remaining_quantity := remaining_quantity sell_order - match_qty\<rparr>
        in (buy', sell',
            result\<lparr>fills := fills result @ [fill],
                   execution_reports := execution_reports result @
                     [execution_report_of buy' match_qty exec_price now,
                      execution_report_of sell' match_qty exec_price now]\<rparr>,
            e2))"

text \<open>The two orders keep everything but their remaining quantity, and one of them is filled.\<close>

lemma matchOrders_orders:
  assumes "matchOrders clk b s sy res e = (b', s', res', e')"
  shows "b' = b\<lparr>remaining_quantity := remaining_quantity b - min (remaining_quantity b) (remaining_quantity s)\<rparr>"
    and "s' = s\<lparr>remaining_quantity := remaining_quantity s - min (remaining_quantity b) (remaining_quantity s)\<rparr>"
  using assms
  by (auto simp: matchOrders_def Let_def next_id_def get_current_time_ns_def split: if_splits)

lemma matchOrders_one_filled:
  assumes "matchOrders clk b s sy res e = (b', s', res', e')"
  shows "remaining_quantity b' = 0 \<or> remaining_quantity s' = 0"
  using word_min_sub_cases [of "remaining_quantity b" "remaining_quantity s"]
  by (simp add: matchOrders_orders [OF assms])

lemma matchOrders_nothing:
  "remaining_quantity b = 0 \<or> remaining_quantity s = 0 \<Longrightarrow> matchOrders clk b s sy res e = (b, s, res, e)"
  by (auto simp: matchOrders_def min_def)

text \<open>The fill the call appends, and everything else it does to the result and the services.\<close>

definition fill_of :: "clock \<Rightarrow> Order \<Rightarrow> Order \<Rightarrow> Symbol \<Rightarrow> Env \<Rightarrow> Fill" where
  "fill_of clk b s sy e =
     \<lparr>fill_trade_id = counter e, fill_buy_order_id = order_id b, fill_sell_order_id = order_id s,
      fill_symbol = sy, fill_price = exec_price_of b s,
      fill_quantity = min (remaining_quantity b) (remaining_quantity s),
      fill_timestamp = clk (clock_reads e)\<rparr>"

lemma matchOrders_effect:
  assumes "0 < remaining_quantity b" and "0 < remaining_quantity s"
    and "matchOrders clk b s sy res e = (b', s', res', e')"
  shows "fills res' = fills res @ [fill_of clk b s sy e]"
    and "execution_reports res' = execution_reports res @
      [execution_report_of b' (fill_quantity (fill_of clk b s sy e)) (exec_price_of b s) (clk (clock_reads e)),
       execution_report_of s' (fill_quantity (fill_of clk b s sy e)) (exec_price_of b s) (clk (clock_reads e))]"
    and "e' = \<lparr>counter = counter e + 1, clock_reads = Suc (clock_reads e)\<rparr>"
    and "res_status res' = res_status res"
proof -
  have "min (remaining_quantity b) (remaining_quantity s) \<noteq> 0"
    using assms(1,2) by (auto simp: min_def word_gt_0)
  then show "fills res' = fills res @ [fill_of clk b s sy e]"
    and "execution_reports res' = execution_reports res @
      [execution_report_of b' (fill_quantity (fill_of clk b s sy e)) (exec_price_of b s) (clk (clock_reads e)),
       execution_report_of s' (fill_quantity (fill_of clk b s sy e)) (exec_price_of b s) (clk (clock_reads e))]"
    and "e' = \<lparr>counter = counter e + 1, clock_reads = Suc (clock_reads e)\<rparr>"
    and "res_status res' = res_status res"
    using assms(3)
    by (auto simp: matchOrders_def Let_def next_id_def get_current_time_ns_def fill_of_def)
qed

end
