(* ===== verification/Book_Match.thy ===== *)
theory Book_Match
  imports Order_Book
begin

text \<open>
  The matching loops of \<^verbatim>\<open>submitOrderInternal\<close> against a reference: one pass over the resting
  orders of the other side in priority order (best price first, oldest first within a price).
  \<open>match_flat\<close> is that pass; the nested loops over levels and queues compute the same
  (\<open>match_levels_flat\<close>).  What matching does to quantities, fills and the index is then proved
  on the single pass.
\<close>

section \<open>One step of a matching loop\<close>

lemma match_incoming_orders:
  assumes "match_incoming clk ib sy inc r res e = (inc', r', res', e')"
  shows "inc' = inc\<lparr>remaining_quantity := remaining_quantity inc - min (remaining_quantity inc) (remaining_quantity r)\<rparr>"
    and "r' = r\<lparr>remaining_quantity := remaining_quantity r - min (remaining_quantity inc) (remaining_quantity r)\<rparr>"
  using assms matchOrders_orders [of clk inc r sy res e] matchOrders_orders [of clk r inc sy res e]
  by (auto simp: match_incoming_def min.commute split: if_splits prod.splits)

lemma match_incoming_keeps:
  assumes "match_incoming clk ib sy inc r res e = (inc', r', res', e')"
  shows "order_id inc' = order_id inc" "price inc' = price inc" "order_type inc' = order_type inc"
    "side inc' = side inc" "quantity inc' = quantity inc" "client_id inc' = client_id inc"
    "order_id r' = order_id r" "price r' = price r" "order_type r' = order_type r"
    "side r' = side r" "quantity r' = quantity r" "client_id r' = client_id r"
    "symbol inc' = symbol inc" "symbol r' = symbol r"
    "timestamp inc' = timestamp inc" "timestamp r' = timestamp r"
  by (simp_all add: match_incoming_orders [OF assms])

lemma match_queue_stop [simp]:
  "remaining_quantity inc = 0 \<Longrightarrow> match_queue clk ib sy inc q idx res e = (inc, q, idx, res, e)"
  by (subst match_queue.simps) simp

lemma match_queue_Nil [simp]: "match_queue clk ib sy inc [] idx res e = (inc, [], idx, res, e)"
  by (subst match_queue.simps) simp

lemma match_queue_Cons:
  assumes "0 < remaining_quantity inc"
    and step: "match_incoming clk ib sy inc r res e = (inc', r', res', e')"
  shows "match_queue clk ib sy inc ((n, r) # q) idx res e =
    (if remaining_quantity r' = 0
     then match_queue clk ib sy inc' q (idx(order_id r := None)) res' e'
     else (inc', (n, r') # q, idx, res', e'))"
  using assms match_incoming_one_filled [OF step]
  by (subst match_queue.simps) (auto simp: index_defs match_incoming_keeps [OF step])

lemma beyond_limit_cong:
  "order_type inc' = order_type inc \<Longrightarrow> price inc' = price inc \<Longrightarrow>
     beyond_limit ib inc' p = beyond_limit ib inc p"
  by (simp add: beyond_limit_def)

section \<open>The reference pass\<close>

fun match_flat ::
  "clock \<Rightarrow> bool \<Rightarrow> Symbol \<Rightarrow> Order \<Rightarrow> Queue \<Rightarrow> OrderIndex \<Rightarrow> MatchResult \<Rightarrow> Env \<Rightarrow>
     Order \<times> Queue \<times> OrderIndex \<times> MatchResult \<times> Env" where
  "match_flat clk ib sy inc [] idx res e = (inc, [], idx, res, e)"
| "match_flat clk ib sy inc ((n, r) # q) idx res e =
     (if remaining_quantity inc = 0 \<or> beyond_limit ib inc (price r)
      then (inc, (n, r) # q, idx, res, e)
      else case match_incoming clk ib sy inc r res e of
        (inc', r', res', e') \<Rightarrow>
          if remaining_quantity r' = 0
          then match_flat clk ib sy inc' q (idx(order_id r := None)) res' e'
          else (inc', (n, r') # q, idx, res', e'))"

lemma match_flat_stop [simp]:
  "remaining_quantity inc = 0 \<Longrightarrow> match_flat clk ib sy inc q idx res e = (inc, q, idx, res, e)"
  by (cases q) auto

text \<open>The runs of the pass, for rule induction: one rule per way an iteration can end.\<close>

inductive match_run ::
  "clock \<Rightarrow> bool \<Rightarrow> Symbol \<Rightarrow> Order \<Rightarrow> Queue \<Rightarrow> OrderIndex \<Rightarrow> MatchResult \<Rightarrow> Env \<Rightarrow>
     Order \<Rightarrow> Queue \<Rightarrow> OrderIndex \<Rightarrow> MatchResult \<Rightarrow> Env \<Rightarrow> bool"
  for clk ib sy where
  Nil: "match_run clk ib sy inc [] idx res e inc [] idx res e"
| Stop: "remaining_quantity inc = 0 \<or> beyond_limit ib inc (price r) \<Longrightarrow>
    match_run clk ib sy inc ((n, r) # q) idx res e inc ((n, r) # q) idx res e"
| Filled: "0 < remaining_quantity inc \<Longrightarrow> \<not> beyond_limit ib inc (price r) \<Longrightarrow>
    match_incoming clk ib sy inc r res e = (inc1, r1, res1, e1) \<Longrightarrow> remaining_quantity r1 = 0 \<Longrightarrow>
    match_run clk ib sy inc1 q (idx(order_id r := None)) res1 e1 inc' q' idx' res' e' \<Longrightarrow>
    match_run clk ib sy inc ((n, r) # q) idx res e inc' q' idx' res' e'"
| Partial: "0 < remaining_quantity inc \<Longrightarrow> \<not> beyond_limit ib inc (price r) \<Longrightarrow>
    match_incoming clk ib sy inc r res e = (inc', r', res', e') \<Longrightarrow> 0 < remaining_quantity r' \<Longrightarrow>
    remaining_quantity inc' = 0 \<Longrightarrow>
    match_run clk ib sy inc ((n, r) # q) idx res e inc' ((n, r') # q) idx res' e'"

lemma match_flat_run:
  "match_flat clk ib sy inc q idx res e = (inc', q', idx', res', e') \<Longrightarrow>
     match_run clk ib sy inc q idx res e inc' q' idx' res' e'"
proof (induction q arbitrary: inc idx res e)
  case Nil
  then show ?case by (auto intro: match_run.Nil)
next
  case (Cons nr q)
  obtain n r where nr: "nr = (n, r)" by (cases nr)
  obtain inc1 r1 res1 e1 where step: "match_incoming clk ib sy inc r res e = (inc1, r1, res1, e1)"
    by (cases "match_incoming clk ib sy inc r res e") auto
  consider "remaining_quantity inc = 0 \<or> beyond_limit ib inc (price r)"
    | "0 < remaining_quantity inc" "\<not> beyond_limit ib inc (price r)" "remaining_quantity r1 = 0"
    | "0 < remaining_quantity inc" "\<not> beyond_limit ib inc (price r)" "0 < remaining_quantity r1"
    by (auto simp: word_gt_0)
  then show ?case
  proof cases
    case 1
    then show ?thesis using Cons.prems by (auto simp: nr intro: match_run.Stop)
  next
    case 2
    then have "match_flat clk ib sy inc1 q (idx(order_id r := None)) res1 e1 = (inc', q', idx', res', e')"
      using Cons.prems by (simp add: nr step)
    then show ?thesis
      unfolding nr using 2 step by (blast intro: match_run.Filled Cons.IH)
  next
    case 3
    then have "remaining_quantity inc1 = 0"
      using match_incoming_one_filled [OF step] by auto
    then show ?thesis
      using Cons.prems 3 step by (auto simp: nr intro: match_run.Partial)
  qed
qed

lemma beyond_limit_step:
  "match_incoming clk ib sy inc r res e = (inc', r', res', e') \<Longrightarrow> beyond_limit ib' inc' p = beyond_limit ib' inc p"
  by (simp add: beyond_limit_def match_incoming_keeps)

lemma match_run_keeps:
  "match_run clk ib sy inc q idx res e inc' q' idx' res' e' \<Longrightarrow>
     inc' = inc\<lparr>remaining_quantity := remaining_quantity inc'\<rparr>"
proof (induction rule: match_run.induct)
  case (Filled inc r res e inc1 r1 res1 e1 q idx inc' q' idx' res' e' n)
  then show ?case
    using match_incoming_orders(1) [OF Filled.hyps(3)] by (metis Order.surjective Order.update_convs(7))
next
  case (Partial inc r res e inc' r' res' e' n q idx)
  then show ?case using match_incoming_orders(1) [OF Partial.hyps(3)] by simp
qed auto

text \<open>
  The pass removes a prefix of the queue, unlists the removed orders from the index, and may
  reduce the first order that stays.
\<close>

lemma match_run_shape:
  "match_run clk ib sy inc q idx res e inc' q' idx' res' e' \<Longrightarrow>
     \<exists>pre suf. q = pre @ suf \<and> idx' = idx |` (- (order_id \<circ> snd) ` set pre) \<and>
       (q' = suf \<or> (\<exists>n r rest s. suf = (n, r) # rest \<and> q' = (n, r\<lparr>remaining_quantity := s\<rparr>) # rest \<and>
          0 < s \<and> remaining_quantity inc' = 0))"
proof (induction rule: match_run.induct)
  case (Nil inc idx res e)
  show ?case by (rule exI [of _ "[]"]) (simp add: restrict_map_def)
next
  case (Stop inc r n q idx res e)
  show ?case by (rule exI [of _ "[]"]) (simp add: restrict_map_def)
next
  case (Filled inc r res e inc1 r1 res1 e1 q idx inc' q' idx' res' e' n)
  then obtain pre suf where IH: "q = pre @ suf"
    "idx' = (idx(order_id r := None)) |` (- (order_id \<circ> snd) ` set pre)"
    "q' = suf \<or> (\<exists>n r rest s. suf = (n, r) # rest \<and> q' = (n, r\<lparr>remaining_quantity := s\<rparr>) # rest \<and>
       0 < s \<and> remaining_quantity inc' = 0)"
    by blast
  have "idx' = idx |` (- (order_id \<circ> snd) ` set ((n, r) # pre))"
    using IH(2) by (auto simp: restrict_map_def fun_eq_iff)
  then show ?case
    using IH(1,3) by (intro exI [of _ "(n, r) # pre"] exI [of _ suf]) simp
next
  case (Partial inc r res e inc' r' res' e' n q idx)
  show ?case
    using Partial.hyps match_incoming_orders(2) [OF Partial.hyps(3)]
    by (intro exI [of _ "[]"] exI [of _ "(n, r) # q"]) (auto simp: restrict_map_def)
qed

lemma match_run_unfinished:
  "match_run clk ib sy inc q idx res e inc' q' idx' res' e' \<Longrightarrow>
     remaining_quantity inc' = 0 \<or> q' = [] \<or> beyond_limit ib inc (price (snd (hd q')))"
  by (induction rule: match_run.induct) (auto simp: beyond_limit_step)

lemma match_flat_append:
  "match_flat clk ib sy inc (xs @ ys) idx res e =
     (case match_flat clk ib sy inc xs idx res e of
        (inc', xs', idx', res', e') \<Rightarrow>
          if xs' = [] then match_flat clk ib sy inc' ys idx' res' e'
          else (inc', xs' @ ys, idx', res', e'))"
  by (induction xs arbitrary: inc idx res e) (auto split: prod.splits)

lemma match_queue_flat:
  "(\<And>n r. (n, r) \<in> set q \<Longrightarrow> \<not> beyond_limit ib inc (price r)) \<Longrightarrow>
     match_queue clk ib sy inc q idx res e = match_flat clk ib sy inc q idx res e"
proof (induction q arbitrary: inc idx res e)
  case Nil
  then show ?case by simp
next
  case (Cons nr q)
  obtain n r where nr: "nr = (n, r)" by (cases nr)
  show ?case
  proof (cases "remaining_quantity inc = 0")
    case True
    then show ?thesis by simp
  next
    case False
    then have pos: "0 < remaining_quantity inc" by (simp add: word_gt_0)
    obtain inc1 r1 res1 e1 where step: "match_incoming clk ib sy inc r res e = (inc1, r1, res1, e1)"
      by (cases "match_incoming clk ib sy inc r res e") auto
    have "match_queue clk ib sy inc1 q (idx(order_id r := None)) res1 e1 =
        match_flat clk ib sy inc1 q (idx(order_id r := None)) res1 e1"
      by (rule Cons.IH) (use Cons.prems in \<open>auto simp: beyond_limit_step [OF step]\<close>)
    moreover have "\<not> beyond_limit ib inc (price r)"
      by (rule Cons.prems [of n]) (simp add: nr)
    ultimately show ?thesis
      using False by (simp add: nr match_queue_Cons [OF pos step] step)
  qed
qed

section \<open>Levels\<close>

text \<open>What holds of one side of the book: \<open>lt\<close> is its comparator, \<open>bids\<close> says which side.\<close>

definition level_ok :: "bool \<Rightarrow> Price \<times> Queue \<Rightarrow> bool" where
  "level_ok bids l \<longleftrightarrow> snd l \<noteq> [] \<and>
     (\<forall>(n, r) \<in> set (snd l). price r = fst l \<and> order_type r = Limit \<and>
        0 < remaining_quantity r \<and> (side r = Buy \<longleftrightarrow> bids))"

definition levels_ok :: "(Price \<Rightarrow> Price \<Rightarrow> bool) \<Rightarrow> bool \<Rightarrow> Levels \<Rightarrow> bool" where
  "levels_ok lt bids m \<longleftrightarrow> sorted_wrt lt (map fst m) \<and> (\<forall>l \<in> set m. level_ok bids l)"

lemma nodes_of_simps [simp]:
  "nodes_of [] = []" "nodes_of ((p, q) # m) = q @ nodes_of m"
  by (simp_all add: nodes_of_def)

lemma set_nodes_of: "set (nodes_of m) = (\<Union>l \<in> set m. set (snd l))"
  by (auto simp: nodes_of_def)

lemma levels_ok_Nil [simp]: "levels_ok lt bids []"
  by (simp add: levels_ok_def)

lemma levels_ok_Cons:
  "levels_ok lt bids (l # m) \<longleftrightarrow> level_ok bids l \<and> (\<forall>p \<in> fst ` set m. lt (fst l) p) \<and> levels_ok lt bids m"
  by (auto simp: levels_ok_def)

lemma levels_ok_node:
  assumes "levels_ok lt bids m" "(n, r) \<in> set (nodes_of m)"
  shows "\<exists>q. (price r, q) \<in> set m \<and> (n, r) \<in> set q" and "order_type r = Limit"
    and "0 < remaining_quantity r" and "side r = Buy \<longleftrightarrow> bids"
  using assms by (force simp: levels_ok_def level_ok_def set_nodes_of)+

lemma match_levels_flat:
  assumes "levels_ok lt bids m"
  shows "match_levels clk ib sy inc m idx res e = (inc', m', idx', res', e') \<Longrightarrow>
    match_flat clk ib sy inc (nodes_of m) idx res e = (inc', nodes_of m', idx', res', e')"
  using assms
proof (induction m arbitrary: inc idx res e inc' m' idx' res' e')
  case Nil
  then show ?case by simp
next
  case (Cons l m)
  obtain p q where l: "l = (p, q)" by (cases l)
  have prices: "price r = p" if "(n, r) \<in> set q" for n r
    using Cons.prems(2) that by (auto simp: l levels_ok_Cons level_ok_def)
  show ?case
  proof (cases "0 < remaining_quantity inc \<and> \<not> beyond_limit ib inc p")
    case False
    moreover obtain n r q0 where q: "q = (n, r) # q0"
      using Cons.prems(2) by (cases q) (auto simp: l levels_ok_Cons level_ok_def)
    moreover have "price r = p"
      using prices q by auto
    ultimately show ?thesis
      using Cons.prems(1) by (auto simp: l)
  next
    case True
    obtain inc1 q1 idx1 res1 e1 where mq: "match_queue clk ib sy inc q idx res e = (inc1, q1, idx1, res1, e1)"
      by (cases "match_queue clk ib sy inc q idx res e") auto
    obtain inc2 m2 idx2 res2 e2 where ml: "match_levels clk ib sy inc1 m idx1 res1 e1 = (inc2, m2, idx2, res2, e2)"
      by (cases "match_levels clk ib sy inc1 m idx1 res1 e1") auto
    have flat: "match_flat clk ib sy inc q idx res e = (inc1, q1, idx1, res1, e1)"
      using mq match_queue_flat [of q ib inc clk sy idx res e] True prices by force
    have "levels_ok lt bids m"
      using Cons.prems(2) by (simp add: levels_ok_Cons)
    note IH = Cons.IH [OF ml this]
    show ?thesis
    proof (cases q1)
      case Nil
      then show ?thesis
        using Cons.prems(1) True IH by (simp add: l mq ml match_flat_append flat)
    next
      case c: (Cons nr q2)
      obtain pre suf where "q = pre @ suf"
        "q1 = suf \<or> (\<exists>n r rest s. suf = (n, r) # rest \<and> q1 = (n, r\<lparr>remaining_quantity := s\<rparr>) # rest)"
        using match_run_shape [OF match_flat_run [OF flat]] by blast
      then have "price (snd nr) = p"
        using prices [of "fst nr"] by (cases nr) (auto simp: c)
      then have "remaining_quantity inc1 = 0"
        using match_run_unfinished [OF match_flat_run [OF flat]] True by (simp add: c)
      then have "(inc2, m2, idx2, res2, e2) = (inc1, m, idx1, res1, e1)"
        using ml by (cases m) auto
      then show ?thesis
        using Cons.prems(1) True by (auto simp: l mq ml match_flat_append flat c)
    qed
  qed
qed

end
