(* ===== verification/Book_Invariant.thy ===== *)
theory Book_Invariant
  imports Book_Match
begin

text \<open>
  The invariant of the order book and its preservation by every operation.  \<open>book_inv\<close> says:
  both sides are sorted by their comparator with no empty level and only live limit orders at
  their own price; the sides do not cross; node addresses are unique; and every index entry
  points at a live node of its side, price and id, so that no operation ever follows a dangling
  iterator.  \<open>fully_indexed\<close> adds that resting ids are unique and all in the index, which holds
  as long as no id is submitted while it rests.
\<close>

interpretation bids: comparator "\<lambda>p q. p > (q :: Price)"
  by unfold_locales auto

interpretation asks: comparator "\<lambda>p q. p < (q :: Price)"
  by unfold_locales auto

section \<open>The invariant\<close>

abbreviation bids_ok :: "Levels \<Rightarrow> bool" where
  "bids_ok \<equiv> levels_ok (\<lambda>p q. p > q) True"

abbreviation asks_ok :: "Levels \<Rightarrow> bool" where
  "asks_ok \<equiv> levels_ok (\<lambda>p q. p < q) False"

abbreviation bid_nodes :: "OrderBook \<Rightarrow> Queue" where
  "bid_nodes b \<equiv> nodes_of (buy_orders b)"

abbreviation ask_nodes :: "OrderBook \<Rightarrow> Queue" where
  "ask_nodes b \<equiv> nodes_of (sell_orders b)"

definition side_nodes :: "OrderBook \<Rightarrow> Side \<Rightarrow> Queue" where
  "side_nodes b sd = (if sd = Buy then bid_nodes b else ask_nodes b)"

definition uncrossed :: "OrderBook \<Rightarrow> bool" where
  "uncrossed b \<longleftrightarrow> (\<forall>p \<in> fst ` set (buy_orders b). \<forall>p' \<in> fst ` set (sell_orders b). p < p')"

definition entry_ok :: "OrderBook \<Rightarrow> OrderID \<Rightarrow> OrderIndexEntry \<Rightarrow> bool" where
  "entry_ok b oid en \<longleftrightarrow> ie_side en \<in> {Buy, Sell} \<and>
     (\<exists>r. (position en, r) \<in> set (side_nodes b (ie_side en)) \<and> price r = price_level en \<and> order_id r = oid)"

definition nodes_ok :: "OrderBook \<Rightarrow> bool" where
  "nodes_ok b \<longleftrightarrow> distinct (map fst (bid_nodes b @ ask_nodes b)) \<and>
     (\<forall>n \<in> fst ` set (bid_nodes b @ ask_nodes b). n < next_node b)"

definition index_ok :: "OrderBook \<Rightarrow> bool" where
  "index_ok b \<longleftrightarrow> (\<forall>oid en. order_index b oid = Some en \<longrightarrow> entry_ok b oid en)"

definition book_inv :: "OrderBook \<Rightarrow> bool" where
  "book_inv b \<longleftrightarrow> bids_ok (buy_orders b) \<and> asks_ok (sell_orders b) \<and> uncrossed b \<and> nodes_ok b \<and> index_ok b"

definition resting_ids :: "OrderBook \<Rightarrow> OrderID list" where
  "resting_ids b = map (order_id \<circ> snd) (bid_nodes b @ ask_nodes b)"

definition fully_indexed :: "OrderBook \<Rightarrow> bool" where
  "fully_indexed b \<longleftrightarrow> distinct (resting_ids b) \<and> dom (order_index b) = set (resting_ids b)"

lemma uncrossed_mono:
  assumes "uncrossed b" "fst ` set (buy_orders b') \<subseteq> fst ` set (buy_orders b)"
    and "fst ` set (sell_orders b') \<subseteq> fst ` set (sell_orders b)"
  shows "uncrossed b'"
  using assms unfolding uncrossed_def by (meson subsetD)

lemma book_inv_init: "book_inv (OrderBook_init sy)" "fully_indexed (OrderBook_init sy)"
  by (auto simp: OrderBook_init_def OrderIndex_init_def book_inv_def uncrossed_def nodes_ok_def
      index_ok_def fully_indexed_def resting_ids_def)

section \<open>Matching keeps a side well formed\<close>

lemma match_queue_level_ok:
  assumes "level_ok bids (p, q)" and "\<not> beyond_limit ib inc p"
    and "match_queue clk ib sy inc q idx res e = (inc', q', idx', res', e')" and "q' \<noteq> []"
  shows "level_ok bids (p, q')"
proof -
  have "match_flat clk ib sy inc q idx res e = (inc', q', idx', res', e')"
    using assms match_queue_flat [of q ib inc clk sy idx res e] by (force simp: level_ok_def)
  from match_run_shape [OF match_flat_run [OF this]] assms(1,4) show ?thesis
    by (fastforce simp: level_ok_def)
qed

lemma match_levels_ok:
  "levels_ok lt bids m \<Longrightarrow> match_levels clk ib sy inc m idx res e = (inc', m', idx', res', e') \<Longrightarrow>
     levels_ok lt bids m' \<and> fst ` set m' \<subseteq> fst ` set m"
proof (induction m arbitrary: inc idx res e inc' m' idx' res' e')
  case Nil
  then show ?case by simp
next
  case (Cons l m)
  obtain p q where l: "l = (p, q)" by (cases l)
  show ?case
  proof (cases "0 < remaining_quantity inc \<and> \<not> beyond_limit ib inc p")
    case False
    then show ?thesis using Cons.prems by (auto simp: l)
  next
    case True
    obtain inc1 q1 idx1 res1 e1 where mq: "match_queue clk ib sy inc q idx res e = (inc1, q1, idx1, res1, e1)"
      by (cases "match_queue clk ib sy inc q idx res e") auto
    obtain inc2 m2 idx2 res2 e2 where ml: "match_levels clk ib sy inc1 m idx1 res1 e1 = (inc2, m2, idx2, res2, e2)"
      by (cases "match_levels clk ib sy inc1 m idx1 res1 e1") auto
    have m': "m' = (if q1 = [] then m2 else (p, q1) # m2)"
      using Cons.prems(2) True by (simp add: l mq ml)
    have IH: "levels_ok lt bids m2 \<and> fst ` set m2 \<subseteq> fst ` set m"
      using Cons.IH [OF _ ml] Cons.prems(1) by (simp add: levels_ok_Cons)
    moreover have "\<forall>k \<in> fst ` set m2. lt p k"
      using IH Cons.prems(1) unfolding l levels_ok_Cons fst_conv by blast
    ultimately show ?thesis
      using Cons.prems(1) match_queue_level_ok [OF _ _ mq, of bids p] True
      by (auto simp: m' l levels_ok_Cons)
  qed
qed

lemma match_levels_beyond:
  assumes "levels_ok lt bids m" "match_levels clk ib sy inc m idx res e = (inc', m', idx', res', e')"
    and "remaining_quantity inc' \<noteq> 0" and "m' \<noteq> []"
  shows "beyond_limit ib inc (fst (hd m'))"
proof -
  have "levels_ok lt bids m'" using match_levels_ok [OF assms(1,2)] by simp
  moreover obtain p q m2 where m': "m' = (p, q) # m2" using assms(4) by (cases m') auto
  ultimately obtain n r q2 where "q = (n, r) # q2" "price r = p"
    by (cases q) (auto simp: levels_ok_Cons level_ok_def)
  then show ?thesis
    using match_run_unfinished [OF match_flat_run [OF match_levels_flat [OF assms(1,2)]]] assms(3)
    by (simp add: m')
qed

definition tag :: "node \<times> Order \<Rightarrow> node \<times> OrderID \<times> Price" where
  "tag nr = (fst nr, order_id (snd nr), price (snd nr))"

lemma match_levels_nodes:
  assumes "levels_ok lt bids m" "match_levels clk ib sy inc m idx res e = (inc', m', idx', res', e')"
  obtains pre suf where "nodes_of m = pre @ suf" "idx' = idx |` (- (order_id \<circ> snd) ` set pre)"
    and "map tag (nodes_of m') = map tag suf"
proof -
  obtain pre suf where ps: "nodes_of m = pre @ suf" "idx' = idx |` (- (order_id \<circ> snd) ` set pre)"
    "nodes_of m' = suf \<or> (\<exists>n r rest s. suf = (n, r) # rest \<and> nodes_of m' = (n, r\<lparr>remaining_quantity := s\<rparr>) # rest)"
    using match_run_shape [OF match_flat_run [OF match_levels_flat [OF assms(1,2)]]] by blast
  from ps(3) have "map tag (nodes_of m') = map tag suf"
    by (auto simp: tag_def)
  with ps(1,2) show thesis by (rule that)
qed

text \<open>Everything the invariant says about nodes and the index reads their tags only.\<close>

lemma map_tag_fst: "map tag xs = map tag ys \<Longrightarrow> map fst xs = map fst ys"
proof -
  have "map fst xs = map fst (map tag xs)" for xs :: Queue by (simp add: tag_def)
  then show "map tag xs = map tag ys \<Longrightarrow> map fst xs = map fst ys" by metis
qed

lemma map_tag_id: "map tag xs = map tag ys \<Longrightarrow> map (order_id \<circ> snd) xs = map (order_id \<circ> snd) ys"
proof -
  have "map (order_id \<circ> snd) xs = map (fst \<circ> snd) (map tag xs)" for xs :: Queue by (simp add: tag_def)
  then show "map tag xs = map tag ys \<Longrightarrow> map (order_id \<circ> snd) xs = map (order_id \<circ> snd) ys" by metis
qed

lemma map_tag_member:
  assumes "map tag xs = map tag ys" "(n, r) \<in> set ys"
  shows "\<exists>r'. (n, r') \<in> set xs \<and> order_id r' = order_id r \<and> price r' = price r"
proof -
  have "tag (n, r) \<in> set (map tag xs)" using assms by simp
  then show ?thesis by (auto simp: tag_def)
qed

section \<open>The book after matching\<close>

definition opp_levels :: "bool \<Rightarrow> OrderBook \<Rightarrow> Levels" where
  "opp_levels ib b = (if ib then sell_orders b else buy_orders b)"

definition set_opp :: "bool \<Rightarrow> Levels \<Rightarrow> OrderIndex \<Rightarrow> OrderBook \<Rightarrow> OrderBook" where
  "set_opp ib m idx b = (if ib then b\<lparr>sell_orders := m, order_index := idx\<rparr>
     else b\<lparr>buy_orders := m, order_index := idx\<rparr>)"

lemma submitOrderInternal_eq:
  "submitOrderInternal clk order b result e =
     (case match_levels clk (side order = Buy) (book_symbol b) order (opp_levels (side order = Buy) b)
             (order_index b) result e of
        (inc, m, idx, result', e') \<Rightarrow>
          rest_or_expire clk (side order = Buy) inc (set_opp (side order = Buy) m idx b) result' e')"
  by (simp add: submitOrderInternal_def opp_levels_def set_opp_def)

definition opp_ok :: "bool \<Rightarrow> Levels \<Rightarrow> bool" where
  "opp_ok ib m \<longleftrightarrow> (if ib then asks_ok m else bids_ok m)"

lemma opp_ok_levels_ok: "opp_ok ib m \<longleftrightarrow> levels_ok (\<lambda>p q. if ib then p < q else p > q) (\<not> ib) m"
  by (simp add: opp_ok_def)

lemma index_ok_restrict:
  assumes "index_ok b" and split: "nodes_of (opp_levels ib b) = pre @ suf"
    and idx: "idx' = order_index b |` (- (order_id \<circ> snd) ` set pre)"
    and tags: "map tag (nodes_of m') = map tag suf"
  shows "index_ok (set_opp ib m' idx' b)"
  unfolding index_ok_def
proof (intro allI impI)
  fix oid en
  assume "order_index (set_opp ib m' idx' b) oid = Some en"
  then have old: "order_index b oid = Some en" and live: "oid \<notin> (order_id \<circ> snd) ` set pre"
    by (auto simp: set_opp_def idx restrict_map_def split: if_splits)
  from old assms(1) obtain r where r: "ie_side en \<in> {Buy, Sell}"
    "(position en, r) \<in> set (side_nodes b (ie_side en))" "price r = price_level en" "order_id r = oid"
    by (auto simp: index_ok_def entry_ok_def)
  show "entry_ok (set_opp ib m' idx' b) oid en"
  proof (cases "side_nodes b (ie_side en) = nodes_of (opp_levels ib b) \<and> (ie_side en = Buy \<longleftrightarrow> \<not> ib)")
    case True
    then have "(position en, r) \<in> set suf"
      using r live by (force simp: split)
    from map_tag_member [OF tags this] True r show ?thesis
      by (auto simp: entry_ok_def side_nodes_def set_opp_def split: if_splits)
  next
    case False
    then show ?thesis
      using r by (auto simp: entry_ok_def side_nodes_def set_opp_def opp_levels_def split: if_splits)
  qed
qed

lemma matched_inv:
  assumes inv: "book_inv b"
    and run: "match_levels clk ib sy inc (opp_levels ib b) (order_index b) res e = (inc', m', idx', res', e')"
  shows "book_inv (set_opp ib m' idx' b)"
proof -
  have ok: "levels_ok (\<lambda>p q. if ib then p < q else p > q) (\<not> ib) (opp_levels ib b)"
    using inv by (auto simp: book_inv_def opp_levels_def)
  have m': "opp_ok ib m'" "fst ` set m' \<subseteq> fst ` set (opp_levels ib b)"
    using match_levels_ok [OF ok run] by (auto simp: opp_ok_levels_ok)
  from ok run obtain pre suf where ps: "nodes_of (opp_levels ib b) = pre @ suf"
    "idx' = order_index b |` (- (order_id \<circ> snd) ` set pre)" "map tag (nodes_of m') = map tag suf"
    by (rule match_levels_nodes)
  have addrs: "fst ` set (nodes_of m') = fst ` set suf"
    using arg_cong [where f = set, OF map_tag_fst [OF ps(3)]] by simp
  have "nodes_ok (set_opp ib m' idx' b)"
    using inv ps(1) map_tag_fst [OF ps(3)]
    unfolding book_inv_def nodes_ok_def set_opp_def opp_levels_def set_append image_Un map_append distinct_append set_map
    by (cases ib) (simp_all add: addrs ball_Un image_Un Int_Un_distrib Int_Un_distrib2 del: ball_simps(9))
  moreover have "uncrossed (set_opp ib m' idx' b)"
  proof (rule uncrossed_mono)
    show "uncrossed b" using inv by (simp add: book_inv_def)
  qed (use m'(2) in \<open>simp_all add: set_opp_def opp_levels_def split: if_splits\<close>)
  moreover have "index_ok (set_opp ib m' idx' b)"
    using inv ps by (auto simp: book_inv_def intro: index_ok_restrict)
  ultimately show ?thesis
    using inv m'(1) by (auto simp: book_inv_def set_opp_def opp_ok_def)
qed

lemma matched_indexed:
  assumes inv: "book_inv b" and fi: "fully_indexed b"
    and run: "match_levels clk ib sy inc (opp_levels ib b) (order_index b) res e = (inc', m', idx', res', e')"
  shows "fully_indexed (set_opp ib m' idx' b)"
    and "set (resting_ids (set_opp ib m' idx' b)) \<subseteq> set (resting_ids b)"
proof -
  have ok: "levels_ok (\<lambda>p q. if ib then p < q else p > q) (\<not> ib) (opp_levels ib b)"
    using inv by (auto simp: book_inv_def opp_levels_def)
  from ok run obtain pre suf where ps: "nodes_of (opp_levels ib b) = pre @ suf"
    "idx' = order_index b |` (- (order_id \<circ> snd) ` set pre)" "map tag (nodes_of m') = map tag suf"
    by (rule match_levels_nodes)
  note ids = map_tag_id [OF ps(3)]
  have ids': "(order_id \<circ> snd) ` set (nodes_of m') = (order_id \<circ> snd) ` set suf"
    using arg_cong [where f = set, OF ids] by simp
  show "fully_indexed (set_opp ib m' idx' b)"
    using fi ps(1,2) ids ids'
    by (auto simp: fully_indexed_def resting_ids_def set_opp_def opp_levels_def image_Un split: if_splits)
  show "set (resting_ids (set_opp ib m' idx' b)) \<subseteq> set (resting_ids b)"
    using ps(1) ids'
    by (auto simp: resting_ids_def set_opp_def opp_levels_def image_Un split: if_splits)
qed

end
