(* ===== verification/Book_Preserve.thy ===== *)
theory Book_Preserve
  imports Book_Invariant
begin

text \<open>
  Every operation of the order book keeps \<open>book_inv\<close>, and from a book that satisfies it no
  operation follows a dangling iterator.
\<close>

section \<open>Resting an order\<close>

lemma mset_nodes_map_at:
  "mset (nodes_of (map_at lt p [] (\<lambda>q. q @ [x]) m)) = add_mset x (mset (nodes_of m))"
  by (induction m) auto

lemma set_nodes_map_at:
  "set (nodes_of (map_at lt p [] (\<lambda>q. q @ [x]) m)) = insert x (set (nodes_of m))"
  using arg_cong [where f = set_mset, OF mset_nodes_map_at [of lt p x m]] by simp

lemma distinct_nodes_map_at:
  "distinct (map f (nodes_of (map_at lt p [] (\<lambda>q. q @ [x]) m))) \<longleftrightarrow> distinct (f x # map f (nodes_of m))"
  by (rule mset_eq_imp_distinct_iff) (simp add: mset_nodes_map_at)

lemma level_ok_push:
  assumes "order_type r = Limit" "remaining_quantity r \<noteq> 0" "side r = Buy \<longleftrightarrow> bids"
  shows "level_ok bids (price r, [(n, r)])"
    and "level_ok bids (price r, q) \<Longrightarrow> level_ok bids (price r, q @ [(n, r)])"
  using assms by (auto simp: level_ok_def)

lemma levels_ok_push:
  assumes "comparator lt" "levels_ok lt bids m" "order_type r = Limit" "remaining_quantity r \<noteq> 0"
    and "side r = Buy \<longleftrightarrow> bids"
  shows "levels_ok lt bids (map_at lt (price r) [] (\<lambda>q. q @ [(n, r)]) m)"
  using assms(2) comparator.sorted_map_at [OF assms(1)] level_ok_push [OF assms(3,4,5)]
  by (auto simp: levels_ok_def dest!: comparator.set_map_atD [OF assms(1)])

lemma nodes_ok_less:
  assumes "nodes_ok b"
  shows "(n, r) \<in> set (bid_nodes b) \<Longrightarrow> n < next_node b" "(n, r) \<in> set (ask_nodes b) \<Longrightarrow> n < next_node b"
  using assms by (force simp: nodes_ok_def)+

lemma rest_buy_inv:
  assumes "book_inv b" "order_type r = Limit" "remaining_quantity r \<noteq> 0" "side r = Buy"
    and cross: "\<forall>p \<in> fst ` set (sell_orders b). price r < p"
  shows "book_inv (rest_buy r b)"
proof -
  have "bids_ok (buy_orders (rest_buy r b))"
    using assms levels_ok_push [OF bids.comparator_axioms] by (auto simp: rest_buy_def book_inv_def)
  moreover have "uncrossed (rest_buy r b)"
    using assms(1) cross
    unfolding uncrossed_def rest_buy_def book_inv_def by (simp add: bids.keys_map_at)
  moreover have "nodes_ok (rest_buy r b)"
  proof -
    have ok: "nodes_ok b" using assms(1) by (simp add: book_inv_def)
    then show ?thesis
      by (auto simp: nodes_ok_def rest_buy_def distinct_nodes_map_at set_nodes_map_at
          dest: nodes_ok_less [OF ok])
  qed
  moreover have "index_ok (rest_buy r b)"
    using assms(1)
    by (fastforce simp: index_ok_def entry_ok_def side_nodes_def rest_buy_def book_inv_def index_insert_def
        set_nodes_map_at split: if_splits)
  ultimately show ?thesis
    using assms(1) by (simp add: book_inv_def rest_buy_def)
qed

lemma rest_sell_inv:
  assumes "book_inv b" "order_type r = Limit" "remaining_quantity r \<noteq> 0" "side r \<noteq> Buy"
    and cross: "\<forall>p \<in> fst ` set (buy_orders b). p < price r"
  shows "book_inv (rest_sell r b)"
proof -
  have "asks_ok (sell_orders (rest_sell r b))"
    using assms levels_ok_push [OF asks.comparator_axioms] by (auto simp: rest_sell_def book_inv_def)
  moreover have "uncrossed (rest_sell r b)"
    using assms(1) cross
    unfolding uncrossed_def rest_sell_def book_inv_def by (simp add: asks.keys_map_at)
  moreover have "nodes_ok (rest_sell r b)"
  proof -
    have ok: "nodes_ok b" using assms(1) by (simp add: book_inv_def)
    then show ?thesis
      by (auto simp: nodes_ok_def rest_sell_def distinct_nodes_map_at set_nodes_map_at
          dest: nodes_ok_less [OF ok])
  qed
  moreover have "index_ok (rest_sell r b)"
    using assms(1)
    by (fastforce simp: index_ok_def entry_ok_def side_nodes_def rest_sell_def book_inv_def index_insert_def
        set_nodes_map_at split: if_splits)
  ultimately show ?thesis
    using assms(1) by (simp add: book_inv_def rest_sell_def)
qed

section \<open>Erasing a node\<close>

lemma erase_node_ok:
  assumes "comparator lt" "levels_ok lt bids m" "distinct (map fst (nodes_of m))"
    and "(pos, r) \<in> set (nodes_of m)"
  obtains m' where "erase_node pos (price r) m = Inr m'" "levels_ok lt bids m'"
    "nodes_of m' = filter (\<lambda>p. fst p \<noteq> pos) (nodes_of m)" "fst ` set m' \<subseteq> fst ` set m"
proof -
  obtain q where q: "(price r, q) \<in> set m" "(pos, r) \<in> set q"
    using levels_ok_node(1) [OF assms(2,4)] by blast
  have sorted: "sorted_wrt lt (map fst m)" using assms(2) by (simp add: levels_ok_def)
  obtain as bs where m: "m = as @ (price r, q) # bs" and er: "map_erase (price r) m = as @ bs"
    and ad: "\<And>f. map_adjust (price r) f m = as @ (price r, f q) # bs"
    using comparator.split_at_entry [OF assms(1) sorted q(1)] by metis
  define q' where "q' = filter (\<lambda>p. fst p \<noteq> pos) q"
  define m' where "m' = (if q' = [] then as @ bs else as @ (price r, q') # bs)"
  have "map_of m (price r) = Some q"
    using comparator.map_of_member [OF assms(1) sorted] q(1) by blast
  then have "erase_node pos (price r) m = Inr m'"
    using q(2) by (force simp: erase_node_def er ad q'_def m'_def Let_def)
  moreover have "levels_ok lt bids m'"
    using assms(2) by (auto simp: m m'_def q'_def levels_ok_def level_ok_def sorted_wrt_append)
  moreover have "nodes_of m' = filter (\<lambda>p. fst p \<noteq> pos) (nodes_of m)"
  proof -
    have "pos \<in> fst ` set q" using q(2) by force
    moreover have "distinct (map fst (nodes_of as) @ map fst q @ map fst (nodes_of bs))"
      using assms(3) by (simp add: m nodes_of_def)
    ultimately have "pos \<notin> fst ` set (nodes_of as)" "pos \<notin> fst ` set (nodes_of bs)"
      unfolding distinct_append set_append set_map by blast+
    then show ?thesis
      by (auto simp: m m'_def q'_def nodes_of_def filter_fst_neq_idle)
  qed
  moreover have "fst ` set m' \<subseteq> fst ` set m" by (auto simp: m m'_def)
  ultimately show thesis by (rule that)
qed

lemma deref_node:
  assumes "book_inv b" "(pos, r) \<in> set (side_nodes b sd)"
  shows "deref b pos = Some r"
  using assms unfolding deref_def book_inv_def nodes_ok_def side_nodes_def
  by (auto intro!: map_of_is_SomeI split: if_splits simp del: map_of_append)

lemma entry_lookup:
  assumes "book_inv b" "order_index b oid = Some en"
  obtains r where "deref b (position en) = Some r" "order_id r = oid" "price r = price_level en"
    "(position en, r) \<in> set (side_nodes b (ie_side en))"
  using assms deref_node [OF assms(1)] by (fastforce simp: book_inv_def index_ok_def entry_ok_def)

lemma erase_entry_ok:
  assumes inv: "book_inv b" and en: "order_index b oid = Some en"
    and r: "(position en, r) \<in> set (side_nodes b (ie_side en))" "price r = price_level en"
  obtains b' where "erase_entry en b = Inr b'"
    "bids_ok (buy_orders b')" "asks_ok (sell_orders b')" "uncrossed b'"
    "bid_nodes b' = filter (\<lambda>p. fst p \<noteq> position en) (bid_nodes b)"
    "ask_nodes b' = filter (\<lambda>p. fst p \<noteq> position en) (ask_nodes b)"
    "order_index b' = order_index b" "next_node b' = next_node b" "book_symbol b' = book_symbol b"
proof (cases "ie_side en = Buy")
  case True
  have d: "distinct (map fst (bid_nodes b))" and ok: "bids_ok (buy_orders b)"
    using inv by (auto simp: book_inv_def nodes_ok_def)
  obtain m' where m': "erase_node (position en) (price r) (buy_orders b) = Inr m'" "bids_ok m'"
    "nodes_of m' = filter (\<lambda>p. fst p \<noteq> position en) (bid_nodes b)" "fst ` set m' \<subseteq> fst ` set (buy_orders b)"
    using erase_node_ok [OF bids.comparator_axioms ok d, of "position en" r] r True
    by (auto simp: side_nodes_def)
  have "position en \<notin> fst ` set (ask_nodes b)"
    using inv r True by (force simp: book_inv_def nodes_ok_def side_nodes_def)
  moreover have "uncrossed (b\<lparr>buy_orders := m'\<rparr>)"
    by (rule uncrossed_mono [of b]) (use inv m'(4) in \<open>auto simp: book_inv_def\<close>)
  ultimately show thesis
    using that [of "b\<lparr>buy_orders := m'\<rparr>"] inv m' True r(2)
    by (simp add: erase_entry_def book_inv_def filter_fst_neq_idle)
next
  case False
  have d: "distinct (map fst (ask_nodes b))" and ok: "asks_ok (sell_orders b)"
    using inv by (auto simp: book_inv_def nodes_ok_def)
  obtain m' where m': "erase_node (position en) (price r) (sell_orders b) = Inr m'" "asks_ok m'"
    "nodes_of m' = filter (\<lambda>p. fst p \<noteq> position en) (ask_nodes b)" "fst ` set m' \<subseteq> fst ` set (sell_orders b)"
    using erase_node_ok [OF asks.comparator_axioms ok d, of "position en" r] r False
    by (auto simp: side_nodes_def)
  have "position en \<notin> fst ` set (bid_nodes b)"
    using inv r False by (force simp: book_inv_def nodes_ok_def side_nodes_def)
  moreover have "uncrossed (b\<lparr>sell_orders := m'\<rparr>)"
    by (rule uncrossed_mono [of b]) (use inv m'(4) in \<open>auto simp: book_inv_def\<close>)
  ultimately show thesis
    using that [of "b\<lparr>sell_orders := m'\<rparr>"] inv m' False r(2)
    by (simp add: erase_entry_def book_inv_def filter_fst_neq_idle)
qed

section \<open>Submitting\<close>

lemma sorted_beyond_limit:
  assumes "levels_ok (\<lambda>p q. if ib then p < q else p > q) bids m"
    and "m \<noteq> [] \<Longrightarrow> beyond_limit ib inc (fst (hd m))"
  shows "\<forall>p \<in> fst ` set m. if ib then price inc < p else p < price inc"
proof (cases m)
  case (Cons l m')
  then have "if ib then price inc < fst l else fst l < price inc"
    using assms(2) by (auto simp: beyond_limit_def)
  then show ?thesis
    using assms(1) by (auto simp: Cons levels_ok_Cons split: if_splits)
qed simp

lemma rest_or_expire_inv:
  assumes "book_inv b" "rest_or_expire clk ib inc b res e = (b', res', e')" "ib \<longleftrightarrow> side inc = Buy"
    and "remaining_quantity inc \<noteq> 0 \<Longrightarrow>
      \<forall>p \<in> fst ` set (opp_levels ib b). if ib then price inc < p else p < price inc"
  shows "book_inv b'"
  using assms rest_buy_inv [of b inc] rest_sell_inv [of b inc]
  by (auto simp: rest_or_expire_def Let_def opp_levels_def get_current_time_ns_def split: if_splits)

lemma match_levels_keeps:
  assumes "levels_ok lt bids m" "match_levels clk ib sy inc m idx res e = (inc', m', idx', res', e')"
  shows "inc' = inc\<lparr>remaining_quantity := remaining_quantity inc'\<rparr>"
  by (rule match_run_keeps [OF match_flat_run [OF match_levels_flat [OF assms]]])

lemma submitOrderInternal_cases:
  assumes inv: "book_inv b" and sub: "submitOrderInternal clk order b res e = (b', res', e')"
  obtains inc m idx res1 e1 where
    "match_levels clk (side order = Buy) (book_symbol b) order (opp_levels (side order = Buy) b)
       (order_index b) res e = (inc, m, idx, res1, e1)"
    "rest_or_expire clk (side order = Buy) inc (set_opp (side order = Buy) m idx b) res1 e1 = (b', res', e')"
    "book_inv (set_opp (side order = Buy) m idx b)"
    "inc = order\<lparr>remaining_quantity := remaining_quantity inc\<rparr>"
    "remaining_quantity inc \<noteq> 0 \<Longrightarrow>
      \<forall>p \<in> fst ` set m. if side order = Buy then price inc < p else p < price inc"
proof -
  let ?ib = "side order = Buy"
  obtain inc m idx res1 e1 where run: "match_levels clk ?ib (book_symbol b) order (opp_levels ?ib b)
      (order_index b) res e = (inc, m, idx, res1, e1)"
    by (cases "match_levels clk ?ib (book_symbol b) order (opp_levels ?ib b) (order_index b) res e") auto
  have ok: "levels_ok (\<lambda>p q. if ?ib then p < q else p > q) (\<not> ?ib) (opp_levels ?ib b)"
    using inv by (auto simp: book_inv_def opp_levels_def)
  have keeps: "inc = order\<lparr>remaining_quantity := remaining_quantity inc\<rparr>"
    by (rule match_levels_keeps [OF ok run])
  have ok': "levels_ok (\<lambda>p q. if ?ib then p < q else p > q) (\<not> ?ib) m"
    using match_levels_ok [OF ok run] by simp
  have price: "price inc = price order" by (subst keeps) simp
  show thesis
  proof (rule that [OF run _ matched_inv [OF inv run] keeps])
    show "rest_or_expire clk ?ib inc (set_opp ?ib m idx b) res1 e1 = (b', res', e')"
      using sub run by (simp add: submitOrderInternal_eq)
  next
    assume "remaining_quantity inc \<noteq> 0"
    then show "\<forall>p \<in> fst ` set m. if ?ib then price inc < p else p < price inc"
      unfolding price by (intro sorted_beyond_limit [OF ok'] match_levels_beyond [OF ok run])
  qed
qed

lemma opp_levels_set_opp [simp]: "opp_levels ib (set_opp ib m idx b) = m"
  by (simp add: opp_levels_def set_opp_def)

lemma submitOrderInternal_inv [book_inv]:
  assumes "book_inv b" and "submitOrderInternal clk order b res e = (b', res', e')"
  shows "book_inv b'"
proof -
  obtain inc m idx res1 e1 where c:
    "rest_or_expire clk (side order = Buy) inc (set_opp (side order = Buy) m idx b) res1 e1 = (b', res', e')"
    "book_inv (set_opp (side order = Buy) m idx b)"
    "inc = order\<lparr>remaining_quantity := remaining_quantity inc\<rparr>"
    "remaining_quantity inc \<noteq> 0 \<Longrightarrow>
      \<forall>p \<in> fst ` set m. if side order = Buy then price inc < p else p < price inc"
    using assms by (rule submitOrderInternal_cases) blast
  have side: "side inc = side order" by (subst c(3)) simp
  show ?thesis
    by (rule rest_or_expire_inv [OF c(2,1)]) (simp add: side, use c(4) in simp)
qed

lemma resting_ids_rest:
  "mset (resting_ids (rest_buy r b)) = add_mset (order_id r) (mset (resting_ids b))"
  "mset (resting_ids (rest_sell r b)) = add_mset (order_id r) (mset (resting_ids b))"
  by (simp_all add: resting_ids_def rest_buy_def rest_sell_def mset_nodes_map_at)

lemma rest_indexed:
  assumes "fully_indexed b" "order_id r \<notin> set (resting_ids b)"
    and "b' = rest_buy r b \<or> b' = rest_sell r b"
  shows "fully_indexed b'" and "set (resting_ids b') = insert (order_id r) (set (resting_ids b))"
proof -
  have m: "mset (resting_ids b') = mset (order_id r # resting_ids b)"
    using assms(3) resting_ids_rest by auto
  show ids: "set (resting_ids b') = insert (order_id r) (set (resting_ids b))"
    using mset_eq_setD [OF m] by simp
  have "dom (order_index b') = insert (order_id r) (dom (order_index b))"
    using assms(3) by (auto simp: rest_buy_def rest_sell_def index_insert_def)
  then show "fully_indexed b'"
    using assms(1,2) mset_eq_imp_distinct_iff [OF m] by (simp add: fully_indexed_def ids)
qed

lemma rest_or_expire_indexed:
  assumes "fully_indexed b" "rest_or_expire clk ib inc b res e = (b', res', e')"
    and "order_id inc \<notin> set (resting_ids b)"
  shows "fully_indexed b'" and "set (resting_ids b') \<subseteq> insert (order_id inc) (set (resting_ids b))"
proof -
  have "b' = b \<or> b' = rest_buy inc b \<or> b' = rest_sell inc b"
    using assms(2) by (auto simp: rest_or_expire_def Let_def get_current_time_ns_def split: if_splits)
  then show "fully_indexed b'" "set (resting_ids b') \<subseteq> insert (order_id inc) (set (resting_ids b))"
    using assms(1) rest_indexed [OF assms(1,3)] by auto
qed

lemma submitOrderInternal_indexed:
  assumes "book_inv b" "fully_indexed b" "order_id order \<notin> set (resting_ids b)"
    and "submitOrderInternal clk order b res e = (b', res', e')"
  shows "fully_indexed b'" and "set (resting_ids b') \<subseteq> insert (order_id order) (set (resting_ids b))"
proof -
  obtain inc m idx res1 e1 where run: "match_levels clk (side order = Buy) (book_symbol b) order
       (opp_levels (side order = Buy) b) (order_index b) res e = (inc, m, idx, res1, e1)"
    and rest: "rest_or_expire clk (side order = Buy) inc (set_opp (side order = Buy) m idx b) res1 e1 = (b', res', e')"
    and inc: "inc = order\<lparr>remaining_quantity := remaining_quantity inc\<rparr>"
    using assms(1,4) by (rule submitOrderInternal_cases) blast
  note mi = matched_indexed [OF assms(1,2) run]
  have oid: "order_id inc = order_id order" by (subst inc) simp
  have "order_id inc \<notin> set (resting_ids (set_opp (side order = Buy) m idx b))"
    using mi(2) assms(3) oid by auto
  from rest_or_expire_indexed [OF mi(1) rest this] mi(2) oid
  show "fully_indexed b'" "set (resting_ids b') \<subseteq> insert (order_id order) (set (resting_ids b))"
    by auto
qed

section \<open>Cancelling, modifying and querying\<close>

text \<open>The book once the entry of \<open>oid\<close> is erased and unlisted.\<close>

lemma unlist_inv:
  assumes inv: "book_inv b" and en: "order_index b oid = Some en"
  obtains b' r where "erase_entry en b = Inr b'" "deref b (position en) = Some r" "order_id r = oid"
    "(position en, r) \<in> set (side_nodes b (ie_side en))" "price r = price_level en"
    "order_index b' = order_index b" "book_symbol b' = book_symbol b"
    "book_inv (b'\<lparr>order_index := snd (index_remove oid (order_index b'))\<rparr>)"
    "bid_nodes b' = filter (\<lambda>p. fst p \<noteq> position en) (bid_nodes b)"
    "ask_nodes b' = filter (\<lambda>p. fst p \<noteq> position en) (ask_nodes b)"
proof -
  obtain r where r: "deref b (position en) = Some r" "order_id r = oid" "price r = price_level en"
    "(position en, r) \<in> set (side_nodes b (ie_side en))"
    using inv en by (rule entry_lookup)
  obtain b' where b': "erase_entry en b = Inr b'"
    "bids_ok (buy_orders b')" "asks_ok (sell_orders b')" "uncrossed b'"
    "bid_nodes b' = filter (\<lambda>p. fst p \<noteq> position en) (bid_nodes b)"
    "ask_nodes b' = filter (\<lambda>p. fst p \<noteq> position en) (ask_nodes b)"
    "order_index b' = order_index b" "next_node b' = next_node b" "book_symbol b' = book_symbol b"
    using inv en r(4,3) by (rule erase_entry_ok)
  let ?b = "b'\<lparr>order_index := snd (index_remove oid (order_index b'))\<rparr>"
  have "nodes_ok ?b"
    using inv by (auto simp: book_inv_def nodes_ok_def b' distinct_map_filter)
  moreover have "uncrossed ?b"
    using b'(4) by (simp add: uncrossed_def)
  moreover have "index_ok ?b"
    unfolding index_ok_def
  proof (intro allI impI)
    fix oid2 en2
    assume "order_index ?b oid2 = Some en2"
    then have idx: "order_index b oid2 = Some en2" and ne: "oid2 \<noteq> oid"
      by (auto simp: index_remove_def b' split: if_splits)
    obtain r2 where r2: "deref b (position en2) = Some r2" "order_id r2 = oid2" "price r2 = price_level en2"
      "(position en2, r2) \<in> set (side_nodes b (ie_side en2))"
      using inv idx by (rule entry_lookup)
    have "position en2 \<noteq> position en"
      using r(1,2) r2(1,2) ne by auto
    moreover have "ie_side en2 \<in> {Buy, Sell}"
      using inv idx by (auto simp: book_inv_def index_ok_def entry_ok_def)
    ultimately show "entry_ok ?b oid2 en2"
      using r2 by (auto simp: entry_ok_def side_nodes_def b' split: if_splits)
  qed
  ultimately have "book_inv ?b"
    using b' by (simp add: book_inv_def)
  then show thesis using that b' r by blast
qed

lemma cancelOrder_inv [book_inv]:
  assumes "book_inv b"
  obtains found b' res' e' where "cancelOrder clk oid lf b res w e = Inr (found, b', res', run_log lf w, e')"
    "book_inv b'" "found \<longleftrightarrow> order_index b oid \<noteq> None"
proof (cases "order_index b oid")
  case None
  then show thesis
    using that [of False b res e] assms by (simp add: cancelOrder_def index_get_def)
next
  case (Some en)
  obtain b' r where u: "erase_entry en b = Inr b'" "deref b (position en) = Some r"
    "book_inv (b'\<lparr>order_index := snd (index_remove oid (order_index b'))\<rparr>)"
    using assms Some by (rule unlist_inv)
  then show thesis
    by (intro that) (auto simp: cancelOrder_def index_get_def Some get_current_time_ns_def)
qed

lemma modifyOrder_inv [book_inv]:
  assumes "book_inv b"
  obtains found b' res' e' where "modifyOrder clk req lf b res w e = Inr (found, b', res', run_log lf w, e')"
    "book_inv b'" "found \<longleftrightarrow> order_index b (mreq_order_id req) \<noteq> None"
proof (cases "order_index b (mreq_order_id req)")
  case None
  then show thesis
    using that [of False b res e] assms by (simp add: modifyOrder_def index_get_def)
next
  case (Some en)
  obtain b' r where u: "erase_entry en b = Inr b'" "deref b (position en) = Some r"
    "book_inv (b'\<lparr>order_index := snd (index_remove (mreq_order_id req) (order_index b'))\<rparr>)"
    using assms Some by (rule unlist_inv)
  let ?b = "b'\<lparr>order_index := snd (index_remove (mreq_order_id req) (order_index b'))\<rparr>"
  let ?r = "r\<lparr>price := mreq_price req, quantity := mreq_quantity req,
     remaining_quantity := mreq_quantity req, timestamp := mreq_timestamp req\<rparr>"
  obtain b3 res' e' where sub: "submitOrderInternal clk ?r ?b res e = (b3, res', e')"
    by (cases "submitOrderInternal clk ?r ?b res e") auto
  show thesis
    using that [of True b3 res' e'] u sub submitOrderInternal_inv [OF u(3) sub]
    by (simp add: modifyOrder_def index_get_def Some Let_def)
qed

end
