(* ===== verification/Book_Spec.thy ===== *)
theory Book_Spec
  imports Book_Preserve
begin

text \<open>
  The abstract order book: for each side the resting orders in priority order, and nothing else
  (no levels, no addresses, no index).  The operations on the two lists are the specification of
  price-time priority; \<open>abs_book\<close> flattens the concrete book, and every concrete operation is
  shown to compute the abstract one.
\<close>

section \<open>The specification\<close>

type_synonym spec_book = "Order list \<times> Order list"

definition abs_book :: "OrderBook \<Rightarrow> spec_book" where
  "abs_book b = (map snd (bid_nodes b), map snd (ask_nodes b))"

fun spec_match ::
  "clock \<Rightarrow> bool \<Rightarrow> Symbol \<Rightarrow> Order \<Rightarrow> Order list \<Rightarrow> MatchResult \<Rightarrow> Env \<Rightarrow>
     Order \<times> Order list \<times> MatchResult \<times> Env" where
  "spec_match clk ib sy inc [] res e = (inc, [], res, e)"
| "spec_match clk ib sy inc (r # rs) res e =
     (if remaining_quantity inc = 0 \<or> beyond_limit ib inc (price r) then (inc, r # rs, res, e)
      else case match_incoming clk ib sy inc r res e of
        (inc', r', res', e') \<Rightarrow>
          if remaining_quantity r' = 0 then spec_match clk ib sy inc' rs res' e'
          else (inc', r' # rs, res', e'))"

text \<open>A new order goes behind every order whose price is at least as good.\<close>

definition at_least_as_good :: "bool \<Rightarrow> Price \<Rightarrow> Order \<Rightarrow> bool" where
  "at_least_as_good bids p r \<longleftrightarrow> (if bids then p \<le> price r else price r \<le> p)"

definition spec_insert :: "bool \<Rightarrow> Order \<Rightarrow> Order list \<Rightarrow> Order list" where
  "spec_insert bids r rs =
     takeWhile (at_least_as_good bids (price r)) rs @ r # dropWhile (at_least_as_good bids (price r)) rs"

definition spec_rest :: "clock \<Rightarrow> bool \<Rightarrow> Order \<Rightarrow> spec_book \<Rightarrow> MatchResult \<Rightarrow> Env \<Rightarrow> spec_book \<times> MatchResult \<times> Env" where
  "spec_rest clk ib inc s res e =
     (let (now, e') = get_current_time_ns clk e;
          rested = (if ib then (spec_insert True inc (fst s), snd s) else (fst s, spec_insert False inc (snd s)))
      in if remaining_quantity inc = 0 then (s, res, e)
         else if order_type inc \<noteq> Limit then (s, push_report (expired_report inc now) res, e')
         else if remaining_quantity inc = quantity inc then (rested, push_report (new_report inc now) res, e')
         else (rested, res, e))"

definition spec_submit :: "clock \<Rightarrow> Symbol \<Rightarrow> Order \<Rightarrow> spec_book \<Rightarrow> MatchResult \<Rightarrow> Env \<Rightarrow> spec_book \<times> MatchResult \<times> Env" where
  "spec_submit clk sy order s res e =
     (if side order = Buy then
        (case spec_match clk True sy order (snd s) res e of
           (inc, asks, res', e') \<Rightarrow> spec_rest clk True inc (fst s, asks) res' e')
      else
        (case spec_match clk False sy order (fst s) res e of
           (inc, bids, res', e') \<Rightarrow> spec_rest clk False inc (bids, snd s) res' e'))"

definition spec_remove :: "OrderID \<Rightarrow> spec_book \<Rightarrow> spec_book" where
  "spec_remove oid s = (filter (\<lambda>r. order_id r \<noteq> oid) (fst s), filter (\<lambda>r. order_id r \<noteq> oid) (snd s))"

section \<open>Matching refines the specification\<close>

lemma match_run_spec:
  "match_run clk ib sy inc q idx res e inc' q' idx' res' e' \<Longrightarrow>
     spec_match clk ib sy inc (map snd q) res e = (inc', map snd q', res', e')"
  by (induction rule: match_run.induct) auto

lemma match_levels_spec:
  assumes "levels_ok lt bids m" "match_levels clk ib sy inc m idx res e = (inc', m', idx', res', e')"
  shows "spec_match clk ib sy inc (map snd (nodes_of m)) res e = (inc', map snd (nodes_of m'), res', e')"
  by (rule match_run_spec [OF match_flat_run [OF match_levels_flat [OF assms]]])

section \<open>Resting refines the specification\<close>

lemma takeWhile_none: "(\<And>x. x \<in> set xs \<Longrightarrow> \<not> P x) \<Longrightarrow> takeWhile P xs = [] \<and> dropWhile P xs = xs"
  by (cases xs) auto

lemma nodes_map_at:
  assumes "comparator lt" "levels_ok lt bids m"
  shows "nodes_of (map_at lt p [] (\<lambda>q. q @ [x]) m) =
    takeWhile (\<lambda>y. \<not> lt p (price (snd y))) (nodes_of m) @ x #
    dropWhile (\<lambda>y. \<not> lt p (price (snd y))) (nodes_of m)"
  using assms(2)
proof (induction m)
  case Nil
  then show ?case by simp
next
  case (Cons l m)
  obtain k q where l: "l = (k, q)" by (cases l)
  let ?P = "\<lambda>y. \<not> lt p (price (snd y))"
  have k: "price (snd y) = k" if "y \<in> set q" for y
    using Cons.prems that by (auto simp: l levels_ok_Cons level_ok_def)
  have m: "lt k (price (snd y))" if "y \<in> set (nodes_of m)" for y
    using Cons.prems levels_ok_node(1) [of lt bids m "fst y" "snd y"] that
    by (force simp: l levels_ok_Cons)
  have IH: "nodes_of (map_at lt p [] (\<lambda>q. q @ [x]) m) = takeWhile ?P (nodes_of m) @ x # dropWhile ?P (nodes_of m)"
    using Cons by (simp add: levels_ok_Cons)
  consider "lt p k" | "lt k p" "\<not> lt p k" | "\<not> lt k p" "\<not> lt p k" by blast
  then show ?case
  proof cases
    case 1
    have "\<not> ?P y" if "y \<in> set (q @ nodes_of m)" for y
      using that 1 k [of y] m [of y] comparator.trans [OF assms(1) 1] by auto
    from takeWhile_none [of "q @ nodes_of m" ?P, OF this] 1 show ?thesis by (simp add: l)
  next
    case 2
    have "takeWhile ?P (q @ nodes_of m) = q @ takeWhile ?P (nodes_of m)"
      "dropWhile ?P (q @ nodes_of m) = dropWhile ?P (nodes_of m)"
      using 2 k by (auto intro: takeWhile_append2 dropWhile_append2)
    with 2 IH show ?thesis by (simp add: l)
  next
    case 3
    then have "p = k" using comparator.total [OF assms(1)] by blast
    have "\<not> ?P y" if "y \<in> set (nodes_of m)" for y
      using m [OF that] \<open>p = k\<close> by simp
    note rest = takeWhile_none [of "nodes_of m" ?P, OF this]
    have "takeWhile ?P (q @ nodes_of m) = q @ takeWhile ?P (nodes_of m)"
      "dropWhile ?P (q @ nodes_of m) = dropWhile ?P (nodes_of m)"
      using 3 k by (auto intro: takeWhile_append2 dropWhile_append2)
    with 3 rest show ?thesis by (simp add: l)
  qed
qed

lemma map_takeWhile: "map f (takeWhile (P \<circ> f) xs) = takeWhile P (map f xs)"
  "map f (dropWhile (P \<circ> f) xs) = dropWhile P (map f xs)"
  by (induction xs) auto

lemma rest_spec:
  "bids_ok (buy_orders b) \<Longrightarrow> map snd (bid_nodes (rest_buy r b)) = spec_insert True r (map snd (bid_nodes b))"
  "asks_ok (sell_orders b) \<Longrightarrow> map snd (ask_nodes (rest_sell r b)) = spec_insert False r (map snd (ask_nodes b))"
proof -
  have P: "(\<lambda>y. \<not> price r > price (snd y)) = at_least_as_good True (price r) \<circ> snd"
    "(\<lambda>y. \<not> price r < price (snd y)) = at_least_as_good False (price r) \<circ> snd"
    by (auto simp: fun_eq_iff at_least_as_good_def not_less)
  show "bids_ok (buy_orders b) \<Longrightarrow> map snd (bid_nodes (rest_buy r b)) = spec_insert True r (map snd (bid_nodes b))"
    by (simp add: rest_buy_def nodes_map_at [OF bids.comparator_axioms] P map_takeWhile spec_insert_def)
  show "asks_ok (sell_orders b) \<Longrightarrow> map snd (ask_nodes (rest_sell r b)) = spec_insert False r (map snd (ask_nodes b))"
    by (simp add: rest_sell_def nodes_map_at [OF asks.comparator_axioms] P map_takeWhile spec_insert_def)
qed

lemma rest_or_expire_spec:
  assumes "book_inv b" "rest_or_expire clk ib inc b res e = (b', res', e')"
  shows "spec_rest clk ib inc (abs_book b) res e = (abs_book b', res', e')"
proof -
  have "bids_ok (buy_orders b)" "asks_ok (sell_orders b)"
    using assms(1) by (simp_all add: book_inv_def)
  moreover have "ask_nodes (rest_buy inc b) = ask_nodes b" "bid_nodes (rest_sell inc b) = bid_nodes b"
    by (simp_all add: rest_buy_def rest_sell_def)
  ultimately show ?thesis
    using assms(2) rest_spec [of b inc]
    by (auto simp: rest_or_expire_def spec_rest_def abs_book_def Let_def split: if_splits prod.splits)
qed

lemma abs_set_opp:
  "abs_book (set_opp True m idx b) = (fst (abs_book b), map snd (nodes_of m))"
  "abs_book (set_opp False m idx b) = (map snd (nodes_of m), snd (abs_book b))"
  by (simp_all add: abs_book_def set_opp_def)

lemma submitOrderInternal_refines:
  assumes "book_inv b" "submitOrderInternal clk order b res e = (b', res', e')"
  shows "spec_submit clk (book_symbol b) order (abs_book b) res e = (abs_book b', res', e')"
proof -
  let ?ib = "side order = Buy"
  obtain inc m idx res1 e1 where
    run: "match_levels clk ?ib (book_symbol b) order (opp_levels ?ib b) (order_index b) res e = (inc, m, idx, res1, e1)"
    and rest: "rest_or_expire clk ?ib inc (set_opp ?ib m idx b) res1 e1 = (b', res', e')"
    and inv: "book_inv (set_opp ?ib m idx b)"
    using assms by (rule submitOrderInternal_cases) blast
  have ok: "levels_ok (\<lambda>p q. if ?ib then p < q else p > q) (\<not> ?ib) (opp_levels ?ib b)"
    using assms(1) by (auto simp: book_inv_def opp_levels_def)
  show ?thesis
    using match_levels_spec [OF ok run] rest_or_expire_spec [OF inv rest]
    by (cases ?ib) (simp_all add: spec_submit_def opp_levels_def abs_set_opp, simp_all add: abs_book_def)
qed

section \<open>Removing refines the specification\<close>

lemma unlist_refines:
  assumes inv: "book_inv b" and fi: "fully_indexed b"
    and r: "(pos, r) \<in> set (bid_nodes b @ ask_nodes b)"
    and b': "bid_nodes b' = filter (\<lambda>p. fst p \<noteq> pos) (bid_nodes b)"
      "ask_nodes b' = filter (\<lambda>p. fst p \<noteq> pos) (ask_nodes b)"
  shows "abs_book b' = spec_remove (order_id r) (abs_book b)"
    and "resting_ids b' = filter (\<lambda>i. i \<noteq> order_id r) (resting_ids b)"
proof -
  let ?all = "bid_nodes b @ ask_nodes b"
  have d: "distinct (map fst ?all)" "distinct (map (order_id \<circ> snd) ?all)"
    using inv fi by (auto simp: book_inv_def nodes_ok_def fully_indexed_def resting_ids_def)
  have eq: "fst p = pos \<longleftrightarrow> order_id (snd p) = order_id r" if "p \<in> set ?all" for p
    using distinct_map_eq [OF d(1) that r] distinct_map_eq [OF d(2) that r] by (cases p) auto
  have f: "filter (\<lambda>p. fst p \<noteq> pos) xs = filter (\<lambda>p. order_id (snd p) \<noteq> order_id r) xs"
    if "set xs \<subseteq> set ?all" for xs
    using that eq by (intro filter_cong) auto
  have f': "filter (\<lambda>p. fst p \<noteq> pos) (bid_nodes b) = filter (\<lambda>p. order_id (snd p) \<noteq> order_id r) (bid_nodes b)"
    "filter (\<lambda>p. fst p \<noteq> pos) (ask_nodes b) = filter (\<lambda>p. order_id (snd p) \<noteq> order_id r) (ask_nodes b)"
    by (auto intro: f)
  show "abs_book b' = spec_remove (order_id r) (abs_book b)"
    by (simp add: abs_book_def spec_remove_def b' f' filter_map comp_def)
  show "resting_ids b' = filter (\<lambda>i. i \<noteq> order_id r) (resting_ids b)"
    by (simp add: resting_ids_def b' f' filter_map comp_def)
qed

end
