(* ===== verification/Book_Trade.thy ===== *)
theory Book_Trade
  imports Book_Spec
begin

text \<open>
  What a submission trades: which resting orders are filled, for how much, at what price, and
  that no quantity is created or lost.
\<close>

section \<open>Greedy allocation\<close>

text \<open>\<open>greedy n xs\<close> hands out \<open>n\<close> units to the demands \<open>xs\<close> in order.\<close>

fun greedy :: "nat \<Rightarrow> nat list \<Rightarrow> nat list" where
  "greedy n [] = []"
| "greedy n (x # xs) = (if n = 0 then [] else min n x # greedy (n - x) xs)"

lemma greedy_0 [simp]: "greedy 0 xs = []"
  by (cases xs) auto

lemma sum_list_greedy: "sum_list (greedy n xs) = min n (sum_list xs)"
  by (induction n xs rule: greedy.induct) auto

lemma length_greedy_le: "length (greedy n xs) \<le> length xs"
  by (induction n xs rule: greedy.induct) auto

text \<open>All but the last demand that gets something are met in full.\<close>

lemma greedy_full: "Suc i < length (greedy n xs) \<Longrightarrow> greedy n xs ! i = xs ! i"
proof (induction n xs arbitrary: i rule: greedy.induct)
  case (2 n x xs)
  then show ?case
    by (cases i) (auto simp: min_def split: if_splits)
qed simp

section \<open>The fills of one step and of a run\<close>

definition resting_id :: "bool \<Rightarrow> Fill \<Rightarrow> OrderID" where
  "resting_id ib f = (if ib then fill_sell_order_id f else fill_buy_order_id f)"

definition incoming_id :: "bool \<Rightarrow> Fill \<Rightarrow> OrderID" where
  "incoming_id ib f = (if ib then fill_buy_order_id f else fill_sell_order_id f)"

definition fill_incoming :: "clock \<Rightarrow> bool \<Rightarrow> Symbol \<Rightarrow> Order \<Rightarrow> Order \<Rightarrow> Env \<Rightarrow> Fill" where
  "fill_incoming clk ib sy inc r e = (if ib then fill_of clk inc r sy e else fill_of clk r inc sy e)"

lemma fill_incoming_sel:
  "resting_id ib (fill_incoming clk ib sy inc r e) = order_id r"
  "incoming_id ib (fill_incoming clk ib sy inc r e) = order_id inc"
  "fill_symbol (fill_incoming clk ib sy inc r e) = sy"
  "fill_trade_id (fill_incoming clk ib sy inc r e) = counter e"
  "fill_quantity (fill_incoming clk ib sy inc r e) = min (remaining_quantity inc) (remaining_quantity r)"
  by (auto simp: fill_incoming_def fill_of_def resting_id_def incoming_id_def min.commute)

lemma match_incoming_effect:
  assumes "remaining_quantity inc \<noteq> 0" "remaining_quantity r \<noteq> 0"
    and "match_incoming clk ib sy inc r res e = (inc', r', res', e')"
  shows "fills res' = fills res @ [fill_incoming clk ib sy inc r e]"
    and "length (execution_reports res') = length (execution_reports res) + 2"
    and "e' = \<lparr>counter = counter e + 1, clock_reads = Suc (clock_reads e)\<rparr>"
    and "res_status res' = res_status res"
proof -
  have gr: "0 < remaining_quantity inc" "0 < remaining_quantity r" using assms(1,2) by simp_all
  have "fills res' = fills res @ [fill_incoming clk ib sy inc r e] \<and>
    length (execution_reports res') = length (execution_reports res) + 2 \<and>
    e' = \<lparr>counter = counter e + 1, clock_reads = Suc (clock_reads e)\<rparr> \<and> res_status res' = res_status res"
  proof (cases ib)
    case True
    then have "matchOrders clk inc r sy res e = (inc', r', res', e')"
      using assms(3) by (simp add: match_incoming_def)
    from matchOrders_effect [OF gr this] True show ?thesis by (simp add: fill_incoming_def)
  next
    case False
    then have "matchOrders clk r inc sy res e = (r', inc', res', e')"
      using assms(3) by (auto simp: match_incoming_def split: prod.splits)
    from matchOrders_effect [OF gr(2,1) this] False show ?thesis by (simp add: fill_incoming_def)
  qed
  then show "fills res' = fills res @ [fill_incoming clk ib sy inc r e]"
    "length (execution_reports res') = length (execution_reports res) + 2"
    "e' = \<lparr>counter = counter e + 1, clock_reads = Suc (clock_reads e)\<rparr>"
    "res_status res' = res_status res"
    by simp_all
qed

abbreviation qty :: "Fill \<Rightarrow> nat" where
  "qty f \<equiv> unat (fill_quantity f)"

abbreviation open_qty :: "Order \<Rightarrow> nat" where
  "open_qty r \<equiv> unat (remaining_quantity r)"

lemma match_incoming_open_qty:
  assumes "match_incoming clk ib sy inc r res e = (inc', r', res', e')"
  shows "open_qty inc' = open_qty inc - min (open_qty inc) (open_qty r)"
    and "open_qty r' = open_qty r - min (open_qty inc) (open_qty r)"
  by (simp_all add: match_incoming_orders [OF assms] unat_sub_min_left unat_sub_min_right unat_min)

text \<open>
  The fills of a run: greedy in priority order over the orders the limit reaches, all against
  the incoming order, with consecutive trade ids.
\<close>

lemma match_run_fills:
  "match_run clk ib sy inc q idx res e inc' q' idx' res' e' \<Longrightarrow>
     (\<forall>p \<in> set q. remaining_quantity (snd p) \<noteq> 0) \<Longrightarrow>
     \<exists>fs. fills res' = fills res @ fs \<and>
       map qty fs = greedy (open_qty inc) (map (open_qty \<circ> snd) (takeWhile (\<lambda>p. \<not> beyond_limit ib inc (price (snd p))) q)) \<and>
       map (resting_id ib) fs = take (length fs) (map (order_id \<circ> snd) q) \<and>
       (\<forall>f \<in> set fs. incoming_id ib f = order_id inc \<and> fill_symbol f = sy) \<and>
       map fill_trade_id fs = map (\<lambda>i. counter e + of_nat i) [0..<length fs] \<and>
       counter e' = counter e + of_nat (length fs) \<and>
       open_qty inc' + sum_list (map qty fs) = open_qty inc \<and>
       sum_list (map (open_qty \<circ> snd) q') + sum_list (map qty fs) = sum_list (map (open_qty \<circ> snd) q)"
proof (induction rule: match_run.induct)
  case (Nil inc idx res e)
  show ?case by (rule exI [of _ "[]"]) simp
next
  case (Stop inc r n q idx res e)
  then show ?case by (intro exI [of _ "[]"]) auto
next
  case (Filled inc r res e inc1 r1 res1 e1 q idx inc' q' idx' res' e' n)
  let ?f = "fill_incoming clk ib sy inc r e"
  have ne: "remaining_quantity inc \<noteq> 0" "remaining_quantity r \<noteq> 0"
    using Filled.hyps(1) Filled.prems by auto
  note eff = match_incoming_effect [OF ne Filled.hyps(3)]
  note op = match_incoming_open_qty [OF Filled.hyps(3)]
  have le: "open_qty r \<le> open_qty inc"
    using op(2) Filled.hyps(4) by simp
  have pos: "0 < open_qty inc" using ne by (simp add: word_gr0_iff_unat)
  have rest: "\<forall>p \<in> set q. remaining_quantity (snd p) \<noteq> 0" using Filled.prems by simp
  from Filled.IH [OF this] obtain fs where fs: "fills res' = fills res1 @ fs"
    "map qty fs = greedy (open_qty inc1) (map (open_qty \<circ> snd) (takeWhile (\<lambda>p. \<not> beyond_limit ib inc1 (price (snd p))) q))"
    "map (resting_id ib) fs = take (length fs) (map (order_id \<circ> snd) q)"
    "\<forall>f \<in> set fs. incoming_id ib f = order_id inc1 \<and> fill_symbol f = sy"
    "map fill_trade_id fs = map (\<lambda>i. counter e1 + of_nat i) [0..<length fs]"
    "counter e' = counter e1 + of_nat (length fs)"
    "open_qty inc' + sum_list (map qty fs) = open_qty inc1"
    "sum_list (map (open_qty \<circ> snd) q') + sum_list (map qty fs) = sum_list (map (open_qty \<circ> snd) q)"
    by blast
  have ids: "map fill_trade_id (?f # fs) = map (\<lambda>i. counter e + of_nat i) [0..<length (?f # fs)]"
    using fs(5) by (simp add: fill_incoming_sel eff(3) upt_conv_Cons map_Suc_upt [symmetric] add.assoc del: upt_Suc)
  show ?case
    using fs ids eff le pos op Filled.hyps(2) beyond_limit_step [OF Filled.hyps(3)]
      match_incoming_keeps(1) [OF Filled.hyps(3)]
    by (intro exI [of _ "?f # fs"]) (simp add: fill_incoming_sel unat_min comp_def)
next
  case (Partial inc r res e inc' r' res' e' n q idx)
  let ?f = "fill_incoming clk ib sy inc r e"
  have ne: "remaining_quantity inc \<noteq> 0" "remaining_quantity r \<noteq> 0"
    using Partial.hyps(1) Partial.prems by auto
  note eff = match_incoming_effect [OF ne Partial.hyps(3)]
  note op = match_incoming_open_qty [OF Partial.hyps(3)]
  have le: "open_qty inc \<le> open_qty r"
    using op(1) Partial.hyps(5) by simp
  have pos: "0 < open_qty inc" using ne by (simp add: word_gr0_iff_unat)
  show ?case
    using eff le pos op Partial.hyps(2,5)
    by (intro exI [of _ "[?f]"]) (simp add: fill_incoming_sel unat_min)
qed

section \<open>Prices and reports of a run\<close>

lemma fill_incoming_price:
  "fill_price (fill_incoming clk ib sy inc r e) = (if ib then exec_price_of inc r else exec_price_of r inc)"
  by (simp add: fill_incoming_def fill_of_def)

text \<open>
  The report the owner of an order gets about a fill, every field written out: \<open>left\<close> is what remains of the order
  after the fill.
\<close>

definition report_to_owner :: "Order \<Rightarrow> Quantity \<Rightarrow> Fill \<Rightarrow> ExecutionReport" where
  "report_to_owner ord left f =
     \<lparr>rep_order_id = order_id ord, rep_symbol = symbol ord, rep_side = side ord,
      rep_status = (if left = 0 then Filled else PartiallyFilled), rep_price = price ord, rep_quantity = quantity ord,
      rep_remaining_quantity = left, rep_last_qty = fill_quantity f, rep_last_px = fill_price f,
      rep_timestamp = fill_timestamp f, rep_reject_reason = [], rep_client_id = client_id ord\<rparr>"

text \<open>The reports of the fills \<open>fs\<close> of an incoming order against the orders \<open>rs\<close>: for each fill one to the buyer, then one to the seller.\<close>

definition reports_of_fill :: "bool \<Rightarrow> Order \<Rightarrow> Order \<Rightarrow> Fill \<Rightarrow> ExecutionReport list" where
  "reports_of_fill ib inc r f =
     (let own = report_to_owner inc (remaining_quantity inc - fill_quantity f) f;
          other = report_to_owner r (remaining_quantity r - fill_quantity f) f
      in if ib then [own, other] else [other, own])"

fun fill_reports :: "bool \<Rightarrow> Order \<Rightarrow> Order list \<Rightarrow> Fill list \<Rightarrow> ExecutionReport list" where
  "fill_reports ib inc (r # rs) (f # fs) =
     reports_of_fill ib inc r f @ fill_reports ib (inc\<lparr>remaining_quantity := remaining_quantity inc - fill_quantity f\<rparr>) rs fs"
| "fill_reports ib inc rs fs = []"

lemma length_fill_reports: "length fs \<le> length rs \<Longrightarrow> length (fill_reports ib inc rs fs) = 2 * length fs"
  by (induction ib inc rs fs rule: fill_reports.induct) (auto simp: reports_of_fill_def Let_def)

lemma execution_report_to_owner:
  "execution_report_of (ord\<lparr>remaining_quantity := left\<rparr>) (fill_quantity f) (fill_price f) (fill_timestamp f) = report_to_owner ord left f"
  by (simp add: execution_report_of_def report_to_owner_def ExecutionReport_init_def)

lemma match_incoming_reports:
  assumes "remaining_quantity inc \<noteq> 0" "remaining_quantity r \<noteq> 0"
    and "match_incoming clk ib sy inc r res e = (inc', r', res', e')"
  shows "execution_reports res' = execution_reports res @ reports_of_fill ib inc r (fill_incoming clk ib sy inc r e)"
proof -
  have gr: "0 < remaining_quantity inc" "0 < remaining_quantity r" using assms(1,2) by simp_all
  note o = match_incoming_orders [OF assms(3)]
  let ?f = "fill_incoming clk ib sy inc r e"
  let ?q = "min (remaining_quantity inc) (remaining_quantity r)"
  have rep: "execution_report_of (ord\<lparr>remaining_quantity := left\<rparr>) ?q (if ib then exec_price_of inc r else exec_price_of r inc) (clk (clock_reads e)) =
      report_to_owner ord left ?f" for ord left
    by (simp add: execution_report_to_owner [symmetric] fill_incoming_def fill_of_def min.commute)
  have q: "fill_quantity ?f = ?q" by (rule fill_incoming_sel)
  show ?thesis
  proof (cases ib)
    case True
    then have "matchOrders clk inc r sy res e = (inc', r', res', e')"
      using assms(3) by (simp add: match_incoming_def)
    note eff = matchOrders_effect(2) [OF gr this]
    have "fill_quantity (fill_of clk inc r sy e) = ?q" by (simp add: fill_of_def)
    then show ?thesis using eff rep True unfolding reports_of_fill_def q Let_def o by simp
  next
    case False
    then have "matchOrders clk r inc sy res e = (r', inc', res', e')"
      using assms(3) by (auto simp: match_incoming_def split: prod.splits)
    note eff = matchOrders_effect(2) [OF gr(2,1) this]
    have "fill_quantity (fill_of clk r inc sy e) = ?q" by (simp add: fill_of_def min.commute)
    then show ?thesis using eff rep False unfolding reports_of_fill_def q Let_def o by simp
  qed
qed

text \<open>The fills of a run one by one with the orders of the queue: whom they are against, within the limit, at which price; and all reports.\<close>

definition fill_against :: "bool \<Rightarrow> Order \<Rightarrow> Fill \<Rightarrow> Order \<Rightarrow> bool" where
  "fill_against ib inc f r \<longleftrightarrow>
     resting_id ib f = order_id r \<and> \<not> beyond_limit ib inc (price r) \<and>
     fill_price f = (if ib then exec_price_of inc r else exec_price_of r inc)"

lemma match_run_reports:
  "match_run clk ib sy inc q idx res e inc' q' idx' res' e' \<Longrightarrow>
     (\<forall>p \<in> set q. remaining_quantity (snd p) \<noteq> 0) \<Longrightarrow>
     \<exists>fs. fills res' = fills res @ fs \<and> execution_reports res' = execution_reports res @ fill_reports ib inc (map snd q) fs \<and>
       length fs \<le> length q \<and> list_all2 (fill_against ib inc) fs (take (length fs) (map snd q))"
proof (induction rule: match_run.induct)
  case (Nil inc idx res e)
  show ?case by (intro exI [of _ "[]"]) simp
next
  case (Stop inc r n q idx res e)
  then show ?case by (intro exI [of _ "[]"]) auto
next
  case (Filled inc r res e inc1 r1 res1 e1 q idx inc' q' idx' res' e' n)
  let ?f = "fill_incoming clk ib sy inc r e"
  have ne: "remaining_quantity inc \<noteq> 0" "remaining_quantity r \<noteq> 0"
    using Filled.hyps(1) Filled.prems by auto
  note keeps = match_incoming_keeps [OF Filled.hyps(3)]
  from Filled.IH Filled.prems obtain fs where IH: "fills res' = fills res1 @ fs"
    "execution_reports res' = execution_reports res1 @ fill_reports ib inc1 (map snd q) fs"
    "length fs \<le> length q" "list_all2 (fill_against ib inc1) fs (take (length fs) (map snd q))"
    by auto
  have "fill_against ib inc1 = fill_against ib inc"
    by (simp add: fill_against_def fun_eq_iff exec_price_of_def keeps beyond_limit_step [OF Filled.hyps(3)])
  moreover have "inc1 = inc\<lparr>remaining_quantity := remaining_quantity inc - fill_quantity ?f\<rparr>"
    by (simp add: match_incoming_orders(1) [OF Filled.hyps(3)] fill_incoming_sel)
  moreover have "fill_against ib inc ?f r"
    using Filled.hyps(2) by (simp add: fill_against_def fill_incoming_sel fill_incoming_price)
  ultimately show ?case
    using IH match_incoming_effect(1) [OF ne Filled.hyps(3)] match_incoming_reports [OF ne Filled.hyps(3)]
    by (intro exI [of _ "?f # fs"]) simp
next
  case (Partial inc r res e inc' r' res' e' n q idx)
  let ?f = "fill_incoming clk ib sy inc r e"
  have ne: "remaining_quantity inc \<noteq> 0" "remaining_quantity r \<noteq> 0"
    using Partial.hyps(1) Partial.prems by auto
  have "fill_against ib inc ?f r"
    using Partial.hyps(2) by (simp add: fill_against_def fill_incoming_sel fill_incoming_price)
  then show ?case
    using match_incoming_effect(1) [OF ne Partial.hyps(3)] match_incoming_reports [OF ne Partial.hyps(3)]
    by (intro exI [of _ "[?f]"]) simp
qed

end
