(* ===== verification/Book_Properties.thy ===== *)
theory Book_Properties
  imports Book_Trade
begin

text \<open>
  The properties of the order book's public operations, stated on \<open>submitOrder\<close>,
  \<open>cancelOrder\<close>, \<open>modifyOrder\<close> and the queries, with a witness on a small book for each
  that has a hypothesis.
\<close>

section \<open>Sequences of operations\<close>

datatype book_op = Submit_op Order | Cancel_op OrderID | Modify_op ModifyRequest

fun book_apply :: "clock \<Rightarrow> book_op \<Rightarrow> OrderBook \<Rightarrow> Env \<Rightarrow> undefined_behaviour + (OrderBook \<times> MatchResult \<times> Env)" where
  "book_apply clk (Submit_op order) b e =
     (case submitOrder clk order None b () e of (res, b', w, e') \<Rightarrow> Inr (b', res, e'))"
| "book_apply clk (Cancel_op oid) b e =
     map_sum id (\<lambda>(found, b', res, w, e'). (b', res, e')) (cancelOrder clk oid None b MatchResult_init () e)"
| "book_apply clk (Modify_op req) b e =
     map_sum id (\<lambda>(found, b', res, w, e'). (b', res, e')) (modifyOrder clk req None b MatchResult_init () e)"

fun book_run :: "clock \<Rightarrow> book_op list \<Rightarrow> OrderBook \<Rightarrow> Env \<Rightarrow> undefined_behaviour + (OrderBook \<times> Env)" where
  "book_run clk [] b e = Inr (b, e)"
| "book_run clk (op # ops) b e =
     (case book_apply clk op b e of Inl ub \<Rightarrow> Inl ub | Inr (b', res, e') \<Rightarrow> book_run clk ops b' e')"

lemma submitOrder_eq:
  "submitOrder clk order lf b w e =
     (case submitOrderInternal clk order b MatchResult_init e of (b', res, e') \<Rightarrow> (res, b', run_log lf w, e'))"
  by (simp add: submitOrder_def Let_def split: prod.splits)

lemma book_apply_inv:
  assumes "book_inv b"
  shows "\<exists>b' res e'. book_apply clk op b e = Inr (b', res, e') \<and> book_inv b'"
proof (cases op)
  case (Submit_op order)
  then show ?thesis
    using submitOrderInternal_inv [OF assms]
    by (cases "submitOrderInternal clk order b MatchResult_init e") (auto simp: submitOrder_eq)
next
  case (Cancel_op oid)
  show ?thesis
    by (rule cancelOrder_inv [OF assms, of clk oid None MatchResult_init "()" e]) (auto simp: Cancel_op)
next
  case (Modify_op req)
  show ?thesis
    by (rule modifyOrder_inv [OF assms, of clk req None MatchResult_init "()" e]) (auto simp: Modify_op)
qed

lemma book_run_inv: "book_inv b \<Longrightarrow> \<exists>b' e'. book_run clk ops b e = Inr (b', e') \<and> book_inv b'"
proof (induction ops arbitrary: b e)
  case Nil
  then show ?case by simp
next
  case (Cons op ops)
  obtain b' res e' where "book_apply clk op b e = Inr (b', res, e')" "book_inv b'"
    using book_apply_inv [OF Cons.prems] by blast
  then show ?case using Cons.IH [of b' e'] by auto
qed

section \<open>Examples for the witnesses\<close>

definition ex_order :: "OrderID \<Rightarrow> Side \<Rightarrow> OrderType \<Rightarrow> Price \<Rightarrow> Quantity \<Rightarrow> Timestamp \<Rightarrow> uint32_t \<Rightarrow> Order" where
  "ex_order oid sd ty p q ts cid = \<lparr>order_id = oid, symbol = ''AAPL'', side = sd, order_type = ty,
     price = p, quantity = q, remaining_quantity = q, timestamp = ts, client_id = cid\<rparr>"

text \<open>Two asks at 100 (ids 1 and 2) and one at 105 (id 3), as three submissions build them.\<close>

definition ex_book :: OrderBook where
  "ex_book = \<lparr>book_symbol = ''AAPL'', buy_orders = [],
     sell_orders = [(100, [(0, ex_order 1 Sell Limit 100 10 1 7), (1, ex_order 2 Sell Limit 100 20 2 8)]),
                    (105, [(2, ex_order 3 Sell Limit 105 30 3 9)])],
     order_index = [1 \<mapsto> \<lparr>ie_side = Sell, price_level = 100, position = 0\<rparr>,
                    2 \<mapsto> \<lparr>ie_side = Sell, price_level = 100, position = 1\<rparr>,
                    3 \<mapsto> \<lparr>ie_side = Sell, price_level = 105, position = 2\<rparr>],
     next_node = 3\<rparr>"

lemma ex_book_inv: "book_inv ex_book"
  by (simp add: book_inv_def ex_book_def ex_order_def levels_ok_def level_ok_def uncrossed_def
      nodes_ok_def index_ok_def entry_ok_def side_nodes_def)

lemma ex_book_indexed: "fully_indexed ex_book"
  by (auto simp: fully_indexed_def resting_ids_def ex_book_def ex_order_def split: if_splits)

section \<open>Safety and refinement\<close>

text \<open>
  C1: Whatever sequence of submissions, cancellations and modifications a fresh book is given
  (ids may repeat, sides and types may be any byte a client sends), no operation ever follows a
  dangling iterator, and the book stays well formed: sorted sides without empty levels, only live
  limit orders at their own price, never crossed, every index entry pointing at its live node.
\<close>

theorem book_operations_safe:
  "\<exists>b' e'. book_run clk ops (OrderBook_init sy) e = Inr (b', e') \<and> book_inv b'"
  by (rule book_run_inv [OF book_inv_init(1)])

lemma submitOrder_run:
  assumes "book_inv b" "submitOrder clk order lf b w e = (res, b', w', e')"
  obtains inc m idx res1 e1 where
    "match_run clk (side order = Buy) (book_symbol b) order (nodes_of (opp_levels (side order = Buy) b))
       (order_index b) MatchResult_init e inc (nodes_of m) idx res1 e1"
    "rest_or_expire clk (side order = Buy) inc (set_opp (side order = Buy) m idx b) res1 e1 = (b', res, e')"
    "\<forall>p \<in> set (nodes_of (opp_levels (side order = Buy) b)). remaining_quantity (snd p) \<noteq> 0"
    "inc = order\<lparr>remaining_quantity := remaining_quantity inc\<rparr>"
proof -
  let ?ib = "side order = Buy"
  have sub: "submitOrderInternal clk order b MatchResult_init e = (b', res, e')"
    using assms(2) by (auto simp: submitOrder_eq split: prod.splits)
  obtain inc m idx res1 e1 where
    run: "match_levels clk ?ib (book_symbol b) order (opp_levels ?ib b) (order_index b) MatchResult_init e
       = (inc, m, idx, res1, e1)"
    and rest: "rest_or_expire clk ?ib inc (set_opp ?ib m idx b) res1 e1 = (b', res, e')"
    and inc: "inc = order\<lparr>remaining_quantity := remaining_quantity inc\<rparr>"
    using assms(1) sub by (rule submitOrderInternal_cases) blast
  have ok: "levels_ok (\<lambda>p q. if ?ib then p < q else p > q) (\<not> ?ib) (opp_levels ?ib b)"
    using assms(1) by (auto simp: book_inv_def opp_levels_def)
  have "remaining_quantity (snd p) \<noteq> 0" if "p \<in> set (nodes_of (opp_levels ?ib b))" for p
    using levels_ok_node(3) [OF ok, of "fst p" "snd p"] that by simp
  then show thesis
    using that match_flat_run [OF match_levels_flat [OF ok run]] rest inc by blast
qed

text \<open>
  C2: A submission refines the abstract book of two priority-ordered lists: on every branch (buy
  or sell, limit or market, filled, rested or expired) the flattened book, the fills and reports,
  the trade-id counter and the clock reads are those of the specification, and the callback has
  run once.
\<close>

theorem submit_refines_priority_lists:
  assumes "book_inv b"
  shows "case submitOrder clk order lf b w e of (res, b', w', e') \<Rightarrow>
    spec_submit clk (book_symbol b) order (abs_book b) MatchResult_init e = (abs_book b', res, e') \<and>
    w' = run_log lf w"
  using submitOrderInternal_refines [OF assms]
  by (auto simp: submitOrder_eq split: prod.splits)

theorem submit_refines_priority_lists_witness:
  "case submitOrder (\<lambda>_. 0) (ex_order 4 Buy Limit 100 15 4 1) (Some Suc) ex_book 0 Env_init of (res, b', w', e') \<Rightarrow>
    spec_submit (\<lambda>_. 0) (book_symbol ex_book) (ex_order 4 Buy Limit 100 15 4 1) (abs_book ex_book) MatchResult_init Env_init
      = (abs_book b', res, e') \<and> w' = run_log (Some Suc) 0"
  by (rule submit_refines_priority_lists [OF ex_book_inv])

section \<open>Price-time priority\<close>

text \<open>The resting orders the incoming order meets, best first.\<close>

definition opposite_queue :: "Order \<Rightarrow> OrderBook \<Rightarrow> Order list" where
  "opposite_queue order b = (if side order = Buy then snd (abs_book b) else fst (abs_book b))"

lemma opposite_queue_nodes: "opposite_queue order b = map snd (nodes_of (opp_levels (side order = Buy) b))"
  by (simp add: opposite_queue_def abs_book_def opp_levels_def)

lemma rest_or_expire_result:
  assumes "rest_or_expire clk ib inc b res e = (b', res', e')"
  shows "fills res' = fills res" and "\<exists>rs. execution_reports res' = execution_reports res @ rs"
    and "counter e' = counter e"
  using assms
  by (auto simp: rest_or_expire_def push_report_def get_current_time_ns_def Let_def split: if_splits)

lemma takeWhile_map_snd: "takeWhile P (map snd xs) = map snd (takeWhile (\<lambda>p. P (snd p)) xs)"
  by (simp add: takeWhile_map comp_def)

text \<open>
  C3: Price-time priority.  The fills of a submission are the greedy allocation of its quantity
  to the opposite orders its limit reaches, in the book's order (best price first, oldest first at
  equal price): the fill quantities and the ids of the resting orders agree one for one, every
  fill is against the incoming order and carries the book's symbol, and the trade ids are the
  next consecutive values of the generator.
\<close>

theorem submit_price_time_priority:
  assumes "book_inv b" and "submitOrder clk order lf b w e = (res, b', w', e')"
  shows "map qty (fills res) = greedy (open_qty order)
      (map open_qty (takeWhile (\<lambda>r. \<not> beyond_limit (side order = Buy) order (price r)) (opposite_queue order b)))
    \<and> map (resting_id (side order = Buy)) (fills res) = take (length (fills res)) (map order_id (opposite_queue order b))
    \<and> (\<forall>f \<in> set (fills res). incoming_id (side order = Buy) f = order_id order \<and> fill_symbol f = book_symbol b)
    \<and> map fill_trade_id (fills res) = map (\<lambda>i. counter e + of_nat i) [0..<length (fills res)]
    \<and> counter e' = counter e + of_nat (length (fills res))"
proof -
  obtain inc m idx res1 e1 where run: "match_run clk (side order = Buy) (book_symbol b) order
      (nodes_of (opp_levels (side order = Buy) b)) (order_index b) MatchResult_init e inc (nodes_of m) idx res1 e1"
    and rest: "rest_or_expire clk (side order = Buy) inc (set_opp (side order = Buy) m idx b) res1 e1 = (b', res, e')"
    and live: "\<forall>p \<in> set (nodes_of (opp_levels (side order = Buy) b)). remaining_quantity (snd p) \<noteq> 0"
    using assms by (rule submitOrder_run) blast
  from match_run_fills [OF run live] show ?thesis
    using rest_or_expire_result(1,3) [OF rest]
    by (auto simp: opposite_queue_nodes takeWhile_map_snd MatchResult_init_def comp_def)
qed

theorem submit_price_time_priority_witness:
  "map qty (fills (fst (submitOrder (\<lambda>_. 0) (ex_order 4 Buy Limit 100 15 4 1) None ex_book () Env_init)))
     = greedy 15 [10, 20]
   \<and> greedy 15 [10, 20] = [10, 5]"
  using submit_price_time_priority [OF ex_book_inv, of "\<lambda>_. 0" "ex_order 4 Buy Limit 100 15 4 1" None "()" Env_init]
  by (cases "submitOrder (\<lambda>_. 0) (ex_order 4 Buy Limit 100 15 4 1) None ex_book () Env_init")
    (simp add: opposite_queue_def abs_book_def ex_book_def ex_order_def beyond_limit_def)

section \<open>Conservation of quantity\<close>

definition depth :: "OrderBook \<Rightarrow> nat" where
  "depth b = sum_list (map open_qty (fst (abs_book b) @ snd (abs_book b)))"

lemma sum_nodes_map_at:
  "sum_list (map f (nodes_of (map_at lt p [] (\<lambda>q. q @ [x]) m))) = f x + sum_list (map (f :: _ \<Rightarrow> nat) (nodes_of m))"
proof -
  have "sum_mset (image_mset f (mset (nodes_of (map_at lt p [] (\<lambda>q. q @ [x]) m)))) =
      f x + sum_mset (image_mset f (mset (nodes_of m)))"
    by (simp add: mset_nodes_map_at)
  then show ?thesis by (simp only: mset_map [symmetric] sum_mset_sum_list)
qed

lemma depth_rest: "depth (rest_buy r b) = open_qty r + depth b" "depth (rest_sell r b) = open_qty r + depth b"
  by (simp_all add: depth_def abs_book_def rest_buy_def rest_sell_def sum_nodes_map_at comp_def)

lemma depth_rest_or_expire:
  assumes "rest_or_expire clk ib inc b res e = (b', res', e')"
  shows "depth b' = depth b + (if order_type inc = Limit then open_qty inc else 0)"
  using assms
  by (auto simp: rest_or_expire_def depth_rest get_current_time_ns_def Let_def split: if_splits)

text \<open>
  C4: No quantity is created or lost.  What an order brings is traded, rests in the book or (for
  an order that is not a limit order) expires: the open quantity of the whole book after a
  submission, plus twice the traded quantity (once for the buyer, once for the seller), plus what
  expires, is the open quantity before plus the order's.  Nobody trades more than the order's
  quantity, although the source subtracts on 32-bit unsigned integers.
\<close>

theorem submit_conserves_quantity:
  assumes "book_inv b" and "submitOrder clk order lf b w e = (res, b', w', e')"
  shows "depth b' + 2 * sum_list (map qty (fills res)) +
      (if order_type order = Limit then 0 else open_qty order - sum_list (map qty (fills res))) =
    depth b + open_qty order \<and> sum_list (map qty (fills res)) \<le> open_qty order"
proof -
  let ?ib = "side order = Buy"
  obtain inc m idx res1 e1 where run: "match_run clk ?ib (book_symbol b) order
      (nodes_of (opp_levels ?ib b)) (order_index b) MatchResult_init e inc (nodes_of m) idx res1 e1"
    and rest: "rest_or_expire clk ?ib inc (set_opp ?ib m idx b) res1 e1 = (b', res, e')"
    and live: "\<forall>p \<in> set (nodes_of (opp_levels ?ib b)). remaining_quantity (snd p) \<noteq> 0"
    and inc: "inc = order\<lparr>remaining_quantity := remaining_quantity inc\<rparr>"
    using assms by (rule submitOrder_run) blast
  have type: "order_type inc = order_type order" by (subst inc) simp
  let ?s = "sum_list (map qty (fills res))"
  have sums: "open_qty inc + ?s = open_qty order"
    "sum_list (map (open_qty \<circ> snd) (nodes_of m)) + ?s = sum_list (map (open_qty \<circ> snd) (nodes_of (opp_levels ?ib b)))"
    using match_run_fills [OF run live] rest_or_expire_result(1) [OF rest] by (auto simp: MatchResult_init_def)
  then have "depth (set_opp ?ib m idx b) + ?s = depth b"
    by (auto simp: depth_def abs_book_def set_opp_def opp_levels_def split: if_splits)
  then show ?thesis
    using sums(1) depth_rest_or_expire [OF rest] by (simp add: type)
qed

theorem submit_conserves_quantity_witness:
  "case submitOrder (\<lambda>_. 0) (ex_order 4 Buy Market 1 70 4 1) None ex_book () Env_init of (res, b', w', e') \<Rightarrow>
     depth b' + 2 * sum_list (map qty (fills res)) + (70 - sum_list (map qty (fills res))) = 60 + 70"
proof -
  let ?o = "ex_order 4 Buy Market 1 70 4 1"
  obtain res b' w' e' where run: "submitOrder (\<lambda>_. 0) ?o None ex_book () Env_init = (res, b', w', e')"
    by (rule prod_cases4)
  have "depth ex_book = 60"
    by (simp add: depth_def abs_book_def ex_book_def ex_order_def)
  moreover have "open_qty ?o = 70" "order_type ?o = Market" by (simp_all add: ex_order_def)
  ultimately show ?thesis
    using submit_conserves_quantity [OF ex_book_inv run] by (auto simp: run)
qed

section \<open>Execution prices\<close>

lemma exec_price_of_cases: "exec_price_of b s = price b \<or> exec_price_of b s = price s"
  by (simp add: exec_price_of_def)

lemma submit_fills_reports:
  assumes "book_inv b" and "submitOrder clk order lf b w e = (res, b', w', e')"
  obtains inc b1 res1 e1 where "rest_or_expire clk (side order = Buy) inc b1 res1 e1 = (b', res, e')"
    "execution_reports res1 = fill_reports (side order = Buy) order (opposite_queue order b) (fills res)"
    "length (fills res) \<le> length (opposite_queue order b)" "fills res1 = fills res"
    "list_all2 (fill_against (side order = Buy) order) (fills res) (take (length (fills res)) (opposite_queue order b))"
proof -
  let ?ib = "side order = Buy"
  obtain inc m idx res1 e1 where run: "match_run clk ?ib (book_symbol b) order
      (nodes_of (opp_levels ?ib b)) (order_index b) MatchResult_init e inc (nodes_of m) idx res1 e1"
    and rest: "rest_or_expire clk ?ib inc (set_opp ?ib m idx b) res1 e1 = (b', res, e')"
    and live: "\<forall>p \<in> set (nodes_of (opp_levels ?ib b)). remaining_quantity (snd p) \<noteq> 0"
    using assms by (rule submitOrder_run) blast
  show thesis
    by (rule that [OF rest])
      (use match_run_reports [OF run live] rest_or_expire_result(1) [OF rest] in \<open>auto simp: MatchResult_init_def opposite_queue_nodes\<close>)
qed

text \<open>
  C5: A limit order never trades through a limit.  The fills of a submitted limit order are against the first
  orders of the opposite side, one by one, each at a price no higher than the buyer's limit and no lower
  than the seller's; when the resting order has the strictly older timestamp it is the resting order's price.
\<close>

theorem submit_limit_prices:
  assumes "book_inv b" and "submitOrder clk order lf b w e = (res, b', w', e')" and "order_type order = Limit"
  shows "list_all2 (\<lambda>f r. resting_id (side order = Buy) f = order_id r \<and>
      (if side order = Buy then price r \<le> fill_price f \<and> fill_price f \<le> price order
       else price order \<le> fill_price f \<and> fill_price f \<le> price r) \<and>
      (timestamp r < timestamp order \<longrightarrow> fill_price f = price r))
    (fills res) (take (length (fills res)) (opposite_queue order b))"
proof -
  have "list_all2 (fill_against (side order = Buy) order) (fills res) (take (length (fills res)) (opposite_queue order b))"
    using assms(1,2) by (rule submit_fills_reports) blast
  then show ?thesis
  proof (rule list_all2_mono)
    fix f r assume "fill_against (side order = Buy) order f r"
    then show "resting_id (side order = Buy) f = order_id r \<and>
      (if side order = Buy then price r \<le> fill_price f \<and> fill_price f \<le> price order
       else price order \<le> fill_price f \<and> fill_price f \<le> price r) \<and>
      (timestamp r < timestamp order \<longrightarrow> fill_price f = price r)"
      using assms(3) exec_price_of_cases [of order r] exec_price_of_cases [of r order]
      by (auto simp: fill_against_def beyond_limit_def exec_price_of_def)
  qed
qed

theorem submit_limit_prices_witness:
  "case submitOrder (\<lambda>_. 0) (ex_order 4 Buy Limit 102 15 4 1) None ex_book () Env_init of (res, b', w', e') \<Rightarrow>
     length (fills res) = 2 \<and>
     list_all2 (\<lambda>f r. price r \<le> fill_price f \<and> fill_price f \<le> 102) (fills res)
       (take 2 (opposite_queue (ex_order 4 Buy Limit 102 15 4 1) ex_book))"
proof -
  let ?o = "ex_order 4 Buy Limit 102 15 4 1"
  obtain res b' w' e' where run: "submitOrder (\<lambda>_. 0) ?o None ex_book () Env_init = (res, b', w', e')"
    by (rule prod_cases4)
  have "length (fills (fst (submitOrder (\<lambda>_. 0) ?o None ex_book () Env_init))) = 2" by code_simp
  then have n: "length (fills res) = 2" by (simp add: run)
  have o: "order_type ?o = Limit" "side ?o = Buy" "price ?o = 102" by (simp_all add: ex_order_def)
  from submit_limit_prices [OF ex_book_inv run o(1)] show ?thesis
    unfolding n o run by (auto intro: list_all2_mono simp: n)
qed

text \<open>
  C13: The execution price follows the client-supplied timestamps, not the order of arrival: the fills of any
  submitted order are against the first orders of the opposite side, one by one, and each is at the price of whichever of the two orders
  has the older timestamp, at the buyer's price when the timestamps are equal.
\<close>

theorem submit_older_timestamp_sets_price:
  assumes "book_inv b" and "submitOrder clk order lf b w e = (res, b', w', e')"
  shows "map fill_price (fills res) =
    map (\<lambda>r. if timestamp r < timestamp order then price r
             else if timestamp order < timestamp r then price order
             else if side order = Buy then price order else price r)
      (take (length (fills res)) (opposite_queue order b))"
proof -
  have "list_all2 (fill_against (side order = Buy) order) (fills res) (take (length (fills res)) (opposite_queue order b))"
    using assms by (rule submit_fills_reports) blast
  then show ?thesis
    by (induction rule: list_all2_induct) (auto simp: fill_against_def exec_price_of_def)
qed

theorem submit_older_timestamp_sets_price_witness:
  "map fill_price (fills (fst (submitOrder (\<lambda>_. 0) (ex_order 4 Buy Market 1 40 2 1) None ex_book () Env_init))) =
     map (\<lambda>r. if timestamp r < 2 then price r else 1) (take 3 (opposite_queue (ex_order 4 Buy Market 1 40 2 1) ex_book))"
proof -
  let ?o = "ex_order 4 Buy Market 1 40 2 1"
  obtain res b' w' e' where run: "submitOrder (\<lambda>_. 0) ?o None ex_book () Env_init = (res, b', w', e')"
    by (rule prod_cases4)
  have "length (fills (fst (submitOrder (\<lambda>_. 0) ?o None ex_book () Env_init))) = 3" by code_simp
  then have n: "length (fills res) = 3" by (simp add: run)
  have o: "timestamp ?o = 2" "price ?o = 1" "side ?o = Buy" by (simp_all add: ex_order_def)
  have "(\<lambda>r. if timestamp r < (2 :: Timestamp) then price r else if 2 < timestamp r then 1 else if Buy = Buy then 1 else price r) =
      (\<lambda>r. if timestamp r < 2 then price r else 1)" by auto
  with submit_older_timestamp_sets_price [OF ex_book_inv run] show ?thesis
    unfolding n o run by simp
qed

section \<open>Reports\<close>

lemma rest_or_expire_reports:
  assumes "rest_or_expire clk ib inc b res e = (b', res', e')"
  shows "execution_reports res' = execution_reports res \<or>
    (\<exists>r. execution_reports res' = execution_reports res @ [r] \<and> rep_order_id r = order_id inc \<and>
       rep_client_id r = client_id inc)"
    and "remaining_quantity inc \<noteq> 0 \<Longrightarrow> order_type inc \<noteq> Limit \<or> remaining_quantity inc = quantity inc \<Longrightarrow>
      execution_reports res' \<noteq> execution_reports res"
  using assms
  by (auto simp: rest_or_expire_def push_report_def new_report_def expired_report_def get_current_time_ns_def
      Let_def split: if_splits)

text \<open>
  C6: The reports of a submission account for its fills: it begins with two reports for each fill, one to the client of the buy order and one
  to the client of the sell order, in the order of the fills; each names its order with its symbol, side, price and quantity, the
  traded quantity, price and time, what remains of the order after all fills so far, and the status \<open>Filled\<close> exactly when nothing does.
  At most one more report follows.
\<close>

theorem submit_reports_every_fill:
  assumes "book_inv b" and "submitOrder clk order lf b w e = (res, b', w', e')"
  shows "\<exists>more. execution_reports res = fill_reports (side order = Buy) order (opposite_queue order b) (fills res) @ more \<and>
    length (fill_reports (side order = Buy) order (opposite_queue order b) (fills res)) = 2 * length (fills res) \<and> length more \<le> 1"
proof -
  obtain inc b1 res1 e1 where "rest_or_expire clk (side order = Buy) inc b1 res1 e1 = (b', res, e')"
    "execution_reports res1 = fill_reports (side order = Buy) order (opposite_queue order b) (fills res)"
    "length (fills res) \<le> length (opposite_queue order b)"
    using assms by (rule submit_fills_reports) blast
  then show ?thesis using rest_or_expire_reports(1) length_fill_reports by fastforce
qed

theorem submit_reports_every_fill_witness:
  "case submitOrder (\<lambda>_. 0) (ex_order 4 Buy Limit 100 35 4 9) None ex_book () Env_init of (res, b', w', e') \<Rightarrow>
     length (fills res) = 2 \<and> map rep_client_id (take 4 (execution_reports res)) =
       map rep_client_id (fill_reports True (ex_order 4 Buy Limit 100 35 4 9) (opposite_queue (ex_order 4 Buy Limit 100 35 4 9) ex_book) (fills res))"
proof -
  let ?o = "ex_order 4 Buy Limit 100 35 4 9"
  obtain res b' w' e' where run: "submitOrder (\<lambda>_. 0) ?o None ex_book () Env_init = (res, b', w', e')"
    by (rule prod_cases4)
  have "length (fills (fst (submitOrder (\<lambda>_. 0) ?o None ex_book () Env_init))) = 2" by code_simp
  then have n: "length (fills res) = 2" by (simp add: run)
  moreover have "side ?o = Buy" by (simp add: ex_order_def)
  ultimately show ?thesis using submit_reports_every_fill [OF ex_book_inv run] by (auto simp: run)
qed

text \<open>
  A submitted order never goes unanswered: for an order with a positive quantity, all of it
  open, the result holds a report to the submitting client about that order (a trade, the
  acknowledgement of a new resting order, or the expiry of an unfilled market order).
\<close>

theorem submit_notifies_submitter:
  assumes "book_inv b" and "submitOrder clk order lf b w e = (res, b', w', e')"
    and "remaining_quantity order = quantity order" and "0 < quantity order"
  shows "\<exists>r \<in> set (execution_reports res). rep_order_id r = order_id order \<and> rep_client_id r = client_id order"
proof -
  let ?ib = "side order = Buy"
  obtain inc m idx res1 e1 where run: "match_run clk ?ib (book_symbol b) order
      (nodes_of (opp_levels ?ib b)) (order_index b) MatchResult_init e inc (nodes_of m) idx res1 e1"
    and rest: "rest_or_expire clk ?ib inc (set_opp ?ib m idx b) res1 e1 = (b', res, e')"
    and live: "\<forall>p \<in> set (nodes_of (opp_levels ?ib b)). remaining_quantity (snd p) \<noteq> 0"
    and inc: "inc = order\<lparr>remaining_quantity := remaining_quantity inc\<rparr>"
    using assms(1,2) by (rule submitOrder_run) blast
  have keeps: "order_id inc = order_id order" "client_id inc = client_id order" "quantity inc = quantity order"
    by (subst inc, simp)+
  show ?thesis
  proof (cases "fills res1 = []")
    case False
    then obtain f fs where fs: "fills res1 = f # fs" by (meson neq_Nil_conv)
    have rs: "execution_reports res1 = fill_reports ?ib order (map snd (nodes_of (opp_levels ?ib b))) (f # fs)"
      "length (f # fs) \<le> length (nodes_of (opp_levels ?ib b))"
      using match_run_reports [OF run live] fs by (auto simp: MatchResult_init_def)
    then obtain p ps where "nodes_of (opp_levels ?ib b) = p # ps" by (cases "nodes_of (opp_levels ?ib b)") auto
    then have "\<exists>r\<in>set (execution_reports res1). rep_order_id r = order_id order \<and> rep_client_id r = client_id order"
      using rs(1) by (auto simp: reports_of_fill_def report_to_owner_def Let_def)
    then show ?thesis using rest_or_expire_reports(1) [OF rest] by auto
  next
    case True
    then have "open_qty inc = open_qty order"
      using match_run_fills [OF run live] by (auto simp: MatchResult_init_def)
    then have "remaining_quantity inc = quantity inc" "remaining_quantity inc \<noteq> 0"
      using assms(3,4) keeps by (auto simp: word_unat_eq_iff)
    then show ?thesis
      using rest_or_expire_reports [OF rest] keeps by auto
  qed
qed

theorem submit_notifies_submitter_witness:
  "\<exists>r \<in> set (execution_reports (fst (submitOrder (\<lambda>_. 0) (ex_order 4 Buy Limit 90 15 4 1) None ex_book () Env_init))).
     rep_order_id r = 4 \<and> rep_client_id r = 1"
proof -
  obtain res b' w' e' where
    run: "submitOrder (\<lambda>_. 0) (ex_order 4 Buy Limit 90 15 4 1) None ex_book () Env_init = (res, b', w', e')"
    by (rule prod_cases4)
  have "remaining_quantity (ex_order 4 Buy Limit 90 15 4 1) = quantity (ex_order 4 Buy Limit 90 15 4 1)"
    "0 < quantity (ex_order 4 Buy Limit 90 15 4 1)"
    by (simp_all add: ex_order_def)
  from submit_notifies_submitter [OF ex_book_inv run this] show ?thesis
    by (simp add: run) (simp add: ex_order_def)
qed

end
