(* ===== verification/Book_Requests.thy ===== *)
theory Book_Requests
  imports Book_Properties
begin

text \<open>
  Cancellation, modification, lookup and the best quotes against the abstract book, for books in
  which resting ids are unique and indexed (\<open>fully_indexed\<close>), and that the operations keep
  books so.
\<close>

section \<open>Lookup by id\<close>

definition spec_lookup :: "OrderID \<Rightarrow> spec_book \<Rightarrow> Order option" where
  "spec_lookup oid s = find (\<lambda>r. order_id r = oid) (fst s @ snd s)"

lemma map_snd_abs: "fst (abs_book b) @ snd (abs_book b) = map snd (bid_nodes b @ ask_nodes b)"
  by (simp add: abs_book_def)

lemma ids_abs: "map order_id (fst (abs_book b) @ snd (abs_book b)) = resting_ids b"
  unfolding map_snd_abs by (simp add: resting_ids_def)

lemma side_nodes_subset: "p \<in> set (side_nodes b sd) \<Longrightarrow> p \<in> set (bid_nodes b @ ask_nodes b)"
  by (auto simp: side_nodes_def split: if_splits)

lemma spec_lookup_node:
  assumes "fully_indexed b" "(pos, r) \<in> set (bid_nodes b @ ask_nodes b)"
  shows "spec_lookup (order_id r) (abs_book b) = Some r"
proof -
  have "r \<in> set (fst (abs_book b) @ snd (abs_book b))"
    unfolding map_snd_abs using assms(2) by force
  moreover have "distinct (map order_id (fst (abs_book b) @ snd (abs_book b)))"
    unfolding ids_abs using assms(1) by (simp add: fully_indexed_def)
  ultimately show ?thesis unfolding spec_lookup_def by (rule find_unique_key [rotated])
qed

lemma spec_lookup_None: "spec_lookup oid (abs_book b) = None \<longleftrightarrow> oid \<notin> set (resting_ids b)"
  unfolding spec_lookup_def find_None_iff ids_abs [symmetric] by auto

lemma index_None: "fully_indexed b \<Longrightarrow> order_index b oid = None \<longleftrightarrow> oid \<notin> set (resting_ids b)"
  by (auto simp: fully_indexed_def)

text \<open>The situation after an entry is found: its order, and the book without it.\<close>

lemma found_entry:
  assumes inv: "book_inv b" and fi: "fully_indexed b" and en: "order_index b oid = Some en"
  obtains b' r where "erase_entry en b = Inr b'" "deref b (position en) = Some r" "order_id r = oid"
    "spec_lookup oid (abs_book b) = Some r" "price r = price_level en" "ie_side en = Buy \<longleftrightarrow> side r = Buy"
    "book_inv (b'\<lparr>order_index := snd (index_remove oid (order_index b'))\<rparr>)"
    "fully_indexed (b'\<lparr>order_index := snd (index_remove oid (order_index b'))\<rparr>)"
    "abs_book (b'\<lparr>order_index := snd (index_remove oid (order_index b'))\<rparr>) = spec_remove oid (abs_book b)"
    "book_symbol b' = book_symbol b"
    "resting_ids (b'\<lparr>order_index := snd (index_remove oid (order_index b'))\<rparr>) = filter (\<lambda>i. i \<noteq> oid) (resting_ids b)"
proof -
  obtain b' r where u: "erase_entry en b = Inr b'" "deref b (position en) = Some r" "order_id r = oid"
    "(position en, r) \<in> set (side_nodes b (ie_side en))" "price r = price_level en"
    "order_index b' = order_index b" "book_symbol b' = book_symbol b"
    "book_inv (b'\<lparr>order_index := snd (index_remove oid (order_index b'))\<rparr>)"
    "bid_nodes b' = filter (\<lambda>p. fst p \<noteq> position en) (bid_nodes b)"
    "ask_nodes b' = filter (\<lambda>p. fst p \<noteq> position en) (ask_nodes b)"
    using inv en by (rule unlist_inv)
  let ?b = "b'\<lparr>order_index := snd (index_remove oid (order_index b'))\<rparr>"
  have "ie_side en = Buy \<longleftrightarrow> side r = Buy"
    using inv u(4) levels_ok_node(4) [of _ True "buy_orders b" "position en" r]
      levels_ok_node(4) [of _ False "sell_orders b" "position en" r]
    by (auto simp: book_inv_def side_nodes_def split: if_splits)
  moreover have node: "(position en, r) \<in> set (bid_nodes b @ ask_nodes b)"
    by (rule side_nodes_subset [OF u(4)])
  moreover have abs: "abs_book ?b = spec_remove oid (abs_book b)"
    "resting_ids ?b = filter (\<lambda>i. i \<noteq> oid) (resting_ids b)"
    using unlist_refines [OF inv fi node, of ?b] u(3,9,10) by simp_all
  moreover have "fully_indexed ?b"
    using fi unfolding fully_indexed_def abs(2)
    by (auto simp: u(6) index_remove_def)
  ultimately show thesis
    using that u spec_lookup_node [OF fi node] by blast
qed

section \<open>Properties\<close>

text \<open>
  Looking an order up by id finds exactly the resting order with that id, in whichever side
  and level it is, and nothing when no such order rests; the iterator is never dangling.
\<close>

theorem query_finds_resting_order:
  assumes "book_inv b" "fully_indexed b"
  shows "queryOrder oid b = Inr (spec_lookup oid (abs_book b))"
proof (cases "order_index b oid")
  case None
  then have "spec_lookup oid (abs_book b) = None"
    using index_None [OF assms(2)] by (simp add: spec_lookup_None)
  then show ?thesis by (simp add: queryOrder_def index_get_def None)
next
  case (Some en)
  then obtain r where "deref b (position en) = Some r" "spec_lookup oid (abs_book b) = Some r"
    by (rule found_entry [OF assms]) blast
  then show ?thesis by (simp add: queryOrder_def index_get_def Some)
qed

theorem query_finds_resting_order_witness:
  "queryOrder 2 ex_book = Inr (Some (ex_order 2 Sell Limit 100 20 2 8)) \<and> queryOrder 9 ex_book = Inr None"
proof -
  have "spec_lookup 2 (abs_book ex_book) = Some (ex_order 2 Sell Limit 100 20 2 8)"
    "spec_lookup 9 (abs_book ex_book) = None"
    by (simp_all add: spec_lookup_def abs_book_def ex_book_def ex_order_def)
  then show ?thesis
    using query_finds_resting_order [OF ex_book_inv ex_book_indexed] by simp
qed

text \<open>
  C9: Cancelling an order removes exactly that order from the abstract book and reports it to the
  client that owns it; cancelling an unknown id returns \<open>False\<close> and changes nothing.  The
  book stays well formed and fully indexed, and the id is free again.
\<close>

theorem cancel_removes_order:
  assumes "book_inv b" "fully_indexed b"
  shows "\<exists>found b' res' e'. cancelOrder clk oid lf b res w e = Inr (found, b', res', run_log lf w, e') \<and>
    (found \<longleftrightarrow> spec_lookup oid (abs_book b) \<noteq> None) \<and> abs_book b' = spec_remove oid (abs_book b) \<and>
    book_inv b' \<and> fully_indexed b' \<and> oid \<notin> set (resting_ids b') \<and> fills res' = fills res \<and>
    (case spec_lookup oid (abs_book b) of
       None \<Rightarrow> b' = b \<and> res' = res \<and> e' = e
     | Some r \<Rightarrow> (\<exists>rep. execution_reports res' = execution_reports res @ [rep] \<and> rep_status rep = Cancelled \<and>
         rep_order_id rep = oid \<and> rep_client_id rep = client_id r \<and> rep_price rep = price r))"
proof (cases "order_index b oid")
  case None
  then have no: "oid \<notin> set (resting_ids b)" using index_None [OF assms(2)] by simp
  then have "\<forall>r \<in> set (fst (abs_book b) @ snd (abs_book b)). order_id r \<noteq> oid"
    unfolding ids_abs [symmetric] by auto
  then have "spec_remove oid (abs_book b) = abs_book b"
    by (simp add: spec_remove_def)
  then show ?thesis
    using None no assms spec_lookup_None [of oid b]
    by (intro exI [of _ False] exI [of _ b] exI [of _ res] exI [of _ e]) (simp add: cancelOrder_def index_get_def)
next
  case (Some en)
  obtain b' r where u: "erase_entry en b = Inr b'" "deref b (position en) = Some r"
    "spec_lookup oid (abs_book b) = Some r" "price r = price_level en"
    "book_inv (b'\<lparr>order_index := snd (index_remove oid (order_index b'))\<rparr>)"
    "fully_indexed (b'\<lparr>order_index := snd (index_remove oid (order_index b'))\<rparr>)"
    "abs_book (b'\<lparr>order_index := snd (index_remove oid (order_index b'))\<rparr>) = spec_remove oid (abs_book b)"
    "resting_ids (b'\<lparr>order_index := snd (index_remove oid (order_index b'))\<rparr>) = filter (\<lambda>i. i \<noteq> oid) (resting_ids b)"
    by (rule found_entry [OF assms Some]) blast
  then show ?thesis
    by (auto simp: cancelOrder_def index_get_def Some get_current_time_ns_def push_report_def
        cancelled_report_def ExecutionReport_init_def)
qed

theorem cancel_removes_order_witness:
  "\<exists>found b' res' e'. cancelOrder (\<lambda>_. 0) 2 None ex_book MatchResult_init () Env_init = Inr (found, b', res', (), e') \<and>
     found \<and> abs_book b' = ([], [ex_order 1 Sell Limit 100 10 1 7, ex_order 3 Sell Limit 105 30 3 9])"
proof -
  have "spec_lookup 2 (abs_book ex_book) \<noteq> None"
    "spec_remove 2 (abs_book ex_book) = ([], [ex_order 1 Sell Limit 100 10 1 7, ex_order 3 Sell Limit 105 30 3 9])"
    by (simp_all add: spec_lookup_def spec_remove_def abs_book_def ex_book_def ex_order_def)
  then show ?thesis
    using cancel_removes_order [OF ex_book_inv ex_book_indexed, of "\<lambda>_. 0" 2 None MatchResult_init "()" Env_init]
    by auto
qed

text \<open>
  C10: A modification is a removal followed by a fresh submission: the order leaves the book,
  gets the requested price, quantity and timestamp with nothing filled, and is matched and rested
  like a new order (so it loses its time priority); an unknown id returns \<open>False\<close> and changes
  nothing.  The book stays well formed and fully indexed.
\<close>

theorem modify_is_remove_then_submit:
  assumes "book_inv b" "fully_indexed b"
  shows "\<exists>found b' res' e'. modifyOrder clk req lf b res w e = Inr (found, b', res', run_log lf w, e') \<and>
    book_inv b' \<and> fully_indexed b' \<and>
    (case spec_lookup (mreq_order_id req) (abs_book b) of
       None \<Rightarrow> \<not> found \<and> b' = b \<and> res' = res \<and> e' = e
     | Some r \<Rightarrow> found \<and>
         spec_submit clk (book_symbol b)
           (r\<lparr>price := mreq_price req, quantity := mreq_quantity req,
              remaining_quantity := mreq_quantity req, timestamp := mreq_timestamp req\<rparr>)
           (spec_remove (mreq_order_id req) (abs_book b)) res e = (abs_book b', res', e'))"
proof (cases "order_index b (mreq_order_id req)")
  case None
  then have "spec_lookup (mreq_order_id req) (abs_book b) = None"
    using index_None [OF assms(2)] by (simp add: spec_lookup_None)
  then show ?thesis
    using assms None
    by (intro exI [of _ False] exI [of _ b] exI [of _ res] exI [of _ e]) (simp add: modifyOrder_def index_get_def)
next
  case (Some en)
  let ?oid = "mreq_order_id req"
  obtain b' r where u: "erase_entry en b = Inr b'" "deref b (position en) = Some r" "order_id r = ?oid"
    "spec_lookup ?oid (abs_book b) = Some r" "book_symbol b' = book_symbol b"
    and inv: "book_inv (b'\<lparr>order_index := snd (index_remove ?oid (order_index b'))\<rparr>)"
    and fi: "fully_indexed (b'\<lparr>order_index := snd (index_remove ?oid (order_index b'))\<rparr>)"
    and abs: "abs_book (b'\<lparr>order_index := snd (index_remove ?oid (order_index b'))\<rparr>) = spec_remove ?oid (abs_book b)"
    and ids: "resting_ids (b'\<lparr>order_index := snd (index_remove ?oid (order_index b'))\<rparr>) = filter (\<lambda>i. i \<noteq> ?oid) (resting_ids b)"
    by (rule found_entry [OF assms Some]) blast
  let ?b = "b'\<lparr>order_index := snd (index_remove ?oid (order_index b'))\<rparr>"
  let ?r = "r\<lparr>price := mreq_price req, quantity := mreq_quantity req,
     remaining_quantity := mreq_quantity req, timestamp := mreq_timestamp req\<rparr>"
  obtain b3 res' e' where sub: "submitOrderInternal clk ?r ?b res e = (b3, res', e')"
    by (rule prod_cases3)
  have fresh: "order_id ?r \<notin> set (resting_ids ?b)"
    unfolding ids by (simp add: u(3))
  show ?thesis
    using u sub submitOrderInternal_inv [OF inv sub] submitOrderInternal_indexed(1) [OF inv fi fresh sub]
      submitOrderInternal_refines [OF inv sub] abs
    by (intro exI [of _ True] exI [of _ b3] exI [of _ res'] exI [of _ e'])
      (simp add: modifyOrder_def index_get_def Some Let_def)
qed

theorem modify_is_remove_then_submit_witness:
  "\<exists>found b' res' e'. modifyOrder (\<lambda>_. 0) \<lparr>mreq_order_id = 1, mreq_symbol = ''AAPL'', mreq_price = 100,
      mreq_quantity = 10, mreq_timestamp = 9, mreq_client_id = 7\<rparr> None ex_book MatchResult_init () Env_init
      = Inr (found, b', res', (), e') \<and> found \<and>
     abs_book b' = ([], [ex_order 2 Sell Limit 100 20 2 8, ex_order 1 Sell Limit 100 10 9 7, ex_order 3 Sell Limit 105 30 3 9])"
proof -
  let ?req = "\<lparr>mreq_order_id = 1, mreq_symbol = ''AAPL'', mreq_price = 100,
      mreq_quantity = 10, mreq_timestamp = 9, mreq_client_id = 7\<rparr>"
  have l: "spec_lookup 1 (abs_book ex_book) = Some (ex_order 1 Sell Limit 100 10 1 7)"
    and r: "spec_remove 1 (abs_book ex_book) = ([], [ex_order 2 Sell Limit 100 20 2 8, ex_order 3 Sell Limit 105 30 3 9])"
    by (simp_all add: spec_lookup_def spec_remove_def abs_book_def ex_book_def ex_order_def)
  have "fst (spec_submit (\<lambda>_. 0) ''AAPL'' (ex_order 1 Sell Limit 100 10 9 7)
      ([], [ex_order 2 Sell Limit 100 20 2 8, ex_order 3 Sell Limit 105 30 3 9]) MatchResult_init Env_init)
    = ([], [ex_order 2 Sell Limit 100 20 2 8, ex_order 1 Sell Limit 100 10 9 7, ex_order 3 Sell Limit 105 30 3 9])"
    by (simp add: spec_submit_def spec_rest_def spec_insert_def at_least_as_good_def ex_order_def get_current_time_ns_def)
  moreover have "book_symbol ex_book = ''AAPL''" by (simp add: ex_book_def)
  ultimately show ?thesis
    using modify_is_remove_then_submit [OF ex_book_inv ex_book_indexed, of "\<lambda>_. 0" ?req None MatchResult_init "()" Env_init]
    by (auto simp: l r ex_order_def)
qed

section \<open>Best quotes\<close>

lemma book_inv_quotes:
  assumes "book_inv b"
  shows "r \<in> set (fst (abs_book b)) \<Longrightarrow> price r \<le> bestBid b"
    and "r \<in> set (snd (abs_book b)) \<Longrightarrow> bestAsk b \<le> price r"
    and "fst (abs_book b) \<noteq> [] \<Longrightarrow> bestBid b \<in> fst ` set (buy_orders b)"
    and "snd (abs_book b) \<noteq> [] \<Longrightarrow> bestAsk b \<in> fst ` set (sell_orders b)"
proof -
  have bk: "price r \<in> fst ` set (buy_orders b)" if "r \<in> set (fst (abs_book b))"
    using assms that levels_ok_node(1) [of _ True "buy_orders b" _ r] by (force simp: book_inv_def abs_book_def)
  have ak: "price r \<in> fst ` set (sell_orders b)" if "r \<in> set (snd (abs_book b))"
    using assms that levels_ok_node(1) [of _ False "sell_orders b" _ r] by (force simp: book_inv_def abs_book_def)
  show "price r \<le> bestBid b" if "r \<in> set (fst (abs_book b))"
    using bk [OF that] assms by (cases "buy_orders b") (auto simp: bestBid_def book_inv_def levels_ok_Cons)
  show "bestAsk b \<le> price r" if "r \<in> set (snd (abs_book b))"
    using ak [OF that] assms by (cases "sell_orders b") (auto simp: bestAsk_def book_inv_def levels_ok_Cons)
  show "bestBid b \<in> fst ` set (buy_orders b)" if "fst (abs_book b) \<noteq> []"
    using that by (cases "buy_orders b") (auto simp: bestBid_def abs_book_def)
  show "bestAsk b \<in> fst ` set (sell_orders b)" if "snd (abs_book b) \<noteq> []"
    using that by (cases "sell_orders b") (auto simp: bestAsk_def abs_book_def)
qed

text \<open>
  In every book that a sequence of operations can produce, the best bid is the highest
  resting buy price, the best ask the lowest resting sell price, and when both sides have orders
  the best bid is strictly below the best ask.
\<close>

theorem best_quotes:
  assumes "book_run clk ops (OrderBook_init sy) e = Inr (b, e')"
  shows "(\<forall>r \<in> set (fst (abs_book b)). price r \<le> bestBid b) \<and>
    (\<forall>r \<in> set (snd (abs_book b)). bestAsk b \<le> price r) \<and>
    (fst (abs_book b) \<noteq> [] \<and> snd (abs_book b) \<noteq> [] \<longrightarrow> bestBid b < bestAsk b)"
proof -
  have inv: "book_inv b"
    using book_run_inv [OF book_inv_init(1), of clk ops sy e] assms by auto
  then have "uncrossed b" by (simp add: book_inv_def)
  then show ?thesis
    using book_inv_quotes [OF inv] unfolding uncrossed_def by blast
qed

text \<open>A book with a bid at 90 and an ask at 100.\<close>

theorem best_quotes_witness:
  "\<exists>b e'. book_run (\<lambda>_. 0) [Submit_op (ex_order 1 Buy Limit 90 5 1 1), Submit_op (ex_order 2 Sell Limit 100 5 2 2)]
      (OrderBook_init ''AAPL'') Env_init = Inr (b, e') \<and>
     bestBid b = 90 \<and> bestAsk b = 100 \<and> (\<forall>r \<in> set (fst (abs_book b)). price r \<le> 90)"
proof -
  let ?ops = "[Submit_op (ex_order 1 Buy Limit 90 5 1 1), Submit_op (ex_order 2 Sell Limit 100 5 2 2)]"
  obtain b e' where run: "book_run (\<lambda>_. 0) ?ops (OrderBook_init ''AAPL'') Env_init = Inr (b, e')"
    using book_run_inv [OF book_inv_init(1)] by blast
  moreover have "bestBid b = 90 \<and> bestAsk b = 100"
    using run by (auto simp: submitOrder_eq submitOrderInternal_def rest_or_expire_def rest_buy_def rest_sell_def
        OrderBook_init_def ex_order_def get_current_time_ns_def bestBid_def bestAsk_def beyond_limit_def Let_def)
  ultimately show ?thesis
    using best_quotes [OF run] by auto
qed

end
