(* ===== verification/Safe_Queue.thy ===== *)
theory Safe_Queue
  imports Types
begin

text \<open>
  \<^verbatim>\<open>src/threadpool/safe_queue.hpp\<close>: the bounded blocking queue of the thread pool.  The first
  part has one function per operation: what a thread that holds the mutex does between two waits
  (a call that has to wait is the value \<open>Waits\<close>).  The second part runs any number of threads
  on one queue: a wait on a condition variable releases the mutex, \<^verbatim>\<open>notify_one\<close> wakes one
  waiting thread, and a thread may wake for no reason.  The invariants show that the capacity is
  never exceeded, that items leave in the order they entered and none is lost or duplicated, and
  that no wake-up is lost.
\<close>

section \<open>The operations under the mutex\<close>

record 'a SafeQueue =
  sq_queue :: "'a list"
  max_capacity :: nat
  shutdown :: bool

datatype 'r outcome = Waits | Returns 'r

definition SafeQueue_init :: "nat \<Rightarrow> 'a SafeQueue" where
  "SafeQueue_init capacity = \<lparr>sq_queue = [], max_capacity = capacity, shutdown = False\<rparr>"

definition sq_enqueue :: "'a \<Rightarrow> 'a SafeQueue \<Rightarrow> (bool \<times> 'a SafeQueue) outcome" where
  "sq_enqueue item q =
     (if length (sq_queue q) \<ge> max_capacity q \<and> \<not> shutdown q then Waits
      else if shutdown q then Returns (False, q)
      else Returns (True, q\<lparr>sq_queue := sq_queue q @ [item]\<rparr>))"

definition sq_dequeue :: "'a SafeQueue \<Rightarrow> ('a option \<times> 'a SafeQueue) outcome" where
  "sq_dequeue q =
     (if sq_queue q = [] \<and> \<not> shutdown q then Waits
      else if sq_queue q = [] \<and> shutdown q then Returns (None, q)
      else Returns (Some (hd (sq_queue q)), q\<lparr>sq_queue := tl (sq_queue q)\<rparr>))"

text \<open>The result of \<open>sq_close\<close> says whether this call set the flag, and so has to notify.\<close>

definition sq_close :: "'a SafeQueue \<Rightarrow> bool \<times> 'a SafeQueue" where
  "sq_close q = (if shutdown q then (False, q) else (True, q\<lparr>shutdown := True\<rparr>))"

definition sq_size :: "'a SafeQueue \<Rightarrow> nat" where
  "sq_size q = length (sq_queue q)"

definition sq_empty :: "'a SafeQueue \<Rightarrow> bool" where
  "sq_empty q \<longleftrightarrow> sq_queue q = []"

lemma sq_enqueue_cases:
  assumes "sq_enqueue x q = Returns (ok, q')"
  obtains "shutdown q" "\<not> ok" "q' = q"
  | "\<not> shutdown q" "ok" "length (sq_queue q) < max_capacity q" "q' = q\<lparr>sq_queue := sq_queue q @ [x]\<rparr>"
  using assms by (auto simp: sq_enqueue_def split: if_splits)

lemma sq_dequeue_cases:
  assumes "sq_dequeue q = Returns (r, q')"
  obtains "shutdown q" "sq_queue q = []" "r = None" "q' = q"
  | x xs where "sq_queue q = x # xs" "r = Some x" "q' = q\<lparr>sq_queue := xs\<rparr>"
  using assms by (cases "sq_queue q") (auto simp: sq_dequeue_def split: if_splits)

lemma sq_waits_iff:
  "sq_enqueue x q = Waits \<longleftrightarrow> length (sq_queue q) \<ge> max_capacity q \<and> \<not> shutdown q"
  "sq_dequeue q = Waits \<longleftrightarrow> sq_queue q = [] \<and> \<not> shutdown q"
  by (auto simp: sq_enqueue_def sq_dequeue_def)

section \<open>The queue as a contract\<close>

text \<open>
  What a client that never waits relies on: the contents are a list, an accepted item goes to its
  end, a taken item comes from its front, and a closed queue accepts nothing.
\<close>

locale fifo =
  fixes contents :: "'q \<Rightarrow> 'a list"
    and put :: "'a \<Rightarrow> 'q \<Rightarrow> bool \<times> 'q"
    and take_front :: "'q \<Rightarrow> 'a option \<times> 'q"
    and usable :: "'q \<Rightarrow> bool"
  assumes put_accepts: "usable q \<Longrightarrow> put x q = (True, q') \<Longrightarrow> usable q' \<and> contents q' = contents q @ [x]"
    and put_refuses: "usable q \<Longrightarrow> put x q = (False, q') \<Longrightarrow> usable q' \<and> contents q' = contents q"
    and take_some: "usable q \<Longrightarrow> take_front q = (Some x, q') \<Longrightarrow> usable q' \<and> contents q = x # contents q'"
    and take_none: "usable q \<Longrightarrow> take_front q = (None, q') \<Longrightarrow> usable q' \<and> contents q = [] \<and> contents q' = []"
begin

text \<open>Putting a list of items and taking until the queue is empty.\<close>

fun put_all :: "'a list \<Rightarrow> 'q \<Rightarrow> 'a list \<times> 'q" where
  "put_all [] q = ([], q)"
| "put_all (x # xs) q =
     (case put x q of (ok, q') \<Rightarrow> case put_all xs q' of (acc, q'') \<Rightarrow> (if ok then x # acc else acc, q''))"

fun take_n :: "nat \<Rightarrow> 'q \<Rightarrow> 'a list \<times> 'q" where
  "take_n 0 q = ([], q)"
| "take_n (Suc n) q =
     (case take_front q of
        (None, q') \<Rightarrow> ([], q')
      | (Some x, q') \<Rightarrow> (case take_n n q' of (xs, q'') \<Rightarrow> (x # xs, q'')))"

lemma put_all_contents:
  "usable q \<Longrightarrow> put_all xs q = (acc, q') \<Longrightarrow> usable q' \<and> contents q' = contents q @ acc"
proof (induction xs arbitrary: q acc)
  case (Cons x xs)
  obtain ok q1 where p: "put x q = (ok, q1)" by fastforce
  obtain acc1 where r: "put_all xs q1 = (acc1, q')" "acc = (if ok then x # acc1 else acc1)"
    using Cons.prems(2) p by (auto split: prod.splits)
  have "usable q1 \<and> contents q1 = contents q @ (if ok then [x] else [])"
    using put_accepts [OF Cons.prems(1)] put_refuses [OF Cons.prems(1)] p by (cases ok) auto
  then show ?case using Cons.IH [OF _ r(1)] r(2) by auto
qed simp

lemma take_n_contents:
  "usable q \<Longrightarrow> take_n n q = (xs, q') \<Longrightarrow> usable q' \<and> contents q = xs @ contents q' \<and> xs = take n (contents q)"
proof (induction n arbitrary: q xs)
  case (Suc n)
  obtain r q1 where t: "take_front q = (r, q1)" by fastforce
  show ?case
  proof (cases r)
    case None
    then show ?thesis using Suc.prems take_none [OF Suc.prems(1)] t by auto
  next
    case (Some x)
    then obtain ys where y: "take_n n q1 = (ys, q')" "xs = x # ys"
      using Suc.prems(2) t by (auto split: prod.splits)
    have "usable q1 \<and> contents q = x # contents q1" using take_some [OF Suc.prems(1)] t Some by simp
    moreover from this have "usable q' \<and> contents q1 = ys @ contents q' \<and> ys = take n (contents q1)"
      using Suc.IH [OF _ y(1)] by blast
    ultimately show ?thesis unfolding y(2) by (metis append_Cons take_Suc_Cons)
  qed
qed simp

lemma put_then_take:
  assumes "usable q" "put_all xs q = (acc, q1)" "take_n (length (contents q) + length acc) q1 = (ys, q2)"
  shows "ys = contents q @ acc \<and> contents q2 = []"
proof -
  have "usable q1" "contents q1 = contents q @ acc" using put_all_contents [OF assms(1,2)] by auto
  then have "contents q @ acc = ys @ contents q2" "ys = take (length (contents q) + length acc) (contents q @ acc)"
    using take_n_contents [OF _ assms(3)] by metis+
  moreover from this(2) have "ys = contents q @ acc" by simp
  ultimately show ?thesis by simp
qed

end

text \<open>The queue of the pool, polled: a call that would wait gives up instead.\<close>

definition sq_poll_put :: "'a \<Rightarrow> 'a SafeQueue \<Rightarrow> bool \<times> 'a SafeQueue" where
  "sq_poll_put x q = (case sq_enqueue x q of Waits \<Rightarrow> (False, q) | Returns r \<Rightarrow> r)"

definition sq_poll_take :: "'a SafeQueue \<Rightarrow> 'a option \<times> 'a SafeQueue" where
  "sq_poll_take q = (case sq_dequeue q of Waits \<Rightarrow> (None, q) | Returns r \<Rightarrow> r)"

interpretation safe_queue: fifo sq_queue sq_poll_put sq_poll_take
  "\<lambda>q. length (sq_queue q) \<le> max_capacity q"
proof
  fix q q' :: "'a SafeQueue" and x
  assume "length (sq_queue q) \<le> max_capacity q" "sq_poll_take q = (Some x, q')"
  then show "length (sq_queue q') \<le> max_capacity q' \<and> sq_queue q = x # sq_queue q'"
    by (cases "sq_queue q") (auto simp: sq_poll_take_def sq_dequeue_def split: if_splits)
qed (auto simp: sq_poll_put_def sq_poll_take_def sq_enqueue_def sq_dequeue_def split: if_splits)

section \<open>Threads on the queue\<close>

text \<open>
  What each thread does: it is about to take the mutex inside a call (\<open>Enq_ready\<close>,
  \<open>Deq_ready\<close>, \<open>Close_ready\<close>), asleep on a condition variable (\<open>Enq_wait\<close> on
  \<^verbatim>\<open>cond_push_\<close>, \<open>Deq_wait\<close> on \<^verbatim>\<open>cond_pop_\<close>), past the locked part of
  \<^verbatim>\<open>close\<close> with its two \<^verbatim>\<open>notify_all\<close> calls ahead (\<open>Close_pop\<close>, \<open>Close_push\<close>), or
  outside with the result of its last call.
\<close>

datatype 'a thread =
    Outside
  | Enq_ready 'a
  | Enq_wait 'a
  | Enq_returned bool
  | Deq_ready
  | Deq_wait
  | Deq_returned "'a option"
  | Close_ready
  | Close_pop
  | Close_push

record 'a SQ_system =
  sq :: "'a SafeQueue"
  threads :: "'a thread list"
  entered :: "'a list"
  left :: "'a list"

fun is_enq_ready :: "'a thread \<Rightarrow> bool" where
  "is_enq_ready (Enq_ready x) = True" | "is_enq_ready _ = False"

fun is_enq_wait :: "'a thread \<Rightarrow> bool" where
  "is_enq_wait (Enq_wait x) = True" | "is_enq_wait _ = False"

fun outside :: "'a thread \<Rightarrow> bool" where
  "outside Outside = True" | "outside (Enq_returned b) = True" | "outside (Deq_returned r) = True" | "outside _ = False"

fun wake :: "'a thread \<Rightarrow> 'a thread" where
  "wake (Enq_wait x) = Enq_ready x" | "wake Deq_wait = Deq_ready" | "wake t = t"

text \<open>
  \<^verbatim>\<open>notify_one\<close>: some waiting thread (any of them) wakes; without one nothing happens.
  \<^verbatim>\<open>notify_all\<close>: all of them wake.
\<close>

inductive notify_one :: "('a thread \<Rightarrow> bool) \<Rightarrow> 'a thread list \<Rightarrow> 'a thread list \<Rightarrow> bool" for W where
  wakes: "i < length ts \<Longrightarrow> W (ts ! i) \<Longrightarrow> notify_one W ts (ts[i := wake (ts ! i)])"
| nobody: "(\<And>t. t \<in> set ts \<Longrightarrow> \<not> W t) \<Longrightarrow> notify_one W ts ts"

definition notify_all :: "('a thread \<Rightarrow> bool) \<Rightarrow> 'a thread list \<Rightarrow> 'a thread list" where
  "notify_all W ts = map (\<lambda>t. if W t then wake t else t) ts"

abbreviation is_deq_wait :: "'a thread \<Rightarrow> bool" where
  "is_deq_wait t \<equiv> t = Deq_wait"

inductive sq_step :: "'a SQ_system \<Rightarrow> 'a SQ_system \<Rightarrow> bool" where
  call_enqueue: "i < length (threads s) \<Longrightarrow> outside (threads s ! i) \<Longrightarrow>
     sq_step s (s\<lparr>threads := (threads s)[i := Enq_ready x]\<rparr>)"
| call_dequeue: "i < length (threads s) \<Longrightarrow> outside (threads s ! i) \<Longrightarrow>
     sq_step s (s\<lparr>threads := (threads s)[i := Deq_ready]\<rparr>)"
| call_close: "i < length (threads s) \<Longrightarrow> outside (threads s ! i) \<Longrightarrow>
     sq_step s (s\<lparr>threads := (threads s)[i := Close_ready]\<rparr>)"
| enqueue_waits: "i < length (threads s) \<Longrightarrow> threads s ! i = Enq_ready x \<Longrightarrow> sq_enqueue x (sq s) = Waits \<Longrightarrow>
     sq_step s (s\<lparr>threads := (threads s)[i := Enq_wait x]\<rparr>)"
| enqueue_refused: "i < length (threads s) \<Longrightarrow> threads s ! i = Enq_ready x \<Longrightarrow>
     sq_enqueue x (sq s) = Returns (False, q') \<Longrightarrow>
     sq_step s (s\<lparr>sq := q', threads := (threads s)[i := Enq_returned False]\<rparr>)"
| enqueue_pushes: "i < length (threads s) \<Longrightarrow> threads s ! i = Enq_ready x \<Longrightarrow>
     sq_enqueue x (sq s) = Returns (True, q') \<Longrightarrow>
     notify_one is_deq_wait ((threads s)[i := Enq_returned True]) ts \<Longrightarrow>
     sq_step s (s\<lparr>sq := q', threads := ts, entered := entered s @ [x]\<rparr>)"
| dequeue_waits: "i < length (threads s) \<Longrightarrow> threads s ! i = Deq_ready \<Longrightarrow> sq_dequeue (sq s) = Waits \<Longrightarrow>
     sq_step s (s\<lparr>threads := (threads s)[i := Deq_wait]\<rparr>)"
| dequeue_ends: "i < length (threads s) \<Longrightarrow> threads s ! i = Deq_ready \<Longrightarrow>
     sq_dequeue (sq s) = Returns (None, q') \<Longrightarrow>
     sq_step s (s\<lparr>sq := q', threads := (threads s)[i := Deq_returned None]\<rparr>)"
| dequeue_pops: "i < length (threads s) \<Longrightarrow> threads s ! i = Deq_ready \<Longrightarrow>
     sq_dequeue (sq s) = Returns (Some x, q') \<Longrightarrow>
     notify_one is_enq_wait ((threads s)[i := Deq_returned (Some x)]) ts \<Longrightarrow>
     sq_step s (s\<lparr>sq := q', threads := ts, left := left s @ [x]\<rparr>)"
| close_again: "i < length (threads s) \<Longrightarrow> threads s ! i = Close_ready \<Longrightarrow> sq_close (sq s) = (False, q') \<Longrightarrow>
     sq_step s (s\<lparr>sq := q', threads := (threads s)[i := Outside]\<rparr>)"
| close_first: "i < length (threads s) \<Longrightarrow> threads s ! i = Close_ready \<Longrightarrow> sq_close (sq s) = (True, q') \<Longrightarrow>
     sq_step s (s\<lparr>sq := q', threads := (threads s)[i := Close_pop]\<rparr>)"
| notify_pop: "i < length (threads s) \<Longrightarrow> threads s ! i = Close_pop \<Longrightarrow>
     sq_step s (s\<lparr>threads := notify_all is_deq_wait ((threads s)[i := Close_push])\<rparr>)"
| notify_push: "i < length (threads s) \<Longrightarrow> threads s ! i = Close_push \<Longrightarrow>
     sq_step s (s\<lparr>threads := notify_all is_enq_wait ((threads s)[i := Outside])\<rparr>)"
| spurious: "i < length (threads s) \<Longrightarrow> sq_step s (s\<lparr>threads := (threads s)[i := wake (threads s ! i)]\<rparr>)"

definition sq_system :: "nat \<Rightarrow> nat \<Rightarrow> 'a SQ_system" where
  "sq_system n capacity = \<lparr>sq = SafeQueue_init capacity, threads = replicate n Outside, entered = [], left = []\<rparr>"

inductive sq_reachable :: "nat \<Rightarrow> nat \<Rightarrow> 'a SQ_system \<Rightarrow> bool" for n capacity where
  initial: "sq_reachable n capacity (sq_system n capacity)"
| later: "sq_reachable n capacity s \<Longrightarrow> sq_step s s' \<Longrightarrow> sq_reachable n capacity s'"

section \<open>Counting threads\<close>

definition n_of :: "('a thread \<Rightarrow> bool) \<Rightarrow> 'a thread list \<Rightarrow> nat" where
  "n_of P ts = length (filter P ts)"

lemma n_of_update:
  "i < length ts \<Longrightarrow> n_of P (ts[i := v]) + (if P (ts ! i) then 1 else 0) = n_of P ts + (if P v then 1 else 0)"
proof (induction ts arbitrary: i)
  case (Cons t ts)
  show ?case
  proof (cases i)
    case (Suc j)
    then show ?thesis using Cons.IH [of j] Cons.prems by (simp add: n_of_def)
  qed (simp add: n_of_def)
qed simp

lemma n_of_pos: "0 < n_of P ts \<longleftrightarrow> (\<exists>t \<in> set ts. P t)"
  by (auto simp: n_of_def filter_empty_conv)

abbreviation "deq_waiting ts \<equiv> n_of is_deq_wait ts"
abbreviation "deq_ready ts \<equiv> n_of (\<lambda>t. t = Deq_ready) ts"
abbreviation "enq_waiting ts \<equiv> n_of is_enq_wait ts"
abbreviation "enq_ready ts \<equiv> n_of is_enq_ready ts"
abbreviation "closing_pop ts \<equiv> n_of (\<lambda>t. t = Close_pop) ts"
abbreviation "closing_push ts \<equiv> n_of (\<lambda>t. t = Close_push) ts"

text \<open>The six counts the invariant speaks of, and how each way of changing a thread moves them.\<close>

definition tally :: "'a thread list \<Rightarrow> nat \<times> nat \<times> nat \<times> nat \<times> nat \<times> nat" where
  "tally ts = (deq_waiting ts, deq_ready ts, enq_waiting ts, enq_ready ts, closing_pop ts, closing_push ts)"

lemma is_enq_waitE: "is_enq_wait t \<Longrightarrow> (\<And>x. t = Enq_wait x \<Longrightarrow> P) \<Longrightarrow> P"
  by (cases t) auto

lemma notify_one_pop:
  assumes "notify_one is_deq_wait ts ts'"
  shows "deq_waiting ts' = deq_waiting ts - 1" "deq_ready ts' = deq_ready ts + min 1 (deq_waiting ts)"
    "enq_waiting ts' = enq_waiting ts" "enq_ready ts' = enq_ready ts"
    "closing_pop ts' = closing_pop ts" "closing_push ts' = closing_push ts" "length ts' = length ts"
proof -
  have "deq_waiting ts' = deq_waiting ts - 1 \<and> deq_ready ts' = deq_ready ts + min 1 (deq_waiting ts) \<and>
    enq_waiting ts' = enq_waiting ts \<and> enq_ready ts' = enq_ready ts \<and>
    closing_pop ts' = closing_pop ts \<and> closing_push ts' = closing_push ts \<and> length ts' = length ts"
    using assms
  proof cases
    case (wakes i)
    have "0 < deq_waiting ts" using wakes(2,3) nth_mem [of i ts] by (auto simp: n_of_pos)
    then show ?thesis
      using wakes n_of_update [of i ts is_deq_wait Deq_ready] n_of_update [of i ts "\<lambda>t. t = Deq_ready" Deq_ready]
        n_of_update [of i ts is_enq_wait Deq_ready] n_of_update [of i ts is_enq_ready Deq_ready]
        n_of_update [of i ts "\<lambda>t. t = Close_pop" Deq_ready] n_of_update [of i ts "\<lambda>t. t = Close_push" Deq_ready]
      by (simp add: min_def)
  next
    case nobody
    then have "deq_waiting ts = 0" using n_of_pos [of is_deq_wait ts] by auto
    then show ?thesis using nobody by simp
  qed
  then show "deq_waiting ts' = deq_waiting ts - 1" "deq_ready ts' = deq_ready ts + min 1 (deq_waiting ts)"
    "enq_waiting ts' = enq_waiting ts" "enq_ready ts' = enq_ready ts"
    "closing_pop ts' = closing_pop ts" "closing_push ts' = closing_push ts" "length ts' = length ts"
    by simp_all
qed

lemma notify_one_push:
  assumes "notify_one is_enq_wait ts ts'"
  shows "enq_waiting ts' = enq_waiting ts - 1" "enq_ready ts' = enq_ready ts + min 1 (enq_waiting ts)"
    "deq_waiting ts' = deq_waiting ts" "deq_ready ts' = deq_ready ts"
    "closing_pop ts' = closing_pop ts" "closing_push ts' = closing_push ts" "length ts' = length ts"
proof -
  have "enq_waiting ts' = enq_waiting ts - 1 \<and> enq_ready ts' = enq_ready ts + min 1 (enq_waiting ts) \<and>
    deq_waiting ts' = deq_waiting ts \<and> deq_ready ts' = deq_ready ts \<and>
    closing_pop ts' = closing_pop ts \<and> closing_push ts' = closing_push ts \<and> length ts' = length ts"
    using assms
  proof cases
    case (wakes i)
    obtain x where x: "ts ! i = Enq_wait x" using wakes(3) by (rule is_enq_waitE)
    have "0 < enq_waiting ts" using wakes(2,3) nth_mem [of i ts] by (auto simp: n_of_pos)
    then show ?thesis
      using wakes x n_of_update [of i ts is_deq_wait "Enq_ready x"] n_of_update [of i ts "\<lambda>t. t = Deq_ready" "Enq_ready x"]
        n_of_update [of i ts is_enq_wait "Enq_ready x"] n_of_update [of i ts is_enq_ready "Enq_ready x"]
        n_of_update [of i ts "\<lambda>t. t = Close_pop" "Enq_ready x"] n_of_update [of i ts "\<lambda>t. t = Close_push" "Enq_ready x"]
      by (simp add: min_def)
  next
    case nobody
    then have "enq_waiting ts = 0" using n_of_pos [of is_enq_wait ts] by auto
    then show ?thesis using nobody by simp
  qed
  then show "enq_waiting ts' = enq_waiting ts - 1" "enq_ready ts' = enq_ready ts + min 1 (enq_waiting ts)"
    "deq_waiting ts' = deq_waiting ts" "deq_ready ts' = deq_ready ts"
    "closing_pop ts' = closing_pop ts" "closing_push ts' = closing_push ts" "length ts' = length ts"
    by simp_all
qed

lemma wake_awake [simp]: "\<not> is_enq_wait (wake t)" "wake t \<noteq> Deq_wait"
  by (cases t; simp)+

lemma n_of_notify_all:
  "(\<And>t. P (if W t then wake t else t) = Q t) \<Longrightarrow> n_of P (notify_all W ts) = n_of Q ts"
  by (simp add: n_of_def notify_all_def filter_map comp_def)

lemma notify_all_asleep [simp]:
  "deq_waiting (notify_all is_deq_wait ts) = 0" "enq_waiting (notify_all is_enq_wait ts) = 0"
  by (auto simp: n_of_def notify_all_def filter_empty_conv)

lemma notify_all_others [simp]:
  "enq_waiting (notify_all is_deq_wait ts) = enq_waiting ts" "deq_waiting (notify_all is_enq_wait ts) = deq_waiting ts"
  "closing_pop (notify_all is_deq_wait ts) = closing_pop ts" "closing_push (notify_all is_deq_wait ts) = closing_push ts"
  "closing_pop (notify_all is_enq_wait ts) = closing_pop ts" "closing_push (notify_all is_enq_wait ts) = closing_push ts"
  "enq_ready (notify_all is_deq_wait ts) = enq_ready ts" "deq_ready (notify_all is_enq_wait ts) = deq_ready ts"
  by (rule n_of_notify_all, rename_tac t, case_tac t, simp_all)+

lemma counts_update:
  assumes "i < length ts"
  shows "n_of P (ts[i := v]) = n_of P ts + of_bool (P v) - of_bool (P (ts ! i))"
    and "of_bool (P (ts ! i)) \<le> n_of P ts"
proof -
  show "of_bool (P (ts ! i)) \<le> n_of P ts"
    using assms n_of_pos [of P ts] nth_mem [OF assms] by (cases "n_of P ts") auto
  then show "n_of P (ts[i := v]) = n_of P ts + of_bool (P v) - of_bool (P (ts ! i))"
    using n_of_update [OF assms, of P v] by (auto split: if_splits)
qed

section \<open>The invariant\<close>

definition sq_fifo_inv :: "nat \<Rightarrow> 'a SQ_system \<Rightarrow> bool" where
  "sq_fifo_inv capacity s \<longleftrightarrow> max_capacity (sq s) = capacity \<and> length (sq_queue (sq s)) \<le> capacity \<and>
     entered s = left s @ sq_queue (sq s)"

definition sq_wake_inv :: "'a SQ_system \<Rightarrow> bool" where
  "sq_wake_inv s \<longleftrightarrow>
     (\<not> shutdown (sq s) \<longrightarrow> 0 < deq_waiting (threads s) \<longrightarrow> length (sq_queue (sq s)) \<le> deq_ready (threads s)) \<and>
     (\<not> shutdown (sq s) \<longrightarrow> 0 < enq_waiting (threads s) \<longrightarrow>
        max_capacity (sq s) \<le> length (sq_queue (sq s)) + enq_ready (threads s)) \<and>
     (shutdown (sq s) \<longrightarrow> 0 < deq_waiting (threads s) \<longrightarrow> 0 < closing_pop (threads s)) \<and>
     (shutdown (sq s) \<longrightarrow> 0 < enq_waiting (threads s) \<longrightarrow> 0 < closing_pop (threads s) + closing_push (threads s))"

lemma sq_step_fifo: "sq_step s s' \<Longrightarrow> sq_fifo_inv capacity s \<Longrightarrow> sq_fifo_inv capacity s'"
proof (induction rule: sq_step.induct)
  case (enqueue_pushes i s x q' ts)
  then show ?case by (auto simp: sq_fifo_inv_def elim!: sq_enqueue_cases)
next
  case (dequeue_pops i s x q' ts)
  then show ?case by (auto simp: sq_fifo_inv_def elim!: sq_dequeue_cases)
qed (auto simp: sq_fifo_inv_def sq_close_def elim!: sq_enqueue_cases sq_dequeue_cases split: if_splits)

lemma outside_uncounted:
  "outside t \<Longrightarrow> t \<noteq> Deq_wait \<and> t \<noteq> Deq_ready \<and> \<not> is_enq_wait t \<and> \<not> is_enq_ready t \<and> t \<noteq> Close_pop \<and> t \<noteq> Close_push"
  by (cases t) auto

lemma sq_step_wake: "sq_step s s' \<Longrightarrow> sq_wake_inv s \<Longrightarrow> sq_wake_inv s'"
proof (induction rule: sq_step.induct)
  case (call_enqueue i s x)
  then show ?case using outside_uncounted [OF call_enqueue(2)] by (auto simp: sq_wake_inv_def counts_update)
next
  case (call_dequeue i s)
  then show ?case using outside_uncounted [OF call_dequeue(2)] by (auto simp: sq_wake_inv_def counts_update)
next
  case (call_close i s)
  then show ?case using outside_uncounted [OF call_close(2)] by (simp add: sq_wake_inv_def counts_update)
next
  case (enqueue_waits i s x)
  then show ?case by (auto simp: sq_wake_inv_def counts_update sq_waits_iff)
next
  case (enqueue_refused i s x q')
  then show ?case by (elim sq_enqueue_cases) (auto simp: sq_wake_inv_def counts_update)
next
  case (enqueue_pushes i s x q' ts)
  then show ?case
    by (elim sq_enqueue_cases) (auto simp: sq_wake_inv_def counts_update notify_one_pop)
next
  case (dequeue_waits i s)
  then show ?case by (auto simp: sq_wake_inv_def counts_update sq_waits_iff)
next
  case (dequeue_ends i s q')
  then show ?case by (elim sq_dequeue_cases) (auto simp: sq_wake_inv_def counts_update)
next
  case (dequeue_pops i s x q' ts)
  then show ?case
    by (elim sq_dequeue_cases) (auto simp: sq_wake_inv_def counts_update notify_one_push)
next
  case (close_again i s q')
  then show ?case by (auto simp: sq_wake_inv_def counts_update sq_close_def split: if_splits)
next
  case (close_first i s q')
  then show ?case by (auto simp: sq_wake_inv_def counts_update sq_close_def split: if_splits)
next
  case (notify_pop i s)
  then show ?case by (simp add: sq_wake_inv_def counts_update)
next
  case (notify_push i s)
  then show ?case by (auto simp: sq_wake_inv_def counts_update)
next
  case (spurious i s)
  then show ?case
    by (cases "threads s ! i") (auto simp: sq_wake_inv_def counts_update)
qed

lemma sq_reachable_inv: "sq_reachable n capacity s \<Longrightarrow> sq_fifo_inv capacity s \<and> sq_wake_inv s"
proof (induction rule: sq_reachable.induct)
  case initial
  show ?case
    by (simp add: sq_fifo_inv_def sq_wake_inv_def sq_system_def SafeQueue_init_def n_of_def)
next
  case (later s s')
  then show ?case using sq_step_fifo sq_step_wake by blast
qed

section \<open>Properties\<close>

text \<open>
  C23: Under any interleaving of enqueuing, dequeuing and closing threads the queue never holds more
  than its capacity, and the items taken out so far followed by the items still queued are exactly
  the items put in, in that order: none is lost, duplicated or overtaken.
\<close>

theorem safe_queue_fifo:
  assumes "sq_reachable n capacity s"
  shows "length (sq_queue (sq s)) \<le> capacity \<and> entered s = left s @ sq_queue (sq s)"
  using sq_reachable_inv [OF assms] by (simp add: sq_fifo_inv_def)

text \<open>A consumer that found the queue empty and went to sleep, beside an idle thread.\<close>

definition ex_asleep :: "nat SQ_system" where
  "ex_asleep = \<lparr>sq = SafeQueue_init 1, threads = [Deq_wait, Outside], entered = [], left = []\<rparr>"

lemma ex_asleep_reachable: "sq_reachable 2 1 ex_asleep"
proof -
  let ?s0 = "sq_system 2 1 :: nat SQ_system"
  let ?s1 = "?s0\<lparr>threads := (threads ?s0)[0 := Deq_ready]\<rparr>"
  have "sq_step ?s0 ?s1" by (rule call_dequeue) (simp_all add: sq_system_def numeral_2_eq_2)
  moreover have "sq_step ?s1 (?s1\<lparr>threads := (threads ?s1)[0 := Deq_wait]\<rparr>)"
    by (rule dequeue_waits) (simp_all add: sq_system_def numeral_2_eq_2 sq_dequeue_def SafeQueue_init_def)
  moreover have "?s1\<lparr>threads := (threads ?s1)[0 := Deq_wait]\<rparr> = ex_asleep"
    by (simp add: ex_asleep_def sq_system_def numeral_2_eq_2)
  ultimately show ?thesis by (metis initial later)
qed

text \<open>The idle thread then puts an item into the queue, which wakes the consumer.\<close>

definition ex_filled :: "nat SQ_system" where
  "ex_filled = \<lparr>sq = (SafeQueue_init 1)\<lparr>sq_queue := [5]\<rparr>, threads = [Deq_ready, Enq_returned True], entered = [5], left = []\<rparr>"

lemma ex_filled_reachable: "sq_reachable 2 1 ex_filled"
proof -
  let ?s1 = "ex_asleep\<lparr>threads := (threads ex_asleep)[1 := Enq_ready 5]\<rparr>"
  let ?q = "(SafeQueue_init 1)\<lparr>sq_queue := [5]\<rparr>"
  have "sq_step ex_asleep ?s1" by (rule call_enqueue) (simp_all add: ex_asleep_def)
  moreover have "notify_one is_deq_wait ((threads ?s1)[1 := Enq_returned True]) [Deq_ready, Enq_returned True]"
    using notify_one.wakes [of 0 "[Deq_wait, Enq_returned True]" is_deq_wait] by (simp add: ex_asleep_def)
  then have "sq_step ?s1 (?s1\<lparr>sq := ?q, threads := [Deq_ready, Enq_returned True], entered := entered ?s1 @ [5]\<rparr>)"
    by (intro enqueue_pushes [of 1 _ 5]) (simp_all add: ex_asleep_def sq_enqueue_def SafeQueue_init_def)
  moreover have "?s1\<lparr>sq := ?q, threads := [Deq_ready, Enq_returned True], entered := entered ?s1 @ [5]\<rparr> = ex_filled"
    by (simp add: ex_asleep_def ex_filled_def)
  ultimately show ?thesis by (metis ex_asleep_reachable later)
qed

theorem safe_queue_fifo_witness:
  "length (sq_queue (sq ex_filled)) \<le> 1 \<and> entered ex_filled = left ex_filled @ sq_queue (sq ex_filled) \<and> sq_queue (sq ex_filled) = [5]"
  using safe_queue_fifo [OF ex_filled_reachable] by (simp add: ex_filled_def)

text \<open>
  C24: No wake-up is lost: when every thread is either outside or asleep, a producer sleeps only
  while the queue is open and full, and a consumer only while it is open and empty.
\<close>

theorem safe_queue_no_lost_wakeup:
  assumes "sq_reachable n capacity s"
    and "\<forall>t \<in> set (threads s). outside t \<or> is_enq_wait t \<or> is_deq_wait t"
  shows "((\<exists>t \<in> set (threads s). is_enq_wait t) \<longrightarrow> length (sq_queue (sq s)) = capacity \<and> \<not> shutdown (sq s)) \<and>
    ((\<exists>t \<in> set (threads s). is_deq_wait t) \<longrightarrow> sq_queue (sq s) = [] \<and> \<not> shutdown (sq s))"
proof -
  have none: "n_of P (threads s) = 0" if "\<And>t. outside t \<or> is_enq_wait t \<or> is_deq_wait t \<Longrightarrow> \<not> P t" for P
    using assms(2) that n_of_pos [of P "threads s"] by auto
  have "enq_ready (threads s) = 0" "deq_ready (threads s) = 0" "closing_pop (threads s) = 0" "closing_push (threads s) = 0"
    by (rule none, auto dest: outside_uncounted elim: is_enq_waitE)+
  then show ?thesis
    using sq_reachable_inv [OF assms(1)] n_of_pos [of is_enq_wait "threads s"] n_of_pos [of is_deq_wait "threads s"]
    by (auto simp: sq_fifo_inv_def sq_wake_inv_def)
qed

theorem safe_queue_no_lost_wakeup_witness: "sq_queue (sq ex_asleep) = [] \<and> \<not> shutdown (sq ex_asleep)"
proof -
  have "\<forall>t \<in> set (threads ex_asleep). outside t \<or> is_enq_wait t \<or> is_deq_wait t"
    by (simp add: ex_asleep_def)
  from safe_queue_no_lost_wakeup [OF ex_asleep_reachable this] show ?thesis
    by (simp add: ex_asleep_def)
qed

end
