(* ===== verification/Mpsc_Queue.thy ===== *)
theory Mpsc_Queue
  imports Safe_Queue
begin

text \<open>
  \<^verbatim>\<open>src/pipeline/mpsc_queue.hpp\<close>: the lock-free queue with many producers and one consumer.  Nodes
  live in a heap: \<open>cells\<close> maps the address of a live node to its value, \<^verbatim>\<open>delete\<close> removes it, and
  following a pointer to a dead node is \<open>Inl Use_after_free\<close>.  The value of the stub and of a node
  whose data was moved out is \<open>None\<close>.  Each access to shared memory is a function of its own;
  \<open>mpsc_enqueue\<close> and \<open>mpsc_dequeue\<close> compose them without interruption, and
  \<open>mpsc_step\<close> interleaves them freely.  All atomic operations of the class are sequentially
  consistent (the default memory order), so an interleaving is a sequence of them.
\<close>

section \<open>Nodes and the queue\<close>

type_synonym addr = nat

record 'a Node =
  node_data :: "'a option"
  node_next :: "addr option"

record 'a MPSCQueue =
  cells :: "addr \<rightharpoonup> 'a Node"
  brk :: addr
  tail :: addr
  head :: addr
  closed :: bool

definition next_of :: "'a MPSCQueue \<Rightarrow> addr \<Rightarrow> addr option" where
  "next_of q a = (case cells q a of None \<Rightarrow> None | Some n \<Rightarrow> node_next n)"

definition value_of :: "'a MPSCQueue \<Rightarrow> addr \<Rightarrow> 'a option" where
  "value_of q a = (case cells q a of None \<Rightarrow> None | Some n \<Rightarrow> node_data n)"

definition MPSCQueue_init :: "'a MPSCQueue" where
  "MPSCQueue_init = \<lparr>cells = [0 \<mapsto> \<lparr>node_data = None, node_next = None\<rparr>], brk = 1, tail = 0, head = 0, closed = False\<rparr>"

section \<open>The accesses\<close>

text \<open>\<open>mpsc_new a v\<close> is \<^verbatim>\<open>new Node(val)\<close> at an address \<open>a\<close> that is not live.\<close>

definition mpsc_new :: "addr \<Rightarrow> 'a \<Rightarrow> 'a MPSCQueue \<Rightarrow> 'a MPSCQueue" where
  "mpsc_new a v q = q\<lparr>cells := (cells q)(a \<mapsto> \<lparr>node_data = Some v, node_next = None\<rparr>), brk := max (brk q) (Suc a)\<rparr>"

definition mpsc_exchange :: "addr \<Rightarrow> 'a MPSCQueue \<Rightarrow> addr \<times> 'a MPSCQueue" where
  "mpsc_exchange new_node q = (tail q, q\<lparr>tail := new_node\<rparr>)"

definition mpsc_link :: "addr \<Rightarrow> addr \<Rightarrow> 'a MPSCQueue \<Rightarrow> undefined_behaviour + 'a MPSCQueue" where
  "mpsc_link prev_tail new_node q =
     (case cells q prev_tail of
        None \<Rightarrow> Inl Use_after_free
      | Some n \<Rightarrow> Inr (q\<lparr>cells := (cells q)(prev_tail \<mapsto> n\<lparr>node_next := Some new_node\<rparr>)\<rparr>))"

definition mpsc_load_next :: "addr \<Rightarrow> 'a MPSCQueue \<Rightarrow> undefined_behaviour + addr option" where
  "mpsc_load_next a q = (case cells q a of None \<Rightarrow> Inl Use_after_free | Some n \<Rightarrow> Inr (node_next n))"

definition mpsc_advance :: "addr \<Rightarrow> 'a MPSCQueue \<Rightarrow> undefined_behaviour + ('a \<times> 'a MPSCQueue)" where
  "mpsc_advance nxt q =
     (case cells q nxt of
        None \<Rightarrow> Inl Use_after_free
      | Some n \<Rightarrow>
          (case node_data n of
             None \<Rightarrow> Inl Moved_from_read
           | Some v \<Rightarrow> Inr (v, q\<lparr>cells := (cells q)(nxt \<mapsto> n\<lparr>node_data := None\<rparr>), head := nxt\<rparr>)))"

definition mpsc_delete :: "addr \<Rightarrow> 'a MPSCQueue \<Rightarrow> undefined_behaviour + 'a MPSCQueue" where
  "mpsc_delete a q =
     (if cells q a = None then Inl Use_after_free else Inr (q\<lparr>cells := (cells q)(a := None)\<rparr>))"

section \<open>The operations\<close>

definition mpsc_enqueue :: "'a \<Rightarrow> 'a MPSCQueue \<Rightarrow> undefined_behaviour + (bool \<times> 'a MPSCQueue)" where
  "mpsc_enqueue v q =
     (if closed q then Inr (False, q)
      else
        let new_node = brk q;
            (prev_tail, q') = mpsc_exchange new_node (mpsc_new new_node v q)
        in map_sum id (\<lambda>q''. (True, q'')) (mpsc_link prev_tail new_node q'))"

definition mpsc_dequeue :: "'a MPSCQueue \<Rightarrow> undefined_behaviour + ('a option \<times> 'a MPSCQueue)" where
  "mpsc_dequeue q =
     (case mpsc_load_next (head q) q of
        Inl ub \<Rightarrow> Inl ub
      | Inr None \<Rightarrow> Inr (None, q)
      | Inr (Some nxt) \<Rightarrow>
          (case mpsc_advance nxt q of
             Inl ub \<Rightarrow> Inl ub
           | Inr (v, q') \<Rightarrow> map_sum id (\<lambda>q''. (Some v, q'')) (mpsc_delete (head q) q')))"

definition mpsc_close :: "'a MPSCQueue \<Rightarrow> 'a MPSCQueue" where
  "mpsc_close q = q\<lparr>closed := True\<rparr>"

definition mpsc_empty :: "'a MPSCQueue \<Rightarrow> undefined_behaviour + bool" where
  "mpsc_empty q = map_sum id (\<lambda>n. n = None) (mpsc_load_next (head q) q)"

text \<open>
  The destructor: it drains the queue and frees the last node.  The loop follows \<open>next\<close> pointers
  of a finite heap; \<open>None\<close> would be a loop that never ends.
\<close>

partial_function (option) mpsc_drain ::
  "'a MPSCQueue \<Rightarrow> (undefined_behaviour + 'a MPSCQueue) option" where
  "mpsc_drain q =
     (case mpsc_dequeue q of
        Inl ub \<Rightarrow> Some (Inl ub)
      | Inr (item, q') \<Rightarrow> (if item = None then Some (Inr q') else mpsc_drain q'))"

definition MPSCQueue_destroy :: "'a MPSCQueue \<Rightarrow> (undefined_behaviour + 'a MPSCQueue) option" where
  "MPSCQueue_destroy q =
     map_option (\<lambda>r. case r of Inl ub \<Rightarrow> Inl ub | Inr q' \<Rightarrow> mpsc_delete (head q') q') (mpsc_drain (mpsc_close q))"

section \<open>Producers and the consumer\<close>

text \<open>
  Where a producer is inside \<^verbatim>\<open>enqueue\<close>: before the test of \<open>closed\<close>, before the allocation,
  holding its private node before the exchange, or between the exchange and the store that links
  the node.  The consumer is before the move of the data or before the \<^verbatim>\<open>delete\<close>.
\<close>

datatype 'a producer = P_out | P_check 'a | P_alloc 'a | P_swing 'a addr | P_link addr addr | P_returned bool

datatype 'a consumer = C_out | C_got addr addr | C_free addr 'a

record 'a MPSC_system =
  mq :: "'a MPSCQueue"
  producers :: "nat \<Rightarrow> 'a producer"
  consumer :: "'a consumer"
  mq_entered :: "'a list"
  mq_left :: "'a list"

fun p_idle :: "'a producer \<Rightarrow> bool" where
  "p_idle P_out = True" | "p_idle (P_returned b) = True" | "p_idle _ = False"

inductive mpsc_step :: "'a MPSC_system \<Rightarrow> 'a MPSC_system \<Rightarrow> bool" where
  call: "p_idle (producers s i) \<Longrightarrow> mpsc_step s (s\<lparr>producers := (producers s)(i := P_check v)\<rparr>)"
| refused: "producers s i = P_check v \<Longrightarrow> closed (mq s) \<Longrightarrow>
     mpsc_step s (s\<lparr>producers := (producers s)(i := P_returned False)\<rparr>)"
| admitted: "producers s i = P_check v \<Longrightarrow> \<not> closed (mq s) \<Longrightarrow>
     mpsc_step s (s\<lparr>producers := (producers s)(i := P_alloc v)\<rparr>)"
| allocate: "producers s i = P_alloc v \<Longrightarrow> cells (mq s) a = None \<Longrightarrow>
     mpsc_step s (s\<lparr>mq := mpsc_new a v (mq s), producers := (producers s)(i := P_swing v a)\<rparr>)"
| exchange: "producers s i = P_swing v a \<Longrightarrow> mpsc_exchange a (mq s) = (p, q') \<Longrightarrow>
     mpsc_step s (s\<lparr>mq := q', producers := (producers s)(i := P_link p a), mq_entered := mq_entered s @ [v]\<rparr>)"
| link: "producers s i = P_link p a \<Longrightarrow> mpsc_link p a (mq s) = Inr q' \<Longrightarrow>
     mpsc_step s (s\<lparr>mq := q', producers := (producers s)(i := P_returned True)\<rparr>)"
| load: "consumer s = C_out \<Longrightarrow> mpsc_load_next (head (mq s)) (mq s) = Inr (Some n) \<Longrightarrow>
     mpsc_step s (s\<lparr>consumer := C_got (head (mq s)) n\<rparr>)"
| load_null: "consumer s = C_out \<Longrightarrow> mpsc_load_next (head (mq s)) (mq s) = Inr None \<Longrightarrow> mpsc_step s s"
| advance: "consumer s = C_got h n \<Longrightarrow> mpsc_advance n (mq s) = Inr (v, q') \<Longrightarrow>
     mpsc_step s (s\<lparr>mq := q', consumer := C_free h v, mq_left := mq_left s @ [v]\<rparr>)"
| delete: "consumer s = C_free h v \<Longrightarrow> mpsc_delete h (mq s) = Inr q' \<Longrightarrow>
     mpsc_step s (s\<lparr>mq := q', consumer := C_out\<rparr>)"
| close_it: "mpsc_step s (s\<lparr>mq := mpsc_close (mq s)\<rparr>)"

definition mpsc_system :: "'a MPSC_system" where
  "mpsc_system = \<lparr>mq = MPSCQueue_init, producers = \<lambda>_. P_out, consumer = C_out, mq_entered = [], mq_left = []\<rparr>"

inductive mpsc_reachable :: "'a MPSC_system \<Rightarrow> bool" where
  mpsc_initial: "mpsc_reachable mpsc_system"
| mpsc_later: "mpsc_reachable s \<Longrightarrow> mpsc_step s s' \<Longrightarrow> mpsc_reachable s'"

section \<open>The chain of nodes\<close>

text \<open>
  The nodes from \<open>head\<close> to \<open>tail\<close> in the order of the exchanges form a chain; a link of it is missing exactly
  while its producer is between exchange and store.
\<close>

definition adjacent :: "'a list \<Rightarrow> ('a \<times> 'a) set" where
  "adjacent c = set (zip c (tl c))"

definition chain_ok :: "'a MPSCQueue \<Rightarrow> (nat \<Rightarrow> 'a producer) \<Rightarrow> addr list \<Rightarrow> bool" where
  "chain_ok q ps c \<longleftrightarrow> c \<noteq> [] \<and> hd c = head q \<and> last c = tail q \<and> distinct c \<and>
     (\<forall>a \<in> set c. cells q a \<noteq> None) \<and>
     (\<forall>a b. (a, b) \<in> adjacent c \<longrightarrow> next_of q a = (if \<exists>i. ps i = P_link a b then None else Some b)) \<and>
     next_of q (last c) = None \<and> (\<forall>a. cells q a \<noteq> None \<longrightarrow> a < brk q)"

definition producers_ok :: "'a MPSCQueue \<Rightarrow> (nat \<Rightarrow> 'a producer) \<Rightarrow> addr list \<Rightarrow> bool" where
  "producers_ok q ps c \<longleftrightarrow>
     (\<forall>i p a. ps i = P_link p a \<longrightarrow> (p, a) \<in> adjacent c) \<and>
     (\<forall>i j p a b. ps i = P_link p a \<longrightarrow> ps j = P_link p b \<longrightarrow> i = j) \<and>
     (\<forall>i v a. ps i = P_swing v a \<longrightarrow> cells q a = Some \<lparr>node_data = Some v, node_next = None\<rparr> \<and> a \<notin> set c) \<and>
     (\<forall>i j v w a. ps i = P_swing v a \<longrightarrow> ps j = P_swing w a \<longrightarrow> i = j)"

definition consumer_ok :: "'a MPSCQueue \<Rightarrow> (nat \<Rightarrow> 'a producer) \<Rightarrow> 'a consumer \<Rightarrow> addr list \<Rightarrow> bool" where
  "consumer_ok q ps cs c \<longleftrightarrow>
     (case cs of
        C_out \<Rightarrow> True
      | C_got h n \<Rightarrow> (\<exists>r. c = h # n # r) \<and> next_of q h = Some n
      | C_free h v \<Rightarrow> cells q h \<noteq> None \<and> h \<notin> set c \<and> (\<forall>i w. ps i \<noteq> P_swing w h))"

definition mpsc_inv ::
  "'a MPSCQueue \<Rightarrow> (nat \<Rightarrow> 'a producer) \<Rightarrow> 'a consumer \<Rightarrow> 'a list \<Rightarrow> 'a list \<Rightarrow> addr list \<Rightarrow> bool" where
  "mpsc_inv q ps cs es ls c \<longleftrightarrow> chain_ok q ps c \<and> producers_ok q ps c \<and> consumer_ok q ps cs c \<and>
     map Some es = map Some ls @ map (value_of q) (tl c)"

lemma adjacent_simps [simp]:
  "adjacent [] = {}" "adjacent [a] = {}" "adjacent (a # b # c) = insert (a, b) (adjacent (b # c))"
  by (simp_all add: adjacent_def)

lemma adjacent_snoc: "c \<noteq> [] \<Longrightarrow> adjacent (c @ [a]) = insert (last c, a) (adjacent c)"
  by (induction c rule: induct_list012) auto

lemma adjacent_mem: "(x, b) \<in> adjacent c \<Longrightarrow> x \<in> set c \<and> b \<in> set c"
  by (induction c rule: induct_list012) auto

lemma adjacent_not_last: "distinct c \<Longrightarrow> (x, b) \<in> adjacent c \<Longrightarrow> x \<noteq> last c"
  by (induction c rule: induct_list012) auto

lemma adjacent_unique: "distinct c \<Longrightarrow> (x, b) \<in> adjacent c \<Longrightarrow> (x, b') \<in> adjacent c \<Longrightarrow> b = b'"
proof (induction c rule: induct_list012)
  case (3 y z zs)
  then show ?case using adjacent_mem [of x _ "z # zs"] by auto
qed auto

lemma producers_okI:
  assumes "\<And>i p a. ps i = P_link p a \<Longrightarrow> (p, a) \<in> adjacent c"
    and "\<And>i j p a b. ps i = P_link p a \<Longrightarrow> ps j = P_link p b \<Longrightarrow> i = j"
    and "\<And>i v a. ps i = P_swing v a \<Longrightarrow> cells q a = Some \<lparr>node_data = Some v, node_next = None\<rparr>"
    and "\<And>i v a. ps i = P_swing v a \<Longrightarrow> a \<notin> set c"
    and "\<And>i j v w a. ps i = P_swing v a \<Longrightarrow> ps j = P_swing w a \<Longrightarrow> i = j"
  shows "producers_ok q ps c"
  using assms unfolding producers_ok_def by blast

lemma producers_okD:
  assumes "mpsc_inv q ps cs es ls c"
  shows "ps i = P_link p a \<Longrightarrow> (p, a) \<in> adjacent c"
    and "ps i = P_link p a \<Longrightarrow> ps j = P_link p b \<Longrightarrow> i = j"
    and "ps i = P_swing v a \<Longrightarrow> cells q a = Some \<lparr>node_data = Some v, node_next = None\<rparr>"
    and "ps i = P_swing v a \<Longrightarrow> a \<notin> set c"
    and "ps i = P_swing v a \<Longrightarrow> ps j = P_swing w a \<Longrightarrow> i = j"
  using assms unfolding mpsc_inv_def producers_ok_def by blast+

lemma chain_okD:
  assumes "mpsc_inv q ps cs es ls c"
  shows "c \<noteq> []" "hd c = head q" "last c = tail q" "distinct c" "next_of q (tail q) = None"
    "x \<in> set c \<Longrightarrow> \<exists>n. cells q x = Some n" "cells q x = Some n \<Longrightarrow> x < brk q"
    "(x, b) \<in> adjacent c \<Longrightarrow> next_of q x = (if \<exists>i. ps i = P_link x b then None else Some b)"
  using assms unfolding mpsc_inv_def chain_ok_def by auto

lemma mpsc_inv_idle:
  assumes "mpsc_inv q ps cs es ls c"
    and "\<And>p a. ps i \<noteq> P_link p a" "\<And>v a. ps i \<noteq> P_swing v a" "\<And>p a. r \<noteq> P_link p a" "\<And>v a. r \<noteq> P_swing v a"
  shows "mpsc_inv q (ps(i := r)) cs es ls c"
proof -
  have link: "(ps(i := r)) j = P_link p a \<longleftrightarrow> ps j = P_link p a" for j p a
    using assms(2,4) by simp
  have swing: "(ps(i := r)) j = P_swing v a \<longleftrightarrow> ps j = P_swing v a" for j v a
    using assms(3,5) by simp
  have "mpsc_inv q (ps(i := r)) cs es ls c = mpsc_inv q ps cs es ls c"
    by (simp only: mpsc_inv_def chain_ok_def producers_ok_def consumer_ok_def link swing)
  then show ?thesis using assms(1) by simp
qed

lemma mpsc_new_other:
  "x \<noteq> a \<Longrightarrow> cells (mpsc_new a v q) x = cells q x"
  "x \<noteq> a \<Longrightarrow> next_of (mpsc_new a v q) x = next_of q x"
  "x \<noteq> a \<Longrightarrow> value_of (mpsc_new a v q) x = value_of q x"
  by (simp_all add: mpsc_new_def next_of_def value_of_def)

lemma mpsc_inv_new:
  assumes inv: "mpsc_inv q ps cs es ls c" and i: "ps i = P_alloc v" and dead: "cells q a = None"
  shows "mpsc_inv (mpsc_new a v q) (ps(i := P_swing v a)) cs es ls c"
proof -
  have link: "(ps(i := P_swing v a)) j = P_link p b \<longleftrightarrow> ps j = P_link p b" for j p b
    using i by simp
  have live: "cells q x \<noteq> None" if "x \<in> set c" for x
    using inv that by (auto simp: mpsc_inv_def chain_ok_def)
  then have fresh: "a \<notin> set c" using dead by metis
  have other: "cells (mpsc_new a v q) x = cells q x" "next_of (mpsc_new a v q) x = next_of q x"
    "value_of (mpsc_new a v q) x = value_of q x" if "x \<in> set c" for x
    using that fresh mpsc_new_other [of x a v q] by auto
  have sel: "head (mpsc_new a v q) = head q" "tail (mpsc_new a v q) = tail q"
    "brk (mpsc_new a v q) = max (brk q) (Suc a)"
    by (simp_all add: mpsc_new_def)
  have bound: "x < max (brk q) (Suc a)" if "cells (mpsc_new a v q) x \<noteq> None" for x
    using that inv mpsc_new_other(1) [of x a v q] by (cases "x = a") (auto simp: mpsc_inv_def chain_ok_def less_max_iff_disj)
  have adj: "next_of (mpsc_new a v q) x = next_of q x" if "(x, b) \<in> adjacent c" for x b
    using other(2) adjacent_mem [OF that] by blast
  have "c \<noteq> []" using inv by (simp add: mpsc_inv_def chain_ok_def)
  then have "next_of (mpsc_new a v q) (last c) = next_of q (last c)" using other(2) last_in_set by blast
  then have chain: "chain_ok (mpsc_new a v q) (ps(i := P_swing v a)) c"
    using inv other(1) bound unfolding chain_ok_def mpsc_inv_def link sel by (auto simp: adj)
  have "producers_ok (mpsc_new a v q) (ps(i := P_swing v a)) c"
    using inv dead fresh mpsc_new_other(1) [of _ a v q]
    unfolding producers_ok_def mpsc_inv_def link
    by (auto simp: mpsc_new_def)
  moreover have "consumer_ok (mpsc_new a v q) (ps(i := P_swing v a)) cs c"
    using inv dead mpsc_new_other(1) [of _ a v q] other(2)
    unfolding consumer_ok_def mpsc_inv_def by (cases cs) (auto simp: mpsc_new_def)
  moreover have "map (value_of (mpsc_new a v q)) (tl c) = map (value_of q) (tl c)"
    using other(3) by (cases c) auto
  ultimately show ?thesis using inv chain unfolding mpsc_inv_def by auto
qed

lemma mpsc_inv_exchange:
  assumes inv: "mpsc_inv q ps cs es ls c" and i: "ps i = P_swing v a"
  shows "mpsc_inv (q\<lparr>tail := a\<rparr>) (ps(i := P_link (tail q) a)) cs (es @ [v]) ls (c @ [a])"
proof -
  let ?ps = "ps(i := P_link (tail q) a)"
  have ch: "c \<noteq> []" "hd c = head q" "last c = tail q" "distinct c" "next_of q (tail q) = None"
    and live: "\<And>x. x \<in> set c \<Longrightarrow> cells q x \<noteq> None"
    using inv by (auto simp: mpsc_inv_def chain_ok_def)
  have a: "cells q a = Some \<lparr>node_data = Some v, node_next = None\<rparr>" "a \<notin> set c"
    using inv i unfolding mpsc_inv_def producers_ok_def by blast+
  have adj: "adjacent (c @ [a]) = insert (tail q, a) (adjacent c)"
    using adjacent_snoc [OF ch(1), of a] ch(3) by simp
  have notail: "x \<noteq> tail q" if "(x, b) \<in> adjacent c" for x b
    using adjacent_not_last [OF ch(4) that] ch(3) by simp
  have link: "?ps j = P_link p b \<longleftrightarrow> (j = i \<and> p = tail q \<and> b = a) \<or> ps j = P_link p b" for j p b
    using i by auto
  have same: "cells (q\<lparr>tail := a\<rparr>) = cells q" "next_of (q\<lparr>tail := a\<rparr>) = next_of q" "value_of (q\<lparr>tail := a\<rparr>) = value_of q"
    by (simp_all add: fun_eq_iff next_of_def value_of_def)
  have old: "(\<exists>j. ?ps j = P_link x b) \<longleftrightarrow> (\<exists>j. ps j = P_link x b)" if "(x, b) \<in> adjacent c" for x b
    using notail [OF that] unfolding link by auto
  have "chain_ok (q\<lparr>tail := a\<rparr>) ?ps (c @ [a])"
  proof -
    have "next_of q x = (if \<exists>j. ?ps j = P_link x b then None else Some b)" if "(x, b) \<in> adjacent (c @ [a])" for x b
    proof (cases "(x, b) = (tail q, a)")
      case True
      then show ?thesis using ch(5) by auto
    next
      case False
      then have "(x, b) \<in> adjacent c" using that unfolding adj by blast
      then show ?thesis
        using inv old [of x b] unfolding mpsc_inv_def chain_ok_def by auto
    qed
    moreover have "next_of q a = None" using a(1) by (simp add: next_of_def)
    ultimately show ?thesis
      using inv ch a live unfolding chain_ok_def mpsc_inv_def same by auto
  qed
  moreover have "producers_ok (q\<lparr>tail := a\<rparr>) ?ps (c @ [a])"
  proof (rule producers_okI)
    fix j p b assume "?ps j = P_link p b"
    then show "(p, b) \<in> adjacent (c @ [a])" using producers_okD(1) [OF inv] unfolding link adj by blast
  next
    fix j k p b b' assume "?ps j = P_link p b" "?ps k = P_link p b'"
    then show "j = k" using producers_okD(1,2) [OF inv] notail unfolding link by metis
  next
    fix j k w w' x assume "?ps j = P_swing w x" "?ps k = P_swing w' x"
    then show "j = k" using producers_okD(5) [OF inv] by (auto split: if_splits)
  next
    fix j w x assume j: "?ps j = P_swing w x"
    then have "j \<noteq> i" "ps j = P_swing w x" by (auto split: if_splits)
    then show "cells (q\<lparr>tail := a\<rparr>) x = Some \<lparr>node_data = Some w, node_next = None\<rparr>" "x \<notin> set (c @ [a])"
      using producers_okD(3,4,5) [OF inv] i by auto
  qed
  moreover have "consumer_ok (q\<lparr>tail := a\<rparr>) ?ps cs (c @ [a])"
    using inv i a(2) unfolding consumer_ok_def mpsc_inv_def same by (cases cs) auto
  moreover have "map Some (es @ [v]) = map Some ls @ map (value_of q) (tl (c @ [a]))"
    using inv a(1) ch(1) by (simp add: mpsc_inv_def value_of_def tl_append2)
  ultimately show ?thesis unfolding mpsc_inv_def same by blast
qed

lemma mpsc_inv_link:
  assumes inv: "mpsc_inv q ps cs es ls c" and i: "ps i = P_link p a"
  shows "\<exists>q'. mpsc_link p a q = Inr q' \<and> mpsc_inv q' (ps(i := P_returned True)) cs es ls c"
proof -
  let ?ps = "ps(i := P_returned True)"
  have ch: "c \<noteq> []" "distinct c" "next_of q (last c) = None"
    and live: "\<And>x. x \<in> set c \<Longrightarrow> cells q x \<noteq> None"
    using inv by (auto simp: mpsc_inv_def chain_ok_def)
  have pa: "(p, a) \<in> adjacent c" using inv i unfolding mpsc_inv_def producers_ok_def by blast
  then have p: "p \<in> set c" using adjacent_mem [OF pa] by simp
  then obtain n where n: "cells q p = Some n" using live by blast
  define q' where "q' = q\<lparr>cells := (cells q)(p \<mapsto> n\<lparr>node_next := Some a\<rparr>)\<rparr>"
  have nxt: "next_of q' x = (if x = p then Some a else next_of q x)" for x
    by (simp add: q'_def next_of_def)
  have val: "value_of q' = value_of q"
    using n by (simp add: q'_def value_of_def fun_eq_iff)
  have cel: "cells q' x = None \<longleftrightarrow> cells q x = None" "x \<noteq> p \<Longrightarrow> cells q' x = cells q x" for x
    using n by (simp_all add: q'_def)
  have only: "ps j = P_link p b \<Longrightarrow> j = i" for j b
    using inv i unfolding mpsc_inv_def producers_ok_def by blast
  have link: "?ps j = P_link x b \<longleftrightarrow> x \<noteq> p \<and> ps j = P_link x b" for j x b
    using i by (cases "j = i") (auto dest: only)
  have "chain_ok q' ?ps c"
  proof -
    have "next_of q' x = (if \<exists>j. ?ps j = P_link x b then None else Some b)" if "(x, b) \<in> adjacent c" for x b
    proof (cases "x = p")
      case True
      then have "b = a" using adjacent_unique [OF ch(2)] that pa by blast
      then show ?thesis using True by (auto simp: nxt dest: only)
    next
      case False
      then show ?thesis using inv that unfolding mpsc_inv_def chain_ok_def link nxt by auto
    qed
    moreover have "last c \<noteq> p" using adjacent_not_last [OF ch(2) pa] by simp
    ultimately show ?thesis
      using inv unfolding chain_ok_def mpsc_inv_def cel nxt by (auto simp: q'_def)
  qed
  moreover have "producers_ok q' ?ps c"
  proof (rule producers_okI)
    fix j x b assume "?ps j = P_link x b"
    then show "(x, b) \<in> adjacent c" using producers_okD(1) [OF inv] unfolding link by blast
  next
    fix j k x b b' assume "?ps j = P_link x b" "?ps k = P_link x b'"
    then show "j = k" using producers_okD(2) [OF inv] unfolding link by blast
  next
    fix j k w w' x assume "?ps j = P_swing w x" "?ps k = P_swing w' x"
    then show "j = k" using producers_okD(5) [OF inv] by (auto split: if_splits)
  next
    fix j w x assume "?ps j = P_swing w x"
    then have "ps j = P_swing w x" by (auto split: if_splits)
    then show "cells q' x = Some \<lparr>node_data = Some w, node_next = None\<rparr>" "x \<notin> set c"
      using producers_okD(3,4) [OF inv] p cel(2) by metis+
  qed
  moreover have "consumer_ok q' ?ps cs c"
  proof -
    have "next_of q p = None" using chain_okD(8) [OF inv pa] i by auto
    then show ?thesis using inv i cel(1) unfolding consumer_ok_def mpsc_inv_def nxt by (cases cs) auto
  qed
  ultimately have "mpsc_inv q' ?ps cs es ls c"
    using inv unfolding mpsc_inv_def val by blast
  moreover have "mpsc_link p a q = Inr q'" using n by (simp add: mpsc_link_def q'_def)
  ultimately show ?thesis by blast
qed

lemma mpsc_load_next_eq: "cells q a \<noteq> None \<Longrightarrow> mpsc_load_next a q = Inr (next_of q a)"
  by (auto simp: mpsc_load_next_def next_of_def)

lemma mpsc_inv_load:
  assumes inv: "mpsc_inv q ps C_out es ls c"
  shows "mpsc_load_next (head q) q = Inr (next_of q (head q))"
    and "next_of q (head q) = Some n \<Longrightarrow> mpsc_inv q ps (C_got (head q) n) es ls c"
proof -
  have "head q \<in> set c" using chain_okD(1,2) [OF inv] hd_in_set by metis
  then show "mpsc_load_next (head q) q = Inr (next_of q (head q))"
    using chain_okD(6) [OF inv] mpsc_load_next_eq by blast
  assume n: "next_of q (head q) = Some n"
  obtain r where r: "c = head q # r" using chain_okD(1,2) [OF inv] by (cases c) auto
  have "r \<noteq> []" using r n chain_okD(3,5) [OF inv] by auto
  then obtain b r' where r': "r = b # r'" by (cases r) auto
  then have "b = n" using chain_okD(8) [OF inv, of "head q" b] r n by (auto split: if_splits)
  then show "mpsc_inv q ps (C_got (head q) n) es ls c"
    using inv n r r' by (auto simp: mpsc_inv_def consumer_ok_def)
qed

lemma mpsc_inv_advance:
  assumes inv: "mpsc_inv q ps (C_got h n) es ls c"
  shows "\<exists>v q'. mpsc_advance n q = Inr (v, q') \<and> mpsc_inv q' ps (C_free h v) es (ls @ [v]) (tl c)"
proof -
  obtain r where c: "c = h # n # r" and nx: "next_of q h = Some n"
    using inv by (auto simp: mpsc_inv_def consumer_ok_def)
  note D = chain_okD [OF inv] and P = producers_okD [OF inv]
  obtain m where m: "cells q n = Some m" using D(6) [of n] c by auto
  have "Some ` set es \<supseteq> value_of q ` set (n # r)"
    using inv arg_cong [of _ _ set, OF conjunct2 [OF conjunct2 [OF conjunct2 [OF inv [unfolded mpsc_inv_def]]]]] c by auto
  then obtain v where v: "node_data m = Some v" using m by (auto simp: value_of_def)
  define q' where "q' = q\<lparr>cells := (cells q)(n \<mapsto> m\<lparr>node_data := None\<rparr>), head := n\<rparr>"
  have nxt: "next_of q' = next_of q" using m by (simp add: q'_def next_of_def fun_eq_iff)
  have val: "x \<noteq> n \<Longrightarrow> value_of q' x = value_of q x" for x by (simp add: q'_def value_of_def)
  have cel: "cells q' x = None \<longleftrightarrow> cells q x = None" "x \<noteq> n \<Longrightarrow> cells q' x = cells q x" for x
    using m by (simp_all add: q'_def)
  have sel: "head q' = n" "tail q' = tail q" "brk q' = brk q" by (simp_all add: q'_def)
  have dist: "h \<noteq> n" "h \<notin> set r" "n \<notin> set r" "distinct r" using D(4) c by auto
  have "chain_ok q' ps (n # r)"
    unfolding chain_ok_def sel nxt cel using D c dist by auto
  moreover have "producers_ok q' ps (n # r)"
  proof (rule producers_okI)
    fix j p a assume l: "ps j = P_link p a"
    then have "(p, a) \<in> adjacent (h # n # r)" using P(1) c by simp
    moreover have "(p, a) \<noteq> (h, n)" using l nx D(8) [of h n] c by (auto split: if_splits)
    ultimately show "(p, a) \<in> adjacent (n # r)" by auto
  next
    fix j w a assume "ps j = P_swing w a"
    from P(3,4) [OF this] show "cells q' a = Some \<lparr>node_data = Some w, node_next = None\<rparr>" "a \<notin> set (n # r)"
      using c cel(2) [of a] by auto
  qed (use P(2,5) in blast)+
  moreover have "consumer_ok q' ps (C_free h v) (n # r)"
    using dist D(6) [of h] P(4) c cel by (fastforce simp: consumer_ok_def)
  moreover have "map Some es = map Some (ls @ [v]) @ map (value_of q') (tl (n # r))"
  proof -
    have "map (value_of q') r = map (value_of q) r" by (rule map_cong [OF refl], rule val) (use dist in auto)
    then show ?thesis using inv c m v by (simp add: mpsc_inv_def value_of_def [of q n])
  qed
  ultimately have "mpsc_inv q' ps (C_free h v) es (ls @ [v]) (tl c)"
    using c by (simp add: mpsc_inv_def)
  moreover have "mpsc_advance n q = Inr (v, q')" using m v by (simp add: mpsc_advance_def q'_def)
  ultimately show ?thesis by blast
qed

lemma mpsc_inv_delete:
  assumes inv: "mpsc_inv q ps (C_free h v) es ls c"
  shows "\<exists>q'. mpsc_delete h q = Inr q' \<and> mpsc_inv q' ps C_out es ls c"
proof -
  have h: "cells q h \<noteq> None" "h \<notin> set c" "\<And>i w. ps i \<noteq> P_swing w h"
    using inv by (auto simp: mpsc_inv_def consumer_ok_def)
  note D = chain_okD [OF inv] and P = producers_okD [OF inv]
  define q' where "q' = q\<lparr>cells := (cells q)(h := None)\<rparr>"
  have same: "cells q' x = cells q x" "next_of q' x = next_of q x" "value_of q' x = value_of q x" if "x \<noteq> h" for x
    using that by (simp_all add: q'_def next_of_def value_of_def)
  have sel: "head q' = head q" "tail q' = tail q" "brk q' = brk q" "cells q' h = None" by (simp_all add: q'_def)
  have mem: "x \<noteq> h" if "x \<in> set c" for x using that h(2) by auto
  have "last c \<in> set c" using D(1) by simp
  then have "chain_ok q' ps c"
    unfolding chain_ok_def sel
  proof (intro conjI allI impI ballI)
    fix a b assume ab: "(a, b) \<in> adjacent c"
    then show "next_of q' a = (if \<exists>i. ps i = P_link a b then None else Some b)"
      using D(8) [OF ab] same(2) mem adjacent_mem [OF ab] by simp
  next
    fix a assume "cells q' a \<noteq> None"
    then show "a < brk q" using D(7) [of a] same(1) [of a] sel(4) by (cases "a = h") auto
  qed (use D same mem in auto)
  moreover have "producers_ok q' ps c"
  proof (rule producers_okI)
    fix j w a assume j: "ps j = P_swing w a"
    then have "a \<noteq> h" using h(3) by blast
    then show "cells q' a = Some \<lparr>node_data = Some w, node_next = None\<rparr>" "a \<notin> set c"
      using P(3,4) [OF j] same(1) by auto
  qed (use P(1,2,5) in blast)+
  moreover have "map (value_of q') (tl c) = map (value_of q) (tl c)"
    using same(3) mem D(1) by (cases c) auto
  ultimately have "mpsc_inv q' ps C_out es ls c"
    using inv by (simp add: mpsc_inv_def consumer_ok_def)
  moreover have "mpsc_delete h q = Inr q'" using h(1) by (simp add: mpsc_delete_def q'_def)
  ultimately show ?thesis by blast
qed

lemma mpsc_inv_close: "mpsc_inv (mpsc_close q) ps cs es ls c = mpsc_inv q ps cs es ls c"
proof -
  have "next_of (mpsc_close q) = next_of q" "value_of (mpsc_close q) = value_of q" "cells (mpsc_close q) = cells q"
    "head (mpsc_close q) = head q" "tail (mpsc_close q) = tail q" "brk (mpsc_close q) = brk q"
    by (simp_all add: mpsc_close_def next_of_def value_of_def fun_eq_iff)
  then show ?thesis
    by (simp only: mpsc_inv_def chain_ok_def producers_ok_def consumer_ok_def)
qed

lemma mpsc_inv_init: "mpsc_inv MPSCQueue_init (\<lambda>_. P_out) C_out [] [] [0]"
  by (simp add: mpsc_inv_def chain_ok_def producers_ok_def consumer_ok_def MPSCQueue_init_def next_of_def)

section \<open>Every reachable state\<close>

lemma mpsc_step_inv:
  assumes "mpsc_step s s'" "mpsc_inv (mq s) (producers s) (consumer s) (mq_entered s) (mq_left s) c"
  shows "\<exists>c'. mpsc_inv (mq s') (producers s') (consumer s') (mq_entered s') (mq_left s') c'"
  using assms
proof (cases rule: mpsc_step.cases)
  case (call i v)
  then show ?thesis using mpsc_inv_idle [OF assms(2), of i "P_check v"] by (cases "producers s i") auto
next
  case (refused i v)
  then show ?thesis using mpsc_inv_idle [OF assms(2), of i "P_returned False"] by auto
next
  case (admitted i v)
  then show ?thesis using mpsc_inv_idle [OF assms(2), of i "P_alloc v"] by auto
next
  case (allocate i v a)
  then show ?thesis using mpsc_inv_new [OF assms(2), of i v a] by auto
next
  case (exchange i v a p q')
  then show ?thesis using mpsc_inv_exchange [OF assms(2), of i v a] by (auto simp: mpsc_exchange_def)
next
  case (link i p a q')
  then show ?thesis using mpsc_inv_link [OF assms(2), of i p a] by auto
next
  case (load n)
  then have inv: "mpsc_inv (mq s) (producers s) C_out (mq_entered s) (mq_left s) c" using assms(2) by simp
  have "next_of (mq s) (head (mq s)) = Some n" using mpsc_inv_load(1) [OF inv] load by simp
  then show ?thesis using mpsc_inv_load(2) [OF inv] load by auto
next
  case (advance h n v q')
  then have inv: "mpsc_inv (mq s) (producers s) (C_got h n) (mq_entered s) (mq_left s) c" using assms(2) by simp
  show ?thesis using mpsc_inv_advance [OF inv] advance by auto
next
  case (delete h v q')
  then have inv: "mpsc_inv (mq s) (producers s) (C_free h v) (mq_entered s) (mq_left s) c" using assms(2) by simp
  show ?thesis using mpsc_inv_delete [OF inv] delete by auto
next
  case close_it
  then show ?thesis using assms(2) by (auto simp: mpsc_inv_close)
qed auto

lemma mpsc_reachable_inv:
  "mpsc_reachable s \<Longrightarrow> \<exists>c. mpsc_inv (mq s) (producers s) (consumer s) (mq_entered s) (mq_left s) c"
proof (induction rule: mpsc_reachable.induct)
  case mpsc_initial
  show ?case using mpsc_inv_init by (auto simp: mpsc_system_def)
next
  case (mpsc_later s s')
  then show ?case using mpsc_step_inv by blast
qed

section \<open>Uninterrupted operations\<close>

definition mpsc_idle :: "'a MPSCQueue \<Rightarrow> 'a list \<Rightarrow> bool" where
  "mpsc_idle q vs \<longleftrightarrow> (\<exists>c. mpsc_inv q (\<lambda>_. P_out) C_out vs [] c)"

lemma mpsc_inv_shift:
  "mpsc_inv q ps cs (ls @ es) ls c = mpsc_inv q ps cs es [] c"
  by (simp add: mpsc_inv_def)

lemma mpsc_idle_init: "mpsc_idle MPSCQueue_init []"
  using mpsc_inv_init by (auto simp: mpsc_idle_def)

lemma MPSCQueue_init_open [simp]: "\<not> closed MPSCQueue_init"
  by (simp add: MPSCQueue_init_def)

lemma mpsc_idle_close: "mpsc_idle (mpsc_close q) vs = mpsc_idle q vs"
  by (simp add: mpsc_idle_def mpsc_inv_close)

lemma mpsc_idle_enqueue:
  assumes "mpsc_idle q vs"
  shows "mpsc_enqueue v q = Inr (False, q) \<and> closed q \<or>
    (\<exists>q'. mpsc_enqueue v q = Inr (True, q') \<and> \<not> closed q \<and> \<not> closed q' \<and> mpsc_idle q' (vs @ [v]))"
proof (cases "closed q")
  case False
  obtain c where inv: "mpsc_inv q (\<lambda>_. P_out) C_out vs [] c" using assms by (auto simp: mpsc_idle_def)
  let ?ps = "(\<lambda>_. P_out)(0 := P_alloc v)"
  have dead: "cells q (brk q) = None" using chain_okD(7) [OF inv, of "brk q"] by fastforce
  have "mpsc_inv q ?ps C_out vs [] c" by (rule mpsc_inv_idle [OF inv]) simp_all
  from mpsc_inv_new [OF this _ dead, of 0 v]
  have "mpsc_inv (mpsc_new (brk q) v q) ((\<lambda>_. P_out)(0 := P_swing v (brk q))) C_out vs [] c" by simp
  from mpsc_inv_exchange [OF this, of 0 v "brk q"]
  have "mpsc_inv ((mpsc_new (brk q) v q)\<lparr>tail := brk q\<rparr>) ((\<lambda>_. P_out)(0 := P_link (tail q) (brk q))) C_out
    (vs @ [v]) [] (c @ [brk q])" by (simp add: mpsc_new_def)
  from mpsc_inv_link [OF this, of 0 "tail q" "brk q"] obtain q' where
    q': "mpsc_link (tail q) (brk q) ((mpsc_new (brk q) v q)\<lparr>tail := brk q\<rparr>) = Inr q'"
    "mpsc_inv q' ((\<lambda>_. P_out)(0 := P_returned True)) C_out (vs @ [v]) [] (c @ [brk q])" by auto
  have "mpsc_inv q' (\<lambda>_. P_out) C_out (vs @ [v]) [] (c @ [brk q])"
    using mpsc_inv_idle [OF q'(2), of 0 P_out] by (simp add: fun_upd_idem)
  moreover have "\<not> closed q'" using q'(1) False by (auto simp: mpsc_link_def mpsc_new_def split: option.splits)
  ultimately have "mpsc_enqueue v q = Inr (True, q') \<and> \<not> closed q \<and> \<not> closed q' \<and> mpsc_idle q' (vs @ [v])"
    using False q'(1) by (auto simp: mpsc_enqueue_def mpsc_exchange_def mpsc_new_def mpsc_idle_def)
  then show ?thesis by blast
qed (simp add: mpsc_enqueue_def)

lemma mpsc_idle_dequeue:
  assumes "mpsc_idle q vs"
  shows "vs = [] \<Longrightarrow> mpsc_dequeue q = Inr (None, q)"
    and "vs = v # ws \<Longrightarrow> \<exists>q'. mpsc_dequeue q = Inr (Some v, q') \<and> mpsc_idle q' ws \<and> closed q' = closed q"
    and "mpsc_empty q = Inr (vs = [])"
proof -
  obtain c where inv: "mpsc_inv q (\<lambda>_. P_out) C_out vs [] c" using assms by (auto simp: mpsc_idle_def)
  note L = mpsc_inv_load [OF inv] and D = chain_okD [OF inv]
  obtain r where c: "c = head q # r" using D(1,2) by (cases c) auto
  have len: "length vs = length r"
    using inv c by (simp add: mpsc_inv_def) (metis length_map)
  have nil: "next_of q (head q) = None \<longleftrightarrow> vs = []"
    using D(3,5) D(8) [of "head q" "hd r"] len c by (cases r) auto
  then show "vs = [] \<Longrightarrow> mpsc_dequeue q = Inr (None, q)" and "mpsc_empty q = Inr (vs = [])"
    using L(1) by (simp_all add: mpsc_dequeue_def mpsc_empty_def)
  assume vs: "vs = v # ws"
  then obtain n where n: "next_of q (head q) = Some n" using nil by auto
  obtain w q1 where a: "mpsc_advance n q = Inr (w, q1)"
    "mpsc_inv q1 (\<lambda>_. P_out) (C_free (head q) w) vs ([] @ [w]) (tl c)"
    using mpsc_inv_advance [OF L(2) [OF n]] by blast
  obtain q2 where d: "mpsc_delete (head q) q1 = Inr q2" "mpsc_inv q2 (\<lambda>_. P_out) C_out vs ([] @ [w]) (tl c)"
    using mpsc_inv_delete [OF a(2)] by blast
  have "map Some vs = Some w # map (value_of q2) (tl (tl c))" using d(2) by (simp add: mpsc_inv_def)
  then have "w = v" using vs by simp
  then have "mpsc_idle q2 ws" using d(2) vs mpsc_inv_shift [of q2 _ _ "[v]" ws] by (auto simp: mpsc_idle_def)
  moreover have "closed q2 = closed q"
    using a(1) d(1) by (auto simp: mpsc_advance_def mpsc_delete_def split: option.splits if_splits)
  ultimately show "\<exists>q'. mpsc_dequeue q = Inr (Some v, q') \<and> mpsc_idle q' ws \<and> closed q' = closed q"
    using L(1) n a(1) d(1) \<open>w = v\<close> by (auto simp: mpsc_dequeue_def)
qed

section \<open>The contents\<close>

fun mpsc_walk :: "nat \<Rightarrow> addr \<Rightarrow> 'a MPSCQueue \<Rightarrow> 'a list" where
  "mpsc_walk 0 a q = []"
| "mpsc_walk (Suc n) a q =
     (case next_of q a of
        None \<Rightarrow> []
      | Some b \<Rightarrow> (case value_of q b of None \<Rightarrow> [] | Some v \<Rightarrow> v # mpsc_walk n b q))"

text \<open>Every live address is below \<open>brk\<close>, so that many steps reach the end of the chain.\<close>

definition mpsc_contents :: "'a MPSCQueue \<Rightarrow> 'a list" where
  "mpsc_contents q = mpsc_walk (brk q) (head q) q"

lemma mpsc_walk_chain:
  assumes "\<And>a b. (a, b) \<in> adjacent (h # r) \<Longrightarrow> next_of q a = Some b" "next_of q (last (h # r)) = None"
    "map Some vs = map (value_of q) r" "length r \<le> n"
  shows "mpsc_walk n h q = vs"
  using assms
proof (induction r arbitrary: h vs n)
  case Nil
  then show ?case by (cases n) simp_all
next
  case (Cons b r)
  obtain v ws where vs: "vs = v # ws" "value_of q b = Some v" "map Some ws = map (value_of q) r"
    using Cons.prems(3) by (cases vs) auto
  obtain m where n: "n = Suc m" "length r \<le> m" using Cons.prems(4) by (cases n) auto
  have "mpsc_walk m b q = ws"
    by (rule Cons.IH) (use Cons.prems vs n in auto)
  then show ?case using Cons.prems(1) [of h b] vs n by simp
qed

lemma map_Some_append:
  assumes "map Some es = map Some ls @ us"
  obtains vs where "es = ls @ vs" "map Some vs = us"
proof -
  obtain as bs where "es = as @ bs" "map Some ls = map Some as" "map Some bs = us"
    using assms by (metis map_eq_append_conv)
  then show thesis using that by (simp add: inj_map_eq_map)
qed

lemma mpsc_inv_contents:
  assumes inv: "mpsc_inv q ps cs es ls c" and idle: "\<And>i p a. ps i \<noteq> P_link p a"
  shows "es = ls @ mpsc_contents q"
proof -
  note D = chain_okD [OF inv]
  obtain r where c: "c = head q # r" using D(1,2) by (cases c) auto
  have "map Some es = map Some ls @ map (value_of q) r" using inv c by (simp add: mpsc_inv_def)
  then obtain vs where vs: "es = ls @ vs" "map Some vs = map (value_of q) r"
    by (rule map_Some_append)
  have "set c \<subseteq> {..< brk q}" using D(6,7) by blast
  then have "length c \<le> brk q" using card_mono [of "{..< brk q}" "set c"] distinct_card [OF D(4)] by simp
  then have "mpsc_walk (brk q) (head q) q = vs"
    using D(3,5,8) idle vs(2) c by (intro mpsc_walk_chain [where r = r]) auto
  then show ?thesis using vs(1) by (simp add: mpsc_contents_def)
qed

lemma mpsc_idle_contents: "mpsc_idle q vs \<Longrightarrow> mpsc_contents q = vs"
  using mpsc_inv_contents by (fastforce simp: mpsc_idle_def)

text \<open>
  The queue used by one thread at a time keeps the contract of \<open>fifo\<close>: this is how the log's and the
  pipeline's background threads and their clients see it between two calls.
\<close>

definition mpsc_put :: "'a \<Rightarrow> 'a MPSCQueue \<Rightarrow> bool \<times> 'a MPSCQueue" where
  "mpsc_put v q = (case mpsc_enqueue v q of Inl ub \<Rightarrow> (False, q) | Inr r \<Rightarrow> r)"

definition mpsc_take :: "'a MPSCQueue \<Rightarrow> 'a option \<times> 'a MPSCQueue" where
  "mpsc_take q = (case mpsc_dequeue q of Inl ub \<Rightarrow> (None, q) | Inr r \<Rightarrow> r)"

lemma mpsc_usableE: "\<exists>vs. mpsc_idle q vs \<Longrightarrow> (mpsc_idle q (mpsc_contents q) \<Longrightarrow> P) \<Longrightarrow> P"
  using mpsc_idle_contents by blast

interpretation mpsc_queue: fifo mpsc_contents mpsc_put mpsc_take "\<lambda>q. \<exists>vs. mpsc_idle q vs"
proof
  fix q q' :: "'a MPSCQueue" and x
  assume "\<exists>vs. mpsc_idle q vs" then have q: "mpsc_idle q (mpsc_contents q)" by (rule mpsc_usableE)
  show "mpsc_put x q = (True, q') \<Longrightarrow> (\<exists>vs. mpsc_idle q' vs) \<and> mpsc_contents q' = mpsc_contents q @ [x]"
    using mpsc_idle_enqueue [OF q, of x] mpsc_idle_contents by (auto simp: mpsc_put_def)
  show "mpsc_put x q = (False, q') \<Longrightarrow> (\<exists>vs. mpsc_idle q' vs) \<and> mpsc_contents q' = mpsc_contents q"
    using mpsc_idle_enqueue [OF q, of x] q by (auto simp: mpsc_put_def)
  show "mpsc_take q = (None, q') \<Longrightarrow> (\<exists>vs. mpsc_idle q' vs) \<and> mpsc_contents q = [] \<and> mpsc_contents q' = []"
  proof (cases "mpsc_contents q")
    case Nil
    then show "mpsc_take q = (None, q') \<Longrightarrow> ?thesis" using mpsc_idle_dequeue(1) [OF q] q by (auto simp: mpsc_take_def)
  next
    case (Cons v vs)
    then show "mpsc_take q = (None, q') \<Longrightarrow> ?thesis" using mpsc_idle_dequeue(2) [OF q] by (auto simp: mpsc_take_def)
  qed
  show "mpsc_take q = (Some x, q') \<Longrightarrow> (\<exists>vs. mpsc_idle q' vs) \<and> mpsc_contents q = x # mpsc_contents q'"
  proof (cases "mpsc_contents q")
    case Nil
    then show "mpsc_take q = (Some x, q') \<Longrightarrow> ?thesis" using mpsc_idle_dequeue(1) [OF q] by (simp add: mpsc_take_def)
  next
    case (Cons v vs)
    then obtain q1 where "mpsc_dequeue q = Inr (Some v, q1)" "mpsc_idle q1 vs"
      using mpsc_idle_dequeue(2) [OF q] by blast
    then show "mpsc_take q = (Some x, q') \<Longrightarrow> ?thesis" using Cons mpsc_idle_contents [of q1 vs] by (auto simp: mpsc_take_def)
  qed
qed

lemma mpsc_drain_idle: "mpsc_idle q vs \<Longrightarrow> \<exists>q'. mpsc_drain q = Some (Inr q') \<and> mpsc_idle q' []"
proof (induction vs arbitrary: q)
  case Nil
  then show ?case using mpsc_idle_dequeue(1) [OF Nil] by (subst mpsc_drain.simps) auto
next
  case (Cons v vs)
  obtain q1 where "mpsc_dequeue q = Inr (Some v, q1)" "mpsc_idle q1 vs" using mpsc_idle_dequeue(2) [OF Cons.prems] by blast
  then show ?case using Cons.IH [of q1] by (subst mpsc_drain.simps) auto
qed

section \<open>Spinning clients\<close>

text \<open>
  The clients of the queue all publish with the loop
  \<^verbatim>\<open>while (running_ && !queue_.enqueue(x)) yield();\<close>.  Seen from one thread nothing else happens
  between two attempts, so the flag does not change (a \<^verbatim>\<open>stop\<close> of another thread would end the loop without the value being
  queued); \<open>None\<close> is a loop that never ends.
\<close>

partial_function (option) spin_enqueue ::
  "bool \<Rightarrow> 'a \<Rightarrow> 'a MPSCQueue \<Rightarrow> (undefined_behaviour + 'a MPSCQueue) option" where
  "spin_enqueue running x q =
     (if \<not> running then Some (Inr q)
      else case mpsc_enqueue x q of
        Inl ub \<Rightarrow> Some (Inl ub)
      | Inr (ok, q') \<Rightarrow> (if ok then Some (Inr q') else spin_enqueue running x q'))"

lemma spin_enqueue_open:
  assumes "mpsc_idle q vs" "\<not> closed q"
  shows "\<exists>q'. spin_enqueue True x q = Some (Inr q') \<and> mpsc_idle q' (vs @ [x]) \<and> \<not> closed q'"
  using mpsc_idle_enqueue [OF assms(1), of x] assms(2) by (subst spin_enqueue.simps) auto

lemma spin_enqueue_stopped: "spin_enqueue False x q = Some (Inr q)"
  by (subst spin_enqueue.simps) simp

lemma spin_enqueue_closed_some:
  assumes "spin_enqueue running x q = Some r"
  shows "\<not> (running \<and> closed q)"
  using assms
proof (rule spin_enqueue.raw_induct [where P = "\<lambda>running x q r. \<not> (running \<and> closed q)"
      and xa = "((running, x), q)" and y = r, unfolded prod.case, rotated])
  fix f running and x :: 'a and q r
  assume IH: "\<And>running x q y. f running x q = Some y \<Longrightarrow> \<not> (running \<and> closed q)"
    and step: "(if \<not> running then Some (Inr q)
      else case mpsc_enqueue x q of
        Inl ub \<Rightarrow> Some (Inl ub)
      | Inr (ok, q') \<Rightarrow> (if ok then Some (Inr q') else f running x q')) = Some r"
  show "\<not> (running \<and> closed q)"
  proof (rule notI, elim conjE)
    assume "running" "closed q"
    then have "f running x q = Some r" using step by (simp add: mpsc_enqueue_def)
    then show False using IH \<open>running\<close> \<open>closed q\<close> by blast
  qed
qed

lemma spin_enqueue_closed: "closed q \<Longrightarrow> spin_enqueue True x q = None"
  using spin_enqueue_closed_some [of True x q] by (cases "spin_enqueue True x q") auto

section \<open>Example runs\<close>

text \<open>A producer runs from its call up to the exchange.\<close>

definition run_to_link :: "nat \<Rightarrow> 'a \<Rightarrow> addr \<Rightarrow> 'a MPSC_system \<Rightarrow> 'a MPSC_system" where
  "run_to_link i v a s = s\<lparr>mq := (mpsc_new a v (mq s))\<lparr>tail := a\<rparr>,
     producers := (producers s)(i := P_link (tail (mq s)) a), mq_entered := mq_entered s @ [v]\<rparr>"

lemma run_to_link_reachable:
  assumes "mpsc_reachable s" "p_idle (producers s i)" "\<not> closed (mq s)" "cells (mq s) a = None"
  shows "mpsc_reachable (run_to_link i v a s)"
proof -
  let ?s1 = "s\<lparr>producers := (producers s)(i := P_check v)\<rparr>"
  let ?s2 = "?s1\<lparr>producers := (producers ?s1)(i := P_alloc v)\<rparr>"
  let ?s3 = "?s2\<lparr>mq := mpsc_new a v (mq ?s2), producers := (producers ?s2)(i := P_swing v a)\<rparr>"
  let ?s4 = "?s3\<lparr>mq := (mq ?s3)\<lparr>tail := a\<rparr>, producers := (producers ?s3)(i := P_link (tail (mq ?s3)) a),
      mq_entered := mq_entered ?s3 @ [v]\<rparr>"
  have "mpsc_step s ?s1" using assms(2) by (rule call)
  from mpsc_later [OF assms(1) this] have "mpsc_reachable ?s1" .
  moreover have "mpsc_step ?s1 ?s2" by (rule admitted) (use assms in simp_all)
  ultimately have "mpsc_reachable ?s2" by (rule mpsc_later)
  moreover have "mpsc_step ?s2 ?s3" by (rule allocate) (use assms in simp_all)
  ultimately have "mpsc_reachable ?s3" by (rule mpsc_later)
  moreover have "mpsc_step ?s3 ?s4"
    by (rule exchange) (simp_all add: mpsc_exchange_def)
  ultimately have "mpsc_reachable ?s4" by (rule mpsc_later)
  moreover have "?s4 = run_to_link i v a s" by (simp add: run_to_link_def mpsc_new_def)
  ultimately show ?thesis by simp
qed

definition run_link :: "nat \<Rightarrow> addr \<Rightarrow> addr \<Rightarrow> 'a MPSC_system \<Rightarrow> 'a MPSC_system" where
  "run_link i p a s = s\<lparr>mq := (case mpsc_link p a (mq s) of Inl ub \<Rightarrow> mq s | Inr q' \<Rightarrow> q'),
     producers := (producers s)(i := P_returned True)\<rparr>"

lemma run_link_reachable:
  assumes "mpsc_reachable s" "producers s i = P_link p a"
  shows "mpsc_reachable (run_link i p a s)"
proof -
  obtain c where "mpsc_inv (mq s) (producers s) (consumer s) (mq_entered s) (mq_left s) c"
    using mpsc_reachable_inv [OF assms(1)] by blast
  then obtain q' where "mpsc_link p a (mq s) = Inr q'" using mpsc_inv_link assms(2) by blast
  then show ?thesis using mpsc_later [OF assms(1) link [OF assms(2)]] by (simp add: run_link_def)
qed

definition ex_one_in :: "nat MPSC_system" where
  "ex_one_in = run_link 0 0 1 (run_to_link 0 7 1 mpsc_system)"

lemmas ex_mpsc_defs = run_link_def run_to_link_def mpsc_system_def MPSCQueue_init_def mpsc_new_def mpsc_link_def

lemma ex_one_in_reachable: "mpsc_reachable ex_one_in"
  unfolding ex_one_in_def
  by (rule run_link_reachable, rule run_to_link_reachable, rule mpsc_initial) (simp_all add: ex_mpsc_defs)

section \<open>Properties\<close>

text \<open>
  C21: However the accesses of any number of producers, the consumer and a closing thread interleave
  (freed addresses may be reused), no access ever follows a pointer to a freed node or reads a
  moved-out value, and the consumer receives a prefix of the values in the order of the tail
  exchanges.
\<close>

theorem mpsc_queue_safe:
  assumes "mpsc_reachable s"
  shows "(\<exists>rest. mq_entered s = mq_left s @ rest)
    \<and> (\<forall>i p a. producers s i = P_link p a \<longrightarrow> (\<exists>q'. mpsc_link p a (mq s) = Inr q'))
    \<and> (consumer s = C_out \<longrightarrow> (\<exists>n. mpsc_load_next (head (mq s)) (mq s) = Inr n))
    \<and> (\<forall>h n. consumer s = C_got h n \<longrightarrow> (\<exists>r. mpsc_advance n (mq s) = Inr r))
    \<and> (\<forall>h v. consumer s = C_free h v \<longrightarrow> (\<exists>q'. mpsc_delete h (mq s) = Inr q'))"
proof -
  obtain c where inv: "mpsc_inv (mq s) (producers s) (consumer s) (mq_entered s) (mq_left s) c"
    using mpsc_reachable_inv [OF assms] by blast
  have "\<exists>rest. mq_entered s = mq_left s @ rest"
    using inv map_Some_append [of "mq_entered s" "mq_left s"] by (auto simp: mpsc_inv_def)
  moreover have "consumer s = C_out \<longrightarrow> (\<exists>n. mpsc_load_next (head (mq s)) (mq s) = Inr n)"
    using mpsc_inv_load(1) inv by fastforce
  moreover have "\<forall>h n. consumer s = C_got h n \<longrightarrow> (\<exists>r. mpsc_advance n (mq s) = Inr r)"
    using mpsc_inv_advance inv by metis
  moreover have "\<forall>h v. consumer s = C_free h v \<longrightarrow> (\<exists>q'. mpsc_delete h (mq s) = Inr q')"
    using mpsc_inv_delete inv by metis
  ultimately show ?thesis using mpsc_inv_link [OF inv] by blast
qed

theorem mpsc_queue_safe_witness: "\<exists>rest. mq_entered ex_one_in = mq_left ex_one_in @ rest"
  using mpsc_queue_safe [OF ex_one_in_reachable] by blast

text \<open>
  C22: Once every producer has left \<^verbatim>\<open>enqueue\<close>, nothing that entered is lost: the values received
  so far followed by the values in the queue are all the values that entered, and the queue
  reports itself empty exactly when all of them have been received.
\<close>

theorem mpsc_queue_complete:
  assumes "mpsc_reachable s" and "\<forall>i. p_idle (producers s i)" and "consumer s = C_out"
  shows "mq_entered s = mq_left s @ mpsc_contents (mq s) \<and>
    mpsc_empty (mq s) = Inr (mq_left s = mq_entered s)"
proof -
  obtain c where inv: "mpsc_inv (mq s) (producers s) C_out (mq_entered s) (mq_left s) c"
    using mpsc_reachable_inv [OF assms(1)] assms(3) by auto
  have idle: "producers s i \<noteq> P_link p a" for i p a using assms(2) by (metis p_idle.simps(6))
  have es: "mq_entered s = mq_left s @ mpsc_contents (mq s)" by (rule mpsc_inv_contents [OF inv idle])
  have "mpsc_contents (mq s) = [] \<longleftrightarrow> next_of (mq s) (head (mq s)) = None"
  proof -
    note D = chain_okD [OF inv]
    obtain r where c: "c = head (mq s) # r" using D(1,2) by (cases c) auto
    have "length (mpsc_contents (mq s)) = length r"
      using inv es c by (simp add: mpsc_inv_def) (metis add_left_cancel length_append length_map)
    then show ?thesis using D(3,5) D(8) [of "head (mq s)" "hd r"] idle c by (cases r) auto
  qed
  then show ?thesis using es mpsc_inv_load(1) [OF inv] by (simp add: mpsc_empty_def)
qed

theorem mpsc_queue_complete_witness: "mpsc_contents (mq ex_one_in) = [7]"
proof -
  have "\<forall>i. p_idle (producers ex_one_in i)" "consumer ex_one_in = C_out" "mq_entered ex_one_in = [7]" "mq_left ex_one_in = []"
    by (simp_all add: ex_one_in_def ex_mpsc_defs)
  with mpsc_queue_complete [OF ex_one_in_reachable] show ?thesis by simp
qed

text \<open>
  C31: The queue can report itself empty although an \<^verbatim>\<open>enqueue\<close> has already returned true: a value
  stays invisible while an earlier producer is between its exchange and its store.  A consumer
  that stops at that moment (as the log's flush loop does once it is told to stop) leaves it behind.
\<close>

theorem mpsc_stalled_producer_hides_values:
  "\<exists>s :: nat MPSC_system. mpsc_reachable s \<and> producers s 1 = P_returned True \<and> mq_entered s = [7, 8] \<and>
     mq_left s = [] \<and> consumer s = C_out \<and> mpsc_empty (mq s) = Inr True"
proof -
  let ?s = "run_link 1 1 2 (run_to_link 1 8 2 (run_to_link 0 7 1 (mpsc_system :: nat MPSC_system)))"
  have "mpsc_reachable ?s"
    by (rule run_link_reachable, rule run_to_link_reachable, rule run_to_link_reachable, rule mpsc_initial)
      (simp_all add: ex_mpsc_defs)
  moreover have "producers ?s 1 = P_returned True \<and> mq_entered ?s = [7, 8] \<and> mq_left ?s = [] \<and>
      consumer ?s = C_out \<and> mpsc_empty (mq ?s) = Inr True"
    by (simp add: ex_mpsc_defs mpsc_empty_def mpsc_load_next_def)
  ultimately show ?thesis by blast
qed

end
