(* ===== verification/Binary_Serializer.thy ===== *)
theory Binary_Serializer
  imports Types Wire
begin

text \<open>
  \<^verbatim>\<open>src/gateway/binary_serializer.hpp\<close>: the packed network structs and the conversions of
  \<^verbatim>\<open>BinarySerializer\<close>.  A conversion to a network struct starts from an uninitialised local, so
  it takes that value as an argument (\<open>net\<close>): the bytes of a character array behind the
  terminator keep whatever was there.  A conversion back reads a C string from the array and can
  run past its end.
\<close>

section \<open>Message types and structs\<close>

definition MsgType_Order :: uint16_t where "MsgType_Order = 1"
definition MsgType_Cancel :: uint16_t where "MsgType_Cancel = 2"
definition MsgType_Modify :: uint16_t where "MsgType_Modify = 3"
definition MsgType_ExecutionReport :: uint16_t where "MsgType_ExecutionReport = 4"

record MsgHeader =
  hdr_type :: uint16_t
  hdr_length :: uint16_t

record NetOrder =
  no_order_id :: uint64_t
  no_symbol :: "char list"
  no_side :: uint8_t
  no_type :: uint8_t
  no_price :: uint64_t
  no_quantity :: uint32_t
  no_timestamp :: uint64_t

record NetCancel =
  nc_order_id :: uint64_t
  nc_symbol :: "char list"
  nc_timestamp :: uint64_t

record NetModify =
  nm_order_id :: uint64_t
  nm_symbol :: "char list"
  nm_price :: uint64_t
  nm_quantity :: uint32_t
  nm_timestamp :: uint64_t

record NetExecutionReport =
  nr_order_id :: uint64_t
  nr_symbol :: "char list"
  nr_side :: uint8_t
  nr_status :: uint8_t
  nr_price :: uint64_t
  nr_quantity :: uint32_t
  nr_remaining_quantity :: uint32_t
  nr_last_qty :: uint32_t
  nr_last_px :: uint64_t
  nr_timestamp :: uint64_t
  nr_reject_reason :: "char list"

section \<open>Enum casts\<close>

fun u8_of_Side :: "Side \<Rightarrow> uint8_t" where
  "u8_of_Side Buy = 0"
| "u8_of_Side Sell = 1"
| "u8_of_Side (Side_other b) = b"

definition Side_of_u8 :: "uint8_t \<Rightarrow> Side" where
  "Side_of_u8 b = (if b = 0 then Buy else if b = 1 then Sell else Side_other b)"

fun u8_of_OrderType :: "OrderType \<Rightarrow> uint8_t" where
  "u8_of_OrderType Limit = 0"
| "u8_of_OrderType Market = 1"
| "u8_of_OrderType (OrderType_other b) = b"

definition OrderType_of_u8 :: "uint8_t \<Rightarrow> OrderType" where
  "OrderType_of_u8 b = (if b = 0 then Limit else if b = 1 then Market else OrderType_other b)"

fun u8_of_OrderStatus :: "OrderStatus \<Rightarrow> uint8_t" where
  "u8_of_OrderStatus New = 0"
| "u8_of_OrderStatus PartiallyFilled = 1"
| "u8_of_OrderStatus Filled = 2"
| "u8_of_OrderStatus Cancelled = 3"
| "u8_of_OrderStatus Rejected = 4"

lemma u8_Side [simp]: "u8_of_Side (Side_of_u8 b) = b"
  by (simp add: Side_of_u8_def)

lemma u8_OrderType [simp]: "u8_of_OrderType (OrderType_of_u8 b) = b"
  by (simp add: OrderType_of_u8_def)

text \<open>A value of the enum is written in one way only: named values by name.\<close>

definition proper_enums :: "Order \<Rightarrow> bool" where
  "proper_enums o' \<longleftrightarrow> side o' \<notin> {Side_other 0, Side_other 1} \<and>
     order_type o' \<notin> {OrderType_other 0, OrderType_other 1}"

lemma Side_u8: "s \<notin> {Side_other 0, Side_other 1} \<Longrightarrow> Side_of_u8 (u8_of_Side s) = s"
  by (cases s) (auto simp: Side_of_u8_def)

lemma OrderType_u8: "t \<notin> {OrderType_other 0, OrderType_other 1} \<Longrightarrow> OrderType_of_u8 (u8_of_OrderType t) = t"
  by (cases t) (auto simp: OrderType_of_u8_def)

section \<open>Strings in fixed buffers\<close>

definition safe_strncpy :: "char list \<Rightarrow> string \<Rightarrow> nat \<Rightarrow> char list" where
  "safe_strncpy dest src max_len =
     (let len = min (length src) (max_len - 1)
      in take len src @ NUL # drop (len + 1) dest)"

lemma length_safe_strncpy:
  "length dest = max_len \<Longrightarrow> 0 < max_len \<Longrightarrow> length (safe_strncpy dest src max_len) = max_len"
  by (simp add: safe_strncpy_def Let_def)

lemma c_string_safe_strncpy:
  "NUL \<notin> set src \<Longrightarrow> c_string (safe_strncpy dest src max_len) = Inr (take (max_len - 1) src)"
  using c_string_terminated [of "take (max_len - 1) src"]
  by (auto simp: safe_strncpy_def Let_def min_def dest: in_set_takeD)

section \<open>Conversions\<close>

definition to_net_order :: "NetOrder \<Rightarrow> Order \<Rightarrow> NetOrder" where
  "to_net_order net order =
     \<lparr>no_order_id = order_id order, no_symbol = safe_strncpy (no_symbol net) (symbol order) 8,
      no_side = u8_of_Side (side order), no_type = u8_of_OrderType (order_type order),
      no_price = price order, no_quantity = quantity order, no_timestamp = timestamp order\<rparr>"

definition from_net_order :: "NetOrder \<Rightarrow> undefined_behaviour + Order" where
  "from_net_order net =
     map_sum id
       (\<lambda>sy. \<lparr>order_id = no_order_id net, symbol = sy, side = Side_of_u8 (no_side net),
              order_type = OrderType_of_u8 (no_type net), price = no_price net,
              quantity = no_quantity net, remaining_quantity = no_quantity net,
              timestamp = no_timestamp net, client_id = 0\<rparr>)
       (c_string (no_symbol net))"

definition from_net_cancel :: "NetCancel \<Rightarrow> undefined_behaviour + CancelRequest" where
  "from_net_cancel net =
     map_sum id
       (\<lambda>sy. \<lparr>creq_order_id = nc_order_id net, creq_symbol = sy,
              creq_timestamp = nc_timestamp net, creq_client_id = 0\<rparr>)
       (c_string (nc_symbol net))"

definition to_net_cancel :: "NetCancel \<Rightarrow> CancelRequest \<Rightarrow> NetCancel" where
  "to_net_cancel net req =
     \<lparr>nc_order_id = creq_order_id req, nc_symbol = safe_strncpy (nc_symbol net) (creq_symbol req) 8,
      nc_timestamp = creq_timestamp req\<rparr>"

definition from_net_modify :: "NetModify \<Rightarrow> undefined_behaviour + ModifyRequest" where
  "from_net_modify net =
     map_sum id
       (\<lambda>sy. \<lparr>mreq_order_id = nm_order_id net, mreq_symbol = sy, mreq_price = nm_price net,
              mreq_quantity = nm_quantity net, mreq_timestamp = nm_timestamp net, mreq_client_id = 0\<rparr>)
       (c_string (nm_symbol net))"

definition to_net_modify :: "NetModify \<Rightarrow> ModifyRequest \<Rightarrow> NetModify" where
  "to_net_modify net req =
     \<lparr>nm_order_id = mreq_order_id req, nm_symbol = safe_strncpy (nm_symbol net) (mreq_symbol req) 8,
      nm_price = mreq_price req, nm_quantity = mreq_quantity req, nm_timestamp = mreq_timestamp req\<rparr>"

definition to_net_report :: "NetExecutionReport \<Rightarrow> ExecutionReport \<Rightarrow> NetExecutionReport" where
  "to_net_report net report =
     \<lparr>nr_order_id = rep_order_id report, nr_symbol = safe_strncpy (nr_symbol net) (rep_symbol report) 8,
      nr_side = u8_of_Side (rep_side report), nr_status = u8_of_OrderStatus (rep_status report),
      nr_price = rep_price report, nr_quantity = rep_quantity report,
      nr_remaining_quantity = rep_remaining_quantity report, nr_last_qty = rep_last_qty report,
      nr_last_px = rep_last_px report, nr_timestamp = rep_timestamp report,
      nr_reject_reason = safe_strncpy (nr_reject_reason net) (rep_reject_reason report) 32\<rparr>"

end
