(* ===== verification/Wire_Layout.thy ===== *)
theory Wire_Layout
  imports Binary_Serializer
begin

text \<open>
  The memory images of the packed structs of \<^verbatim>\<open>binary_serializer.hpp\<close>, which is what is sent,
  received and logged, and their decoding by \<^verbatim>\<open>memcpy\<close> into a struct.  The locale
  \<open>packed_struct\<close> is what the users of a struct rely on: a fixed size and that image and
  value determine each other; it is interpreted on every struct.
\<close>

section \<open>The interface of a packed struct\<close>

locale packed_struct =
  fixes size_of :: nat
    and image_of :: "'s \<Rightarrow> byte list"
    and load :: "byte list \<Rightarrow> 's"
    and wf :: "'s \<Rightarrow> bool"
  assumes image_length: "wf s \<Longrightarrow> length (image_of s) = size_of"
    and load_image: "wf s \<Longrightarrow> load (image_of s) = s"
    and image_load: "length bs = size_of \<Longrightarrow> image_of (load bs) = bs"
    and wf_load: "length bs = size_of \<Longrightarrow> wf (load bs)"
begin

lemma image_inj: "wf s \<Longrightarrow> wf t \<Longrightarrow> image_of s = image_of t \<longleftrightarrow> s = t"
  using load_image by metis

lemma load_prefix: "wf s \<Longrightarrow> load (take size_of (image_of s @ rest)) = s"
  by (simp add: image_length load_image)

lemma drop_image: "wf s \<Longrightarrow> drop size_of (image_of s @ rest) = rest"
  by (simp add: image_length)

lemma image_surj: "length bs = size_of \<Longrightarrow> \<exists>s. wf s \<and> image_of s = bs"
  using image_load wf_load by blast

end

section \<open>Splitting an image into fields\<close>

lemma split_fields_ex: "sum_list ns = length bs \<Longrightarrow> \<exists>cs. bs = concat cs \<and> map length cs = ns"
proof (induction ns arbitrary: bs)
  case Nil
  then show ?case by simp
next
  case (Cons n ns)
  then have "sum_list ns = length (drop n bs)" by simp
  from Cons.IH [OF this] obtain cs where cs: "drop n bs = concat cs" "map length cs = ns" by auto
  have "bs = concat (take n bs # cs)"
    unfolding concat.simps cs(1) [symmetric] by (rule append_take_drop_id [symmetric])
  moreover have "map length (take n bs # cs) = n # ns"
    using Cons.prems cs(2) by simp
  ultimately show ?case by metis
qed

lemma split_fields:
  assumes "sum_list ns = length bs"
  obtains cs where "bs = concat cs" "map length cs = ns"
  using split_fields_ex [OF assms] by metis

lemma le_bytes_load [wire_simps]:
  "length bs = n \<Longrightarrow> 8 * n \<le> LENGTH('a) \<Longrightarrow> le_bytes n (le_word bs :: 'a::len word) = bs"
  using le_bytes_le_word by blast

lemma le_word_store [wire_simps]:
  "le_word (le_bytes 8 (x :: uint64_t)) = x" "le_word (le_bytes 4 (y :: uint32_t)) = y"
  "le_word (le_bytes 2 (z :: uint16_t)) = z"
  by (rule le_word_le_bytes, simp)+

lemma chars_store [wire_simps]:
  "map (char_of_byte \<circ> byte_of_char) s = s" "map (byte_of_char \<circ> char_of_byte) bs = bs"
  by (simp_all add: comp_def)

section \<open>The images\<close>

definition MsgHeader_image :: "MsgHeader \<Rightarrow> byte list" where
  "MsgHeader_image h = le_bytes 2 (hdr_type h) @ le_bytes 2 (hdr_length h)"

definition MsgHeader_load :: "byte list \<Rightarrow> MsgHeader" where
  "MsgHeader_load bs = \<lparr>hdr_type = le_word (take 2 bs), hdr_length = le_word (take 2 (drop 2 bs))\<rparr>"

definition NetOrder_image :: "NetOrder \<Rightarrow> byte list" where
  "NetOrder_image n = le_bytes 8 (no_order_id n) @ map byte_of_char (no_symbol n) @ [no_side n] @ [no_type n] @
     le_bytes 8 (no_price n) @ le_bytes 4 (no_quantity n) @ le_bytes 8 (no_timestamp n)"

definition NetOrder_load :: "byte list \<Rightarrow> NetOrder" where
  "NetOrder_load bs = \<lparr>no_order_id = le_word (take 8 bs), no_symbol = map char_of_byte (take 8 (drop 8 bs)),
     no_side = bs ! 16, no_type = bs ! 17, no_price = le_word (take 8 (drop 18 bs)),
     no_quantity = le_word (take 4 (drop 26 bs)), no_timestamp = le_word (take 8 (drop 30 bs))\<rparr>"

definition NetCancel_image :: "NetCancel \<Rightarrow> byte list" where
  "NetCancel_image n = le_bytes 8 (nc_order_id n) @ map byte_of_char (nc_symbol n) @ le_bytes 8 (nc_timestamp n)"

definition NetCancel_load :: "byte list \<Rightarrow> NetCancel" where
  "NetCancel_load bs = \<lparr>nc_order_id = le_word (take 8 bs), nc_symbol = map char_of_byte (take 8 (drop 8 bs)),
     nc_timestamp = le_word (take 8 (drop 16 bs))\<rparr>"

definition NetModify_image :: "NetModify \<Rightarrow> byte list" where
  "NetModify_image n = le_bytes 8 (nm_order_id n) @ map byte_of_char (nm_symbol n) @ le_bytes 8 (nm_price n) @
     le_bytes 4 (nm_quantity n) @ le_bytes 8 (nm_timestamp n)"

definition NetModify_load :: "byte list \<Rightarrow> NetModify" where
  "NetModify_load bs = \<lparr>nm_order_id = le_word (take 8 bs), nm_symbol = map char_of_byte (take 8 (drop 8 bs)),
     nm_price = le_word (take 8 (drop 16 bs)), nm_quantity = le_word (take 4 (drop 24 bs)),
     nm_timestamp = le_word (take 8 (drop 28 bs))\<rparr>"

definition NetExecutionReport_image :: "NetExecutionReport \<Rightarrow> byte list" where
  "NetExecutionReport_image n = le_bytes 8 (nr_order_id n) @ map byte_of_char (nr_symbol n) @ [nr_side n] @ [nr_status n] @
     le_bytes 8 (nr_price n) @ le_bytes 4 (nr_quantity n) @ le_bytes 4 (nr_remaining_quantity n) @
     le_bytes 4 (nr_last_qty n) @ le_bytes 8 (nr_last_px n) @ le_bytes 8 (nr_timestamp n) @
     map byte_of_char (nr_reject_reason n)"

definition NetExecutionReport_load :: "byte list \<Rightarrow> NetExecutionReport" where
  "NetExecutionReport_load bs = \<lparr>nr_order_id = le_word (take 8 bs), nr_symbol = map char_of_byte (take 8 (drop 8 bs)),
     nr_side = bs ! 16, nr_status = bs ! 17, nr_price = le_word (take 8 (drop 18 bs)),
     nr_quantity = le_word (take 4 (drop 26 bs)), nr_remaining_quantity = le_word (take 4 (drop 30 bs)),
     nr_last_qty = le_word (take 4 (drop 34 bs)), nr_last_px = le_word (take 8 (drop 38 bs)),
     nr_timestamp = le_word (take 8 (drop 46 bs)), nr_reject_reason = map char_of_byte (take 32 (drop 54 bs))\<rparr>"

definition sizeof_MsgHeader :: nat where "sizeof_MsgHeader = 4"
definition sizeof_NetOrder :: nat where "sizeof_NetOrder = 38"
definition sizeof_NetCancel :: nat where "sizeof_NetCancel = 24"
definition sizeof_NetModify :: nat where "sizeof_NetModify = 36"
definition sizeof_NetExecutionReport :: nat where "sizeof_NetExecutionReport = 86"

lemmas sizeof_defs [wire_simps] = sizeof_MsgHeader_def sizeof_NetOrder_def sizeof_NetCancel_def
  sizeof_NetModify_def sizeof_NetExecutionReport_def

lemmas image_defs [wire_simps] = MsgHeader_image_def NetOrder_image_def NetCancel_image_def NetModify_image_def
  NetExecutionReport_image_def

lemmas load_defs [wire_simps] = MsgHeader_load_def NetOrder_load_def NetCancel_load_def NetModify_load_def
  NetExecutionReport_load_def

interpretation header: packed_struct sizeof_MsgHeader MsgHeader_image MsgHeader_load "\<lambda>_. True"
proof
  fix bs :: "byte list"
  assume "length bs = sizeof_MsgHeader"
  then have "sum_list [2, 2] = length bs" by (simp add: wire_simps)
  then obtain cs where "bs = concat cs" "map length cs = [2, 2]" by (rule split_fields)
  then show "MsgHeader_image (MsgHeader_load bs) = bs"
    by (auto simp: map_eq_Cons_conv wire_simps)
qed (simp_all add: wire_simps)

interpretation net_order: packed_struct sizeof_NetOrder NetOrder_image NetOrder_load "\<lambda>n. length (no_symbol n) = 8"
proof
  fix bs :: "byte list"
  assume "length bs = sizeof_NetOrder"
  then have "sum_list [8, 8, 1, 1, 8, 4, 8] = length bs" by (simp add: wire_simps)
  then obtain cs where "bs = concat cs" "map length cs = [8, 8, 1, 1, 8, 4, 8]" by (rule split_fields)
  then show "NetOrder_image (NetOrder_load bs) = bs" "length (no_symbol (NetOrder_load bs)) = 8"
    by (auto simp: map_eq_Cons_conv length_Suc_conv wire_simps nth_append)
qed (simp_all add: wire_simps nth_append)

interpretation net_cancel: packed_struct sizeof_NetCancel NetCancel_image NetCancel_load "\<lambda>n. length (nc_symbol n) = 8"
proof
  fix bs :: "byte list"
  assume "length bs = sizeof_NetCancel"
  then have "sum_list [8, 8, 8] = length bs" by (simp add: wire_simps)
  then obtain cs where "bs = concat cs" "map length cs = [8, 8, 8]" by (rule split_fields)
  then show "NetCancel_image (NetCancel_load bs) = bs" "length (nc_symbol (NetCancel_load bs)) = 8"
    by (auto simp: map_eq_Cons_conv wire_simps)
qed (simp_all add: wire_simps)

interpretation net_modify: packed_struct sizeof_NetModify NetModify_image NetModify_load "\<lambda>n. length (nm_symbol n) = 8"
proof
  fix bs :: "byte list"
  assume "length bs = sizeof_NetModify"
  then have "sum_list [8, 8, 8, 4, 8] = length bs" by (simp add: wire_simps)
  then obtain cs where "bs = concat cs" "map length cs = [8, 8, 8, 4, 8]" by (rule split_fields)
  then show "NetModify_image (NetModify_load bs) = bs" "length (nm_symbol (NetModify_load bs)) = 8"
    by (auto simp: map_eq_Cons_conv wire_simps)
qed (simp_all add: wire_simps)

interpretation net_report: packed_struct sizeof_NetExecutionReport NetExecutionReport_image NetExecutionReport_load
  "\<lambda>n. length (nr_symbol n) = 8 \<and> length (nr_reject_reason n) = 32"
proof
  fix bs :: "byte list"
  assume "length bs = sizeof_NetExecutionReport"
  then have "sum_list [8, 8, 1, 1, 8, 4, 4, 4, 8, 8, 32] = length bs" by (simp add: wire_simps)
  then obtain cs where "bs = concat cs" "map length cs = [8, 8, 1, 1, 8, 4, 4, 4, 8, 8, 32]" by (rule split_fields)
  then show "NetExecutionReport_image (NetExecutionReport_load bs) = bs"
    "length (nr_symbol (NetExecutionReport_load bs)) = 8 \<and> length (nr_reject_reason (NetExecutionReport_load bs)) = 32"
    by (auto simp: map_eq_Cons_conv length_Suc_conv wire_simps nth_append)
qed (simp_all add: wire_simps nth_append)

section \<open>Properties\<close>

text \<open>What one side sends and the other reads: struct, image, struct, domain object.\<close>

definition order_over_wire :: "NetOrder \<Rightarrow> Order \<Rightarrow> undefined_behaviour + Order" where
  "order_over_wire net o' = from_net_order (NetOrder_load (NetOrder_image (to_net_order net o')))"

lemma wf_to_net_order: "length (no_symbol net) = 8 \<Longrightarrow> length (no_symbol (to_net_order net o')) = 8"
  by (simp add: to_net_order_def length_safe_strncpy)

text \<open>
  C12: What the wire keeps of an order: one whose side and type are proper values of their enums and whose symbol has no
  NUL, serialised into any uninitialised struct, copied as 38 bytes and read back, has the same id, side, type, price, quantity and
  timestamp; its symbol is cut to the 7 characters that fit the 8-byte field, and the two fields that are not on the
  wire come back as defaults, the remaining quantity as the whole quantity and the client id as 0.
\<close>

theorem order_wire_roundtrip:
  assumes "length (no_symbol net) = 8" and "NUL \<notin> set (symbol o')" and "proper_enums o'"
  shows "order_over_wire net o' = Inr (o'\<lparr>symbol := take 7 (symbol o'), remaining_quantity := quantity o', client_id := 0\<rparr>)
    \<and> length (NetOrder_image (to_net_order net o')) = sizeof_NetOrder"
proof -
  have "NetOrder_load (NetOrder_image (to_net_order net o')) = to_net_order net o'"
    by (rule net_order.load_image [OF wf_to_net_order [OF assms(1)]])
  moreover have "from_net_order (to_net_order net o') =
      Inr (o'\<lparr>symbol := take 7 (symbol o'), remaining_quantity := quantity o', client_id := 0\<rparr>)"
    using assms(2,3)
    by (simp add: from_net_order_def to_net_order_def c_string_safe_strncpy proper_enums_def Side_u8 OrderType_u8)
  ultimately show ?thesis
    using net_order.image_length [OF wf_to_net_order [OF assms(1)]] by (simp add: order_over_wire_def)
qed

theorem order_wire_roundtrip_witness:
  "order_over_wire \<lparr>no_order_id = 0, no_symbol = ''garbage!'', no_side = 0, no_type = 0, no_price = 0,
       no_quantity = 0, no_timestamp = 0\<rparr>
     \<lparr>order_id = 5, symbol = ''ALPHABET'', side = Sell, order_type = Limit, price = 15000, quantity = 80,
       remaining_quantity = 30, timestamp = 2001, client_id = 7\<rparr>
   = Inr \<lparr>order_id = 5, symbol = ''ALPHABE'', side = Sell, order_type = Limit, price = 15000, quantity = 80,
       remaining_quantity = 80, timestamp = 2001, client_id = 0\<rparr>"
proof -
  let ?net = "\<lparr>no_order_id = 0, no_symbol = ''garbage!'', no_side = 0, no_type = 0, no_price = 0,
       no_quantity = 0, no_timestamp = 0\<rparr>"
  let ?o = "\<lparr>order_id = 5, symbol = ''ALPHABET'', side = Sell, order_type = Limit, price = 15000, quantity = 80,
       remaining_quantity = 30, timestamp = 2001, client_id = 7\<rparr>"
  have "length (no_symbol ?net) = 8" "NUL \<notin> set (symbol ?o)" "proper_enums ?o"
    by (simp_all add: proper_enums_def)
  from order_wire_roundtrip [OF this] show ?thesis by simp
qed

definition cancel_over_wire :: "NetCancel \<Rightarrow> CancelRequest \<Rightarrow> undefined_behaviour + CancelRequest" where
  "cancel_over_wire net req = from_net_cancel (NetCancel_load (NetCancel_image (to_net_cancel net req)))"

definition modify_over_wire :: "NetModify \<Rightarrow> ModifyRequest \<Rightarrow> undefined_behaviour + ModifyRequest" where
  "modify_over_wire net req = from_net_modify (NetModify_load (NetModify_image (to_net_modify net req)))"

lemma cancel_over_wire_eq:
  "length (nc_symbol net) = 8 \<Longrightarrow> NUL \<notin> set (creq_symbol req) \<Longrightarrow>
     cancel_over_wire net req = Inr (req\<lparr>creq_symbol := take 7 (creq_symbol req), creq_client_id := 0\<rparr>)"
  by (simp add: cancel_over_wire_def net_cancel.load_image to_net_cancel_def from_net_cancel_def
      length_safe_strncpy c_string_safe_strncpy)

lemma modify_over_wire_eq:
  "length (nm_symbol net) = 8 \<Longrightarrow> NUL \<notin> set (mreq_symbol req) \<Longrightarrow>
     modify_over_wire net req = Inr (req\<lparr>mreq_symbol := take 7 (mreq_symbol req), mreq_client_id := 0\<rparr>)"
  by (simp add: modify_over_wire_def net_modify.load_image to_net_modify_def from_net_modify_def
      length_safe_strncpy c_string_safe_strncpy)

text \<open>
  Cancel and modify requests survive the wire in the same way: all fields but the client id,
  with the symbol cut to 7 characters.
\<close>

theorem requests_wire_roundtrip:
  assumes "length (nc_symbol nc) = 8" "length (nm_symbol nm) = 8"
    and "NUL \<notin> set (creq_symbol creq)" "NUL \<notin> set (mreq_symbol mreq)"
  shows "cancel_over_wire nc creq = Inr (creq\<lparr>creq_symbol := take 7 (creq_symbol creq), creq_client_id := 0\<rparr>) \<and>
    modify_over_wire nm mreq = Inr (mreq\<lparr>mreq_symbol := take 7 (mreq_symbol mreq), mreq_client_id := 0\<rparr>)"
  using assms by (simp add: cancel_over_wire_eq modify_over_wire_eq)

theorem requests_wire_roundtrip_witness:
  "cancel_over_wire \<lparr>nc_order_id = 0, nc_symbol = ''ABCDEFGH'', nc_timestamp = 0\<rparr>
     \<lparr>creq_order_id = 1001, creq_symbol = ''AAPL'', creq_timestamp = 6000, creq_client_id = 3\<rparr> =
     Inr \<lparr>creq_order_id = 1001, creq_symbol = ''AAPL'', creq_timestamp = 6000, creq_client_id = 0\<rparr>"
  using requests_wire_roundtrip [of "\<lparr>nc_order_id = 0, nc_symbol = ''ABCDEFGH'', nc_timestamp = 0\<rparr>"
      "\<lparr>nm_order_id = 0, nm_symbol = ''ABCDEFGH'', nm_price = 0, nm_quantity = 0, nm_timestamp = 0\<rparr>"
      "\<lparr>creq_order_id = 1001, creq_symbol = ''AAPL'', creq_timestamp = 6000, creq_client_id = 3\<rparr>"
      "\<lparr>mreq_order_id = 1, mreq_symbol = ''A'', mreq_price = 1, mreq_quantity = 1, mreq_timestamp = 1, mreq_client_id = 1\<rparr>"]
  by simp

text \<open>
  C14: A received packet whose 8-byte symbol field has no terminator makes every conversion from
  the wire read past the array: the fields are copied from the network unchecked.
\<close>

theorem unterminated_symbol_overreads:
  assumes "NUL \<notin> set sy" "length sy = 8"
  shows "from_net_order (NetOrder_load (NetOrder_image (n\<lparr>no_symbol := sy\<rparr>))) = Inl Out_of_bounds_read \<and>
    from_net_cancel (NetCancel_load (NetCancel_image (c\<lparr>nc_symbol := sy\<rparr>))) = Inl Out_of_bounds_read \<and>
    from_net_modify (NetModify_load (NetModify_image (m\<lparr>nm_symbol := sy\<rparr>))) = Inl Out_of_bounds_read"
  using assms
  by (simp add: net_order.load_image net_cancel.load_image net_modify.load_image
      from_net_order_def from_net_cancel_def from_net_modify_def c_string_def)

theorem unterminated_symbol_overreads_witness:
  "from_net_order (NetOrder_load (NetOrder_image \<lparr>no_order_id = 1, no_symbol = ''ABCDEFGH'', no_side = 0, no_type = 0,
     no_price = 1, no_quantity = 1, no_timestamp = 1\<rparr>)) = Inl Out_of_bounds_read"
  using unterminated_symbol_overreads [of "''ABCDEFGH''" "\<lparr>no_order_id = 1, no_symbol = [], no_side = 0, no_type = 0,
     no_price = 1, no_quantity = 1, no_timestamp = 1\<rparr>"]
  by simp

end
