(* ===== verification/Wal.thy ===== *)
theory Wal
  imports Mpsc_Queue Wire_Layout
begin

text \<open>
  \<^verbatim>\<open>src/pipeline/wal_event.hpp\<close>, \<^verbatim>\<open>wal.hpp\<close> and \<^verbatim>\<open>wal.cpp\<close>: the log entries with their byte
  layout, and the log with its queue, its background flush loop and its file.  The union of the
  entry is its 52 bytes.  An entry and the \<^verbatim>\<open>NetOrder\<close> that \<^verbatim>\<open>to_net\<close> returns start as
  uninitialised stack memory: \<open>mem k\<close> is what the \<open>k\<close>-th logging call finds there.  The file
  is its bytes; a write to the open stream appends.  A result \<open>None\<close> is a call that never
  returns, \<open>Inl\<close> undefined behaviour.
\<close>

section \<open>Entries\<close>

definition WALEventType_Submit :: uint8_t where "WALEventType_Submit = 1"
definition WALEventType_Cancel :: uint8_t where "WALEventType_Cancel = 2"
definition WALEventType_Modify :: uint8_t where "WALEventType_Modify = 3"
definition WALEventType_Fill :: uint8_t where "WALEventType_Fill = 4"

lemmas event_type_defs = WALEventType_Submit_def WALEventType_Cancel_def WALEventType_Modify_def WALEventType_Fill_def

record NetFill =
  nf_trade_id :: uint64_t
  nf_buy_order_id :: uint64_t
  nf_sell_order_id :: uint64_t
  nf_symbol :: "char list"
  nf_price :: uint64_t
  nf_quantity :: uint32_t
  nf_timestamp :: uint64_t

record WALEntry =
  we_type :: uint8_t
  we_data :: "byte list"

definition NetFill_image :: "NetFill \<Rightarrow> byte list" where
  "NetFill_image n = le_bytes 8 (nf_trade_id n) @ le_bytes 8 (nf_buy_order_id n) @ le_bytes 8 (nf_sell_order_id n) @
     map byte_of_char (nf_symbol n) @ le_bytes 8 (nf_price n) @ le_bytes 4 (nf_quantity n) @ le_bytes 8 (nf_timestamp n)"

definition NetFill_load :: "byte list \<Rightarrow> NetFill" where
  "NetFill_load bs = \<lparr>nf_trade_id = le_word (take 8 bs), nf_buy_order_id = le_word (take 8 (drop 8 bs)),
     nf_sell_order_id = le_word (take 8 (drop 16 bs)), nf_symbol = map char_of_byte (take 8 (drop 24 bs)),
     nf_price = le_word (take 8 (drop 32 bs)), nf_quantity = le_word (take 4 (drop 40 bs)),
     nf_timestamp = le_word (take 8 (drop 44 bs))\<rparr>"

definition sizeof_NetFill :: nat where "sizeof_NetFill = 52"
definition sizeof_WALEntry :: nat where "sizeof_WALEntry = 53"

definition WALEntry_image :: "WALEntry \<Rightarrow> byte list" where
  "WALEntry_image en = we_type en # we_data en"

definition WALEntry_load :: "byte list \<Rightarrow> WALEntry" where
  "WALEntry_load bs = \<lparr>we_type = bs ! 0, we_data = take 52 (drop 1 bs)\<rparr>"

lemmas fill_layout [wire_simps] = NetFill_image_def NetFill_load_def sizeof_NetFill_def

interpretation net_fill: packed_struct sizeof_NetFill NetFill_image NetFill_load "\<lambda>n. length (nf_symbol n) = 8"
proof
  fix bs :: "byte list"
  assume "length bs = sizeof_NetFill"
  then have "sum_list [8, 8, 8, 8, 8, 4, 8] = length bs" by (simp add: wire_simps)
  then obtain cs where "bs = concat cs" "map length cs = [8, 8, 8, 8, 8, 4, 8]" by (rule split_fields)
  then show "NetFill_image (NetFill_load bs) = bs" "length (nf_symbol (NetFill_load bs)) = 8"
    by (auto simp: map_eq_Cons_conv wire_simps)
qed (simp_all add: wire_simps)

interpretation wal_entry: packed_struct sizeof_WALEntry WALEntry_image WALEntry_load "\<lambda>en. length (we_data en) = 52"
proof
  fix bs :: "byte list"
  assume "length bs = sizeof_WALEntry"
  then show "WALEntry_image (WALEntry_load bs) = bs" "length (we_data (WALEntry_load bs)) = 52"
    by (cases bs; simp add: WALEntry_image_def WALEntry_load_def sizeof_WALEntry_def)+
qed (simp_all add: WALEntry_image_def WALEntry_load_def sizeof_WALEntry_def)

text \<open>Writing a member of the union overwrites the first bytes and leaves the others.\<close>

definition union_store :: "byte list \<Rightarrow> byte list \<Rightarrow> byte list" where
  "union_store img data = img @ drop (length img) data"

lemma length_union_store: "length img \<le> length data \<Longrightarrow> length (union_store img data) = length data"
  by (simp add: union_store_def)

lemma take_union_store [simp]: "length img = n \<Longrightarrow> take n (union_store img data) = img"
  by (simp add: union_store_def)

section \<open>The log\<close>

record uninit =
  u_entry :: WALEntry
  u_net :: NetOrder

record WAL =
  filepath :: string
  wal_file :: "byte list"
  file_open :: bool
  wal_queue :: "WALEntry MPSCQueue"
  wal_running :: bool
  wal_calls :: nat

definition WAL_init :: "string \<Rightarrow> byte list \<Rightarrow> WAL" where
  "WAL_init path disk = \<lparr>filepath = path, wal_file = disk, file_open = False, wal_queue = MPSCQueue_init,
     wal_running = False, wal_calls = 0\<rparr>"

definition wal_start :: "bool \<Rightarrow> WAL \<Rightarrow> WAL" where
  "wal_start can_open w =
     (if wal_running w then w
      else if \<not> can_open then w
      else w\<lparr>file_open := True, wal_running := True\<rparr>)"

definition wal_push :: "WALEntry \<Rightarrow> WAL \<Rightarrow> (undefined_behaviour + WAL) option" where
  "wal_push entry w =
     map_option (map_sum id (\<lambda>q. w\<lparr>wal_queue := q, wal_calls := Suc (wal_calls w)\<rparr>))
       (spin_enqueue (wal_running w) entry (wal_queue w))"

definition order_entry :: "uninit \<Rightarrow> Order \<Rightarrow> WALEntry" where
  "order_entry u order = (u_entry u)\<lparr>we_type := WALEventType_Submit,
     we_data := union_store (NetOrder_image (to_net_order (u_net u) order)) (we_data (u_entry u))\<rparr>"

definition log_order :: "(nat \<Rightarrow> uninit) \<Rightarrow> Order \<Rightarrow> WAL \<Rightarrow> (undefined_behaviour + WAL) option" where
  "log_order mem order w =
     (if \<not> wal_running w then Some (Inr w) else wal_push (order_entry (mem (wal_calls w)) order) w)"

definition cancel_entry :: "uninit \<Rightarrow> CancelRequest \<Rightarrow> WALEntry" where
  "cancel_entry u req =
     (let c = NetCancel_load (take sizeof_NetCancel (we_data (u_entry u)));
          c' = c\<lparr>nc_order_id := creq_order_id req, nc_symbol := safe_strncpy (nc_symbol c) (creq_symbol req) 8,
                 nc_timestamp := creq_timestamp req\<rparr>
      in (u_entry u)\<lparr>we_type := WALEventType_Cancel,
           we_data := union_store (NetCancel_image c') (we_data (u_entry u))\<rparr>)"

definition log_cancel :: "(nat \<Rightarrow> uninit) \<Rightarrow> CancelRequest \<Rightarrow> WAL \<Rightarrow> (undefined_behaviour + WAL) option" where
  "log_cancel mem req w =
     (if \<not> wal_running w then Some (Inr w) else wal_push (cancel_entry (mem (wal_calls w)) req) w)"

definition modify_entry :: "uninit \<Rightarrow> ModifyRequest \<Rightarrow> WALEntry" where
  "modify_entry u req =
     (let m = NetModify_load (take sizeof_NetModify (we_data (u_entry u)));
          m' = m\<lparr>nm_order_id := mreq_order_id req, nm_symbol := safe_strncpy (nm_symbol m) (mreq_symbol req) 8,
                 nm_price := mreq_price req, nm_quantity := mreq_quantity req, nm_timestamp := mreq_timestamp req\<rparr>
      in (u_entry u)\<lparr>we_type := WALEventType_Modify,
           we_data := union_store (NetModify_image m') (we_data (u_entry u))\<rparr>)"

definition log_modify :: "(nat \<Rightarrow> uninit) \<Rightarrow> ModifyRequest \<Rightarrow> WAL \<Rightarrow> (undefined_behaviour + WAL) option" where
  "log_modify mem req w =
     (if \<not> wal_running w then Some (Inr w) else wal_push (modify_entry (mem (wal_calls w)) req) w)"

definition fill_entry :: "uninit \<Rightarrow> Fill \<Rightarrow> WALEntry" where
  "fill_entry u f =
     (let n = NetFill_load (we_data (u_entry u));
          n' = n\<lparr>nf_trade_id := fill_trade_id f, nf_buy_order_id := fill_buy_order_id f,
                 nf_sell_order_id := fill_sell_order_id f,
                 nf_symbol := safe_strncpy (nf_symbol n) (fill_symbol f) 8,
                 nf_price := fill_price f, nf_quantity := fill_quantity f, nf_timestamp := fill_timestamp f\<rparr>
      in (u_entry u)\<lparr>we_type := WALEventType_Fill, we_data := union_store (NetFill_image n') (we_data (u_entry u))\<rparr>)"

definition log_fill :: "(nat \<Rightarrow> uninit) \<Rightarrow> Fill \<Rightarrow> WAL \<Rightarrow> (undefined_behaviour + WAL) option" where
  "log_fill mem f w =
     (if \<not> wal_running w then Some (Inr w) else wal_push (fill_entry (mem (wal_calls w)) f) w)"

text \<open>One round of the flush loop, and the loop.\<close>

definition flush_once :: "WAL \<Rightarrow> undefined_behaviour + WAL" where
  "flush_once w =
     (case mpsc_dequeue (wal_queue w) of
        Inl ub \<Rightarrow> Inl ub
      | Inr (Some entry, q) \<Rightarrow> Inr (w\<lparr>wal_queue := q, wal_file := wal_file w @ WALEntry_image entry\<rparr>)
      | Inr (None, q) \<Rightarrow> Inr (w\<lparr>wal_queue := q\<rparr>))"

partial_function (option) flush_loop :: "WAL \<Rightarrow> (undefined_behaviour + WAL) option" where
  "flush_loop w =
     (case mpsc_empty (wal_queue w) of
        Inl ub \<Rightarrow> Some (Inl ub)
      | Inr is_empty \<Rightarrow>
          (if wal_running w \<or> \<not> is_empty
           then (case flush_once w of Inl ub \<Rightarrow> Some (Inl ub) | Inr w' \<Rightarrow> flush_loop w')
           else Some (Inr w)))"

text \<open>\<^verbatim>\<open>stop\<close> joins the flush thread: it waits until the loop has ended.\<close>

definition wal_stop :: "WAL \<Rightarrow> (undefined_behaviour + WAL) option" where
  "wal_stop w =
     (if wal_running w
      then map_option (map_sum id (\<lambda>w'. w'\<lparr>file_open := False\<rparr>))
             (flush_loop (w\<lparr>wal_running := False, wal_queue := mpsc_close (wal_queue w)\<rparr>))
      else Some (Inr w))"

section \<open>What the log keeps\<close>

definition mem_ok :: "(nat \<Rightarrow> uninit) \<Rightarrow> bool" where
  "mem_ok mem \<longleftrightarrow> (\<forall>k. length (we_data (u_entry (mem k))) = 52 \<and> length (no_symbol (u_net (mem k))) = 8)"

definition wal_ok :: "WAL \<Rightarrow> WALEntry list \<Rightarrow> bool" where
  "wal_ok w es \<longleftrightarrow> mpsc_idle (wal_queue w) es \<and> (wal_running w \<longrightarrow> \<not> closed (wal_queue w)) \<and>
     (\<forall>en \<in> set es. length (we_data en) = 52)"

lemma wal_ok_init: "wal_ok (WAL_init path disk) []"
  by (simp add: wal_ok_def WAL_init_def mpsc_idle_init)

lemma entry_lengths:
  assumes "mem_ok mem"
  shows "length (we_data (order_entry (mem k) order)) = 52" "length (we_data (cancel_entry (mem k) creq)) = 52"
    "length (we_data (modify_entry (mem k) mreq)) = 52" "length (we_data (fill_entry (mem k) f)) = 52"
  using assms
  by (simp_all add: mem_ok_def order_entry_def cancel_entry_def modify_entry_def fill_entry_def Let_def
      length_union_store length_safe_strncpy to_net_order_def wire_simps)

lemma wal_push_ok:
  assumes "wal_ok w es" "wal_running w" "length (we_data en) = 52"
  shows "\<exists>q. wal_push en w = Some (Inr (w\<lparr>wal_queue := q, wal_calls := Suc (wal_calls w)\<rparr>)) \<and>
    wal_ok (w\<lparr>wal_queue := q, wal_calls := Suc (wal_calls w)\<rparr>) (es @ [en])"
proof -
  have "mpsc_idle (wal_queue w) es" "\<not> closed (wal_queue w)" using assms(1,2) by (auto simp: wal_ok_def)
  from spin_enqueue_open [OF this, of en] obtain q where
    "spin_enqueue True en (wal_queue w) = Some (Inr q)" "mpsc_idle q (es @ [en])" "\<not> closed q" by blast
  then show ?thesis using assms by (auto simp: wal_push_def wal_ok_def)
qed

text \<open>What a logging call does to a running log: one entry at the end of the queue, nothing else.\<close>

definition logs :: "(nat \<Rightarrow> uninit) \<Rightarrow> WAL \<Rightarrow> WALEntry list \<Rightarrow> (undefined_behaviour + WAL) option \<Rightarrow> WALEntry list \<Rightarrow> bool" where
  "logs mem w es r new \<longleftrightarrow>
     (\<exists>q. r = Some (Inr (w\<lparr>wal_queue := q, wal_calls := wal_calls w + length new\<rparr>)) \<and>
        wal_ok (w\<lparr>wal_queue := q, wal_calls := wal_calls w + length new\<rparr>) (es @ new))"

lemma log_calls:
  assumes "wal_ok w es" "wal_running w" "mem_ok mem"
  shows "logs mem w es (log_order mem order w) [order_entry (mem (wal_calls w)) order]"
    "logs mem w es (log_cancel mem creq w) [cancel_entry (mem (wal_calls w)) creq]"
    "logs mem w es (log_modify mem mreq w) [modify_entry (mem (wal_calls w)) mreq]"
    "logs mem w es (log_fill mem f w) [fill_entry (mem (wal_calls w)) f]"
  using wal_push_ok [OF assms(1,2)] entry_lengths [OF assms(3)] assms(2)
  by (simp_all add: logs_def log_order_def log_cancel_def log_modify_def log_fill_def)

section \<open>Flushing\<close>

lemma flush_loop_stopped:
  assumes "mpsc_idle (wal_queue w) es" "\<not> wal_running w"
  shows "\<exists>q. flush_loop w = Some (Inr (w\<lparr>wal_queue := q, wal_file := wal_file w @ concat (map WALEntry_image es)\<rparr>)) \<and>
    mpsc_idle q [] \<and> closed q = closed (wal_queue w)"
  using assms
proof (induction es arbitrary: w)
  case Nil
  then show ?case using mpsc_idle_dequeue(3) [OF Nil(1)]
    by (subst flush_loop.simps) (auto intro!: exI [of _ "wal_queue w"])
next
  case (Cons en es)
  obtain q where q: "mpsc_dequeue (wal_queue w) = Inr (Some en, q)" "mpsc_idle q es" "closed q = closed (wal_queue w)"
    using mpsc_idle_dequeue(2) [OF Cons.prems(1)] by blast
  let ?w = "w\<lparr>wal_queue := q, wal_file := wal_file w @ WALEntry_image en\<rparr>"
  have "flush_loop w = flush_loop ?w"
    using mpsc_idle_dequeue(3) [OF Cons.prems(1)] q(1) by (subst flush_loop.simps) (simp add: flush_once_def)
  then show ?case using Cons.IH [of ?w] q Cons.prems(2) by auto
qed

section \<open>Properties\<close>

text \<open>
  C27: Stopping the log loses nothing: whatever entries are queued, \<^verbatim>\<open>stop\<close> returns with all of
  them appended to the file, in the order they were queued, as 53 bytes each.
\<close>

theorem wal_stop_flushes_everything:
  assumes "wal_ok w es" "wal_running w"
  shows "\<exists>w'. wal_stop w = Some (Inr w') \<and> wal_file w' = wal_file w @ concat (map WALEntry_image es) \<and>
    mpsc_contents (wal_queue w') = [] \<and> \<not> wal_running w' \<and> \<not> file_open w' \<and>
    length (wal_file w') = length (wal_file w) + 53 * length es"
proof -
  let ?w = "w\<lparr>wal_running := False, wal_queue := mpsc_close (wal_queue w)\<rparr>"
  have "mpsc_idle (wal_queue ?w) es" using assms(1) by (simp add: wal_ok_def mpsc_idle_close)
  from flush_loop_stopped [OF this] obtain q where
    q: "flush_loop ?w = Some (Inr (?w\<lparr>wal_queue := q, wal_file := wal_file w @ concat (map WALEntry_image es)\<rparr>))" "mpsc_idle q []"
    by auto
  have "map length (map WALEntry_image es) = replicate (length es) 53"
    using assms(1) by (simp add: wal_ok_def WALEntry_image_def map_replicate_const [symmetric])
  then have "length (concat (map WALEntry_image es)) = 53 * length es"
    by (simp add: length_concat sum_list_replicate)
  then show ?thesis using q assms(2) mpsc_idle_contents [OF q(2)] by (simp add: wal_stop_def)
qed

text \<open>A started log on an empty file, and stack memory full of junk.\<close>

definition ex_wal :: WAL where
  "ex_wal = wal_start True (WAL_init ''demo.wal'' [])"

definition ex_mem :: "nat \<Rightarrow> uninit" where
  "ex_mem k = \<lparr>u_entry = \<lparr>we_type = 99, we_data = replicate 52 (of_nat k)\<rparr>,
     u_net = \<lparr>no_order_id = 0, no_symbol = ''????????'', no_side = 0, no_type = 0, no_price = 0,
              no_quantity = 0, no_timestamp = 0\<rparr>\<rparr>"

definition ex_fill :: Fill where
  "ex_fill = \<lparr>fill_trade_id = 1, fill_buy_order_id = 2, fill_sell_order_id = 3, fill_symbol = ''AAPL'',
     fill_price = 100, fill_quantity = 5, fill_timestamp = 9\<rparr>"

lemma ex_mem_ok: "mem_ok ex_mem"
  by (simp add: mem_ok_def ex_mem_def)

lemma ex_wal_ok: "wal_ok ex_wal []" "wal_running ex_wal"
  using wal_ok_init [of "''demo.wal''" "[]"]
  by (simp_all add: ex_wal_def wal_start_def wal_ok_def WAL_init_def MPSCQueue_init_def)

theorem wal_stop_flushes_everything_witness:
  "\<exists>w w'. log_fill ex_mem ex_fill ex_wal = Some (Inr w) \<and> wal_stop w = Some (Inr w') \<and> length (wal_file w') = 53"
proof -
  from log_calls(4) [OF ex_wal_ok ex_mem_ok, of ex_fill] obtain w where
    w: "log_fill ex_mem ex_fill ex_wal = Some (Inr w)" "wal_ok w ([] @ [fill_entry (ex_mem (wal_calls ex_wal)) ex_fill])"
      "wal_running w" "wal_file w = []"
    using ex_wal_ok(2) by (auto simp: logs_def ex_wal_def wal_start_def WAL_init_def)
  from wal_stop_flushes_everything [OF w(2,3)] w(1,4) show ?thesis by auto
qed

text \<open>
  C30: The log cannot be used again after \<^verbatim>\<open>stop\<close>: the queue stays closed, so once \<^verbatim>\<open>start\<close> has
  set the running flag again the next logging call spins forever.
\<close>

theorem wal_restart_spins:
  assumes "wal_ok w es" "wal_running w"
  shows "\<exists>w'. wal_stop w = Some (Inr w') \<and> log_order mem order (wal_start True w') = None \<and>
    log_fill mem f (wal_start True w') = None"
proof -
  let ?w = "w\<lparr>wal_running := False, wal_queue := mpsc_close (wal_queue w)\<rparr>"
  have "mpsc_idle (wal_queue ?w) es" using assms(1) by (simp add: wal_ok_def mpsc_idle_close)
  from flush_loop_stopped [OF this] obtain q where
    q: "flush_loop ?w = Some (Inr (?w\<lparr>wal_queue := q, wal_file := wal_file w @ concat (map WALEntry_image es)\<rparr>))"
      "closed q"
    by (auto simp: mpsc_close_def)
  then show ?thesis
    using assms(2) spin_enqueue_closed [OF q(2)]
    by (simp add: wal_stop_def wal_start_def log_order_def log_fill_def wal_push_def)
qed

theorem wal_restart_spins_witness:
  "\<exists>w'. wal_stop ex_wal = Some (Inr w') \<and> log_fill ex_mem ex_fill (wal_start True w') = None"
  using wal_restart_spins [OF ex_wal_ok] by blast

end
