(* ===== verification/Connection_Manager.thy ===== *)
theory Connection_Manager
  imports Order_Index
begin

text \<open>
  \<^verbatim>\<open>src/gateway/connection_manager.hpp\<close>: the map from client ids to their sessions.  A
  \<^verbatim>\<open>shared_ptr<Session>\<close> is a session's number; the mutex is held for the whole of each operation.
\<close>

type_synonym session_ref = nat

record ConnectionManager =
  sessions :: "uint32_t \<rightharpoonup> session_ref"

definition ConnectionManager_init :: ConnectionManager where
  "ConnectionManager_init = \<lparr>sessions = Map.empty\<rparr>"

definition add_session :: "uint32_t \<Rightarrow> session_ref \<Rightarrow> ConnectionManager \<Rightarrow> ConnectionManager" where
  "add_session cid s cm = cm\<lparr>sessions := (sessions cm)(cid \<mapsto> s)\<rparr>"

definition remove_session :: "uint32_t \<Rightarrow> ConnectionManager \<Rightarrow> ConnectionManager" where
  "remove_session cid cm = cm\<lparr>sessions := (sessions cm)(cid := None)\<rparr>"

definition get_session :: "uint32_t \<Rightarrow> ConnectionManager \<Rightarrow> session_ref option" where
  "get_session cid cm = sessions cm cid"

definition cm_clear :: "ConnectionManager \<Rightarrow> ConnectionManager" where
  "cm_clear cm = cm\<lparr>sessions := Map.empty\<rparr>"

lemmas cm_defs = add_session_def remove_session_def get_session_def cm_clear_def

text \<open>The same contract as the order index: what is found is what was last added and not removed.\<close>

interpretation session_table: id_table add_session get_session
  "\<lambda>cid cm. (get_session cid cm \<noteq> None, remove_session cid cm)"
  by unfold_locales (auto simp: cm_defs)

end
