(* ===== verification/Execution_Pipeline.thy ===== *)
theory Execution_Pipeline
  imports Mpsc_Queue Connection_Manager
begin

text \<open>
  \<^verbatim>\<open>src/pipeline/execution_pipeline.hpp\<close> and \<^verbatim>\<open>execution_pipeline.cpp\<close>: the two queues between the
  workers and the dispatch thread.  Sending a report hands it to the session of its client
  (\<open>send_execution_report\<close>, modelled with the sessions); here a dispatched report is the
  pair of session and report.  Trades are taken from their queue and dropped.
\<close>

record ExecutionPipeline =
  report_queue :: "ExecutionReport MPSCQueue"
  trade_queue :: "Trade MPSCQueue"
  ep_running :: bool

definition ExecutionPipeline_init :: ExecutionPipeline where
  "ExecutionPipeline_init = \<lparr>report_queue = MPSCQueue_init, trade_queue = MPSCQueue_init, ep_running = False\<rparr>"

definition pipeline_start :: "ExecutionPipeline \<Rightarrow> ExecutionPipeline" where
  "pipeline_start p = (if ep_running p then p else p\<lparr>ep_running := True\<rparr>)"

definition publish_execution_report :: "ExecutionReport \<Rightarrow> ExecutionPipeline \<Rightarrow> ExecutionPipeline run" where
  "publish_execution_report report p =
     (if \<not> ep_running p then done_with p
      else map_option (map_sum id (\<lambda>q. p\<lparr>report_queue := q\<rparr>)) (spin_enqueue (ep_running p) report (report_queue p)))"

definition publish_trade :: "Trade \<Rightarrow> ExecutionPipeline \<Rightarrow> ExecutionPipeline run" where
  "publish_trade trade p =
     (if \<not> ep_running p then done_with p
      else map_option (map_sum id (\<lambda>q. p\<lparr>trade_queue := q\<rparr>)) (spin_enqueue (ep_running p) trade (trade_queue p)))"

type_synonym dispatched = "(session_ref \<times> ExecutionReport) list"

text \<open>One round of the dispatch loop; the sessions do not change during a round.\<close>

definition dispatch_once ::
  "ConnectionManager \<Rightarrow> ExecutionPipeline \<Rightarrow> undefined_behaviour + (dispatched \<times> ExecutionPipeline)" where
  "dispatch_once cm p =
     (case mpsc_dequeue (report_queue p) of
        Inl ub \<Rightarrow> Inl ub
      | Inr (report_opt, rq) \<Rightarrow>
          (case mpsc_dequeue (trade_queue p) of
             Inl ub \<Rightarrow> Inl ub
           | Inr (trade_opt, tq) \<Rightarrow>
               Inr (case report_opt of
                      None \<Rightarrow> []
                    | Some report \<Rightarrow>
                        (case get_session (rep_client_id report) cm of None \<Rightarrow> [] | Some s \<Rightarrow> [(s, report)]),
                    p\<lparr>report_queue := rq, trade_queue := tq\<rparr>)))"

partial_function (option) dispatch_loop ::
  "ConnectionManager \<Rightarrow> dispatched \<Rightarrow> ExecutionPipeline \<Rightarrow> (undefined_behaviour + (dispatched \<times> ExecutionPipeline)) option" where
  "dispatch_loop cm out p =
     (case (mpsc_empty (report_queue p), mpsc_empty (trade_queue p)) of
        (Inr no_reports, Inr no_trades) \<Rightarrow>
          (if ep_running p \<or> \<not> no_reports \<or> \<not> no_trades
           then (case dispatch_once cm p of
                   Inl ub \<Rightarrow> Some (Inl ub)
                 | Inr (sent, p') \<Rightarrow> dispatch_loop cm (out @ sent) p')
           else Some (Inr (out, p)))
      | _ \<Rightarrow> Some (Inl Use_after_free))"

definition pipeline_stop :: "ConnectionManager \<Rightarrow> ExecutionPipeline \<Rightarrow> (dispatched \<times> ExecutionPipeline) run" where
  "pipeline_stop cm p =
     (if ep_running p
      then dispatch_loop cm [] (p\<lparr>ep_running := False, report_queue := mpsc_close (report_queue p),
                                 trade_queue := mpsc_close (trade_queue p)\<rparr>)
      else done_with ([], p))"

section \<open>What is published is dispatched\<close>

definition pipeline_ok :: "ExecutionPipeline \<Rightarrow> ExecutionReport list \<Rightarrow> Trade list \<Rightarrow> bool" where
  "pipeline_ok p rs ts \<longleftrightarrow> mpsc_idle (report_queue p) rs \<and> mpsc_idle (trade_queue p) ts \<and>
     (ep_running p \<longrightarrow> \<not> closed (report_queue p) \<and> \<not> closed (trade_queue p))"

lemma pipeline_ok_init: "pipeline_ok ExecutionPipeline_init [] []"
  by (simp add: pipeline_ok_def ExecutionPipeline_init_def mpsc_idle_init)

lemma pipeline_ok_start: "pipeline_ok (pipeline_start ExecutionPipeline_init) [] []"
  by (simp add: pipeline_ok_def ExecutionPipeline_init_def pipeline_start_def mpsc_idle_init)

lemma publish_report_ok:
  assumes "pipeline_ok p rs ts" "ep_running p"
  shows "\<exists>p'. publish_execution_report r p = done_with p' \<and> pipeline_ok p' (rs @ [r]) ts \<and> ep_running p'"
  using spin_enqueue_open [of "report_queue p" rs r] assms
  by (auto simp: publish_execution_report_def pipeline_ok_def)

lemma publish_trade_ok:
  assumes "pipeline_ok p rs ts" "ep_running p"
  shows "\<exists>p'. publish_trade t p = done_with p' \<and> pipeline_ok p' rs (ts @ [t]) \<and> ep_running p'"
  using spin_enqueue_open [of "trade_queue p" ts t] assms
  by (auto simp: publish_trade_def pipeline_ok_def)

lemma publish_reports_ok:
  assumes "pipeline_ok p rs ts" "ep_running p"
  shows "\<exists>p'. run_each publish_execution_report new p = done_with p' \<and> pipeline_ok p' (rs @ new) ts \<and> ep_running p'"
  using assms
proof (induction new arbitrary: p rs)
  case (Cons r new)
  obtain p1 where "publish_execution_report r p = done_with p1" "pipeline_ok p1 (rs @ [r]) ts" "ep_running p1"
    using publish_report_ok [OF Cons.prems] by blast
  then show ?case using Cons.IH [of p1 "rs @ [r]"] by simp
qed simp

lemma publish_trades_ok:
  assumes "pipeline_ok p rs ts" "ep_running p"
  shows "\<exists>p'. run_each publish_trade new p = done_with p' \<and> pipeline_ok p' rs (ts @ new) \<and> ep_running p'"
  using assms
proof (induction new arbitrary: p ts)
  case (Cons t new)
  obtain p1 where "publish_trade t p = done_with p1" "pipeline_ok p1 rs (ts @ [t])" "ep_running p1"
    using publish_trade_ok [OF Cons.prems] by blast
  then show ?case using Cons.IH [of p1 "ts @ [t]"] by simp
qed simp

text \<open>The reports a session is found for, each with its session.\<close>

definition deliverable :: "ConnectionManager \<Rightarrow> ExecutionReport list \<Rightarrow> dispatched" where
  "deliverable cm rs = concat (map (\<lambda>r. case get_session (rep_client_id r) cm of None \<Rightarrow> [] | Some s \<Rightarrow> [(s, r)]) rs)"

lemma mpsc_idle_dequeue_any:
  assumes "mpsc_idle q vs"
  shows "\<exists>q'. mpsc_dequeue q = Inr (case vs of [] \<Rightarrow> None | v # ws \<Rightarrow> Some v, q') \<and> mpsc_idle q' (tl vs) \<and> closed q' = closed q"
  using mpsc_idle_dequeue(1,2) [OF assms] assms by (cases vs) auto

lemma dispatch_once_ok:
  assumes "mpsc_idle (report_queue p) rs" "mpsc_idle (trade_queue p) ts"
  shows "\<exists>rq tq. dispatch_once cm p = Inr (deliverable cm (take 1 rs), p\<lparr>report_queue := rq, trade_queue := tq\<rparr>) \<and>
    mpsc_idle rq (tl rs) \<and> mpsc_idle tq (tl ts)"
proof -
  obtain rq where rq: "mpsc_dequeue (report_queue p) = Inr (case rs of [] \<Rightarrow> None | v # ws \<Rightarrow> Some v, rq)" "mpsc_idle rq (tl rs)"
    using mpsc_idle_dequeue_any [OF assms(1)] by blast
  obtain tq where tq: "mpsc_dequeue (trade_queue p) = Inr (case ts of [] \<Rightarrow> None | v # ws \<Rightarrow> Some v, tq)" "mpsc_idle tq (tl ts)"
    using mpsc_idle_dequeue_any [OF assms(2)] by blast
  have "dispatch_once cm p = Inr (deliverable cm (take 1 rs), p\<lparr>report_queue := rq, trade_queue := tq\<rparr>)"
    using rq(1) tq(1) by (cases rs) (simp_all add: dispatch_once_def deliverable_def)
  then show ?thesis using rq(2) tq(2) by blast
qed

lemma deliverable_step: "deliverable cm (take 1 rs) @ deliverable cm (tl rs) = deliverable cm rs"
  by (cases rs) (simp_all add: deliverable_def)

lemma dispatch_loop_stopped:
  assumes "mpsc_idle (report_queue p) rs" "mpsc_idle (trade_queue p) ts" "\<not> ep_running p"
  shows "\<exists>p'. dispatch_loop cm out p = done_with (out @ deliverable cm rs, p') \<and>
    mpsc_idle (report_queue p') [] \<and> mpsc_idle (trade_queue p') [] \<and> \<not> ep_running p'"
  using assms
proof (induction "length rs + length ts" arbitrary: p rs ts out rule: less_induct)
  case less
  note E = mpsc_idle_dequeue(3) [OF less.prems(1)] mpsc_idle_dequeue(3) [OF less.prems(2)]
  show ?case
  proof (cases "rs = [] \<and> ts = []")
    case True
    then show ?thesis using less.prems E by (subst dispatch_loop.simps) (simp add: deliverable_def)
  next
    case False
    obtain rq tq where d: "dispatch_once cm p = Inr (deliverable cm (take 1 rs), p\<lparr>report_queue := rq, trade_queue := tq\<rparr>)"
      "mpsc_idle rq (tl rs)" "mpsc_idle tq (tl ts)"
      using dispatch_once_ok [OF less.prems(1,2)] by blast
    let ?p = "p\<lparr>report_queue := rq, trade_queue := tq\<rparr>"
    have "length (tl rs) + length (tl ts) < length rs + length ts" using False by (cases rs; cases ts) auto
    from less.hyps [OF this, of ?p "out @ deliverable cm (take 1 rs)"] d(2,3) less.prems(3)
    have "\<exists>p'. dispatch_loop cm (out @ deliverable cm (take 1 rs)) ?p = done_with (out @ deliverable cm rs, p') \<and>
      mpsc_idle (report_queue p') [] \<and> mpsc_idle (trade_queue p') [] \<and> \<not> ep_running p'"
      using deliverable_step [of cm rs] by simp
    moreover have "dispatch_loop cm out p = dispatch_loop cm (out @ deliverable cm (take 1 rs)) ?p"
      using False E d(1) by (subst dispatch_loop.simps) auto
    ultimately show ?thesis by simp
  qed
qed

section \<open>Properties\<close>

text \<open>
  Stopping the pipeline loses no report: \<^verbatim>\<open>stop\<close> returns after every queued report whose
  client is connected has been handed to that client's session, in the order of publication; the
  reports of clients without a session are dropped, and both queues are empty.
\<close>

theorem pipeline_stop_dispatches_everything:
  assumes "pipeline_ok p rs ts" "ep_running p"
  shows "\<exists>p'. pipeline_stop cm p = done_with (deliverable cm rs, p') \<and>
    mpsc_contents (report_queue p') = [] \<and> mpsc_contents (trade_queue p') = [] \<and> \<not> ep_running p'"
proof -
  let ?p = "p\<lparr>ep_running := False, report_queue := mpsc_close (report_queue p), trade_queue := mpsc_close (trade_queue p)\<rparr>"
  have "mpsc_idle (report_queue ?p) rs" "mpsc_idle (trade_queue ?p) ts" "\<not> ep_running ?p"
    using assms(1) by (simp_all add: pipeline_ok_def mpsc_idle_close)
  from dispatch_loop_stopped [OF this, of cm "[]"] show ?thesis
    using assms(2) by (auto simp: pipeline_stop_def dest: mpsc_idle_contents)
qed

definition ex_report :: "uint32_t \<Rightarrow> ExecutionReport" where
  "ex_report cid = ExecutionReport_init\<lparr>rep_order_id := 5, rep_client_id := cid\<rparr>"

theorem pipeline_stop_dispatches_everything_witness:
  "\<exists>p p'. run_each publish_execution_report [ex_report 1, ex_report 2, ex_report 1] (pipeline_start ExecutionPipeline_init) = done_with p \<and>
     pipeline_stop (add_session 1 40 ConnectionManager_init) p = done_with ([(40, ex_report 1), (40, ex_report 1)], p')"
proof -
  have run: "ep_running (pipeline_start ExecutionPipeline_init)" by (simp add: pipeline_start_def)
  obtain p where p: "run_each publish_execution_report [ex_report 1, ex_report 2, ex_report 1] (pipeline_start ExecutionPipeline_init) = done_with p"
    "pipeline_ok p ([] @ [ex_report 1, ex_report 2, ex_report 1]) []" "ep_running p"
    using publish_reports_ok [OF pipeline_ok_start run] by blast
  from pipeline_stop_dispatches_everything [OF p(2,3), of "add_session 1 40 ConnectionManager_init"] p(1)
  show ?thesis by (auto simp: deliverable_def ex_report_def cm_defs ConnectionManager_init_def)
qed

end
