(* ===== verification/Book_Recovery.thy ===== *)
theory Book_Recovery
  imports Book_Properties
begin

text \<open>
  What a book's operations do not depend on: the client ids of the orders, the clock, and the log callback.  Two runs that
  differ only in these give books that agree up to client ids, and use the same number of trade
  ids.  The write-ahead log does not store client ids, so this is what its replay relies on.
\<close>

section \<open>Relabelling clients\<close>

text \<open>
  Two instances of a relabelling matter: forgetting all client ids (\<open>anon\<close>), and the identity, which leaves
  only the clock and the counter to differ.
\<close>

type_synonym relabelling = "uint32_t \<Rightarrow> uint32_t"

definition relabel :: "relabelling \<Rightarrow> Order \<Rightarrow> Order" where
  "relabel h o' = o'\<lparr>client_id := h (client_id o')\<rparr>"

definition relabel_queue :: "relabelling \<Rightarrow> Queue \<Rightarrow> Queue" where
  "relabel_queue h q = map (\<lambda>p. (fst p, relabel h (snd p))) q"

definition relabel_levels :: "relabelling \<Rightarrow> Levels \<Rightarrow> Levels" where
  "relabel_levels h m = map (\<lambda>p. (fst p, relabel_queue h (snd p))) m"

definition relabel_book :: "relabelling \<Rightarrow> OrderBook \<Rightarrow> OrderBook" where
  "relabel_book h b = b\<lparr>buy_orders := relabel_levels h (buy_orders b), sell_orders := relabel_levels h (sell_orders b)\<rparr>"

abbreviation anon :: "Order \<Rightarrow> Order" where
  "anon \<equiv> relabel (\<lambda>_. 0)"

abbreviation anon_book :: "OrderBook \<Rightarrow> OrderBook" where
  "anon_book \<equiv> relabel_book (\<lambda>_. 0)"

lemma relabel_id [simp]: "relabel (\<lambda>c. c) o' = o'" "relabel_queue (\<lambda>c. c) q = q" "relabel_levels (\<lambda>c. c) m = m"
  "relabel_book (\<lambda>c. c) b = b"
  by (simp_all add: relabel_def relabel_queue_def relabel_levels_def relabel_book_def)

lemma relabel_sel [simp]:
  "order_id (relabel h o') = order_id o'" "side (relabel h o') = side o'" "order_type (relabel h o') = order_type o'"
  "price (relabel h o') = price o'" "quantity (relabel h o') = quantity o'" "remaining_quantity (relabel h o') = remaining_quantity o'"
  "timestamp (relabel h o') = timestamp o'" "symbol (relabel h o') = symbol o'" "client_id (relabel h o') = h (client_id o')"
  by (simp_all add: relabel_def)

lemma relabel_upd [simp]: "(relabel h o')\<lparr>remaining_quantity := r\<rparr> = relabel h (o'\<lparr>remaining_quantity := r\<rparr>)"
  by (simp add: relabel_def)

lemma relabel_queue_simps [simp]:
  "relabel_queue h [] = []" "relabel_queue h (p # q) = (fst p, relabel h (snd p)) # relabel_queue h q"
  "relabel_queue h (q @ q') = relabel_queue h q @ relabel_queue h q'" "relabel_queue h q = [] \<longleftrightarrow> q = []"
  "tl (relabel_queue h q) = relabel_queue h (tl q)"
  by (simp_all add: relabel_queue_def map_tl)

lemma relabel_levels_simps [simp]:
  "relabel_levels h [] = []" "relabel_levels h (p # m) = (fst p, relabel_queue h (snd p)) # relabel_levels h m"
  by (simp_all add: relabel_levels_def)

lemma relabel_book_sel [simp]:
  "book_symbol (relabel_book h b) = book_symbol b" "buy_orders (relabel_book h b) = relabel_levels h (buy_orders b)"
  "sell_orders (relabel_book h b) = relabel_levels h (sell_orders b)" "order_index (relabel_book h b) = order_index b"
  "next_node (relabel_book h b) = next_node b"
  by (simp_all add: relabel_book_def)

lemma relabel_book_upd [simp]:
  "(relabel_book h b)\<lparr>order_index := i\<rparr> = relabel_book h (b\<lparr>order_index := i\<rparr>)"
  "(relabel_book h b)\<lparr>buy_orders := relabel_levels h m\<rparr> = relabel_book h (b\<lparr>buy_orders := m\<rparr>)"
  "(relabel_book h b)\<lparr>sell_orders := relabel_levels h m\<rparr> = relabel_book h (b\<lparr>sell_orders := m\<rparr>)"
  by (simp_all add: relabel_book_def)

lemma relabel_book_init [simp]: "relabel_book h (OrderBook_init sy) = OrderBook_init sy"
  by (simp add: relabel_book_def OrderBook_init_def)

section \<open>Submitting\<close>

text \<open>Both runs draw the same number of trade ids: the counters move by the same amount.\<close>

lemma delta_trans: "(b :: uint64_t) - a = b' - a' \<Longrightarrow> c - b = c' - b' \<Longrightarrow> c - a = c' - a'"
proof -
  assume "b - a = b' - a'" "c - b = c' - b'"
  then have "(c - b) + (b - a) = (c' - b') + (b' - a')" by simp
  then show "c - a = c' - a'" by simp
qed

lemma matchOrders_relabel:
  assumes "matchOrders clk b s sy res e = (b', s', res', e')"
  obtains res1 f' where "matchOrders clk1 (relabel h b) (relabel h s) sy res0 f = (relabel h b', relabel h s', res1, f')"
    "counter f' - counter f = counter e' - counter e"
  using assms that
  by (auto simp: matchOrders_def Let_def next_id_def get_current_time_ns_def split: if_splits)

lemma match_incoming_relabel:
  assumes "match_incoming clk ib sy inc r res e = (inc', r', res', e')"
  obtains res1 f' where "match_incoming clk1 ib sy (relabel h inc) (relabel h r) res0 f = (relabel h inc', relabel h r', res1, f')"
    "counter f' - counter f = counter e' - counter e"
proof (cases ib)
  case True
  then have "matchOrders clk inc r sy res e = (inc', r', res', e')" using assms(1) by (simp add: match_incoming_def)
  from this obtain res1 f' where "matchOrders clk1 (relabel h inc) (relabel h r) sy res0 f = (relabel h inc', relabel h r', res1, f')"
    "counter f' - counter f = counter e' - counter e" by (rule matchOrders_relabel)
  then show thesis using True by (intro that [of res1 f']) (simp_all add: match_incoming_def)
next
  case False
  then have "matchOrders clk r inc sy res e = (r', inc', res', e')"
    using assms(1) by (auto simp: match_incoming_def split: prod.splits)
  from this obtain res1 f' where "matchOrders clk1 (relabel h r) (relabel h inc) sy res0 f = (relabel h r', relabel h inc', res1, f')"
    "counter f' - counter f = counter e' - counter e" by (rule matchOrders_relabel)
  then show thesis using False by (intro that [of res1 f']) (simp_all add: match_incoming_def)
qed

lemma match_queue_done:
  "\<not> (0 < remaining_quantity inc \<and> q \<noteq> []) \<Longrightarrow> match_queue clk ib sy inc q idx res e = (inc, q, idx, res, e)"
  by (subst match_queue.simps) auto

lemma match_queue_relabel:
  assumes "match_queue clk ib sy inc q idx res e = (inc', q', idx', res', e')"
  shows "\<exists>res1 f'. match_queue clk1 ib sy (relabel h inc) (relabel_queue h q) idx res0 f = (relabel h inc', relabel_queue h q', idx', res1, f') \<and>
    counter f' - counter f = counter e' - counter e"
  using assms
proof (induction clk ib sy inc q idx res e arbitrary: res0 f rule: match_queue.induct)
  case (1 clk ib sy inc q idx res e)
  show ?case
  proof (cases "0 < remaining_quantity inc \<and> q \<noteq> []")
    case False
    then show ?thesis using 1(3) match_queue_done [of inc q] match_queue_done [of "relabel h inc" "relabel_queue h q"] by auto
  next
    case True
    then obtain p qs where q: "q = p # qs" by (cases q) auto
    obtain inc2 r res2 e2 where m: "match_incoming clk ib sy inc (snd p) res e = (inc2, r, res2, e2)"
      by (rule prod_cases4)
    from m obtain res3 f3 where
      m': "match_incoming clk1 ib sy (relabel h inc) (relabel h (snd p)) res0 f = (relabel h inc2, relabel h r, res3, f3)"
      "counter f3 - counter f = counter e2 - counter e" by (rule match_incoming_relabel)
    have hd: "match_incoming clk ib sy inc (snd (hd q)) res e = (inc2, r, res2, e2)" using m q by simp
    show ?thesis
    proof (cases "remaining_quantity r = 0")
      case filled: True
      have "match_queue clk ib sy inc2 (tl q) (snd (index_remove (order_id r) idx)) res2 e2 = (inc', q', idx', res', e')"
        using 1(3) hd filled True by (simp add: match_queue.simps [of clk ib sy inc])
      from 1(1) [OF True hd [symmetric] refl refl filled this, of res3 f3]
      show ?thesis using m'(1) filled True q delta_trans [OF m'(2)] by (auto simp: match_queue.simps [of clk1 ib sy "relabel h inc"])
    next
      case open_: False
      have "match_queue clk ib sy inc2 ((fst (hd q), r) # tl q) idx res2 e2 = (inc', q', idx', res', e')"
        using 1(3) hd open_ True by (simp add: match_queue.simps [of clk ib sy inc])
      from 1(2) [OF True hd [symmetric] refl refl open_ this, of res3 f3]
      show ?thesis using m'(1) open_ True q delta_trans [OF m'(2)] by (auto simp: match_queue.simps [of clk1 ib sy "relabel h inc"])
    qed
  qed
qed

lemma match_levels_relabel:
  assumes "match_levels clk ib sy inc m idx res e = (inc', m', idx', res', e')"
  shows "\<exists>res1 f'. match_levels clk1 ib sy (relabel h inc) (relabel_levels h m) idx res0 f = (relabel h inc', relabel_levels h m', idx', res1, f') \<and>
    counter f' - counter f = counter e' - counter e"
  using assms
proof (induction m arbitrary: inc idx res e inc' m' idx' res' e' f res0)
  case (Cons lv m)
  obtain p q where lv: "lv = (p, q)" by (cases lv)
  have beyond: "beyond_limit ib (relabel h inc) p = beyond_limit ib inc p" by (simp add: beyond_limit_def)
  show ?case
  proof (cases "\<not> 0 < remaining_quantity inc \<or> beyond_limit ib inc p")
    case True
    then show ?thesis using Cons.prems lv beyond by auto
  next
    case False
    obtain inc2 q2 idx2 res2 e2 where mq: "match_queue clk ib sy inc q idx res e = (inc2, q2, idx2, res2, e2)"
      by (rule prod_cases5)
    obtain inc3 m3 idx3 res3 e3 where ml: "match_levels clk ib sy inc2 m idx2 res2 e2 = (inc3, m3, idx3, res3, e3)"
      by (rule prod_cases5)
    obtain res4 f4 where q4: "match_queue clk1 ib sy (relabel h inc) (relabel_queue h q) idx res0 f = (relabel h inc2, relabel_queue h q2, idx2, res4, f4)"
      "counter f4 - counter f = counter e2 - counter e" using match_queue_relabel [OF mq] by blast
    obtain res5 f5 where l5: "match_levels clk1 ib sy (relabel h inc2) (relabel_levels h m) idx2 res4 f4 = (relabel h inc3, relabel_levels h m3, idx3, res5, f5)"
      "counter f5 - counter f4 = counter e3 - counter e2" using Cons.IH [OF ml] by blast
    show ?thesis using Cons.prems(1) False lv beyond mq ml q4 l5 delta_trans [OF q4(2) l5(2)] by (auto split: if_splits)
  qed
qed simp

lemma map_at_relabel:
  "relabel_levels h (map_at lt k [] (\<lambda>q. q @ [(n, o')]) m) = map_at lt k [] (\<lambda>q. q @ [(n, relabel h o')]) (relabel_levels h m)"
  by (induction m) auto

lemma rest_or_expire_relabel:
  assumes "rest_or_expire clk ib inc b res e = (b', res', e')"
  shows "\<exists>res1 f'. rest_or_expire clk1 ib (relabel h inc) (relabel_book h b) res0 f = (relabel_book h b', res1, f') \<and> counter f' - counter f = counter e' - counter e"
proof -
  have "rest_buy (relabel h inc) (relabel_book h b) = relabel_book h (rest_buy inc b)"
    "rest_sell (relabel h inc) (relabel_book h b) = relabel_book h (rest_sell inc b)"
    by (simp_all add: rest_buy_def rest_sell_def relabel_book_def map_at_relabel)
  then show ?thesis
    using assms by (auto simp: rest_or_expire_def get_current_time_ns_def Let_def split: if_splits)
qed

lemma submitOrderInternal_relabel:
  assumes "submitOrderInternal clk order b res e = (b', res', e')"
  shows "\<exists>res1 f'. submitOrderInternal clk1 (relabel h order) (relabel_book h b) res0 f = (relabel_book h b', res1, f') \<and> counter f' - counter f = counter e' - counter e"
proof (cases "side order = Buy")
  case True
  obtain inc m idx res2 e2 where ml: "match_levels clk True (book_symbol b) order (sell_orders b) (order_index b) res e = (inc, m, idx, res2, e2)"
    by (rule prod_cases5)
  obtain res3 f3 where m3: "match_levels clk1 True (book_symbol b) (relabel h order) (relabel_levels h (sell_orders b)) (order_index b) res0 f =
      (relabel h inc, relabel_levels h m, idx, res3, f3)" "counter f3 - counter f = counter e2 - counter e"
    using match_levels_relabel [OF ml] by blast
  have "rest_or_expire clk True inc (b\<lparr>sell_orders := m, order_index := idx\<rparr>) res2 e2 = (b', res', e')"
    using assms(1) True ml by (simp add: submitOrderInternal_def)
  from rest_or_expire_relabel [OF this, of clk1 h res3 f3] show ?thesis
    using True m3(1) delta_trans [OF m3(2)] by (auto simp: submitOrderInternal_def)
next
  case False
  obtain inc m idx res2 e2 where ml: "match_levels clk False (book_symbol b) order (buy_orders b) (order_index b) res e = (inc, m, idx, res2, e2)"
    by (rule prod_cases5)
  obtain res3 f3 where m3: "match_levels clk1 False (book_symbol b) (relabel h order) (relabel_levels h (buy_orders b)) (order_index b) res0 f =
      (relabel h inc, relabel_levels h m, idx, res3, f3)" "counter f3 - counter f = counter e2 - counter e"
    using match_levels_relabel [OF ml] by blast
  have "rest_or_expire clk False inc (b\<lparr>buy_orders := m, order_index := idx\<rparr>) res2 e2 = (b', res', e')"
    using assms(1) False ml by (simp add: submitOrderInternal_def)
  from rest_or_expire_relabel [OF this, of clk1 h res3 f3] show ?thesis
    using False m3(1) delta_trans [OF m3(2)] by (auto simp: submitOrderInternal_def)
qed

section \<open>Cancelling and modifying\<close>

lemma nodes_of_relabel: "nodes_of (relabel_levels h m) = relabel_queue h (nodes_of m)"
  by (induction m) (auto simp: nodes_of_def)

lemma map_of_relabel_queue: "map_of (relabel_queue h q) n = map_option (relabel h) (map_of q n)"
  by (induction q) auto

lemma deref_relabel: "deref (relabel_book h b) n = map_option (relabel h) (deref b n)"
  using map_of_relabel_queue [of h "nodes_of (buy_orders b) @ nodes_of (sell_orders b)" n]
  by (simp add: deref_def nodes_of_relabel)

lemma relabel_queue_filter: "filter (\<lambda>p. fst p \<noteq> n) (relabel_queue h q) = relabel_queue h (filter (\<lambda>p. fst p \<noteq> n) q)"
  by (induction q) auto

lemma erase_node_relabel: "erase_node n l (relabel_levels h m) = map_sum id (relabel_levels h) (erase_node n l m)"
proof -
  have "map_of (relabel_levels h m) l = map_option (relabel_queue h) (map_of m l)" by (induction m) auto
  moreover have "map_erase l (relabel_levels h m) = relabel_levels h (map_erase l m)"
    by (induction m) (auto simp: map_erase_def)
  moreover have "map_adjust l (\<lambda>_. relabel_queue h q) (relabel_levels h m) = relabel_levels h (map_adjust l (\<lambda>_. q) m)" for q
    by (induction m) (auto simp: map_adjust_def)
  moreover have "fst ` set (relabel_queue h q) = fst ` set q" for q by (induction q) auto
  ultimately show ?thesis
    by (simp add: erase_node_def relabel_queue_filter Let_def split: option.splits)
qed

lemma erase_entry_relabel: "erase_entry en (relabel_book h b) = map_sum id (relabel_book h) (erase_entry en b)"
  by (simp add: erase_entry_def erase_node_relabel sum.map_comp comp_def id_def)

lemma cancelOrder_relabel:
  assumes "cancelOrder clk oid lf b res w e = Inr (found, b', res', w', e')"
  shows "\<exists>res1 v f'. cancelOrder clk1 oid None (relabel_book h b) res0 v0 f = Inr (found, relabel_book h b', res1, v, f') \<and>
    counter f' - counter f = counter e' - counter e"
  using assms
  by (auto simp: cancelOrder_def deref_relabel erase_entry_relabel get_current_time_ns_def Let_def
      split: option.splits sum.splits)

lemma modifyOrder_relabel:
  assumes "modifyOrder clk req lf b res w e = Inr (found, b', res', w', e')"
    and "mreq_order_id req1 = mreq_order_id req" "mreq_price req1 = mreq_price req"
      "mreq_quantity req1 = mreq_quantity req" "mreq_timestamp req1 = mreq_timestamp req"
  shows "\<exists>res1 v f'. modifyOrder clk1 req1 None (relabel_book h b) res0 v0 f = Inr (found, relabel_book h b', res1, v, f') \<and>
    counter f' - counter f = counter e' - counter e"
proof (cases "index_get (mreq_order_id req) (order_index b)")
  case None
  then show ?thesis using assms by (auto simp: modifyOrder_def Let_def)
next
  case (Some en)
  then obtain o' b1 where d: "deref b (position en) = Some o'" "erase_entry en b = Inr b1"
    using assms(1) by (auto simp: modifyOrder_def Let_def split: option.splits sum.splits)
  let ?b = "b1\<lparr>order_index := snd (index_remove (mreq_order_id req) (order_index b1))\<rparr>"
  let ?o = "o'\<lparr>price := mreq_price req, quantity := mreq_quantity req, remaining_quantity := mreq_quantity req,
     timestamp := mreq_timestamp req\<rparr>"
  have sub: "submitOrderInternal clk ?o ?b res e = (b', res', e')" and "found"
    using assms(1) Some d by (auto simp: modifyOrder_def Let_def split: prod.splits)
  have upd: "(relabel h o')\<lparr>price := mreq_price req, quantity := mreq_quantity req, remaining_quantity := mreq_quantity req,
     timestamp := mreq_timestamp req\<rparr> = relabel h ?o" by (simp add: relabel_def)
  show ?thesis
    using submitOrderInternal_relabel [OF sub, of clk1 h res0 f] Some d \<open>found\<close> assms(2-5)
    by (auto simp: modifyOrder_def Let_def deref_relabel erase_entry_relabel upd)
qed

end
