(* ===== verification/Book_Registry.thy ===== *)
theory Book_Registry
  imports Book_Recovery
begin

text \<open>
  \<^verbatim>\<open>src/registry/book_registry.hpp\<close> and \<^verbatim>\<open>book_registry.cpp\<close>: one order book per symbol, created
  when it is first asked for.  \<open>get_order_book\<close> returns the book behind the pointer; a change
  made through the pointer is \<open>store_book\<close>.
\<close>

record BookRegistry =
  books :: "Symbol \<rightharpoonup> OrderBook"

definition BookRegistry_init :: BookRegistry where
  "BookRegistry_init = \<lparr>books = Map.empty\<rparr>"

definition get_order_book :: "Symbol \<Rightarrow> BookRegistry \<Rightarrow> OrderBook \<times> BookRegistry" where
  "get_order_book sy reg =
     (case books reg sy of
        Some b \<Rightarrow> (b, reg)
      | None \<Rightarrow> (OrderBook_init sy, reg\<lparr>books := (books reg)(sy \<mapsto> OrderBook_init sy)\<rparr>))"

definition store_book :: "Symbol \<Rightarrow> OrderBook \<Rightarrow> BookRegistry \<Rightarrow> BookRegistry" where
  "store_book sy b reg = reg\<lparr>books := (books reg)(sy \<mapsto> b)\<rparr>"

lemma store_book_sel: "books (store_book sy b reg) sy' = (if sy' = sy then Some b else books reg sy')"
  by (simp add: store_book_def)

lemma get_order_book_sel:
  assumes "get_order_book sy reg = (b, reg')"
  shows "books reg' sy = Some b" "sy' \<noteq> sy \<Longrightarrow> books reg' sy' = books reg sy'"
    "books reg sy = Some b \<or> (books reg sy = None \<and> b = OrderBook_init sy)"
  using assms by (auto simp: get_order_book_def split: option.splits)

lemma get_order_book_again: "get_order_book sy reg = (b, reg') \<Longrightarrow> get_order_book sy reg' = (b, reg')"
  by (auto simp: get_order_book_def split: option.splits)

section \<open>Invariant\<close>

definition registry_inv :: "BookRegistry \<Rightarrow> bool" where
  "registry_inv reg \<longleftrightarrow> (\<forall>sy b. books reg sy = Some b \<longrightarrow> book_inv b \<and> book_symbol b = sy)"

lemma registry_inv_init: "registry_inv BookRegistry_init"
  by (simp add: registry_inv_def BookRegistry_init_def)

lemma registry_inv_get:
  assumes "registry_inv reg" "get_order_book sy reg = (b, reg')"
  shows "registry_inv reg'" "book_inv b" "book_symbol b = sy"
  using assms book_inv_init(1) by (auto simp: registry_inv_def get_order_book_def OrderBook_init_def split: option.splits if_splits)

lemma registry_inv_store:
  "registry_inv reg \<Longrightarrow> book_inv b \<Longrightarrow> book_symbol b = sy \<Longrightarrow> registry_inv (store_book sy b reg)"
  by (simp add: registry_inv_def store_book_sel)

section \<open>Two registries that agree up to client ids\<close>

definition same_books :: "BookRegistry \<Rightarrow> BookRegistry \<Rightarrow> bool" where
  "same_books reg reg' \<longleftrightarrow> (\<forall>sy. books reg' sy = map_option anon_book (books reg sy))"

lemma same_books_get:
  assumes "same_books reg reg'" "get_order_book sy reg = (b, reg1)"
  shows "\<exists>reg1'. get_order_book sy reg' = (anon_book b, reg1') \<and> same_books reg1 reg1'"
  using assms by (auto simp: same_books_def get_order_book_def split: option.splits)

lemma same_books_store:
  "same_books reg reg' \<Longrightarrow> same_books (store_book sy b reg) (store_book sy (anon_book b) reg')"
  by (simp add: same_books_def store_book_sel)

end
