(* ===== verification/Thread_Pool.thy ===== *)
theory Thread_Pool
  imports Wal Execution_Pipeline Book_Registry
begin

text \<open>
  \<^verbatim>\<open>src/threadpool/task.hpp\<close>, \<^verbatim>\<open>thread_pool.hpp\<close> and \<^verbatim>\<open>thread_pool.cpp\<close>: tasks, the pool and what a
  worker does with a task: find the book, log the request under the book's mutex, run the
  operation, log the fills, publish the reports and the trades.  The pool's view of the rest of the
  system (the registry, the log and the pipeline if there are any, the trade-id counter and the clock) is
  the record \<open>Exchange\<close>.
\<close>

section \<open>Tasks\<close>

datatype TaskType = Task_Submit | Task_Cancel | Task_Modify

datatype TaskRequest = Req_Order Order | Req_Cancel CancelRequest | Req_Modify ModifyRequest

record Task =
  task_type :: TaskType
  request :: TaskRequest
  task_symbol :: Symbol

record Exchange =
  registry :: BookRegistry
  wal :: "WAL option"
  pipeline :: "ExecutionPipeline option"
  env :: Env

section \<open>One task\<close>

text \<open>
  The lambda \<^verbatim>\<open>log_action\<close>, which the book calls under its mutex.  A request whose alternative does
  not fit the type makes \<^verbatim>\<open>std::get\<close> throw; \<open>process_task\<close> meets that exception first.
\<close>

definition log_action :: "(nat \<Rightarrow> uninit) \<Rightarrow> Task \<Rightarrow> WAL option \<Rightarrow> WAL option run" where
  "log_action mem task w =
     (case w of
        None \<Rightarrow> done_with None
      | Some wl \<Rightarrow>
          map_option (map_sum id Some)
            (case (task_type task, request task) of
               (Task_Submit, Req_Order order) \<Rightarrow> log_order mem order wl
             | (Task_Cancel, Req_Cancel req) \<Rightarrow> log_cancel mem req wl
             | (Task_Modify, Req_Modify req) \<Rightarrow> log_modify mem req wl
             | _ \<Rightarrow> done_with wl))"

definition log_fills :: "(nat \<Rightarrow> uninit) \<Rightarrow> Fill list \<Rightarrow> WAL option \<Rightarrow> WAL option run" where
  "log_fills mem fs w =
     (case w of None \<Rightarrow> done_with None | Some wl \<Rightarrow> map_option (map_sum id Some) (run_each (log_fill mem) fs wl))"

definition trade_of_fill :: "Fill \<Rightarrow> Trade" where
  "trade_of_fill f = \<lparr>trade_trade_id = fill_trade_id f, trade_symbol = fill_symbol f, trade_price = fill_price f,
     trade_quantity = fill_quantity f, trade_timestamp = fill_timestamp f\<rparr>"

definition publish_result :: "MatchResult \<Rightarrow> ExecutionPipeline option \<Rightarrow> ExecutionPipeline option run" where
  "publish_result result p =
     (case p of
        None \<Rightarrow> done_with None
      | Some pl \<Rightarrow>
          map_option (map_sum id Some)
            (run_bind (run_each publish_execution_report (execution_reports result) pl)
               (run_each publish_trade (map trade_of_fill (fills result)))))"

text \<open>What follows the book operation: the fills to the log, reports and trades to the pipeline.\<close>

definition finish_task ::
  "(nat \<Rightarrow> uninit) \<Rightarrow> MatchResult \<Rightarrow> BookRegistry \<Rightarrow> WAL option run \<Rightarrow> Env \<Rightarrow> Exchange \<Rightarrow> Exchange run" where
  "finish_task mem result reg w e x =
     run_bind w (\<lambda>w1.
       run_bind (log_fills mem (fills result) w1) (\<lambda>w2.
         run_bind (publish_result result (pipeline x)) (\<lambda>p.
           done_with (x\<lparr>registry := reg, wal := w2, pipeline := p, env := e\<rparr>))))"

definition process_task :: "clock \<Rightarrow> (nat \<Rightarrow> uninit) \<Rightarrow> Task \<Rightarrow> Exchange \<Rightarrow> Exchange run" where
  "process_task clk mem task x =
     (case get_order_book (task_symbol task) (registry x) of
        (book, reg) \<Rightarrow>
          (let log_func = Some (\<lambda>w. run_bind w (log_action mem task));
               w0 = done_with (wal x)
           in case (task_type task, request task) of
                (Task_Submit, Req_Order order) \<Rightarrow>
                  (case submitOrder clk order log_func book w0 (env x) of
                     (result, book', w, e) \<Rightarrow>
                       finish_task mem result (store_book (task_symbol task) book' reg) w e x)
              | (Task_Cancel, Req_Cancel req) \<Rightarrow>
                  (case cancelOrder clk (creq_order_id req) log_func book MatchResult_init w0 (env x) of
                     Inl ub \<Rightarrow> Some (Inl ub)
                   | Inr (found, book', result, w, e) \<Rightarrow>
                       finish_task mem result (store_book (task_symbol task) book' reg) w e x)
              | (Task_Modify, Req_Modify req) \<Rightarrow>
                  (case modifyOrder clk req log_func book MatchResult_init w0 (env x) of
                     Inl ub \<Rightarrow> Some (Inl ub)
                   | Inr (found, book', result, w, e) \<Rightarrow>
                       finish_task mem result (store_book (task_symbol task) book' reg) w e x)
              | _ \<Rightarrow> done_with (x\<lparr>registry := reg\<rparr>)))"

abbreviation process_tasks :: "clock \<Rightarrow> (nat \<Rightarrow> uninit) \<Rightarrow> Task list \<Rightarrow> Exchange \<Rightarrow> Exchange run" where
  "process_tasks clk mem \<equiv> run_each (process_task clk mem)"

section \<open>The pool\<close>

record ThreadPool =
  num_threads :: nat
  workers :: nat
  task_queue :: "Task SafeQueue"
  pool_stop :: bool

definition ThreadPool_init :: "nat \<Rightarrow> ThreadPool" where
  "ThreadPool_init n = \<lparr>num_threads = n, workers = 0, task_queue = SafeQueue_init MAX_QUEUE_CAPACITY, pool_stop = False\<rparr>"

definition pool_start :: "ThreadPool \<Rightarrow> ThreadPool" where
  "pool_start tp = (if workers tp \<noteq> 0 then tp else tp\<lparr>workers := num_threads tp\<rparr>)"

definition pool_submit :: "Task \<Rightarrow> ThreadPool \<Rightarrow> (bool \<times> ThreadPool) outcome" where
  "pool_submit task tp =
     (if pool_stop tp then Returns (False, tp)
      else case sq_enqueue task (task_queue tp) of
        Waits \<Rightarrow> Waits
      | Returns (ok, q) \<Rightarrow> Returns (ok, tp\<lparr>task_queue := q\<rparr>))"

text \<open>
  The loop of a worker that runs alone.  Waiting on an open empty queue lasts until another thread
  acts, so for the worker alone it does not return.
\<close>

function worker_loop :: "clock \<Rightarrow> (nat \<Rightarrow> uninit) \<Rightarrow> Task SafeQueue \<Rightarrow> Exchange \<Rightarrow> (Task SafeQueue \<times> Exchange) run" where
  "worker_loop clk mem q x =
     (case sq_dequeue q of
        Waits \<Rightarrow> None
      | Returns (None, q') \<Rightarrow> done_with (q', x)
      | Returns (Some task, q') \<Rightarrow> run_bind (process_task clk mem task x) (worker_loop clk mem q'))"
  by pat_completeness auto
termination
  by (relation "measure (\<lambda>(clk, mem, q, x). length (sq_queue q))") (auto elim: sq_dequeue_cases)

declare worker_loop.simps [simp del]

text \<open>\<^verbatim>\<open>shutdown\<close> closes the queue and joins the workers; here one worker drains it.\<close>

definition pool_shutdown :: "clock \<Rightarrow> (nat \<Rightarrow> uninit) \<Rightarrow> ThreadPool \<Rightarrow> Exchange \<Rightarrow> (ThreadPool \<times> Exchange) run" where
  "pool_shutdown clk mem tp x =
     (if pool_stop tp then done_with (tp, x)
      else
        let q = snd (sq_close (task_queue tp))
        in run_bind (if workers tp = 0 then done_with (q, x) else worker_loop clk mem q x)
             (\<lambda>(q', x'). done_with (tp\<lparr>pool_stop := True, task_queue := q', workers := 0\<rparr>, x')))"

section \<open>Tasks as book operations\<close>

definition op_of_task :: "Task \<Rightarrow> book_op option" where
  "op_of_task task =
     (case (task_type task, request task) of
        (Task_Submit, Req_Order order) \<Rightarrow> Some (Submit_op order)
      | (Task_Cancel, Req_Cancel req) \<Rightarrow> Some (Cancel_op (creq_order_id req))
      | (Task_Modify, Req_Modify req) \<Rightarrow> Some (Modify_op req)
      | _ \<Rightarrow> None)"

lemma cancelOrder_log:
  "cancelOrder clk oid lf b res w e =
     map_sum id (\<lambda>(found, b', res', v, e'). (found, b', res', run_log lf w, e')) (cancelOrder clk oid None b res () e)"
  by (auto simp: cancelOrder_def Let_def get_current_time_ns_def split: option.splits sum.splits)

lemma modifyOrder_log:
  "modifyOrder clk req lf b res w e =
     map_sum id (\<lambda>(found, b', res', v, e'). (found, b', res', run_log lf w, e')) (modifyOrder clk req None b res () e)"
  by (auto simp: modifyOrder_def Let_def split: option.splits sum.splits prod.splits)

lemma submitOrder_log:
  "submitOrder clk order lf b w e =
     (case submitOrder clk order None b () e of (res, b', v, e') \<Rightarrow> (res, b', run_log lf w, e'))"
  by (simp add: submitOrder_def Let_def split: prod.splits)

lemma process_task_book:
  assumes "get_order_book (task_symbol task) (registry x) = (b, reg)" "op_of_task task = Some op"
    "book_apply clk op b (env x) = Inr (b', res, e')"
  shows "process_task clk mem task x =
    finish_task mem res (store_book (task_symbol task) b' reg) (log_action mem task (wal x)) e' x"
proof (cases "request task")
  case (Req_Order order)
  then have ty: "task_type task = Task_Submit" "op = Submit_op order" using assms(2) by (auto simp: op_of_task_def split: TaskType.splits)
  then show ?thesis
    using assms(1,3) Req_Order
    by (auto simp: process_task_def submitOrder_log [of clk order "Some _"] run_log_def Let_def split: prod.splits)
next
  case (Req_Cancel req)
  then have ty: "task_type task = Task_Cancel" "op = Cancel_op (creq_order_id req)"
    using assms(2) by (auto simp: op_of_task_def split: TaskType.splits)
  then show ?thesis
    using assms(1,3) Req_Cancel
    by (cases "cancelOrder clk (creq_order_id req) None b MatchResult_init () (env x)")
      (auto simp: process_task_def cancelOrder_log [of clk _ "Some _"] run_log_def Let_def)
next
  case (Req_Modify req)
  then have ty: "task_type task = Task_Modify" "op = Modify_op req"
    using assms(2) by (auto simp: op_of_task_def split: TaskType.splits)
  then show ?thesis
    using assms(1,3) Req_Modify
    by (cases "modifyOrder clk req None b MatchResult_init () (env x)")
      (auto simp: process_task_def modifyOrder_log [of clk _ "Some _"] run_log_def Let_def)
qed

lemma process_task_bad_variant:
  assumes "get_order_book (task_symbol task) (registry x) = (b, reg)" "op_of_task task = None"
  shows "process_task clk mem task x = done_with (x\<lparr>registry := reg\<rparr>)"
  using assms
  by (auto simp: process_task_def op_of_task_def Let_def split: TaskType.splits TaskRequest.splits)

lemma rest_or_expire_symbol: "rest_or_expire clk ib inc b res e = (b', res', e') \<Longrightarrow> book_symbol b' = book_symbol b"
  by (auto simp: rest_or_expire_def rest_buy_def rest_sell_def get_current_time_ns_def Let_def split: if_splits)

lemma submitOrderInternal_symbol:
  "submitOrderInternal clk order b res e = (b', res', e') \<Longrightarrow> book_symbol b' = book_symbol b"
  by (auto simp: submitOrderInternal_def split: prod.splits if_splits dest!: rest_or_expire_symbol)

lemma erase_entry_symbol: "erase_entry en b = Inr b' \<Longrightarrow> book_symbol b' = book_symbol b"
  by (auto simp: erase_entry_def map_sum_def split: if_splits sum.splits)

lemma book_apply_symbol:
  "book_apply clk op b e = Inr (b', res, e') \<Longrightarrow> book_symbol b' = book_symbol b"
  by (cases op)
    (auto simp: submitOrder_eq cancelOrder_def modifyOrder_def Let_def get_current_time_ns_def
      split: prod.splits option.splits sum.splits dest!: submitOrderInternal_symbol erase_entry_symbol)

section \<open>The exchange between two tasks\<close>

text \<open>
  A running exchange whose log has the entries \<open>es\<close> queued and whose pipeline holds the reports
  \<open>rs\<close> and trades \<open>ts\<close>.
\<close>

definition exchange_ok :: "Exchange \<Rightarrow> WALEntry list \<Rightarrow> ExecutionReport list \<Rightarrow> Trade list \<Rightarrow> bool" where
  "exchange_ok x es rs ts \<longleftrightarrow> registry_inv (registry x) \<and>
     (\<exists>w. wal x = Some w \<and> wal_ok w es \<and> wal_running w) \<and>
     (\<exists>p. pipeline x = Some p \<and> pipeline_ok p rs ts \<and> ep_running p)"

fun request_entry :: "uninit \<Rightarrow> TaskRequest \<Rightarrow> WALEntry" where
  "request_entry u (Req_Order order) = order_entry u order"
| "request_entry u (Req_Cancel req) = cancel_entry u req"
| "request_entry u (Req_Modify req) = modify_entry u req"

fun fill_entries :: "(nat \<Rightarrow> uninit) \<Rightarrow> nat \<Rightarrow> Fill list \<Rightarrow> WALEntry list" where
  "fill_entries mem k [] = []"
| "fill_entries mem k (f # fs) = fill_entry (mem k) f # fill_entries mem (Suc k) fs"

lemma length_fill_entries [simp]: "length (fill_entries mem k fs) = length fs"
  by (induction fs arbitrary: k) auto

lemma logsE:
  assumes "logs mem w es r new"
  obtains w' where "r = done_with w'" "wal_ok w' (es @ new)" "wal_running w' = wal_running w"
    "wal_calls w' = wal_calls w + length new" "wal_file w' = wal_file w"
  using assms by (auto simp: logs_def)

lemma log_action_ok:
  assumes "op_of_task task = Some op" "wal_ok w es" "wal_running w" "mem_ok mem"
  shows "\<exists>w'. log_action mem task (Some w) = done_with (Some w') \<and>
    wal_ok w' (es @ [request_entry (mem (wal_calls w)) (request task)]) \<and> wal_running w' \<and> wal_calls w' = Suc (wal_calls w) \<and> wal_file w' = wal_file w"
  using assms(1,3) log_calls [OF assms(2-4)]
  by (cases "request task"; cases "task_type task") (fastforce simp: log_action_def op_of_task_def elim!: logsE)+

lemma log_fills_ok:
  assumes "wal_ok w es" "wal_running w" "mem_ok mem"
  shows "\<exists>w'. log_fills mem fs (Some w) = done_with (Some w') \<and>
    wal_ok w' (es @ fill_entries mem (wal_calls w) fs) \<and> wal_running w' \<and> wal_file w' = wal_file w"
  using assms
proof (induction fs arbitrary: w es)
  case (Cons f fs)
  obtain w1 where w1: "log_fill mem f w = done_with w1" "wal_ok w1 (es @ [fill_entry (mem (wal_calls w)) f])" "wal_running w1"
    "wal_calls w1 = Suc (wal_calls w)" "wal_file w1 = wal_file w"
    using log_calls(4) [OF Cons.prems, of f] Cons.prems(2) by (fastforce elim: logsE)
  show ?case using Cons.IH [OF w1(2,3) Cons.prems(3)] w1 by (simp add: log_fills_def)
qed (simp add: log_fills_def)

lemma publish_result_ok:
  assumes "pipeline_ok p rs ts" "ep_running p"
  shows "\<exists>p'. publish_result res (Some p) = done_with (Some p') \<and>
    pipeline_ok p' (rs @ execution_reports res) (ts @ map trade_of_fill (fills res)) \<and> ep_running p'"
proof -
  obtain p1 where p1: "run_each publish_execution_report (execution_reports res) p = done_with p1"
    "pipeline_ok p1 (rs @ execution_reports res) ts" "ep_running p1"
    using publish_reports_ok [OF assms] by blast
  from publish_trades_ok [OF p1(2,3)] p1(1) show ?thesis by (fastforce simp: publish_result_def)
qed

lemma process_task_ok:
  assumes ok: "exchange_ok x es rs ts" and mem: "mem_ok mem" and op: "op_of_task task = Some op"
    and get: "get_order_book (task_symbol task) (registry x) = (b, reg)"
  obtains b' res e' x' k where "book_apply clk op b (env x) = Inr (b', res, e')" "book_inv b'"
    "process_task clk mem task x = done_with x'" "registry x' = store_book (task_symbol task) b' reg" "env x' = e'"
    "exchange_ok x' (es @ request_entry (mem k) (request task) # fill_entries mem (Suc k) (fills res))
       (rs @ execution_reports res) (ts @ map trade_of_fill (fills res))"
    "map_option wal_file (wal x') = map_option wal_file (wal x)"
proof -
  have inv: "registry_inv (registry x)" using ok by (simp add: exchange_ok_def)
  note R = registry_inv_get [OF inv get]
  obtain w p where w: "wal x = Some w" "wal_ok w es" "wal_running w" and p: "pipeline x = Some p" "pipeline_ok p rs ts" "ep_running p"
    using ok by (auto simp: exchange_ok_def)
  obtain b' res e' where b': "book_apply clk op b (env x) = Inr (b', res, e')" "book_inv b'"
    using book_apply_inv [OF R(2)] by blast
  obtain w1 where w1: "log_action mem task (Some w) = done_with (Some w1)" "wal_running w1"
    "wal_ok w1 (es @ [request_entry (mem (wal_calls w)) (request task)])" "wal_calls w1 = Suc (wal_calls w)" "wal_file w1 = wal_file w"
    using log_action_ok [OF op w(2,3) mem] by blast
  obtain w2 where w2: "log_fills mem (fills res) (Some w1) = done_with (Some w2)" "wal_running w2" "wal_file w2 = wal_file w1"
    "wal_ok w2 ((es @ [request_entry (mem (wal_calls w)) (request task)]) @ fill_entries mem (wal_calls w1) (fills res))"
    using log_fills_ok [OF w1(3,2) mem] by blast
  obtain p' where p': "publish_result res (Some p) = done_with (Some p')" "ep_running p'"
    "pipeline_ok p' (rs @ execution_reports res) (ts @ map trade_of_fill (fills res))"
    using publish_result_ok [OF p(2,3)] by blast
  have "registry_inv (store_book (task_symbol task) b' reg)"
    using registry_inv_store [OF R(1) b'(2)] book_apply_symbol [OF b'(1)] R(3) by simp
  then show thesis
    using process_task_book [OF get op b'(1), of mem] b' w w1 w2 p p'
    by (intro that [of b' res e' "x\<lparr>registry := store_book (task_symbol task) b' reg, wal := Some w2, pipeline := Some p', env := e'\<rparr>" "wal_calls w"])
      (simp_all add: finish_task_def exchange_ok_def)
qed

lemma worker_loop_closed:
  "shutdown q \<Longrightarrow> worker_loop clk mem q x =
     run_bind (process_tasks clk mem (sq_queue q) x) (\<lambda>x'. done_with (q\<lparr>sq_queue := []\<rparr>, x'))"
proof (induction "sq_queue q" arbitrary: q x)
  case Nil
  have "sq_dequeue q = Returns (None, q)" "q\<lparr>sq_queue := []\<rparr> = q" using Nil by (simp_all add: sq_dequeue_def)
  then show ?case using Nil by (simp add: worker_loop.simps [of clk mem q])
next
  case (Cons t ts)
  let ?q = "q\<lparr>sq_queue := ts\<rparr>"
  have "sq_dequeue q = Returns (Some t, ?q)"
    using Cons.hyps(2) [symmetric] by (simp add: sq_dequeue_def)
  moreover have "worker_loop clk mem ?q y = run_bind (process_tasks clk mem ts y) (\<lambda>x'. done_with (q\<lparr>sq_queue := []\<rparr>, x'))" for y
    using Cons.hyps(1) [of ?q y] Cons.prems by simp
  ultimately show ?case
    using Cons.hyps(2) [symmetric]
    by (cases "process_task clk mem t x") (auto simp: worker_loop.simps [of clk mem q] run_bind_def split: sum.splits)
qed

end
