(* ===== verification/Replay_Engine.thy ===== *)
theory Replay_Engine
  imports Thread_Pool
begin

text \<open>
  \<^verbatim>\<open>src/engine/replay_engine.cpp\<close>: rebuilding the books from the bytes of a log file.  Each round of
  the loop reads one entry of 53 bytes; a shorter rest ends it.  The member of the union is chosen
  by the entry's type byte, and the symbol of a member is read as a C string.
\<close>

section \<open>The replay loop\<close>

type_synonym replay_state = "BookRegistry \<times> Env \<times> nat"

definition replay_op :: "clock \<Rightarrow> Symbol \<Rightarrow> book_op \<Rightarrow> replay_state \<Rightarrow> undefined_behaviour + replay_state" where
  "replay_op clk sy op s =
     (case s of (reg, e, replayed_count) \<Rightarrow>
        (case get_order_book sy reg of (book, reg') \<Rightarrow>
           (case book_apply clk op book e of
              Inl ub \<Rightarrow> Inl ub
            | Inr (book', res, e') \<Rightarrow> Inr (store_book sy book' reg', e', Suc replayed_count))))"

definition replay_entry :: "clock \<Rightarrow> WALEntry \<Rightarrow> replay_state \<Rightarrow> undefined_behaviour + replay_state" where
  "replay_entry clk entry s =
     (if we_type entry = WALEventType_Submit then
        (case from_net_order (NetOrder_load (take sizeof_NetOrder (we_data entry))) of
           Inl ub \<Rightarrow> Inl ub
         | Inr order \<Rightarrow> replay_op clk (symbol order) (Submit_op order) s)
      else if we_type entry = WALEventType_Cancel then
        (case from_net_cancel (NetCancel_load (take sizeof_NetCancel (we_data entry))) of
           Inl ub \<Rightarrow> Inl ub
         | Inr req \<Rightarrow> replay_op clk (creq_symbol req) (Cancel_op (creq_order_id req)) s)
      else if we_type entry = WALEventType_Modify then
        (case from_net_modify (NetModify_load (take sizeof_NetModify (we_data entry))) of
           Inl ub \<Rightarrow> Inl ub
         | Inr req \<Rightarrow> replay_op clk (mreq_symbol req) (Modify_op req) s)
      else Inr s)"

function replay_loop :: "clock \<Rightarrow> byte list \<Rightarrow> replay_state \<Rightarrow> undefined_behaviour + replay_state" where
  "replay_loop clk file s =
     (if length file < sizeof_WALEntry then Inr s
      else case replay_entry clk (WALEntry_load (take sizeof_WALEntry file)) s of
        Inl ub \<Rightarrow> Inl ub
      | Inr s' \<Rightarrow> replay_loop clk (drop sizeof_WALEntry file) s')"
  by pat_completeness auto
termination
  by (relation "measure (\<lambda>(clk, file, s). length file)") (auto simp: sizeof_WALEntry_def)

declare replay_loop.simps [simp del]

text \<open>\<open>file\<close> is \<open>None\<close> when the file cannot be opened.\<close>

definition replay :: "clock \<Rightarrow> byte list option \<Rightarrow> BookRegistry \<Rightarrow> Env \<Rightarrow> undefined_behaviour + (bool \<times> BookRegistry \<times> Env)" where
  "replay clk file reg e =
     (case file of
        None \<Rightarrow> Inr (False, reg, e)
      | Some bytes \<Rightarrow>
          (case replay_loop clk bytes (reg, TradeIDGenerator_reset 1 e, 0) of
             Inl ub \<Rightarrow> Inl ub
           | Inr (reg', e', replayed_count) \<Rightarrow> Inr (True, reg', e')))"

section \<open>Entries in the file\<close>

fun replay_entries :: "clock \<Rightarrow> WALEntry list \<Rightarrow> replay_state \<Rightarrow> undefined_behaviour + replay_state" where
  "replay_entries clk [] s = Inr s"
| "replay_entries clk (en # es) s =
     (case replay_entry clk en s of Inl ub \<Rightarrow> Inl ub | Inr s' \<Rightarrow> replay_entries clk es s')"

lemma replay_entries_append:
  "replay_entries clk (es @ es') s =
     (case replay_entries clk es s of Inl ub \<Rightarrow> Inl ub | Inr s' \<Rightarrow> replay_entries clk es' s')"
  by (induction es arbitrary: s) (auto split: sum.splits)

text \<open>
  A file of whole entries, with a torn last entry: the loop replays the whole ones and ignores the rest.
\<close>

lemma replay_loop_entries:
  assumes "\<forall>en \<in> set es. length (we_data en) = 52" "length torn < sizeof_WALEntry"
  shows "replay_loop clk (concat (map WALEntry_image es) @ torn) s = replay_entries clk es s"
  using assms(1)
proof (induction es arbitrary: s)
  case Nil
  then show ?case using assms(2) by (simp add: replay_loop.simps)
next
  case (Cons en es)
  have len: "length (WALEntry_image en) = sizeof_WALEntry"
    by (rule wal_entry.image_length) (use Cons.prems in simp)
  have load: "WALEntry_load (WALEntry_image en) = en"
    by (rule wal_entry.load_image) (use Cons.prems in simp)
  let ?rest = "concat (map WALEntry_image es) @ torn"
  have "concat (map WALEntry_image (en # es)) @ torn = WALEntry_image en @ ?rest" by simp
  moreover have "replay_loop clk ?rest s' = replay_entries clk es s'" for s'
    using Cons by simp
  moreover have "take sizeof_WALEntry (WALEntry_image en @ ?rest) = WALEntry_image en"
    "drop sizeof_WALEntry (WALEntry_image en @ ?rest) = ?rest" unfolding len [symmetric] by simp_all
  ultimately show ?case
    using len load by (simp add: replay_loop.simps [of clk "WALEntry_image en @ _"] split: sum.split)
qed

section \<open>What an entry decodes to\<close>

text \<open>
  The tasks the gateway creates: the alternative fits the type, the symbol is the request's own, has at most seven
  characters and no NUL, and an order's remaining quantity is its quantity.
\<close>

definition symbol_ok :: "Symbol \<Rightarrow> bool" where
  "symbol_ok sy \<longleftrightarrow> NUL \<notin> set sy \<and> length sy \<le> 7"

definition gateway_task :: "Task \<Rightarrow> bool" where
  "gateway_task task \<longleftrightarrow> symbol_ok (task_symbol task) \<and>
     (case (task_type task, request task) of
        (Task_Submit, Req_Order order) \<Rightarrow> symbol order = task_symbol task \<and> remaining_quantity order = quantity order \<and> proper_enums order
      | (Task_Cancel, Req_Cancel req) \<Rightarrow> creq_symbol req = task_symbol task
      | (Task_Modify, Req_Modify req) \<Rightarrow> mreq_symbol req = task_symbol task
      | _ \<Rightarrow> False)"

lemma gateway_task_op: "gateway_task task \<Longrightarrow> \<exists>op. op_of_task task = Some op"
  by (auto simp: gateway_task_def op_of_task_def split: TaskType.splits TaskRequest.splits)

fun relabel_op :: "relabelling \<Rightarrow> book_op \<Rightarrow> book_op" where
  "relabel_op h (Submit_op order) = Submit_op (relabel h order)"
| "relabel_op h (Cancel_op oid) = Cancel_op oid"
| "relabel_op h (Modify_op req) = Modify_op (req\<lparr>mreq_client_id := h (mreq_client_id req)\<rparr>)"

abbreviation anon_op :: "book_op \<Rightarrow> book_op" where
  "anon_op \<equiv> relabel_op (\<lambda>_. 0)"

lemma relabel_op_id [simp]: "relabel_op (\<lambda>c. c) op = op"
  by (cases op) simp_all

lemma decode_order:
  assumes "mem_ok mem" "symbol_ok (symbol order)" "remaining_quantity order = quantity order" "proper_enums order"
  shows "from_net_order (NetOrder_load (take sizeof_NetOrder (we_data (order_entry (mem k) order)))) = Inr (anon order)"
proof -
  let ?n = "to_net_order (u_net (mem k)) order"
  have wf: "length (no_symbol ?n) = 8" using assms(1) by (simp add: mem_ok_def wf_to_net_order)
  have "take sizeof_NetOrder (we_data (order_entry (mem k) order)) = NetOrder_image ?n"
    by (simp add: order_entry_def net_order.image_length [OF wf])
  moreover have "from_net_order ?n = Inr (anon order)"
    using assms(2-4)
    by (simp add: from_net_order_def to_net_order_def c_string_safe_strncpy symbol_ok_def proper_enums_def Side_u8
        OrderType_u8 relabel_def)
  ultimately show ?thesis by (simp add: net_order.load_image [OF wf])
qed

lemma decode_cancel:
  assumes "mem_ok mem" "symbol_ok (creq_symbol req)"
  shows "from_net_cancel (NetCancel_load (take sizeof_NetCancel (we_data (cancel_entry (mem k) req)))) = Inr (req\<lparr>creq_client_id := 0\<rparr>)"
proof -
  have "length (nc_symbol (NetCancel_load (take sizeof_NetCancel (we_data (u_entry (mem k)))))) = 8"
    using assms(1) by (intro net_cancel.wf_load) (simp add: mem_ok_def sizeof_NetCancel_def)
  then have wf: "length (safe_strncpy (nc_symbol (NetCancel_load (take sizeof_NetCancel (we_data (u_entry (mem k)))))) (creq_symbol req) 8) = 8"
    by (simp add: length_safe_strncpy)
  show ?thesis
    using assms(2) wf
    by (simp add: cancel_entry_def Let_def net_cancel.image_length net_cancel.load_image from_net_cancel_def
        c_string_safe_strncpy symbol_ok_def)
qed

lemma decode_modify:
  assumes "mem_ok mem" "symbol_ok (mreq_symbol req)"
  shows "from_net_modify (NetModify_load (take sizeof_NetModify (we_data (modify_entry (mem k) req)))) = Inr (req\<lparr>mreq_client_id := 0\<rparr>)"
proof -
  have "length (nm_symbol (NetModify_load (take sizeof_NetModify (we_data (u_entry (mem k)))))) = 8"
    using assms(1) by (intro net_modify.wf_load) (simp add: mem_ok_def sizeof_NetModify_def)
  then have wf: "length (safe_strncpy (nm_symbol (NetModify_load (take sizeof_NetModify (we_data (u_entry (mem k)))))) (mreq_symbol req) 8) = 8"
    by (simp add: length_safe_strncpy)
  show ?thesis
    using assms(2) wf
    by (simp add: modify_entry_def Let_def net_modify.image_length net_modify.load_image from_net_modify_def
        c_string_safe_strncpy symbol_ok_def)
qed

lemma replay_request_entry:
  assumes "mem_ok mem" "gateway_task task" "op_of_task task = Some op"
  shows "replay_entry clk (request_entry (mem k) (request task)) s = replay_op clk (task_symbol task) (anon_op op) s"
proof (cases "request task")
  case (Req_Order order)
  then have t: "op = Submit_op order" "symbol order = task_symbol task" "symbol_ok (symbol order)"
    "remaining_quantity order = quantity order" "proper_enums order"
    using assms(2,3) by (auto simp: op_of_task_def gateway_task_def split: TaskType.splits)
  have "we_type (order_entry (mem k) order) = WALEventType_Submit" by (simp add: order_entry_def)
  then show ?thesis using Req_Order t decode_order [OF assms(1) t(3-5)] by (simp add: replay_entry_def)
next
  case (Req_Cancel req)
  then have t: "op = Cancel_op (creq_order_id req)" "creq_symbol req = task_symbol task" "symbol_ok (creq_symbol req)"
    using assms(2,3) by (auto simp: op_of_task_def gateway_task_def split: TaskType.splits)
  have "we_type (cancel_entry (mem k) req) = WALEventType_Cancel" by (simp add: cancel_entry_def Let_def)
  then show ?thesis using Req_Cancel t decode_cancel [OF assms(1) t(3)] by (simp add: replay_entry_def event_type_defs)
next
  case (Req_Modify req)
  then have t: "op = Modify_op req" "mreq_symbol req = task_symbol task" "symbol_ok (mreq_symbol req)"
    using assms(2,3) by (auto simp: op_of_task_def gateway_task_def split: TaskType.splits)
  have "we_type (modify_entry (mem k) req) = WALEventType_Modify" by (simp add: modify_entry_def Let_def)
  then show ?thesis using Req_Modify t decode_modify [OF assms(1) t(3)] by (simp add: replay_entry_def event_type_defs)
qed

lemma replay_fill_entries: "replay_entries clk (fill_entries mem k fs) s = Inr s"
proof (induction fs arbitrary: k)
  case (Cons f fs)
  have "we_type (fill_entry (mem k) f) = WALEventType_Fill" by (simp add: fill_entry_def Let_def)
  then show ?case using Cons by (simp add: replay_entry_def event_type_defs)
qed simp

section \<open>Replaying what was logged\<close>

lemma book_apply_relabel:
  assumes "book_apply clk op b e = Inr (b', res, e')"
  shows "\<exists>res1 f'. book_apply clk1 (relabel_op h op) (relabel_book h b) f = Inr (relabel_book h b', res1, f') \<and>
    counter f' - counter f = counter e' - counter e"
proof (cases op)
  case (Submit_op order)
  then have "submitOrderInternal clk order b MatchResult_init e = (b', res, e')"
    using assms(1) by (auto simp: submitOrder_eq split: prod.splits)
  from submitOrderInternal_relabel [OF this, of clk1 h MatchResult_init f] show ?thesis
    using Submit_op by (auto simp: submitOrder_eq)
next
  case (Cancel_op oid)
  then obtain found w where "cancelOrder clk oid None b MatchResult_init () e = Inr (found, b', res, w, e')"
    using assms(1) by (cases "cancelOrder clk oid None b MatchResult_init () e") auto
  from cancelOrder_relabel [OF this, of clk1 h MatchResult_init "()" f] show ?thesis using Cancel_op by auto
next
  case (Modify_op req)
  then obtain found w where "modifyOrder clk req None b MatchResult_init () e = Inr (found, b', res, w, e')"
    using assms(1) by (cases "modifyOrder clk req None b MatchResult_init () e") auto
  from modifyOrder_relabel [OF this, of "req\<lparr>mreq_client_id := h (mreq_client_id req)\<rparr>" clk1 h MatchResult_init "()" f] show ?thesis
    using Modify_op by auto
qed

text \<open>
  The replayed state follows the exchange: the same books up to client ids, and the same next trade id.
\<close>

definition follows :: "Exchange \<Rightarrow> replay_state \<Rightarrow> bool" where
  "follows x s \<longleftrightarrow> (case s of (reg, e, n) \<Rightarrow> same_books (registry x) reg \<and> counter e = counter (env x))"

lemma replay_task:
  assumes "exchange_ok x es rs ts" "mem_ok mem" "gateway_task task" "follows x s"
  shows "\<exists>x' new rs' ts' s'. process_task clk mem task x = done_with x' \<and> exchange_ok x' (es @ new) rs' ts' \<and>
    replay_entries clk1 new s = Inr s' \<and> follows x' s' \<and> map_option wal_file (wal x') = map_option wal_file (wal x)"
proof -
  obtain op where op: "op_of_task task = Some op" using gateway_task_op [OF assms(3)] by blast
  obtain b reg where get: "get_order_book (task_symbol task) (registry x) = (b, reg)" by fastforce
  obtain r e n where s: "s = (r, e, n)" by (rule prod_cases3)
  have fol: "same_books (registry x) r" "counter e = counter (env x)" using assms(4) s by (auto simp: follows_def)
  obtain b' res e' x' k where P: "book_apply clk op b (env x) = Inr (b', res, e')"
    "process_task clk mem task x = done_with x'" "registry x' = store_book (task_symbol task) b' reg" "env x' = e'"
    "exchange_ok x' (es @ request_entry (mem k) (request task) # fill_entries mem (Suc k) (fills res))
       (rs @ execution_reports res) (ts @ map trade_of_fill (fills res))"
    "map_option wal_file (wal x') = map_option wal_file (wal x)"
    using assms(1,2) op get by (rule process_task_ok [of x es rs ts mem task op b reg clk]) blast
  obtain reg1 where reg1: "get_order_book (task_symbol task) r = (anon_book b, reg1)" "same_books reg reg1"
    using same_books_get [OF fol(1) get] by blast
  obtain res1 f where ap: "book_apply clk1 (anon_op op) (anon_book b) e = Inr (anon_book b', res1, f)" "counter f = counter e'"
    using book_apply_relabel [OF P(1), of clk1 "\<lambda>_. 0" e] fol(2) by auto
  let ?s = "(store_book (task_symbol task) (anon_book b') reg1, f, Suc n)"
  have "replay_entries clk1 (request_entry (mem k) (request task) # fill_entries mem (Suc k) (fills res)) s = Inr ?s"
    using replay_request_entry [OF assms(2,3) op, of clk1 k s] s reg1(1) ap(1)
    by (simp add: replay_op_def replay_fill_entries)
  moreover have "follows x' ?s" using same_books_store [OF reg1(2)] P(3,4) ap(2) by (simp add: follows_def)
  ultimately show ?thesis using P(2,5,6) by blast
qed

lemma replay_tasks:
  assumes "exchange_ok x es rs ts" "mem_ok mem" "\<forall>task \<in> set tasks. gateway_task task" "follows x s"
  shows "\<exists>x' new rs' ts' s'. process_tasks clk mem tasks x = done_with x' \<and> exchange_ok x' (es @ new) rs' ts' \<and>
    replay_entries clk1 new s = Inr s' \<and> follows x' s' \<and> map_option wal_file (wal x') = map_option wal_file (wal x)"
  using assms
proof (induction tasks arbitrary: x es rs ts s)
  case Nil
  then show ?case by (intro exI [of _ x] exI [of _ "[]"] exI [of _ rs] exI [of _ ts] exI [of _ s]) simp
next
  case (Cons task tasks)
  obtain x1 new1 rs1 ts1 s1 where A: "process_task clk mem task x = done_with x1" "exchange_ok x1 (es @ new1) rs1 ts1"
    "replay_entries clk1 new1 s = Inr s1" "follows x1 s1" "map_option wal_file (wal x1) = map_option wal_file (wal x)"
    using replay_task [of x es rs ts mem task s clk clk1] Cons.prems by auto
  obtain x2 new2 rs2 ts2 s2 where B: "process_tasks clk mem tasks x1 = done_with x2" "exchange_ok x2 ((es @ new1) @ new2) rs2 ts2"
    "replay_entries clk1 new2 s1 = Inr s2" "follows x2 s2" "map_option wal_file (wal x2) = map_option wal_file (wal x1)"
    using Cons.IH [OF A(2) Cons.prems(2) _ A(4)] Cons.prems(3) by auto
  have "replay_entries clk1 (new1 @ new2) s = Inr s2" using A(3) B(3) by (simp add: replay_entries_append)
  then show ?case using A B by (intro exI [of _ x2] exI [of _ "new1 @ new2"] exI [of _ rs2] exI [of _ ts2] exI [of _ s2]) simp
qed

section \<open>Properties\<close>

definition fresh_exchange :: "string \<Rightarrow> Exchange" where
  "fresh_exchange path = \<lparr>registry = BookRegistry_init, wal = Some (wal_start True (WAL_init path [])),
     pipeline = Some (pipeline_start ExecutionPipeline_init), env = Env_init\<rparr>"

lemma fresh_exchange_ok: "exchange_ok (fresh_exchange path) [] [] []"
  using wal_ok_init [of path "[]"] pipeline_ok_start
  by (simp add: exchange_ok_def fresh_exchange_def registry_inv_init wal_start_def wal_ok_def WAL_init_def
      pipeline_start_def)

lemma fresh_follows: "follows (fresh_exchange path) (BookRegistry_init, TradeIDGenerator_reset 1 e0, 0)"
  by (simp add: follows_def same_books_def fresh_exchange_def BookRegistry_init_def TradeIDGenerator_reset_def
      Env_init_def TradeIDGenerator_init_def)

lemma replay_rebuilds:
  assumes "mem_ok mem" "\<forall>task \<in> set tasks. gateway_task task"
  shows "\<exists>x w w' reg e. process_tasks clk mem tasks (fresh_exchange path) = done_with x \<and>
    wal x = Some w \<and> wal_stop w = done_with w' \<and>
    replay clk1 (Some (wal_file w')) BookRegistry_init e0 = Inr (True, reg, e) \<and>
    (\<forall>sy. books reg sy = map_option anon_book (books (registry x) sy)) \<and> counter e = counter (env x)"
proof -
  obtain x new rs ts reg e n where A: "process_tasks clk mem tasks (fresh_exchange path) = done_with x"
    "exchange_ok x new rs ts" "replay_entries clk1 new (BookRegistry_init, TradeIDGenerator_reset 1 e0, 0) = Inr (reg, e, n)"
    "follows x (reg, e, n)" "map_option wal_file (wal x) = Some []"
    using replay_tasks [OF fresh_exchange_ok [of path] assms fresh_follows [of path e0], of clk clk1]
    by (auto simp: fresh_exchange_def wal_start_def WAL_init_def)
  obtain w where w: "wal x = Some w" "wal_ok w new" "wal_running w" using A(2) by (auto simp: exchange_ok_def)
  let ?w = "w\<lparr>wal_running := False, wal_queue := mpsc_close (wal_queue w)\<rparr>"
  have "mpsc_idle (wal_queue ?w) new" using w(2) by (simp add: wal_ok_def mpsc_idle_close)
  from flush_loop_stopped [OF this] obtain q where
    q: "flush_loop ?w = Some (Inr (?w\<lparr>wal_queue := q, wal_file := wal_file w @ concat (map WALEntry_image new)\<rparr>))" by auto
  then have stop: "wal_stop w = done_with (?w\<lparr>wal_queue := q, wal_file := concat (map WALEntry_image new), file_open := False\<rparr>)"
    using A(5) w(1,3) by (simp add: wal_stop_def)
  have "replay_loop clk1 (concat (map WALEntry_image new)) (BookRegistry_init, TradeIDGenerator_reset 1 e0, 0) = Inr (reg, e, n)"
    using replay_loop_entries [of new "[]"] w(2) A(3) by (simp add: wal_ok_def sizeof_WALEntry_def)
  then have "replay clk1 (Some (concat (map WALEntry_image new))) BookRegistry_init e0 = Inr (True, reg, e)"
    by (simp add: replay_def)
  then show ?thesis using A(1,4) w(1) stop by (auto simp: follows_def same_books_def)
qed

text \<open>
  Recovery: whatever tasks the gateway submitted, when they have been processed one after
  another and the log has been stopped, replaying the log file into an empty registry succeeds and
  rebuilds every book, order for order, queue position for queue position, with only the client
  ids missing; the trade-id counter continues where the original one stood.  This holds for any
  content of uninitialised memory and for any clocks.
\<close>

theorem replay_rebuilds_books:
  assumes "mem_ok mem" "\<forall>task \<in> set tasks. gateway_task task"
  shows "\<exists>x w w' reg e. process_tasks clk mem tasks (fresh_exchange path) = done_with x \<and>
    wal x = Some w \<and> wal_stop w = done_with w' \<and>
    replay clk1 (Some (wal_file w')) BookRegistry_init e0 = Inr (True, reg, e) \<and>
    (\<forall>sy. books reg sy = map_option anon_book (books (registry x) sy)) \<and> counter e = counter (env x)"
  by (rule replay_rebuilds [OF assms])

definition ex_task :: "OrderID \<Rightarrow> Side \<Rightarrow> Price \<Rightarrow> Quantity \<Rightarrow> Task" where
  "ex_task oid sd p q = \<lparr>task_type = Task_Submit, request = Req_Order (ex_order oid sd Limit p q 1 7), task_symbol = ''AAPL''\<rparr>"

theorem replay_rebuilds_books_witness:
  "\<exists>x w w' reg e. process_tasks (\<lambda>_. 0) ex_mem [ex_task 1 Buy 100 10, ex_task 2 Sell 100 4] (fresh_exchange ''f'') = done_with x \<and>
    wal x = Some w \<and> wal_stop w = done_with w' \<and>
    replay (\<lambda>_. 1) (Some (wal_file w')) BookRegistry_init Env_init = Inr (True, reg, e) \<and>
    (\<forall>sy. books reg sy = map_option anon_book (books (registry x) sy)) \<and> counter e = counter (env x)"
proof -
  have "\<forall>task \<in> set [ex_task 1 Buy 100 10, ex_task 2 Sell 100 4]. gateway_task task"
    by (simp add: gateway_task_def ex_task_def ex_order_def symbol_ok_def proper_enums_def)
  from replay_rebuilds_books [OF ex_mem_ok this] show ?thesis .
qed

lemma concat_images_take:
  assumes "\<forall>en \<in> set es. length (we_data en) = 52"
  shows "\<exists>torn. take n (concat (map WALEntry_image es)) = concat (map WALEntry_image (take (n div 53) es)) @ torn \<and> length torn < 53"
  using assms
proof (induction es arbitrary: n)
  case (Cons en es)
  have len: "length (WALEntry_image en) = 53" using Cons.prems by (simp add: WALEntry_image_def)
  show ?case
  proof (cases "n < 53")
    case True
    then show ?thesis using len by auto
  next
    case False
    then have "n div 53 = Suc ((n - 53) div 53)" by (simp add: Suc_div_le_mono le_div_geq)
    moreover obtain torn where "take (n - 53) (concat (map WALEntry_image es)) =
        concat (map WALEntry_image (take ((n - 53) div 53) es)) @ torn" "length torn < 53"
      using Cons.IH [of "n - 53"] Cons.prems by auto
    ultimately show ?thesis using False len by auto
  qed
qed simp

text \<open>
  C28: Crash tolerance of the file format: a log cut off after any number of bytes replays exactly
  the entries that were completely written, in order; a torn last entry is ignored.
\<close>

theorem replay_of_truncated_log:
  assumes "\<forall>en \<in> set es. length (we_data en) = 52"
  shows "replay_loop clk (take n (concat (map WALEntry_image es))) s = replay_entries clk (take (n div 53) es) s"
proof -
  obtain torn where t: "take n (concat (map WALEntry_image es)) = concat (map WALEntry_image (take (n div 53) es)) @ torn"
    "length torn < 53" using concat_images_take [OF assms] by blast
  have "\<forall>en \<in> set (take (n div 53) es). length (we_data en) = 52" using assms by (meson in_set_takeD)
  from replay_loop_entries [OF this, of torn clk s] t show ?thesis by (simp add: sizeof_WALEntry_def)
qed

theorem replay_of_truncated_log_witness:
  "replay_loop (\<lambda>_. 0) (take 60 (concat (map WALEntry_image [order_entry (ex_mem 0) (ex_order 1 Buy Limit 100 10 1 7),
       order_entry (ex_mem 1) (ex_order 2 Buy Limit 101 10 1 7)]))) (BookRegistry_init, Env_init, 0)
   = replay_entries (\<lambda>_. 0) [order_entry (ex_mem 0) (ex_order 1 Buy Limit 100 10 1 7)] (BookRegistry_init, Env_init, 0)"
proof -
  let ?es = "[order_entry (ex_mem 0) (ex_order 1 Buy Limit 100 10 1 7), order_entry (ex_mem 1) (ex_order 2 Buy Limit 101 10 1 7)]"
  have "\<forall>en \<in> set ?es. length (we_data en) = 52" using entry_lengths(1) [OF ex_mem_ok] by simp
  from replay_of_truncated_log [OF this, of _ 60] show ?thesis by simp
qed

text \<open>
  C15: A worker never fails on a task: on a running exchange processing a task returns, runs exactly the
  requested operation on the book of its symbol, queues the request in the log before its fills, and
  publishes the reports and the trades of the operation in order.
\<close>

theorem process_task_effects:
  assumes "exchange_ok x es rs ts" "mem_ok mem" "op_of_task task = Some op"
    "get_order_book (task_symbol task) (registry x) = (b, reg)"
  shows "\<exists>b' res e' x' k. book_apply clk op b (env x) = Inr (b', res, e') \<and> process_task clk mem task x = done_with x' \<and>
    books (registry x') = (books reg)(task_symbol task \<mapsto> b') \<and> env x' = e' \<and>
    exchange_ok x' (es @ request_entry (mem k) (request task) # fill_entries mem (Suc k) (fills res))
      (rs @ execution_reports res) (ts @ map trade_of_fill (fills res))"
  using assms
  by (rule process_task_ok [of x es rs ts mem task op b reg clk]) (auto simp: store_book_def)

theorem process_task_effects_witness:
  "\<exists>b' res e' x' k. book_apply (\<lambda>_. 0) (Submit_op (ex_order 1 Buy Limit 100 10 1 7)) (OrderBook_init ''AAPL'') Env_init = Inr (b', res, e') \<and>
    process_task (\<lambda>_. 0) ex_mem (ex_task 1 Buy 100 10) (fresh_exchange ''f'') = done_with x' \<and>
    exchange_ok x' (request_entry (ex_mem k) (Req_Order (ex_order 1 Buy Limit 100 10 1 7)) # fill_entries ex_mem (Suc k) (fills res))
      (execution_reports res) (map trade_of_fill (fills res))"
proof -
  have op: "op_of_task (ex_task 1 Buy 100 10) = Some (Submit_op (ex_order 1 Buy Limit 100 10 1 7))"
    by (simp add: op_of_task_def ex_task_def)
  have get: "get_order_book (task_symbol (ex_task 1 Buy 100 10)) (registry (fresh_exchange ''f'')) =
      (OrderBook_init ''AAPL'', \<lparr>books = [''AAPL'' \<mapsto> OrderBook_init ''AAPL'']\<rparr>)"
    by (simp add: get_order_book_def ex_task_def fresh_exchange_def BookRegistry_init_def)
  from process_task_effects [OF fresh_exchange_ok ex_mem_ok op get, of "\<lambda>_. 0"] show ?thesis
    by (auto simp: fresh_exchange_def ex_task_def)
qed

text \<open>
  Shutting the pool down processes every task that was accepted, in the order of submission, before
  it returns; afterwards nothing more is accepted.
\<close>

theorem pool_shutdown_drains:
  assumes "\<not> pool_stop tp" "workers tp \<noteq> 0"
  shows "pool_shutdown clk mem tp x =
      run_bind (process_tasks clk mem (sq_queue (task_queue tp)) x)
        (\<lambda>x'. done_with (tp\<lparr>pool_stop := True, task_queue := (task_queue tp)\<lparr>sq_queue := [], shutdown := True\<rparr>, workers := 0\<rparr>, x'))"
proof -
  let ?q = "snd (sq_close (task_queue tp))"
  have "shutdown ?q" "sq_queue ?q = sq_queue (task_queue tp)" "?q\<lparr>sq_queue := []\<rparr> = (task_queue tp)\<lparr>sq_queue := [], shutdown := True\<rparr>"
    by (simp_all add: sq_close_def)
  then show ?thesis
    using assms worker_loop_closed [of ?q clk mem x]
    by (simp add: pool_shutdown_def Let_def run_bind_def split: option.splits sum.splits)
qed

theorem pool_shutdown_drains_witness:
  "pool_shutdown (\<lambda>_. 0) ex_mem (pool_start (ThreadPool_init 4)) (fresh_exchange ''f'') =
     done_with ((ThreadPool_init 4)\<lparr>pool_stop := True, task_queue := \<lparr>sq_queue = [], max_capacity = 65536, shutdown = True\<rparr>, workers := 0\<rparr>,
       fresh_exchange ''f'')"
  by (subst pool_shutdown_drains)
    (simp_all add: pool_start_def ThreadPool_init_def SafeQueue_init_def MAX_QUEUE_CAPACITY_def)

end
