(* ===== verification/Risk_Checker.thy ===== *)
theory Risk_Checker
  imports Types
begin

text \<open>
  \<^verbatim>\<open>src/engine/risk_checker.hpp\<close> and \<^verbatim>\<open>risk_checker.cpp\<close>: the pre-trade checks of the
  singleton \<^verbatim>\<open>RiskChecker\<close>, with the order of the checks, the rejection reasons and the 64-bit
  product of the source.  Each operation holds the mutex throughout, so it is one function.
\<close>

record RiskChecker =
  allowed_symbols :: "Symbol set"
  seen_order_ids :: "OrderID set"

definition RiskChecker_init :: RiskChecker where
  "RiskChecker_init = \<lparr>allowed_symbols = {}, seen_order_ids = {}\<rparr>"

definition register_symbol :: "Symbol \<Rightarrow> RiskChecker \<Rightarrow> RiskChecker" where
  "register_symbol sy rc = rc\<lparr>allowed_symbols := insert sy (allowed_symbols rc)\<rparr>"

definition MAX_ORDER_VALUE :: uint64_t where
  "MAX_ORDER_VALUE = 500000000"

definition validate_order :: "Order \<Rightarrow> string \<Rightarrow> RiskChecker \<Rightarrow> bool \<times> string \<times> RiskChecker" where
  "validate_order order reject_reason rc =
     (if symbol order \<notin> allowed_symbols rc then (False, ''Invalid Symbol'', rc)
      else if price order \<le> 0 \<or> price order > MAX_PRICE then (False, ''Invalid Price Bounds'', rc)
      else if quantity order \<le> 0 \<or> quantity order > MAX_QUANTITY then (False, ''Invalid Quantity Bounds'', rc)
      else if order_id order \<in> seen_order_ids rc then (False, ''Duplicate Order ID'', rc)
      else
        let order_value = price order * ucast (quantity order)
        in if order_value > MAX_ORDER_VALUE then (False, ''Order Value Exceeds Limit'', rc)
           else (True, reject_reason, rc\<lparr>seen_order_ids := insert (order_id order) (seen_order_ids rc)\<rparr>))"

definition risk_reset :: "RiskChecker \<Rightarrow> RiskChecker" where
  "risk_reset rc = \<lparr>allowed_symbols = {}, seen_order_ids = {}\<rparr>"

section \<open>The order value does not overflow\<close>

lemma unat_ucast_32_64: "unat (ucast (q :: uint32_t) :: uint64_t) = unat q"
  by (simp add: unsigned_ucast_eq take_bit_nat_eq_self unsigned_less [THEN order_less_le_trans])

lemma order_value_exact:
  assumes "price order \<le> MAX_PRICE"
  shows "unat (price order * ucast (quantity order)) = unat (price order) * unat (quantity order)"
proof -
  have p: "unat (price order) \<le> 99999999"
    using assms by (simp add: MAX_PRICE_def word_le_nat_alt)
  have q: "unat (quantity order) < 2 ^ 32"
    using unsigned_less [of "quantity order", where ?'a = nat] by simp
  have "unat (price order) * unat (quantity order) \<le> 99999999 * 2 ^ 32"
    using p q by (intro mult_le_mono) auto
  then have "unat (price order) * unat (quantity order) < 2 ^ 64" by simp
  then show ?thesis
    by (simp add: unat_word_ariths unat_ucast_32_64)
qed

text \<open>What the checks accept, in mathematical arithmetic.\<close>

definition acceptable :: "RiskChecker \<Rightarrow> Order \<Rightarrow> bool" where
  "acceptable rc order \<longleftrightarrow>
     symbol order \<in> allowed_symbols rc \<and>
     1 \<le> unat (price order) \<and> unat (price order) \<le> 99999999 \<and>
     1 \<le> unat (quantity order) \<and> unat (quantity order) \<le> 10000000 \<and>
     order_id order \<notin> seen_order_ids rc \<and>
     unat (price order) * unat (quantity order) \<le> 500000000"

lemma price_bounds:
  "\<not> (price order \<le> 0 \<or> price order > MAX_PRICE) \<longleftrightarrow> 1 \<le> unat (price order) \<and> unat (price order) \<le> 99999999"
  by (auto simp: MAX_PRICE_def word_le_nat_alt word_less_nat_alt)

lemma quantity_bounds:
  "\<not> (quantity order \<le> 0 \<or> quantity order > MAX_QUANTITY) \<longleftrightarrow>
     1 \<le> unat (quantity order) \<and> unat (quantity order) \<le> 10000000"
  by (auto simp: MAX_QUANTITY_def word_le_nat_alt word_less_nat_alt)

lemma value_bound:
  "price order \<le> MAX_PRICE \<Longrightarrow> price order * ucast (quantity order) > MAX_ORDER_VALUE \<longleftrightarrow>
     500000000 < unat (price order) * unat (quantity order)"
  by (simp add: word_less_nat_alt order_value_exact MAX_ORDER_VALUE_def)

lemma validate_order_iff: "fst (validate_order order reason rc) \<longleftrightarrow> acceptable rc order"
proof (cases "price order \<le> 0 \<or> price order > MAX_PRICE")
  case True
  then have "\<not> acceptable rc order"
    using price_bounds [of order] by (auto simp: acceptable_def)
  with True show ?thesis by (simp add: validate_order_def)
next
  case False
  then have le: "price order \<le> MAX_PRICE" by (simp add: not_less)
  show ?thesis
    using False price_bounds [of order] quantity_bounds [of order] value_bound [OF le]
    unfolding validate_order_def acceptable_def Let_def by (auto simp: not_less)
qed

lemma validate_order_state:
  "snd (snd (validate_order order reason rc)) =
     (if acceptable rc order then rc\<lparr>seen_order_ids := insert (order_id order) (seen_order_ids rc)\<rparr> else rc)"
  unfolding validate_order_iff [of order reason rc, symmetric] by (simp add: validate_order_def Let_def)

section \<open>Properties\<close>

text \<open>
  C11: The risk checker accepts an order exactly when its symbol is registered, its price is
  between 1 and 99999999, its quantity between 1 and 10000000, its id has not been accepted
  before, and price times quantity is at most 500000000 in exact arithmetic: the 64-bit product
  of the source never wraps.  An accepted id is remembered; a rejected order changes nothing.
\<close>

theorem validate_order_exact:
  "fst (validate_order order reason rc) = acceptable rc order \<and>
   snd (snd (validate_order order reason rc)) =
     (if acceptable rc order then rc\<lparr>seen_order_ids := insert (order_id order) (seen_order_ids rc)\<rparr> else rc)"
  by (simp add: validate_order_iff validate_order_state)

text \<open>
  Every rejection gives the reason of the first check that fails, in the order of the source:
  symbol, price, quantity, duplicate id, order value; an accepted order leaves the caller's
  reason string alone.
\<close>

theorem validate_order_reason:
  "fst (snd (validate_order order reason rc)) =
     (if symbol order \<notin> allowed_symbols rc then ''Invalid Symbol''
      else if unat (price order) = 0 \<or> 99999999 < unat (price order) then ''Invalid Price Bounds''
      else if unat (quantity order) = 0 \<or> 10000000 < unat (quantity order) then ''Invalid Quantity Bounds''
      else if order_id order \<in> seen_order_ids rc then ''Duplicate Order ID''
      else if 500000000 < unat (price order) * unat (quantity order) then ''Order Value Exceeds Limit''
      else reason)"
proof (cases "price order \<le> 0 \<or> price order > MAX_PRICE")
  case True
  then show ?thesis
    using price_bounds [of order] by (auto simp: validate_order_def)
next
  case False
  then have le: "price order \<le> MAX_PRICE" by (simp add: not_less)
  show ?thesis
    using False price_bounds [of order] quantity_bounds [of order] value_bound [OF le]
    unfolding validate_order_def Let_def by (auto simp: not_less)
qed

text \<open>A stream of orders through the checker, as the sessions feed it.\<close>

fun validate_all :: "Order list \<Rightarrow> RiskChecker \<Rightarrow> Order list \<times> RiskChecker" where
  "validate_all [] rc = ([], rc)"
| "validate_all (order # orders) rc =
     (case validate_order order [] rc of
        (ok, reason, rc') \<Rightarrow>
          (case validate_all orders rc' of
             (accepted, rc'') \<Rightarrow> (if ok then order # accepted else accepted, rc'')))"

lemma validate_all_seen:
  "validate_all orders rc = (accepted, rc') \<Longrightarrow>
     seen_order_ids rc' = seen_order_ids rc \<union> order_id ` set accepted \<and>
     order_id ` set accepted \<inter> seen_order_ids rc = {} \<and> distinct (map order_id accepted)"
proof (induction orders arbitrary: rc accepted)
  case Nil
  then show ?case by simp
next
  case (Cons order orders)
  obtain ok reason rc1 where v: "validate_order order [] rc = (ok, reason, rc1)"
    by (rule prod_cases3)
  obtain acc rc2 where va: "validate_all orders rc1 = (acc, rc2)"
    by (cases "validate_all orders rc1")
  have ok: "ok = acceptable rc order"
    and rc1: "rc1 = (if ok then rc\<lparr>seen_order_ids := insert (order_id order) (seen_order_ids rc)\<rparr> else rc)"
    using validate_order_iff [of order "[]" rc] validate_order_state [of order "[]" rc] v by auto
  have "rc2 = rc'" and acc: "accepted = (if ok then order # acc else acc)"
    using Cons.prems by (auto simp: v va)
  moreover have "order_id order \<notin> seen_order_ids rc" if ok
    using that ok by (simp add: acceptable_def)
  ultimately show ?case
    using Cons.IH [of rc1 acc] va rc1 by (cases ok) auto
qed

text \<open>
  Among all the orders of a stream, of whatever length and from whatever sessions, no two
  accepted orders have the same id, and none has an id accepted earlier.
\<close>

theorem accepted_ids_unique:
  "case validate_all orders rc of (accepted, rc') \<Rightarrow>
     distinct (map order_id accepted) \<and> order_id ` set accepted \<inter> seen_order_ids rc = {} \<and>
     seen_order_ids rc' = seen_order_ids rc \<union> order_id ` set accepted"
  using validate_all_seen [of orders rc] by (auto split: prod.splits)

text \<open>
  An order with price 0 is never accepted, whatever its type: a market order, which has no
  limit price, passes the checks only if its sender fills in a price in the allowed range.
\<close>

theorem zero_price_rejected:
  "price order = 0 \<Longrightarrow> \<not> fst (validate_order order reason rc) \<and> snd (snd (validate_order order reason rc)) = rc"
  by (simp add: validate_order_def)

theorem zero_price_rejected_witness:
  "\<not> fst (validate_order \<lparr>order_id = 1005, symbol = ''AAPL'', side = Buy, order_type = Market, price = 0,
       quantity = 50, remaining_quantity = 50, timestamp = 7002, client_id = 1\<rparr> []
     \<lparr>allowed_symbols = {''AAPL'', ''MSFT''}, seen_order_ids = {}\<rparr>)"
  using zero_price_rejected [of "\<lparr>order_id = 1005, symbol = ''AAPL'', side = Buy, order_type = Market, price = 0,
       quantity = 50, remaining_quantity = 50, timestamp = 7002, client_id = 1\<rparr>"]
  by simp

end
