(* ===== verification/Session.thy ===== *)
theory Session
  imports Replay_Engine Risk_Checker
begin

text \<open>
  \<^verbatim>\<open>src/gateway/session.hpp\<close> and \<^verbatim>\<open>gateway_server.hpp\<close>: the sessions and the acceptor.  All handlers run on
  the one thread that runs the \<^verbatim>\<open>io_context\<close>, one at a time, so a handler is a function on the state
  \<open>Gateway\<close>.  The network library is represented by what it promises: a composed read
  completes with all the bytes that were asked for or with an error, a composed write completes
  after the whole buffer was sent or with an error, and a posted function runs later, in order.  What is
  outstanding is part of the state: \<open>reading\<close> is the read a session waits for,
  \<open>writing\<close> the buffer being sent, \<open>posted\<close> the functions handed to \<^verbatim>\<open>asio::post\<close>.
  A handler that calls \<^verbatim>\<open>pool_.submit\<close> on a full queue blocks the thread: its outcome is
  \<open>Waits\<close>.
\<close>

section \<open>State\<close>

datatype pending_read = Not_reading | Reading_header | Reading_body nat

record Session =
  sess_client_id :: uint32_t
  active :: bool
  socket_open :: bool
  incoming_header :: MsgHeader
  incoming_body :: "byte list"
  write_queue :: "byte list list"
  reading :: pending_read
  writing :: "byte list option"
  sent_bytes :: "byte list"

record Gateway =
  g_sessions :: "Session list"
  g_next_client_id :: uint32_t
  g_cm :: ConnectionManager
  g_risk :: RiskChecker
  g_pool :: ThreadPool
  g_env :: Env
  posted :: "(session_ref \<times> ExecutionReport) list"

abbreviation the_session :: "Gateway \<Rightarrow> session_ref \<Rightarrow> Session" where
  "the_session g i \<equiv> g_sessions g ! i"

definition set_session :: "session_ref \<Rightarrow> Session \<Rightarrow> Gateway \<Rightarrow> Gateway" where
  "set_session i s g = g\<lparr>g_sessions := (g_sessions g)[i := s]\<rparr>"

section \<open>Creating, starting and closing a session\<close>

text \<open>\<open>hdr\<close> is the uninitialised header member.\<close>

definition Session_init :: "MsgHeader \<Rightarrow> Gateway \<Rightarrow> Gateway" where
  "Session_init hdr g =
     g\<lparr>g_sessions := g_sessions g @
         [\<lparr>sess_client_id = g_next_client_id g, active = True, socket_open = True, incoming_header = hdr,
           incoming_body = [], write_queue = [], reading = Not_reading, writing = None, sent_bytes = []\<rparr>],
       g_next_client_id := g_next_client_id g + 1\<rparr>"

definition read_header :: "session_ref \<Rightarrow> Gateway \<Rightarrow> Gateway" where
  "read_header i g = set_session i ((the_session g i)\<lparr>reading := Reading_header\<rparr>) g"

definition session_start :: "session_ref \<Rightarrow> Gateway \<Rightarrow> Gateway" where
  "session_start i g = read_header i (g\<lparr>g_cm := add_session (sess_client_id (the_session g i)) i (g_cm g)\<rparr>)"

definition session_close :: "session_ref \<Rightarrow> Gateway \<Rightarrow> Gateway" where
  "session_close i g =
     (if active (the_session g i)
      then set_session i ((the_session g i)\<lparr>active := False, socket_open := False\<rparr>)
             (g\<lparr>g_cm := remove_session (sess_client_id (the_session g i)) (g_cm g)\<rparr>)
      else g)"

section \<open>Sending a report\<close>

definition send_execution_report :: "session_ref \<Rightarrow> ExecutionReport \<Rightarrow> Gateway \<Rightarrow> Gateway" where
  "send_execution_report i report g = g\<lparr>posted := posted g @ [(i, report)]\<rparr>"

definition report_frame :: "NetExecutionReport \<Rightarrow> ExecutionReport \<Rightarrow> byte list" where
  "report_frame net report =
     MsgHeader_image \<lparr>hdr_type = MsgType_ExecutionReport, hdr_length = of_nat sizeof_NetExecutionReport\<rparr> @
     NetExecutionReport_image (to_net_report net report)"

definition write_next :: "session_ref \<Rightarrow> Gateway \<Rightarrow> Gateway" where
  "write_next i g = set_session i ((the_session g i)\<lparr>writing := Some (hd (write_queue (the_session g i)))\<rparr>) g"

text \<open>The function posted by \<^verbatim>\<open>send_execution_report\<close>; \<open>net\<close> is the uninitialised struct it fills.\<close>

definition run_posted :: "NetExecutionReport \<Rightarrow> session_ref \<Rightarrow> ExecutionReport \<Rightarrow> Gateway \<Rightarrow> Gateway" where
  "run_posted net i report g =
     (let s = the_session g i;
          write_in_progress = (write_queue s \<noteq> []);
          g' = set_session i (s\<lparr>write_queue := write_queue s @ [report_frame net report]\<rparr>) g
      in if \<not> write_in_progress then write_next i g' else g')"

text \<open>
  The completion of a write: \<open>ok\<close> says that there was no error, and then the library has sent
  the whole buffer.  \<open>sent_bytes\<close> counts completed writes; of a write that fails the library may have sent a beginning,
  which is not counted, and the session is closed.
\<close>

definition on_written :: "session_ref \<Rightarrow> bool \<Rightarrow> Gateway \<Rightarrow> Gateway" where
  "on_written i ok g =
     (let s = the_session g i;
          sent = (case writing s of None \<Rightarrow> [] | Some buf \<Rightarrow> buf)
      in if ok then
           let s' = s\<lparr>writing := None, write_queue := tl (write_queue s), sent_bytes := sent_bytes s @ sent\<rparr>;
               g' = set_session i s' g
           in if write_queue s' \<noteq> [] then write_next i g' else g'
         else session_close i (set_session i (s\<lparr>writing := None\<rparr>) g))"

section \<open>Receiving a packet\<close>

definition reject_report :: "Order \<Rightarrow> string \<Rightarrow> Timestamp \<Rightarrow> uint32_t \<Rightarrow> ExecutionReport" where
  "reject_report order reject_reason now cid =
     ExecutionReport_init\<lparr>rep_order_id := order_id order, rep_symbol := symbol order, rep_side := side order,
       rep_status := Rejected, rep_reject_reason := reject_reason, rep_timestamp := now, rep_client_id := cid\<rparr>"

definition submit_task :: "Task \<Rightarrow> Gateway \<Rightarrow> Gateway outcome" where
  "submit_task task g =
     (case pool_submit task (g_pool g) of Waits \<Rightarrow> Waits | Returns (ok, tp) \<Rightarrow> Returns (g\<lparr>g_pool := tp\<rparr>))"

definition process_order :: "clock \<Rightarrow> session_ref \<Rightarrow> Order \<Rightarrow> Gateway \<Rightarrow> Gateway outcome" where
  "process_order clk i order g =
     (case validate_order order [] (g_risk g) of
        (accepted, reject_reason, risk) \<Rightarrow>
          if \<not> accepted then
            let (now, e) = get_current_time_ns clk (g_env g)
            in Returns (send_execution_report i
                 (reject_report order reject_reason now (sess_client_id (the_session g i)))
                 (g\<lparr>g_risk := risk, g_env := e\<rparr>))
          else submit_task \<lparr>task_type = Task_Submit, request = Req_Order order, task_symbol = symbol order\<rparr>
                 (g\<lparr>g_risk := risk\<rparr>))"

definition process_packet :: "clock \<Rightarrow> session_ref \<Rightarrow> Gateway \<Rightarrow> undefined_behaviour + Gateway outcome" where
  "process_packet clk i g =
     (let s = the_session g i; ty = hdr_type (incoming_header s); body = incoming_body s; cid = sess_client_id s in
      if ty = MsgType_Order then
        (if length body \<noteq> sizeof_NetOrder then Inr (Returns g)
         else map_sum id (\<lambda>order. process_order clk i (order\<lparr>client_id := cid\<rparr>) g) (from_net_order (NetOrder_load body)))
      else if ty = MsgType_Cancel then
        (if length body \<noteq> sizeof_NetCancel then Inr (Returns g)
         else map_sum id
           (\<lambda>req. submit_task \<lparr>task_type = Task_Cancel, request = Req_Cancel (req\<lparr>creq_client_id := cid\<rparr>),
                               task_symbol = creq_symbol req\<rparr> g)
           (from_net_cancel (NetCancel_load body)))
      else if ty = MsgType_Modify then
        (if length body \<noteq> sizeof_NetModify then Inr (Returns g)
         else map_sum id
           (\<lambda>req. submit_task \<lparr>task_type = Task_Modify, request = Req_Modify (req\<lparr>mreq_client_id := cid\<rparr>),
                               task_symbol = mreq_symbol req\<rparr> g)
           (from_net_modify (NetModify_load body)))
      else Inr (Returns g))"

section \<open>Reading\<close>

definition read_body :: "session_ref \<Rightarrow> Gateway \<Rightarrow> Gateway" where
  "read_body i g =
     (let s = the_session g i; n = unat (hdr_length (incoming_header s))
      in set_session i (s\<lparr>incoming_body := take n (incoming_body s) @ replicate (n - length (incoming_body s)) 0,
                          reading := Reading_body n\<rparr>) g)"

text \<open>
  The completion of the header's read: \<open>bytes\<close> is \<open>None\<close> for an error.  The library has
  written the bytes into \<^verbatim>\<open>incoming_header_\<close>.
\<close>

definition on_header :: "session_ref \<Rightarrow> byte list option \<Rightarrow> Gateway \<Rightarrow> Gateway" where
  "on_header i bytes g =
     (case bytes of
        Some bs \<Rightarrow> read_body i (set_session i ((the_session g i)\<lparr>incoming_header := MsgHeader_load bs, reading := Not_reading\<rparr>) g)
      | None \<Rightarrow> session_close i (set_session i ((the_session g i)\<lparr>reading := Not_reading\<rparr>) g))"

definition on_body :: "clock \<Rightarrow> session_ref \<Rightarrow> byte list option \<Rightarrow> Gateway \<Rightarrow> undefined_behaviour + Gateway outcome" where
  "on_body clk i bytes g =
     (case bytes of
        Some bs \<Rightarrow>
          map_sum id (\<lambda>r. case r of Waits \<Rightarrow> Waits | Returns g' \<Rightarrow> Returns (read_header i g'))
            (process_packet clk i (set_session i ((the_session g i)\<lparr>incoming_body := bs, reading := Not_reading\<rparr>) g))
      | None \<Rightarrow> Inr (Returns (session_close i (set_session i ((the_session g i)\<lparr>reading := Not_reading\<rparr>) g))))"

section \<open>The acceptor\<close>

text \<open>The completion of an accept: on success a session is made and started; the next accept follows.\<close>

definition on_accept :: "MsgHeader \<Rightarrow> bool \<Rightarrow> Gateway \<Rightarrow> Gateway" where
  "on_accept hdr ok g =
     (if ok then let g' = Session_init hdr g in session_start (length (g_sessions g)) g' else g)"

definition Gateway_init :: "RiskChecker \<Rightarrow> ThreadPool \<Rightarrow> Env \<Rightarrow> Gateway" where
  "Gateway_init risk tp e = \<lparr>g_sessions = [], g_next_client_id = 1, g_cm = ConnectionManager_init, g_risk = risk,
     g_pool = tp, g_env = e, posted = []\<rparr>"

end
