(* ===== verification/Gateway_Runs.thy ===== *)
theory Gateway_Runs
  imports Session
begin

text \<open>
  Runs of the gateway: the completions the network library delivers, the worker threads taking tasks from the pool's queue
  and the dispatch thread handing reports to sessions, in any order.  A step is labelled with the
  tasks it put into the pool's queue and the frames it put into write queues, so that a run has the
  history of both.
\<close>

section \<open>Steps\<close>

definition queued_tasks :: "Gateway \<Rightarrow> Task list" where
  "queued_tasks g = sq_queue (task_queue (g_pool g))"

inductive gw_step :: "clock \<Rightarrow> Gateway \<Rightarrow> Task list \<Rightarrow> (session_ref \<times> byte list) list \<Rightarrow> Gateway \<Rightarrow> bool" for clk where
  accepts: "gw_step clk g [] [] (on_accept hdr ok g)"
| header: "i < length (g_sessions g) \<Longrightarrow> reading (the_session g i) = Reading_header \<Longrightarrow>
     (\<And>bs. bytes = Some bs \<Longrightarrow> length bs = sizeof_MsgHeader) \<Longrightarrow>
     gw_step clk g [] [] (on_header i bytes g)"
| body: "i < length (g_sessions g) \<Longrightarrow> reading (the_session g i) = Reading_body n \<Longrightarrow>
     (\<And>bs. bytes = Some bs \<Longrightarrow> length bs = n) \<Longrightarrow> on_body clk i bytes g = Inr (Returns g') \<Longrightarrow>
     gw_step clk g (drop (length (queued_tasks g)) (queued_tasks g')) [] g'"
| posted_runs: "posted g = (i, r) # rest \<Longrightarrow> length (nr_symbol net) = 8 \<Longrightarrow> length (nr_reject_reason net) = 32 \<Longrightarrow>
     gw_step clk g [] [(i, report_frame net r)] (run_posted net i r (g\<lparr>posted := rest\<rparr>))"
| written: "i < length (g_sessions g) \<Longrightarrow> writing (the_session g i) = Some buf \<Longrightarrow>
     gw_step clk g [] [] (on_written i ok g)"
| dispatch: "get_session (rep_client_id r) (g_cm g) = Some i \<Longrightarrow> gw_step clk g [] [] (send_execution_report i r g)"
| worker: "sq_dequeue (task_queue (g_pool g)) = Returns (t, q) \<Longrightarrow>
     gw_step clk g [] [] (g\<lparr>g_pool := (g_pool g)\<lparr>task_queue := q\<rparr>\<rparr>)"

inductive gw_run :: "clock \<Rightarrow> Gateway \<Rightarrow> Task list \<Rightarrow> (session_ref \<times> byte list) list \<Rightarrow> Gateway \<Rightarrow> bool" for clk g0 where
  gw_start: "gw_run clk g0 [] [] g0"
| gw_next: "gw_run clk g0 hist outs g \<Longrightarrow> gw_step clk g ts os g' \<Longrightarrow> gw_run clk g0 (hist @ ts) (outs @ os) g'"

section \<open>What a session writes\<close>

definition frames_of :: "session_ref \<Rightarrow> (session_ref \<times> byte list) list \<Rightarrow> byte list list" where
  "frames_of i outs = map snd (filter (\<lambda>p. fst p = i) outs)"

lemma frames_of_simps [simp]:
  "frames_of i [] = []" "frames_of i (outs @ os) = frames_of i outs @ frames_of i os"
  "frames_of i [(j, f)] = (if j = i then [f] else [])"
  by (simp_all add: frames_of_def)

text \<open>
  The bytes sent and the frames still queued are all the frames of the session in order; the frame being
  written is the first queued one, and an active session with queued frames is writing.
\<close>

definition session_ok :: "Session \<Rightarrow> byte list list \<Rightarrow> bool" where
  "session_ok s fs \<longleftrightarrow> sent_bytes s @ concat (write_queue s) = concat fs \<and>
     (\<forall>b. writing s = Some b \<longrightarrow> (\<exists>bs. write_queue s = b # bs)) \<and>
     (active s \<longrightarrow> write_queue s \<noteq> [] \<longrightarrow> writing s \<noteq> None)"

definition sessions_ok :: "Gateway \<Rightarrow> (session_ref \<times> byte list) list \<Rightarrow> bool" where
  "sessions_ok g outs \<longleftrightarrow> (\<forall>i < length (g_sessions g). session_ok (the_session g i) (frames_of i outs)) \<and>
     (\<forall>i f. (i, f) \<in> set outs \<longrightarrow> i < length (g_sessions g)) \<and>
     (\<forall>i r. (i, r) \<in> set (posted g) \<longrightarrow> i < length (g_sessions g)) \<and>
     (\<forall>cid i. get_session cid (g_cm g) = Some i \<longrightarrow>
        i < length (g_sessions g) \<and> sess_client_id (the_session g i) = cid \<and> active (the_session g i))"

lemma set_session_sel [simp]:
  "g_sessions (set_session i s g) = (g_sessions g)[i := s]" "g_cm (set_session i s g) = g_cm g"
  "posted (set_session i s g) = posted g" "g_pool (set_session i s g) = g_pool g" "g_risk (set_session i s g) = g_risk g"
  "g_env (set_session i s g) = g_env g" "g_next_client_id (set_session i s g) = g_next_client_id g"
  by (simp_all add: set_session_def)

lemma sessions_okI:
  assumes "sessions_ok g outs" "length ss = length (g_sessions g)" "g_sessions g' = ss"
    and "\<And>j. j < length ss \<Longrightarrow> session_ok (ss ! j) (frames_of j (outs @ os))"
    and "\<And>j. j < length ss \<Longrightarrow> sess_client_id (ss ! j) = sess_client_id (the_session g j)"
    and "\<And>j cid. get_session cid (g_cm g') = Some j \<Longrightarrow> get_session cid (g_cm g) = Some j \<and> (active (the_session g j) \<longrightarrow> active (ss ! j))"
    and "\<And>j r. (j, r) \<in> set (posted g') \<Longrightarrow> j < length ss" "\<And>j f. (j, f) \<in> set os \<Longrightarrow> j < length ss"
  shows "sessions_ok g' (outs @ os)"
  unfolding sessions_ok_def
proof (intro conjI allI impI)
  fix j assume "j < length (g_sessions g')"
  then show "session_ok (the_session g' j) (frames_of j (outs @ os))" using assms(3,4) by simp
next
  fix j f assume "(j, f) \<in> set (outs @ os)"
  then show "j < length (g_sessions g')" using assms(1,2,3,8) by (auto simp: sessions_ok_def)
next
  fix j r assume "(j, r) \<in> set (posted g')"
  then show "j < length (g_sessions g')" using assms(3,7) by simp
next
  fix cid j assume "get_session cid (g_cm g') = Some j"
  from assms(6) [OF this] have "j < length (g_sessions g)" "sess_client_id (the_session g j) = cid" "active (ss ! j)"
    using assms(1) by (auto simp: sessions_ok_def)
  then show "j < length (g_sessions g')" "sess_client_id (the_session g' j) = cid" "active (the_session g' j)"
    using assms(2,3,5) by auto
qed

text \<open>Changing one session in a way that keeps its frames, id and activity.\<close>

lemma sessions_ok_update:
  assumes "sessions_ok g outs" "i < length (g_sessions g)" "session_ok s (frames_of i outs)"
    "sess_client_id s = sess_client_id (the_session g i)" "active s = active (the_session g i)"
  shows "sessions_ok (set_session i s g) outs"
proof -
  have "sessions_ok (set_session i s g) (outs @ [])"
    using assms by (intro sessions_okI [OF assms(1), of "(g_sessions g)[i := s]"]) (auto simp: sessions_ok_def nth_list_update)
  then show ?thesis by simp
qed

lemma sessions_ok_close:
  assumes "sessions_ok g outs" "i < length (g_sessions g)"
  shows "sessions_ok (session_close i g) outs"
proof (cases "active (the_session g i)")
  case True
  let ?s = "(the_session g i)\<lparr>active := False, socket_open := False\<rparr>"
  have "session_ok ?s (frames_of i outs)" using assms by (auto simp: sessions_ok_def session_ok_def)
  then have "sessions_ok (session_close i g) (outs @ [])"
    using assms True
    by (intro sessions_okI [OF assms(1), of "(g_sessions g)[i := ?s]"])
      (auto simp: sessions_ok_def nth_list_update session_close_def cm_defs split: if_splits)
  then show ?thesis by simp
qed (simp add: session_close_def assms)

lemma session_okD: "sessions_ok g outs \<Longrightarrow> i < length (g_sessions g) \<Longrightarrow> session_ok (the_session g i) (frames_of i outs)"
  by (simp add: sessions_ok_def)

lemma sessions_ok_reading:
  assumes "sessions_ok g outs" "i < length (g_sessions g)"
  shows "sessions_ok (set_session i ((the_session g i)\<lparr>reading := r\<rparr>) g) outs"
    "sessions_ok (set_session i ((the_session g i)\<lparr>incoming_header := h, reading := r\<rparr>) g) outs"
    "sessions_ok (set_session i ((the_session g i)\<lparr>incoming_body := b, reading := r\<rparr>) g) outs"
  using assms session_okD [OF assms] by (auto intro!: sessions_ok_update simp: session_ok_def)

lemma sessions_ok_other:
  assumes "sessions_ok g outs" "g_sessions g' = g_sessions g" "g_cm g' = g_cm g"
    "\<And>i r. (i, r) \<in> set (posted g') \<Longrightarrow> (i, r) \<in> set (posted g) \<or> i < length (g_sessions g)"
  shows "sessions_ok g' outs"
  using assms unfolding sessions_ok_def by metis

lemma sessions_ok_accept:
  assumes "sessions_ok g outs"
  shows "sessions_ok (on_accept hdr ok g) outs"
proof (cases ok)
  case True
  let ?n = "length (g_sessions g)"
  have "frames_of ?n outs = []" using assms by (auto simp: sessions_ok_def frames_of_def filter_empty_conv)
  then show ?thesis
    using assms True
    by (auto simp: sessions_ok_def on_accept_def session_start_def Session_init_def read_header_def Let_def cm_defs
        nth_append nth_list_update less_Suc_eq session_ok_def split: if_splits)
qed (simp add: on_accept_def assms)

lemma sessions_ok_posted:
  assumes "sessions_ok g outs" "posted g = (i, r) # rest"
  shows "sessions_ok (run_posted net i r (g\<lparr>posted := rest\<rparr>)) (outs @ [(i, report_frame net r)])"
proof -
  have i: "i < length (g_sessions g)" using assms by (auto simp: sessions_ok_def)
  let ?f = "report_frame net r" and ?s = "the_session g i"
  let ?s' = "if write_queue ?s = [] then ?s\<lparr>write_queue := [?f], writing := Some ?f\<rparr> else ?s\<lparr>write_queue := write_queue ?s @ [?f]\<rparr>"
  have s': "session_ok ?s' (frames_of i outs @ [?f])"
    using session_okD [OF assms(1) i] by (auto simp: session_ok_def)
  have run: "run_posted net i r (g\<lparr>posted := rest\<rparr>) = set_session i ?s' (g\<lparr>posted := rest\<rparr>)"
    using i by (simp add: run_posted_def write_next_def set_session_def Let_def)
  show ?thesis
    unfolding run
    using assms i s'
    by (intro sessions_okI [OF assms(1), of "(g_sessions g)[i := ?s']"]) (auto simp: sessions_ok_def nth_list_update)
qed

lemma sessions_ok_written:
  assumes "sessions_ok g outs" "i < length (g_sessions g)" "writing (the_session g i) = Some buf"
  shows "sessions_ok (on_written i ok g) outs"
proof -
  let ?s = "the_session g i"
  obtain bs where q: "write_queue ?s = buf # bs"
    using session_okD [OF assms(1,2)] assms(3) by (auto simp: session_ok_def)
  show ?thesis
  proof (cases ok)
    case True
    let ?s' = "if bs = [] then ?s\<lparr>writing := None, write_queue := [], sent_bytes := sent_bytes ?s @ buf\<rparr>
      else ?s\<lparr>write_queue := bs, sent_bytes := sent_bytes ?s @ buf, writing := Some (hd bs)\<rparr>"
    have "on_written i ok g = set_session i ?s' g"
      using assms(2,3) q True by (simp add: on_written_def write_next_def set_session_def Let_def)
    moreover have "session_ok ?s' (frames_of i outs)"
      using session_okD [OF assms(1,2)] q by (cases bs) (auto simp: session_ok_def)
    ultimately show ?thesis using assms(1,2) by (auto intro!: sessions_ok_update)
  next
    case False
    show ?thesis
    proof (cases "active ?s")
      case True
      let ?s' = "?s\<lparr>writing := None, active := False, socket_open := False\<rparr>"
      let ?g = "g\<lparr>g_cm := remove_session (sess_client_id ?s) (g_cm g)\<rparr>"
      have run: "on_written i ok g = set_session i ?s' ?g"
        using False True assms(2) by (simp add: on_written_def session_close_def set_session_def Let_def)
      have "session_ok ?s' (frames_of i outs)" using session_okD [OF assms(1,2)] by (auto simp: session_ok_def)
      then have "sessions_ok (on_written i ok g) (outs @ [])"
        unfolding run using assms(1,2)
        by (intro sessions_okI [OF assms(1), of "(g_sessions g)[i := ?s']"])
          (auto simp: sessions_ok_def nth_list_update cm_defs split: if_splits)
      then show ?thesis by simp
    next
      case inactive: False
      have "on_written i ok g = set_session i (?s\<lparr>writing := None\<rparr>) g"
        using False inactive assms(2) by (simp add: on_written_def session_close_def set_session_def Let_def)
      then show ?thesis
        using session_okD [OF assms(1,2)] inactive assms(1,2) by (auto intro!: sessions_ok_update simp: session_ok_def)
    qed
  qed
qed

lemma length_session_close [simp]: "length (g_sessions (session_close i g)) = length (g_sessions g)"
  by (simp add: session_close_def)

lemma sessions_ok_header:
  assumes "sessions_ok g outs" "i < length (g_sessions g)"
  shows "sessions_ok (on_header i bytes g) outs"
proof (cases bytes)
  case None
  let ?g = "set_session i ((the_session g i)\<lparr>reading := Not_reading\<rparr>) g"
  have "sessions_ok ?g outs" "i < length (g_sessions ?g)" using sessions_ok_reading(1) [OF assms] assms(2) by auto
  then show ?thesis using None sessions_ok_close by (simp add: on_header_def)
next
  case (Some bs)
  let ?g = "set_session i ((the_session g i)\<lparr>incoming_header := MsgHeader_load bs, reading := Not_reading\<rparr>) g"
  have "sessions_ok ?g outs" "i < length (g_sessions ?g)" using sessions_ok_reading(2) [OF assms] assms(2) by auto
  from sessions_ok_reading(3) [OF this] show ?thesis using Some by (simp add: on_header_def read_body_def Let_def)
qed

section \<open>What the gateway submits\<close>

lemma submit_task_cases:
  assumes "submit_task task g = Returns g'"
  obtains "g' = g" | "g' = g\<lparr>g_pool := (g_pool g)\<lparr>task_queue := (task_queue (g_pool g))\<lparr>sq_queue := queued_tasks g @ [task]\<rparr>\<rparr>\<rparr>"
proof (cases "pool_stop (g_pool g)")
  case True
  then show thesis using assms that by (simp add: submit_task_def pool_submit_def)
next
  case False
  then obtain ok q where q: "sq_enqueue task (task_queue (g_pool g)) = Returns (ok, q)"
    "g' = g\<lparr>g_pool := (g_pool g)\<lparr>task_queue := q\<rparr>\<rparr>"
    using assms by (auto simp: submit_task_def pool_submit_def split: outcome.splits)
  from q(1) show thesis
  proof (cases rule: sq_enqueue_cases)
    case 1
    then show thesis using q(2) that(1) by simp
  next
    case 2
    then show thesis using q(2) that(2) by (simp add: queued_tasks_def)
  qed
qed

lemma takeWhile_shorter: "x \<in> set xs \<Longrightarrow> \<not> P x \<Longrightarrow> length (takeWhile P xs) < length xs"
  by (induction xs) auto

lemma c_string_ok: "c_string arr = Inr s \<Longrightarrow> length arr = 8 \<Longrightarrow> symbol_ok s"
proof -
  assume s: "c_string arr = Inr s" and "length arr = 8"
  then have "NUL \<in> set arr" "s = takeWhile (\<lambda>c. c \<noteq> NUL) arr" by (auto simp: c_string_def split: if_splits)
  then have "length s < length arr" "NUL \<notin> set s"
    using takeWhile_shorter [of NUL arr "\<lambda>c. c \<noteq> NUL"] by (auto dest: set_takeWhileD)
  then show "symbol_ok s" using \<open>length arr = 8\<close> by (simp add: symbol_ok_def)
qed

lemma from_net_order_ok:
  assumes "length body = sizeof_NetOrder" "from_net_order (NetOrder_load body) = Inr order"
  shows "symbol_ok (symbol order)" "remaining_quantity order = quantity order" "proper_enums order"
proof -
  obtain sy where "c_string (no_symbol (NetOrder_load body)) = Inr sy" "symbol order = sy"
    "remaining_quantity order = quantity order" "side order = Side_of_u8 (no_side (NetOrder_load body))"
    "order_type order = OrderType_of_u8 (no_type (NetOrder_load body))"
    using assms(2) by (cases "c_string (no_symbol (NetOrder_load body))") (auto simp: from_net_order_def)
  then show "symbol_ok (symbol order)" "remaining_quantity order = quantity order" "proper_enums order"
    using c_string_ok net_order.wf_load [OF assms(1)]
    by (auto simp: proper_enums_def Side_of_u8_def OrderType_of_u8_def split: if_splits)
qed

lemma from_net_cancel_ok:
  assumes "length body = sizeof_NetCancel" "from_net_cancel (NetCancel_load body) = Inr req"
  shows "symbol_ok (creq_symbol req)"
  using assms c_string_ok net_cancel.wf_load [OF assms(1)]
  by (cases "c_string (nc_symbol (NetCancel_load body))") (auto simp: from_net_cancel_def)

lemma from_net_modify_ok:
  assumes "length body = sizeof_NetModify" "from_net_modify (NetModify_load body) = Inr req"
  shows "symbol_ok (mreq_symbol req)"
  using assms c_string_ok net_modify.wf_load [OF assms(1)]
  by (cases "c_string (nm_symbol (NetModify_load body))") (auto simp: from_net_modify_def)

definition submitted_ids :: "Task list \<Rightarrow> OrderID list" where
  "submitted_ids ts = concat (map (\<lambda>t. case request t of Req_Order order \<Rightarrow> [order_id order] | _ \<Rightarrow> []) ts)"

lemma submitted_ids_simps [simp]:
  "submitted_ids [] = []" "submitted_ids (ts @ us) = submitted_ids ts @ submitted_ids us"
  by (simp_all add: submitted_ids_def)

text \<open>What the handlers keep of the tasks they have ever queued (\<open>hist\<close>).\<close>

definition tasks_ok :: "Gateway \<Rightarrow> Task list \<Rightarrow> bool" where
  "tasks_ok g hist \<longleftrightarrow> (\<forall>t \<in> set hist. gateway_task t) \<and> distinct (submitted_ids hist) \<and>
     set (submitted_ids hist) \<subseteq> seen_order_ids (g_risk g)"

text \<open>A packet's effect on the queue and the risk checker: nothing, one good task, or a rejected order.\<close>

definition queue_effect :: "Gateway \<Rightarrow> Gateway \<Rightarrow> bool" where
  "queue_effect g g' \<longleftrightarrow> (\<exists>t. (queued_tasks g' = queued_tasks g \<or> queued_tasks g' = queued_tasks g @ [t] \<and> gateway_task t) \<and>
        (\<forall>oid \<in> set (submitted_ids [t]). oid \<notin> seen_order_ids (g_risk g) \<or> queued_tasks g' = queued_tasks g) \<and>
        seen_order_ids (g_risk g) \<union> (if queued_tasks g' = queued_tasks g then {} else set (submitted_ids [t]))
          \<subseteq> seen_order_ids (g_risk g'))"

definition packet_effect :: "Gateway \<Rightarrow> Gateway \<Rightarrow> bool" where
  "packet_effect g g' \<longleftrightarrow>
     g_sessions g' = g_sessions g \<and> g_cm g' = g_cm g \<and>
     queue_effect g g'"

lemma packet_effect_refl: "packet_effect g g"
  by (auto simp: packet_effect_def queue_effect_def)

lemma submit_task_effect:
  assumes "submit_task task g1 = Returns g'" "gateway_task task" "g_sessions g1 = g_sessions g" "g_cm g1 = g_cm g"
    "queued_tasks g1 = queued_tasks g" "\<And>oid. oid \<in> set (submitted_ids [task]) \<Longrightarrow> oid \<notin> seen_order_ids (g_risk g)"
    "seen_order_ids (g_risk g) \<union> set (submitted_ids [task]) \<subseteq> seen_order_ids (g_risk g1)"
  shows "packet_effect g g'"
  using assms(1)
proof (cases rule: submit_task_cases)
  case 1
  then show ?thesis using assms by (auto simp: packet_effect_def queue_effect_def intro!: exI [of _ task])
next
  case 2
  then show ?thesis using assms by (auto simp: packet_effect_def queue_effect_def queued_tasks_def intro!: exI [of _ task])
qed

lemma process_packet_effect:
  assumes "process_packet clk i g = Inr (Returns g')"
  shows "packet_effect g g'"
proof -
  let ?s = "the_session g i" and ?cid = "sess_client_id (the_session g i)"
  let ?body = "incoming_body ?s"
  consider (ignored) "g' = g"
    | (order) order where "length ?body = sizeof_NetOrder" "from_net_order (NetOrder_load ?body) = Inr order"
        "process_order clk i (order\<lparr>client_id := ?cid\<rparr>) g = Returns g'"
    | (cancel) req where "length ?body = sizeof_NetCancel" "from_net_cancel (NetCancel_load ?body) = Inr req"
        "submit_task \<lparr>task_type = Task_Cancel, request = Req_Cancel (req\<lparr>creq_client_id := ?cid\<rparr>), task_symbol = creq_symbol req\<rparr> g = Returns g'"
    | (modify) req where "length ?body = sizeof_NetModify" "from_net_modify (NetModify_load ?body) = Inr req"
        "submit_task \<lparr>task_type = Task_Modify, request = Req_Modify (req\<lparr>mreq_client_id := ?cid\<rparr>), task_symbol = mreq_symbol req\<rparr> g = Returns g'"
    using assms by (auto simp: process_packet_def Let_def map_sum_def split: if_splits sum.splits)
  then show ?thesis
  proof cases
    case ignored
    then show ?thesis by (simp add: packet_effect_refl)
  next
    case order
    let ?o = "order\<lparr>client_id := ?cid\<rparr>"
    obtain ok reason risk where v: "validate_order ?o [] (g_risk g) = (ok, reason, risk)" by (rule prod_cases3)
    show ?thesis
    proof (cases ok)
      case True
      then have sub: "submit_task \<lparr>task_type = Task_Submit, request = Req_Order ?o, task_symbol = symbol ?o\<rparr> (g\<lparr>g_risk := risk\<rparr>) = Returns g'"
        using order(3) v by (simp add: process_order_def)
      have "order_id order \<notin> seen_order_ids (g_risk g)" "risk = (g_risk g)\<lparr>seen_order_ids := insert (order_id order) (seen_order_ids (g_risk g))\<rparr>"
        using v True by (auto simp: validate_order_def Let_def split: if_splits)
      moreover have "gateway_task \<lparr>task_type = Task_Submit, request = Req_Order ?o, task_symbol = symbol ?o\<rparr>"
        using from_net_order_ok [OF order(1,2)] by (simp add: gateway_task_def proper_enums_def)
      ultimately show ?thesis using sub
        by (intro submit_task_effect [OF sub]) (auto simp: queued_tasks_def submitted_ids_def)
    next
      case False
      then have "risk = g_risk g" using v by (auto simp: validate_order_def Let_def split: if_splits)
      then show ?thesis using order(3) v False
        by (auto simp: process_order_def Let_def get_current_time_ns_def packet_effect_def queue_effect_def queued_tasks_def send_execution_report_def)
    qed
  next
    case cancel
    then show ?thesis using from_net_cancel_ok [OF cancel(1,2)]
      by (intro submit_task_effect [OF cancel(3)]) (auto simp: gateway_task_def submitted_ids_def)
  next
    case modify
    then show ?thesis using from_net_modify_ok [OF modify(1,2)]
      by (intro submit_task_effect [OF modify(3)]) (auto simp: gateway_task_def submitted_ids_def)
  qed
qed

section \<open>Every run\<close>

lemma submit_task_posted: "submit_task task g = Returns g' \<Longrightarrow> posted g' = posted g"
  by (erule submit_task_cases) simp_all

lemma process_packet_posted:
  assumes "process_packet clk i g = Inr (Returns g')" "(j, r) \<in> set (posted g')"
  shows "(j, r) \<in> set (posted g) \<or> j = i"
  using assms
  by (auto simp: process_packet_def process_order_def Let_def map_sum_def get_current_time_ns_def send_execution_report_def
      split: if_splits sum.splits prod.splits dest!: submit_task_posted)

lemma body_step:
  assumes "sessions_ok g outs" "i < length (g_sessions g)" "on_body clk i bytes g = Inr (Returns g')"
  shows "sessions_ok g' outs"
    and "queue_effect g g'"
proof -
  have *: "sessions_ok g' outs \<and> queue_effect g g'"
  proof (cases bytes)
    case None
    let ?g = "set_session i ((the_session g i)\<lparr>reading := Not_reading\<rparr>) g"
    have "sessions_ok ?g outs" "i < length (g_sessions ?g)" using sessions_ok_reading(1) [OF assms(1,2)] assms(2) by auto
    then have "sessions_ok (session_close i ?g) outs" by (rule sessions_ok_close)
    moreover have "g' = session_close i ?g" using assms(3) None by (simp add: on_body_def)
    ultimately show ?thesis by (auto simp: session_close_def queued_tasks_def queue_effect_def)
  next
    case (Some bs)
    let ?g = "set_session i ((the_session g i)\<lparr>incoming_body := bs, reading := Not_reading\<rparr>) g"
    obtain g2 where g2: "process_packet clk i ?g = Inr (Returns g2)" "g' = read_header i g2"
      using assms(3) Some by (auto simp: on_body_def map_sum_def split: sum.splits outcome.splits)
    have eff: "packet_effect ?g g2" by (rule process_packet_effect [OF g2(1)])
    have ok: "sessions_ok ?g outs" "i < length (g_sessions ?g)" using sessions_ok_reading(3) [OF assms(1,2)] assms(2) by auto
    have same: "g_sessions g2 = g_sessions ?g" "g_cm g2 = g_cm ?g" using eff by (auto simp: packet_effect_def)
    have "sessions_ok g2 outs"
      using ok(1) same by (rule sessions_ok_other) (use process_packet_posted [OF g2(1)] ok(2) in blast)
    then have "sessions_ok g' outs" unfolding g2(2) read_header_def
      by (rule sessions_ok_reading(1)) (use same ok(2) in simp)
    then show ?thesis using eff g2(2) unfolding packet_effect_def queue_effect_def by (simp add: read_header_def queued_tasks_def)
  qed
  show "sessions_ok g' outs" using * by blast
  show "queue_effect g g'" using * by blast
qed

lemma unrelated_steps [simp]:
  "g_pool (on_accept hdr ok g) = g_pool g" "g_risk (on_accept hdr ok g) = g_risk g"
  "g_pool (on_header i bytes g) = g_pool g" "g_risk (on_header i bytes g) = g_risk g"
  "g_pool (run_posted net i r g) = g_pool g" "g_risk (run_posted net i r g) = g_risk g"
  "g_pool (on_written i ok g) = g_pool g" "g_risk (on_written i ok g) = g_risk g"
  "g_pool (send_execution_report i r g) = g_pool g" "g_risk (send_execution_report i r g) = g_risk g"
  by (simp_all add: on_accept_def Session_init_def session_start_def read_header_def on_header_def read_body_def
      session_close_def run_posted_def write_next_def on_written_def send_execution_report_def Let_def split: option.split)

definition run_ok :: "Gateway \<Rightarrow> Task list \<Rightarrow> (session_ref \<times> byte list) list \<Rightarrow> bool" where
  "run_ok g hist outs \<longleftrightarrow> sessions_ok g outs \<and> tasks_ok g hist \<and> (\<exists>taken. hist = taken @ queued_tasks g)"

lemma run_ok_quiet:
  assumes "run_ok g hist outs" "sessions_ok g' (outs @ os)" "g_pool g' = g_pool g" "g_risk g' = g_risk g"
  shows "run_ok g' (hist @ []) (outs @ os)"
  using assms by (simp add: run_ok_def tasks_ok_def queued_tasks_def)

lemma run_ok_body:
  assumes ok: "run_ok g hist outs" and i: "i < length (g_sessions g)" and b: "on_body clk i bytes g = Inr (Returns g')"
  shows "run_ok g' (hist @ drop (length (queued_tasks g)) (queued_tasks g')) (outs @ [])"
proof -
  have ses: "sessions_ok g outs" and tas: "tasks_ok g hist" and "\<exists>taken. hist = taken @ queued_tasks g"
    using ok by (auto simp: run_ok_def)
  then obtain taken where taken: "hist = taken @ queued_tasks g" by blast
  obtain t where q: "queued_tasks g' = queued_tasks g \<or> queued_tasks g' = queued_tasks g @ [t] \<and> gateway_task t"
    and new: "\<forall>oid \<in> set (submitted_ids [t]). oid \<notin> seen_order_ids (g_risk g) \<or> queued_tasks g' = queued_tasks g"
    and seen: "seen_order_ids (g_risk g) \<union> (if queued_tasks g' = queued_tasks g then {} else set (submitted_ids [t]))
          \<subseteq> seen_order_ids (g_risk g')"
    using body_step(2) [OF ses i b] unfolding queue_effect_def by blast
  have "tasks_ok g' (hist @ drop (length (queued_tasks g)) (queued_tasks g'))"
  proof (cases "queued_tasks g' = queued_tasks g")
    case True
    then show ?thesis using tas seen by (auto simp: tasks_ok_def)
  next
    case False
    then have "queued_tasks g' = queued_tasks g @ [t]" "gateway_task t" using q by auto
    moreover have "distinct (submitted_ids [t])" by (simp add: submitted_ids_def split: TaskRequest.split)
    ultimately show ?thesis using tas seen new False by (auto simp: tasks_ok_def)
  qed
  moreover have "\<exists>taken. hist @ drop (length (queued_tasks g)) (queued_tasks g') = taken @ queued_tasks g'"
    using q taken by auto
  ultimately show ?thesis using body_step(1) [OF ses i b] by (simp add: run_ok_def)
qed

lemma run_ok_step:
  assumes "gw_step clk g ts os g'" "run_ok g hist outs"
  shows "run_ok g' (hist @ ts) (outs @ os)"
proof -
  have ok: "sessions_ok g outs" using assms(2) by (simp add: run_ok_def)
  from assms(1) show ?thesis
  proof cases
    case (accepts hdr ok')
    then show ?thesis using run_ok_quiet [OF assms(2), of g' "[]"] sessions_ok_accept [OF ok] by simp
  next
    case (header i bytes)
    then show ?thesis using run_ok_quiet [OF assms(2), of g' "[]"] sessions_ok_header [OF ok] by simp
  next
    case (body i n bytes)
    then show ?thesis using run_ok_body [OF assms(2)] by simp
  next
    case (posted_runs i r rest net)
    then show ?thesis using run_ok_quiet [OF assms(2), of g' os] sessions_ok_posted [OF ok] by simp
  next
    case (written i buf ok')
    then show ?thesis using run_ok_quiet [OF assms(2), of g' "[]"] sessions_ok_written [OF ok] by simp
  next
    case (dispatch r i)
    have "sessions_ok g' outs" using ok dispatch by (auto simp: sessions_ok_def send_execution_report_def)
    then show ?thesis using run_ok_quiet [OF assms(2), of g' "[]"] dispatch by simp
  next
    case (worker t q)
    have "sessions_ok g' outs" by (rule sessions_ok_other [OF ok]) (use worker in simp_all)
    moreover have "\<exists>as. queued_tasks g = as @ queued_tasks g'"
      using worker(4) unfolding worker(3) by (auto simp: queued_tasks_def elim!: sq_dequeue_cases)
    ultimately show ?thesis
      using assms(2) worker by (auto simp: run_ok_def tasks_ok_def)
  qed
qed

lemma gw_run_ok:
  assumes "gw_run clk (Gateway_init risk tp e) hist outs g" "sq_queue (task_queue tp) = []"
  shows "run_ok g hist outs"
  using assms(1)
proof (induction rule: gw_run.induct)
  case gw_start
  show ?case
    by (simp add: run_ok_def sessions_ok_def tasks_ok_def Gateway_init_def queued_tasks_def ConnectionManager_init_def
        get_session_def assms(2))
next
  case (gw_next hist outs g ts os g')
  then show ?case using run_ok_step by blast
qed

section \<open>An example run\<close>

text \<open>One client connects and sends the header and the body of a buy order.\<close>

definition ex_net_order :: NetOrder where
  "ex_net_order = \<lparr>no_order_id = 1001, no_symbol = ''AAPL'' @ replicate 4 NUL, no_side = 0, no_type = 0,
     no_price = 15000, no_quantity = 100, no_timestamp = 1001\<rparr>"

definition ex_received :: Order where
  "ex_received = \<lparr>order_id = 1001, symbol = ''AAPL'', side = Buy, order_type = Limit, price = 15000, quantity = 100,
     remaining_quantity = 100, timestamp = 1001, client_id = 1\<rparr>"

definition ex_received_task :: Task where
  "ex_received_task = \<lparr>task_type = Task_Submit, request = Req_Order ex_received, task_symbol = ''AAPL''\<rparr>"

definition ex_gateway :: Gateway where
  "ex_gateway = Gateway_init (register_symbol ''AAPL'' RiskChecker_init) (pool_start (ThreadPool_init 4)) Env_init"

definition ex_connected :: Gateway where
  "ex_connected = on_accept \<lparr>hdr_type = 0, hdr_length = 0\<rparr> True ex_gateway"

definition ex_order_header :: Gateway where
  "ex_order_header = on_header 0 (Some (MsgHeader_image \<lparr>hdr_type = MsgType_Order, hdr_length = 38\<rparr>)) ex_connected"

lemmas ex_gateway_defs = ex_order_header_def ex_connected_def ex_gateway_def Gateway_init_def on_accept_def Session_init_def
  session_start_def read_header_def on_header_def read_body_def set_session_def Let_def

lemma ex_header_run: "gw_run clk ex_gateway [] [] ex_order_header"
proof -
  have "gw_step clk ex_gateway [] [] ex_connected" unfolding ex_connected_def by (rule accepts)
  from gw_next [OF gw_start this] have "gw_run clk ex_gateway [] [] ex_connected" by simp
  moreover have "gw_step clk ex_connected [] [] ex_order_header"
    unfolding ex_order_header_def
  proof (rule header)
    fix bs assume "Some (MsgHeader_image \<lparr>hdr_type = MsgType_Order, hdr_length = 38\<rparr>) = Some bs"
    then show "length bs = sizeof_MsgHeader" using header.image_length by auto
  qed (simp_all add: ex_gateway_defs)
  ultimately show ?thesis using gw_next by fastforce
qed

lemma ex_net_order_load: "NetOrder_load (NetOrder_image ex_net_order) = ex_net_order"
  by (rule net_order.load_image) (simp add: ex_net_order_def)

lemma ex_net_order_decode: "from_net_order ex_net_order = Inr (ex_received\<lparr>client_id := 0\<rparr>)"
  by (simp add: from_net_order_def ex_net_order_def ex_received_def c_string_def Side_of_u8_def OrderType_of_u8_def)

lemma ex_net_order_accepted:
  "fst (validate_order ex_received [] (register_symbol ''AAPL'' RiskChecker_init))"
  by (simp add: validate_order_def ex_received_def register_symbol_def RiskChecker_init_def MAX_PRICE_def MAX_QUANTITY_def
      MAX_ORDER_VALUE_def)

lemma ex_order_body:
  "\<exists>g. on_body clk 0 (Some (NetOrder_image ex_net_order)) ex_order_header = Inr (Returns g) \<and> queued_tasks g = [ex_received_task]"
proof -
  let ?g1 = "set_session 0 ((the_session ex_order_header 0)\<lparr>incoming_body := NetOrder_image ex_net_order, reading := Not_reading\<rparr>) ex_order_header"
  have len: "length (NetOrder_image ex_net_order) = 38"
    using net_order.image_length [of ex_net_order] by (simp add: ex_net_order_def sizeof_NetOrder_def)
  have s: "length (g_sessions ex_order_header) = 1" "sess_client_id (the_session ex_order_header 0) = 1"
    "hdr_type (incoming_header (the_session ex_order_header 0)) = MsgType_Order"
    "reading (the_session ex_order_header 0) = Reading_body 38" "g_risk ex_order_header = register_symbol ''AAPL'' RiskChecker_init"
    "queued_tasks ex_order_header = []" "g_pool ex_order_header = pool_start (ThreadPool_init 4)"
    by (simp_all add: ex_gateway_defs header.load_image queued_tasks_def pool_start_def ThreadPool_init_def SafeQueue_init_def)
  obtain reason risk where v: "validate_order ex_received [] (register_symbol ''AAPL'' RiskChecker_init) = (True, reason, risk)"
    using ex_net_order_accepted by (metis prod.exhaust_sel)
  have ord: "(ex_received\<lparr>client_id := 0\<rparr>)\<lparr>client_id := 1\<rparr> = ex_received" by (simp add: ex_received_def)
  obtain g2 where g2: "process_packet clk 0 ?g1 = Inr (Returns g2)" "queued_tasks g2 = [ex_received_task]"
  proof -
    have "process_packet clk 0 ?g1 = Inr (process_order clk 0 ex_received ?g1)"
      using s len ex_net_order_load ex_net_order_decode ord
      by (simp add: process_packet_def Let_def sizeof_NetOrder_def)
    moreover obtain g2 where "process_order clk 0 ex_received ?g1 = Returns g2" "queued_tasks g2 = [ex_received_task]"
      using s v that
      by (auto simp: process_order_def submit_task_def pool_submit_def pool_start_def ThreadPool_init_def SafeQueue_init_def
          sq_enqueue_def queued_tasks_def ex_received_task_def ex_received_def MAX_QUEUE_CAPACITY_def)
    ultimately show thesis using that by simp
  qed
  have "on_body clk 0 (Some (NetOrder_image ex_net_order)) ex_order_header = Inr (Returns (read_header 0 g2))"
    using g2(1) by (simp add: on_body_def)
  moreover have "queued_tasks (read_header 0 g2) = [ex_received_task]" using g2(2) by (simp add: read_header_def queued_tasks_def)
  ultimately show ?thesis by blast
qed

lemma ex_order_run: "\<exists>g. gw_run clk ex_gateway [ex_received_task] [] g"
proof -
  obtain g where g: "on_body clk 0 (Some (NetOrder_image ex_net_order)) ex_order_header = Inr (Returns g)" "queued_tasks g = [ex_received_task]"
    using ex_order_body by blast
  have s: "length (g_sessions ex_order_header) = 1" "reading (the_session ex_order_header 0) = Reading_body 38" "queued_tasks ex_order_header = []"
    by (simp_all add: ex_gateway_defs header.load_image queued_tasks_def pool_start_def ThreadPool_init_def SafeQueue_init_def)
  have len: "length (NetOrder_image ex_net_order) = 38"
    using net_order.image_length [of ex_net_order] by (simp add: ex_net_order_def sizeof_NetOrder_def)
  have "gw_step clk ex_order_header (drop (length (queued_tasks ex_order_header)) (queued_tasks g)) [] g"
    using s len g(1) by (intro body [where i = 0 and n = 38 and bytes = "Some (NetOrder_image ex_net_order)"]) auto
  then have "gw_step clk ex_order_header [ex_received_task] [] g" using s(3) g(2) by simp
  from gw_next [OF ex_header_run this] show ?thesis by auto
qed

section \<open>Properties\<close>

text \<open>
  C25: In every run of the gateway, whatever bytes the clients send and in whatever order completions
  arrive, the tasks that enter the pool's queue are well formed (request and type agree, the symbol
  fits the log's field, an order's quantity is all open), no two of them submit the same order id,
  and those not yet taken by a worker are the last ones that entered.
\<close>

theorem gateway_submits_valid_tasks:
  assumes "gw_run clk (Gateway_init risk tp e) hist outs g" "sq_queue (task_queue tp) = []"
  shows "(\<forall>t \<in> set hist. gateway_task t) \<and> distinct (submitted_ids hist) \<and>
    (\<exists>taken. hist = taken @ queued_tasks g)"
  using gw_run_ok [OF assms] by (simp add: run_ok_def tasks_ok_def)

lemma ex_gateway_init:
  "ex_gateway = Gateway_init (register_symbol ''AAPL'' RiskChecker_init) (pool_start (ThreadPool_init 4)) Env_init"
  "sq_queue (task_queue (pool_start (ThreadPool_init 4))) = []"
  by (simp_all add: ex_gateway_def pool_start_def ThreadPool_init_def SafeQueue_init_def)

theorem gateway_submits_valid_tasks_witness: "gateway_task ex_received_task"
proof -
  obtain g where "gw_run (\<lambda>_. 0) ex_gateway [ex_received_task] [] g" using ex_order_run by blast
  from gateway_submits_valid_tasks [OF this [unfolded ex_gateway_init(1)] ex_gateway_init(2)] show ?thesis by simp
qed

lemma length_report_frame:
  "length (nr_symbol net) = 8 \<Longrightarrow> length (nr_reject_reason net) = 32 \<Longrightarrow> length (report_frame net r) = 90"
  by (simp add: report_frame_def header.image_length [simplified] to_net_report_def length_safe_strncpy net_report.image_length
      sizeof_MsgHeader_def sizeof_NetExecutionReport_def)

lemma gw_run_frames: "gw_run clk g0 hist outs g \<Longrightarrow> (i, f) \<in> set outs \<Longrightarrow> length f = 90"
proof (induction rule: gw_run.induct)
  case (gw_next hist outs g ts os g')
  have "(i, f) \<in> set os \<Longrightarrow> length f = 90"
    using gw_next.hyps(2) by (cases rule: gw_step.cases) (auto simp: length_report_frame)
  then show ?case using gw_next by auto
qed simp

text \<open>
  What a client receives: at any moment the bytes sent on a connection followed by the queued frames
  are exactly the frames of the reports handed to its session, each of 90 bytes, in order; no
  two writes overlap, the frame being written is the first queued one, and an open session with queued
  frames is always writing.
\<close>

theorem gateway_output_stream:
  assumes "gw_run clk (Gateway_init risk tp e) hist outs g" "sq_queue (task_queue tp) = []" "i < length (g_sessions g)"
  shows "sent_bytes (the_session g i) @ concat (write_queue (the_session g i)) = concat (frames_of i outs) \<and>
    (\<forall>f \<in> set (frames_of i outs). length f = 90) \<and>
    (writing (the_session g i) \<noteq> None \<longrightarrow> writing (the_session g i) = Some (hd (write_queue (the_session g i)))) \<and>
    (active (the_session g i) \<longrightarrow> write_queue (the_session g i) \<noteq> [] \<longrightarrow> writing (the_session g i) \<noteq> None)"
proof -
  have "session_ok (the_session g i) (frames_of i outs)"
    using gw_run_ok [OF assms(1,2)] session_okD assms(3) by (auto simp: run_ok_def)
  moreover have "\<forall>f \<in> set (frames_of i outs). length f = 90"
    using gw_run_frames [OF assms(1)] by (auto simp: frames_of_def)
  ultimately show ?thesis by (auto simp: session_ok_def)
qed

theorem gateway_output_stream_witness: "sent_bytes (the_session ex_order_header 0) = []"
proof -
  have "0 < length (g_sessions ex_order_header)" by (simp add: ex_gateway_defs)
  from gateway_output_stream [OF ex_header_run [unfolded ex_gateway_init(1)] ex_gateway_init(2) this] show ?thesis by simp
qed

text \<open>
  Reports reach the right client: whenever the connection manager returns a session for a
  client id, that session exists, has that id and is still active.
\<close>

theorem connection_manager_routes:
  assumes "gw_run clk (Gateway_init risk tp e) hist outs g" "sq_queue (task_queue tp) = []"
    "get_session cid (g_cm g) = Some i"
  shows "i < length (g_sessions g) \<and> sess_client_id (the_session g i) = cid \<and> active (the_session g i)"
  using gw_run_ok [OF assms(1,2)] assms(3) by (simp add: run_ok_def sessions_ok_def)

theorem connection_manager_routes_witness: "active (the_session ex_order_header 0)"
proof -
  have "get_session 1 (g_cm ex_order_header) = Some 0" by (simp add: ex_gateway_defs cm_defs)
  from connection_manager_routes [OF ex_header_run [unfolded ex_gateway_init(1)] ex_gateway_init(2) this] show ?thesis by simp
qed

text \<open>The first rule an order breaks, and the report its sender gets, every field written out.\<close>

definition refusal_reason :: "RiskChecker \<Rightarrow> Order \<Rightarrow> string" where
  "refusal_reason rc order =
     (if symbol order \<notin> allowed_symbols rc then ''Invalid Symbol''
      else if unat (price order) = 0 \<or> 99999999 < unat (price order) then ''Invalid Price Bounds''
      else if unat (quantity order) = 0 \<or> 10000000 < unat (quantity order) then ''Invalid Quantity Bounds''
      else if order_id order \<in> seen_order_ids rc then ''Duplicate Order ID''
      else if 500000000 < unat (price order) * unat (quantity order) then ''Order Value Exceeds Limit''
      else [])"

definition refusal_to :: "uint32_t \<Rightarrow> Order \<Rightarrow> string \<Rightarrow> Timestamp \<Rightarrow> ExecutionReport" where
  "refusal_to cid order reason now =
     \<lparr>rep_order_id = order_id order, rep_symbol = symbol order, rep_side = side order, rep_status = Rejected, rep_price = 0,
      rep_quantity = 0, rep_remaining_quantity = 0, rep_last_qty = 0, rep_last_px = 0, rep_timestamp = now,
      rep_reject_reason = reason, rep_client_id = cid\<rparr>"

lemma reject_report_refusal: "reject_report order reason now cid = refusal_to cid order reason now"
  by (simp add: reject_report_def refusal_to_def ExecutionReport_init_def)

lemma validate_order_result:
  "validate_order order [] rc =
     (acceptable rc order, refusal_reason rc order,
      if acceptable rc order then rc\<lparr>seen_order_ids := insert (order_id order) (seen_order_ids rc)\<rparr> else rc)"
  using validate_order_iff [of order "[]" rc] validate_order_reason [of order "[]" rc] validate_order_state [of order "[]" rc]
  by (intro prod_eqI) (auto simp: refusal_reason_def)

text \<open>Whether the pool takes tasks, and whether its queue is full.\<close>

definition pool_open :: "ThreadPool \<Rightarrow> bool" where
  "pool_open tp \<longleftrightarrow> \<not> pool_stop tp \<and> \<not> shutdown (task_queue tp)"

definition pool_full :: "ThreadPool \<Rightarrow> bool" where
  "pool_full tp \<longleftrightarrow> max_capacity (task_queue tp) \<le> length (sq_queue (task_queue tp))"

lemma submit_task_result:
  "submit_task task g =
     (if \<not> pool_open (g_pool g) then Returns g
      else if pool_full (g_pool g) then Waits
      else Returns (g\<lparr>g_pool := (g_pool g)\<lparr>task_queue := (task_queue (g_pool g))\<lparr>sq_queue := queued_tasks g @ [task]\<rparr>\<rparr>\<rparr>))"
  by (simp add: submit_task_def pool_submit_def sq_enqueue_def pool_open_def pool_full_def queued_tasks_def)

text \<open>
  C26: The gateway handles the body of an order packet like this.  An order that breaks one of the five rules of the risk checker
  gets its sender exactly one report, \<open>Rejected\<close> with the reason of the first rule broken, and changes neither the risk checker nor the pool.
  An order that keeps them is remembered by its id and becomes exactly one submit task at the end of the pool's queue, with the client id of
  the session; on a full queue the handler waits, and on a stopped pool the order is dropped without a report, its id remembered all the same.
\<close>

theorem order_packet_checked:
  assumes "i < length (g_sessions g)" "hdr_type (incoming_header (the_session g i)) = MsgType_Order"
    "length bytes = sizeof_NetOrder" "from_net_order (NetOrder_load bytes) = Inr order"
  shows "case on_body clk i (Some bytes) g of
      Inl ub \<Rightarrow> False
    | Inr Waits \<Rightarrow> acceptable (g_risk g) order \<and> pool_open (g_pool g) \<and> pool_full (g_pool g)
    | Inr (Returns g') \<Rightarrow>
        if \<not> acceptable (g_risk g) order
        then g_risk g' = g_risk g \<and> g_pool g' = g_pool g \<and>
          posted g' = posted g @ [(i, refusal_to (sess_client_id (the_session g i)) order (refusal_reason (g_risk g) order) (clk (clock_reads (g_env g))))]
        else posted g' = posted g \<and>
          g_risk g' = (g_risk g)\<lparr>seen_order_ids := insert (order_id order) (seen_order_ids (g_risk g))\<rparr> \<and>
          (if pool_open (g_pool g)
           then \<not> pool_full (g_pool g) \<and> queued_tasks g' = queued_tasks g @
             [\<lparr>task_type = Task_Submit, request = Req_Order (order\<lparr>client_id := sess_client_id (the_session g i)\<rparr>), task_symbol = symbol order\<rparr>]
           else g_pool g' = g_pool g)"
proof -
  let ?o = "order\<lparr>client_id := sess_client_id (the_session g i)\<rparr>"
  have same: "acceptable (g_risk g) ?o = acceptable (g_risk g) order" "refusal_reason (g_risk g) ?o = refusal_reason (g_risk g) order"
    "\<And>c reason now. refusal_to c ?o reason now = refusal_to c order reason now"
    by (simp_all add: acceptable_def refusal_reason_def refusal_to_def)
  have keeps: "g_risk (read_header i h) = g_risk h" "g_pool (read_header i h) = g_pool h" "posted (read_header i h) = posted h" for h
    by (simp_all add: read_header_def Let_def)
  show ?thesis using assms
    by (auto simp: on_body_def process_packet_def process_order_def validate_order_result same submit_task_result get_current_time_ns_def
        send_execution_report_def reject_report_refusal keeps queued_tasks_def Let_def split: if_splits)
qed

theorem order_packet_checked_witness:
  "\<exists>g. on_body (\<lambda>_. 0) 0 (Some (NetOrder_image ex_net_order)) ex_order_header = Inr (Returns g) \<and> queued_tasks g = [ex_received_task] \<and>
     order_id ex_received \<in> seen_order_ids (g_risk g)"
proof -
  have s: "0 < length (g_sessions ex_order_header)" "hdr_type (incoming_header (the_session ex_order_header 0)) = MsgType_Order"
    "sess_client_id (the_session ex_order_header 0) = 1" "g_risk ex_order_header = register_symbol ''AAPL'' RiskChecker_init"
    by (simp_all add: ex_gateway_defs header.load_image)
  have len: "length (NetOrder_image ex_net_order) = sizeof_NetOrder"
    using net_order.image_length [of ex_net_order] by (simp add: ex_net_order_def)
  have dec: "from_net_order (NetOrder_load (NetOrder_image ex_net_order)) = Inr (ex_received\<lparr>client_id := 0\<rparr>)"
    by (simp add: ex_net_order_load ex_net_order_decode)
  obtain g where g: "on_body (\<lambda>_. 0) 0 (Some (NetOrder_image ex_net_order)) ex_order_header = Inr (Returns g)" "queued_tasks g = [ex_received_task]"
    using ex_order_body by blast
  have "acceptable (g_risk ex_order_header) (ex_received\<lparr>client_id := 0\<rparr>)"
    by (simp add: s(4) acceptable_def register_symbol_def RiskChecker_init_def ex_received_def ex_net_order_def)
  with order_packet_checked [OF s(1,2) len dec, of "\<lambda>_. 0"] g show ?thesis by simp
qed

text \<open>
  C29: Modify requests are not risk checked: a modify packet becomes a task for any price and any
  quantity, zero and values above the limits included, and the risk checker is not consulted.
\<close>

theorem modify_bypasses_risk_checker:
  assumes "hdr_type (incoming_header (the_session g i)) = MsgType_Modify"
    "length (incoming_body (the_session g i)) = sizeof_NetModify"
    "from_net_modify (NetModify_load (incoming_body (the_session g i))) = Inr req"
    "\<not> pool_stop (g_pool g)" "\<not> shutdown (task_queue (g_pool g))"
    "length (queued_tasks g) < max_capacity (task_queue (g_pool g))"
  shows "\<exists>g'. process_packet clk i g = Inr (Returns g') \<and> g_risk g' = g_risk g \<and>
    queued_tasks g' = queued_tasks g @ [\<lparr>task_type = Task_Modify,
      request = Req_Modify (req\<lparr>mreq_client_id := sess_client_id (the_session g i)\<rparr>), task_symbol = mreq_symbol req\<rparr>]"
  using assms
  by (simp add: process_packet_def Let_def submit_task_def pool_submit_def sq_enqueue_def queued_tasks_def
      MsgType_Order_def MsgType_Cancel_def MsgType_Modify_def)

definition ex_net_modify :: NetModify where
  "ex_net_modify = \<lparr>nm_order_id = 7, nm_symbol = ''AAPL'' @ replicate 4 NUL, nm_price = 0, nm_quantity = 0, nm_timestamp = 5\<rparr>"

theorem modify_bypasses_risk_checker_witness:
  "\<exists>g'. process_packet (\<lambda>_. 0) 0 (set_session 0 ((the_session ex_connected 0)\<lparr>incoming_header := \<lparr>hdr_type = MsgType_Modify, hdr_length = 36\<rparr>,
       incoming_body := NetModify_image ex_net_modify\<rparr>) ex_connected) = Inr (Returns g') \<and> length (queued_tasks g') = 1"
proof -
  let ?g = "set_session 0 ((the_session ex_connected 0)\<lparr>incoming_header := \<lparr>hdr_type = MsgType_Modify, hdr_length = 36\<rparr>,
       incoming_body := NetModify_image ex_net_modify\<rparr>) ex_connected"
  have wf: "length (nm_symbol ex_net_modify) = 8" by (simp add: ex_net_modify_def)
  have s: "0 < length (g_sessions ex_connected)" "\<not> pool_stop (g_pool ?g)" "\<not> shutdown (task_queue (g_pool ?g))"
    "queued_tasks ?g = []" "length (queued_tasks ?g) < max_capacity (task_queue (g_pool ?g))"
    by (simp_all add: ex_gateway_defs queued_tasks_def pool_start_def ThreadPool_init_def SafeQueue_init_def MAX_QUEUE_CAPACITY_def)
  obtain req where req: "from_net_modify ex_net_modify = Inr req"
    by (simp add: from_net_modify_def ex_net_modify_def c_string_def)
  have "hdr_type (incoming_header (the_session ?g 0)) = MsgType_Modify" "length (incoming_body (the_session ?g 0)) = sizeof_NetModify"
    "from_net_modify (NetModify_load (incoming_body (the_session ?g 0))) = Inr req"
    using s(1) wf req by (simp_all add: net_modify.image_length net_modify.load_image)
  from modify_bypasses_risk_checker [OF this s(2,3,5), of "\<lambda>_. 0"] s(4) show ?thesis by auto
qed

end
