(* ===== verification/Asio_Buffers.thy ===== *)
theory Asio_Buffers
  imports Wire
begin

text \<open>
  \<^verbatim>\<open>asio/buffer.hpp\<close>: a buffer is an address and a size, a buffer sequence a list of
  buffers.  \<open>addrs\<close> is the list of the addresses a sequence covers, in order; the operations on
  buffers are described by what they do to it.  Memory is a function from addresses to bytes and a
  \<^verbatim>\<open>size_t\<close> a natural number: every sum the code forms is at most the total size of one
  sequence, and every difference is guarded.
\<close>

section \<open>Buffers\<close>

record buffer =
  buf_data :: nat
  buf_size :: nat

type_synonym memory = "nat \<Rightarrow> byte"

definition buffer_plus :: "buffer \<Rightarrow> nat \<Rightarrow> buffer" where
  "buffer_plus b n =
     (let offset = (if n < buf_size b then n else buf_size b)
      in \<lparr>buf_data = buf_data b + offset, buf_size = buf_size b - offset\<rparr>)"

definition buffer_limit :: "buffer \<Rightarrow> nat \<Rightarrow> buffer" where
  "buffer_limit b max_size_in_bytes =
     \<lparr>buf_data = buf_data b, buf_size = (if buf_size b < max_size_in_bytes then buf_size b else max_size_in_bytes)\<rparr>"

fun buffer_size_from :: "nat \<Rightarrow> buffer list \<Rightarrow> nat" where
  "buffer_size_from total_buffer_size [] = total_buffer_size"
| "buffer_size_from total_buffer_size (b # bs) = buffer_size_from (total_buffer_size + buf_size b) bs"

definition buffer_size :: "buffer list \<Rightarrow> nat" where
  "buffer_size bs = buffer_size_from 0 bs"

definition range_of :: "buffer \<Rightarrow> nat list" where
  "range_of b = [buf_data b ..< buf_data b + buf_size b]"

definition addrs :: "buffer list \<Rightarrow> nat list" where
  "addrs bs = concat (map range_of bs)"

definition bytes_of :: "memory \<Rightarrow> buffer list \<Rightarrow> byte list" where
  "bytes_of mem bs = map mem (addrs bs)"

lemma length_range_of [simp]: "length (range_of b) = buf_size b"
  by (simp add: range_of_def)

lemma range_of_plus [simp]: "range_of (buffer_plus b n) = drop n (range_of b)"
  by (auto simp: range_of_def buffer_plus_def Let_def)

lemma range_of_limit [simp]: "range_of (buffer_limit b n) = take n (range_of b)"
  by (auto simp: range_of_def buffer_limit_def min_def)

lemma size_plus [simp]: "buf_size (buffer_plus b n) = buf_size b - n"
  by (auto simp: buffer_plus_def Let_def)

lemma size_limit [simp]: "buf_size (buffer_limit b n) = min (buf_size b) n"
  by (auto simp: buffer_limit_def)

lemma data_limit [simp]: "buf_data (buffer_limit b n) = buf_data b"
  by (simp add: buffer_limit_def)

lemma range_of_empty [simp]: "range_of b = [] \<longleftrightarrow> buf_size b = 0"
  by (auto simp: range_of_def)

lemma addrs_simps [simp]:
  "addrs [] = []" "addrs (b # bs) = range_of b @ addrs bs" "addrs (bs @ cs) = addrs bs @ addrs cs"
  by (simp_all add: addrs_def)

lemma buffer_size_from_addrs: "buffer_size_from n bs = n + length (addrs bs)"
  by (induction bs arbitrary: n) auto

lemma buffer_size_addrs [simp]: "buffer_size bs = length (addrs bs)"
  by (simp add: buffer_size_def buffer_size_from_addrs)

section \<open>Copying\<close>

definition memcpy :: "nat \<Rightarrow> nat \<Rightarrow> nat \<Rightarrow> memory \<Rightarrow> memory" where
  "memcpy target source n mem =
     (\<lambda>a. if target \<le> a \<and> a < target + n then mem (source + (a - target)) else mem a)"

definition buffer_copy_1 :: "buffer \<Rightarrow> buffer \<Rightarrow> memory \<Rightarrow> nat \<times> memory" where
  "buffer_copy_1 target source mem =
     (let target_size = buf_size target;
          source_size = buf_size source;
          n = (if target_size < source_size then target_size else source_size)
      in (n, if n > 0 then memcpy (buf_data target) (buf_data source) n mem else mem))"

lemma buffer_copy_1_result:
  assumes "buffer_copy_1 t s mem = (n, mem')"
  shows "n = min (buf_size t) (buf_size s)"
  using assms by (auto simp: buffer_copy_1_def Let_def split: if_splits)

text \<open>The limit is \<open>None\<close> for the forms of \<^verbatim>\<open>buffer_copy\<close> that have no \<^verbatim>\<open>max_bytes_to_copy\<close>.\<close>

definition limited :: "nat option \<Rightarrow> nat \<Rightarrow> buffer \<Rightarrow> buffer" where
  "limited max_bytes_to_copy done b =
     (case max_bytes_to_copy of None \<Rightarrow> b | Some m \<Rightarrow> buffer_limit b (m - done))"

definition buffer_copy_one_one :: "buffer \<Rightarrow> buffer \<Rightarrow> nat option \<Rightarrow> memory \<Rightarrow> nat \<times> memory" where
  "buffer_copy_one_one target source max_bytes_to_copy mem =
     buffer_copy_1 target (limited max_bytes_to_copy 0 source) mem"

fun gather_loop :: "buffer \<Rightarrow> buffer list \<Rightarrow> nat \<Rightarrow> memory \<Rightarrow> nat \<times> memory" where
  "gather_loop target_buffer [] total_bytes_copied mem = (total_bytes_copied, mem)"
| "gather_loop target_buffer (source_buffer # sources) total_bytes_copied mem =
     (if buf_size target_buffer = 0 then (total_bytes_copied, mem)
      else let (bytes_copied, mem') = buffer_copy_1 target_buffer source_buffer mem
           in gather_loop (buffer_plus target_buffer bytes_copied) sources (total_bytes_copied + bytes_copied) mem')"

definition buffer_copy_one_many :: "buffer \<Rightarrow> buffer list \<Rightarrow> nat option \<Rightarrow> memory \<Rightarrow> nat \<times> memory" where
  "buffer_copy_one_many target sources max_bytes_to_copy mem =
     gather_loop (limited max_bytes_to_copy 0 target) sources 0 mem"

fun scatter_loop :: "buffer list \<Rightarrow> buffer \<Rightarrow> nat \<Rightarrow> memory \<Rightarrow> nat \<times> memory" where
  "scatter_loop [] source_buffer total_bytes_copied mem = (total_bytes_copied, mem)"
| "scatter_loop (target_buffer # targets) source_buffer total_bytes_copied mem =
     (if buf_size source_buffer = 0 then (total_bytes_copied, mem)
      else let (bytes_copied, mem') = buffer_copy_1 target_buffer source_buffer mem
           in scatter_loop targets (buffer_plus source_buffer bytes_copied) (total_bytes_copied + bytes_copied) mem')"

definition buffer_copy_many_one :: "buffer list \<Rightarrow> buffer \<Rightarrow> nat option \<Rightarrow> memory \<Rightarrow> nat \<times> memory" where
  "buffer_copy_many_one targets source max_bytes_to_copy mem =
     scatter_loop targets (limited max_bytes_to_copy 0 source) 0 mem"

text \<open>
  The loop of the forms with many targets and many sources: the heads of the lists are what the
  iterators point to.  Each round finishes a target or a source, or reaches the limit, which the
  total never exceeds.
\<close>

definition below_limit :: "nat option \<Rightarrow> nat \<Rightarrow> bool" where
  "below_limit max_bytes_to_copy done = (case max_bytes_to_copy of None \<Rightarrow> True | Some m \<Rightarrow> done < m)"

lemma copy_round:
  assumes "below_limit m tot" and "n = min a (buf_size (limited m tot s))"
  shows "n = a \<or> n = buf_size s \<or> (0 < n \<and> (\<exists>k. m = Some k \<and> tot + n = k))"
  using assms by (auto simp: below_limit_def limited_def min_def split: option.splits if_splits)

function copy_loop ::
  "nat option \<Rightarrow> buffer list \<Rightarrow> nat \<Rightarrow> buffer list \<Rightarrow> nat \<Rightarrow> nat \<Rightarrow> memory \<Rightarrow> nat \<times> memory" where
  "copy_loop max_bytes_to_copy (t # ts) target_buffer_offset (s # ss) source_buffer_offset total_bytes_copied mem =
     (if below_limit max_bytes_to_copy total_bytes_copied then
        let target_buffer = buffer_plus t target_buffer_offset;
            source_buffer = buffer_plus s source_buffer_offset;
            (bytes_copied, mem') =
              buffer_copy_1 target_buffer (limited max_bytes_to_copy total_bytes_copied source_buffer) mem;
            (targets, toff) =
              (if bytes_copied = buf_size target_buffer then (ts, 0) else (t # ts, target_buffer_offset + bytes_copied));
            (sources, soff) =
              (if bytes_copied = buf_size source_buffer then (ss, 0) else (s # ss, source_buffer_offset + bytes_copied))
        in copy_loop max_bytes_to_copy targets toff sources soff (total_bytes_copied + bytes_copied) mem'
      else (total_bytes_copied, mem))"
| "copy_loop max_bytes_to_copy [] target_buffer_offset sources source_buffer_offset total_bytes_copied mem =
     (total_bytes_copied, mem)"
| "copy_loop max_bytes_to_copy (t # ts) target_buffer_offset [] source_buffer_offset total_bytes_copied mem =
     (total_bytes_copied, mem)"
  by pat_completeness auto

termination
proof (relation "measure (\<lambda>(m, ts, _, ss, _, tot, _). length ts + length ss + (case m of None \<Rightarrow> 0 | Some k \<Rightarrow> k - tot))",
    goal_cases)
  case 1
  show ?case by simp
next
  case (2 m t ts toff s ss soff tot mem tb sb cp n mem' tp targets toff' sp sources soff')
  have n: "n = min (buf_size tb) (buf_size (limited m tot sb))"
    using 2 buffer_copy_1_result by metis
  show ?case
    using copy_round [OF 2(1) n] 2 by (auto split: option.splits if_splits)
qed

definition buffer_copy_many_many :: "buffer list \<Rightarrow> buffer list \<Rightarrow> nat option \<Rightarrow> memory \<Rightarrow> nat \<times> memory" where
  "buffer_copy_many_many targets sources max_bytes_to_copy mem =
     copy_loop max_bytes_to_copy targets 0 sources 0 0 mem"

section \<open>What a copy does\<close>

definition copied :: "memory \<Rightarrow> memory \<Rightarrow> nat list \<Rightarrow> nat list \<Rightarrow> bool" where
  "copied mem mem' ts ss \<longleftrightarrow> map mem' ts = map mem ss \<and> (\<forall>a. a \<notin> set ts \<longrightarrow> mem' a = mem a)"

definition apart :: "nat list \<Rightarrow> nat list \<Rightarrow> bool" where
  "apart ts ss \<longleftrightarrow> distinct ts \<and> set ts \<inter> set ss = {}"

lemma apart_append [simp]:
  "apart (ts @ ts') ss \<longleftrightarrow> apart ts ss \<and> apart ts' ss \<and> set ts \<inter> set ts' = {}"
  "apart ts (ss @ ss') \<longleftrightarrow> apart ts ss \<and> apart ts ss'"
  by (auto simp: apart_def)

lemma apart_take_drop: "apart ts ss \<Longrightarrow> apart (take n ts) (take n ss)" "apart ts ss \<Longrightarrow> apart (drop n ts) (drop k ss)"
  by (auto simp: apart_def dest: in_set_takeD in_set_dropD)

lemma copied_Nil [simp]: "copied mem mem [] []"
  by (simp add: copied_def)

lemma copied_append:
  assumes "copied mem mem1 t1 s1" and "copied mem1 mem2 t2 s2" and "apart (t1 @ t2) (s1 @ s2)"
  shows "copied mem mem2 (t1 @ t2) (s1 @ s2)"
proof -
  have "map mem2 t1 = map mem1 t1"
    using assms(2,3) by (auto simp: copied_def apart_def)
  moreover have "map mem1 s2 = map mem s2"
    using assms(1,3) by (auto simp: copied_def apart_def)
  ultimately show ?thesis using assms by (simp add: copied_def del: map_eq_conv)
qed

lemma range_take_memcpy: "n \<le> buf_size b \<Longrightarrow> take n (range_of b) = [buf_data b ..< buf_data b + n]"
  by (simp add: range_of_def)

lemma memcpy_copied: "copied mem (memcpy t s n mem) [t ..< t + n] [s ..< s + n]"
  by (auto simp: copied_def memcpy_def intro!: nth_equalityI)

lemma buffer_copy_1_copied:
  assumes "buffer_copy_1 t s mem = (n, mem')"
  shows "copied mem mem' (take n (range_of t)) (take n (range_of s))"
  using assms memcpy_copied [of mem "buf_data t" "buf_data s" n]
  by (auto simp: buffer_copy_1_def Let_def range_take_memcpy range_of_def split: if_splits)

text \<open>One round of a loop: \<open>n\<close> bytes are copied, and the rest of the loop copies \<open>m\<close> more.\<close>

lemma copied_round:
  assumes "copied mem mem1 (take n ts) (take n ss)" and "copied mem1 mem2 (take m (drop n ts)) (take m (drop n ss))"
    and "apart ts ss"
  shows "copied mem mem2 (take (n + m) ts) (take (n + m) ss)"
proof -
  have "apart (take (n + m) ts) (take (n + m) ss)" using assms(3) by (rule apart_take_drop)
  then show ?thesis using copied_append [OF assms(1,2)] by (simp add: take_add)
qed

lemma gather_loop_copied:
  assumes "gather_loop t ss tot mem = (r, mem')" and "apart (range_of t) (addrs ss)"
  shows "\<exists>n. n = min (buf_size t) (length (addrs ss)) \<and> r = tot + n \<and>
           copied mem mem' (take n (range_of t)) (take n (addrs ss))"
  using assms
proof (induction t ss tot mem rule: gather_loop.induct)
  case (2 t s ss tot mem)
  obtain n mem1 where c: "buffer_copy_1 t s mem = (n, mem1)" by fastforce
  note n = buffer_copy_1_result [OF c]
  show ?case
  proof (cases "buf_size t = 0")
    case True
    then show ?thesis using 2 by (auto simp: range_of_def)
  next
    case False
    have ap: "apart (range_of (buffer_plus t n)) (addrs ss)"
      using 2(3) apart_take_drop(2) [of "range_of t" "addrs ss" n 0] by simp
    have "gather_loop (buffer_plus t n) ss (tot + n) mem1 = (r, mem')"
      using 2(2) False c by simp
    then obtain m where m: "m = min (buf_size t - n) (length (addrs ss))" "r = tot + n + m"
        "copied mem1 mem' (take m (drop n (range_of t))) (take m (addrs ss))"
      using 2(1) [OF False c [symmetric]] ap by auto
    have d: "n < buf_size s \<Longrightarrow> m = 0" using n m(1) by (auto simp: min_def split: if_splits)
    have "copied mem1 mem' (take m (drop n (range_of t))) (take m (drop n (addrs (s # ss))))"
      using m(3) d n by (cases "n < buf_size s") (auto simp: min_def split: if_splits)
    moreover have "copied mem mem1 (take n (range_of t)) (take n (addrs (s # ss)))"
      using buffer_copy_1_copied [OF c] n by simp
    ultimately have "copied mem mem' (take (n + m) (range_of t)) (take (n + m) (addrs (s # ss)))"
      using copied_round 2(3) by blast
    moreover have "n + m = min (buf_size t) (length (addrs (s # ss)))" using n m(1) by auto
    ultimately show ?thesis using m(2) by (metis add.assoc)
  qed
qed simp

lemma scatter_loop_copied:
  assumes "scatter_loop ts s tot mem = (r, mem')" and "apart (addrs ts) (range_of s)"
  shows "\<exists>n. n = min (length (addrs ts)) (buf_size s) \<and> r = tot + n \<and>
           copied mem mem' (take n (addrs ts)) (take n (range_of s))"
  using assms
proof (induction ts s tot mem rule: scatter_loop.induct)
  case (2 t ts s tot mem)
  obtain n mem1 where c: "buffer_copy_1 t s mem = (n, mem1)" by fastforce
  note n = buffer_copy_1_result [OF c]
  show ?case
  proof (cases "buf_size s = 0")
    case True
    then show ?thesis using 2 by (auto simp: range_of_def)
  next
    case False
    have ap: "apart (addrs ts) (range_of (buffer_plus s n))"
      using 2(3) apart_take_drop(2) [of "addrs ts" "range_of s" 0 n] by simp
    have "scatter_loop ts (buffer_plus s n) (tot + n) mem1 = (r, mem')"
      using 2(2) False c by simp
    then obtain m where m: "m = min (length (addrs ts)) (buf_size s - n)" "r = tot + n + m"
        "copied mem1 mem' (take m (addrs ts)) (take m (drop n (range_of s)))"
      using 2(1) [OF False c [symmetric]] ap by auto
    have d: "n < buf_size t \<Longrightarrow> m = 0" using n m(1) by (auto simp: min_def split: if_splits)
    have "copied mem1 mem' (take m (drop n (addrs (t # ts)))) (take m (drop n (range_of s)))"
      using m(3) d n by (cases "n < buf_size t") (auto simp: min_def split: if_splits)
    moreover have "copied mem mem1 (take n (addrs (t # ts))) (take n (range_of s))"
      using buffer_copy_1_copied [OF c] n by simp
    ultimately have "copied mem mem' (take (n + m) (addrs (t # ts))) (take (n + m) (range_of s))"
      using copied_round 2(3) by blast
    moreover have "n + m = min (length (addrs (t # ts))) (buf_size s)" using n m(1) by auto
    ultimately show ?thesis using m(2) by (metis add.assoc)
  qed
qed simp

definition within :: "nat option \<Rightarrow> nat \<Rightarrow> nat" where
  "within limit n = (case limit of None \<Rightarrow> n | Some m \<Rightarrow> min m n)"

definition remaining :: "nat option \<Rightarrow> nat \<Rightarrow> nat option" where
  "remaining limit tot = map_option (\<lambda>m. m - tot) limit"

lemma limited_remaining: "range_of (limited limit tot b) = take (within (remaining limit tot) (buf_size b)) (range_of b)"
  "buf_size (limited limit tot b) = within (remaining limit tot) (buf_size b)"
  by (auto simp: limited_def within_def remaining_def min_def split: option.splits)

definition offset_ok :: "nat \<Rightarrow> buffer list \<Rightarrow> bool" where
  "offset_ok off bs \<longleftrightarrow> (case bs of [] \<Rightarrow> off = 0 | b # _ \<Rightarrow> off \<le> buf_size b)"

text \<open>The part of a sequence that is left after an iterator and an offset were moved by \<open>n\<close>.\<close>

lemma moved_iterator:
  assumes "offset_ok off (b # bs)" and "n \<le> buf_size b - off"
    and "(bs', off') = (if n = buf_size (buffer_plus b off) then (bs, 0) else (b # bs, off + n))"
  shows "offset_ok off' bs'" and "drop off' (addrs bs') = drop n (drop off (addrs (b # bs)))"
  using assms by (auto simp: offset_ok_def add.commute split: if_splits list.splits)

lemma within_step:
  "n \<le> a \<Longrightarrow> n \<le> b \<Longrightarrow> n \<le> within (remaining limit tot) n \<Longrightarrow>
   n + within (remaining limit (tot + n)) (min (a - n) (b - n)) = within (remaining limit tot) (min a b)"
  by (cases limit) (auto simp: within_def remaining_def min_def split: if_splits)

lemma within_0 [simp]: "within limit 0 = 0"
  by (simp add: within_def split: option.splits)

lemma within_fixed: "n = min a (within r b) \<Longrightarrow> n \<le> within r n"
  by (auto simp: within_def split: option.splits)

lemma copy_loop_copied:
  assumes "copy_loop limit ts toff ss soff tot mem = (r, mem')"
    and "offset_ok toff ts" and "offset_ok soff ss"
    and "apart (drop toff (addrs ts)) (drop soff (addrs ss))"
  shows "\<exists>n. n = within (remaining limit tot) (min (length (addrs ts) - toff) (length (addrs ss) - soff)) \<and> r = tot + n \<and>
           copied mem mem' (take n (drop toff (addrs ts))) (take n (drop soff (addrs ss)))"
  using assms
proof (induction limit ts toff ss soff tot mem rule: copy_loop.induct)
  case (1 limit t ts toff s ss soff tot mem)
  show ?case
  proof (cases "below_limit limit tot")
    case False
    then have "within (remaining limit tot) k = 0" for k
      by (auto simp: below_limit_def within_def remaining_def split: option.splits)
    then show ?thesis using 1(2) False by auto
  next
    case True
    let ?T = "drop toff (addrs (t # ts))" and ?S = "drop soff (addrs (s # ss))"
    let ?tb = "buffer_plus t toff" and ?sb = "buffer_plus s soff"
    obtain n mem1 where c: "buffer_copy_1 ?tb (limited limit tot ?sb) mem = (n, mem1)" by fastforce
    obtain ts' toff' where t': "(ts', toff') = (if n = buf_size ?tb then (ts, 0) else (t # ts, toff + n))"
      by (metis surj_pair)
    obtain ss' soff' where s': "(ss', soff') = (if n = buf_size ?sb then (ss, 0) else (s # ss, soff + n))"
      by (metis surj_pair)
    have n: "n = min (buf_size t - toff) (within (remaining limit tot) (buf_size s - soff))"
      using buffer_copy_1_result [OF c] by (simp add: limited_remaining)
    have nle: "n \<le> buf_size t - toff" "n \<le> buf_size s - soff"
      using n by (auto simp: within_def split: option.splits)
    note tm = moved_iterator [OF 1(3) nle(1) t'] and sm = moved_iterator [OF 1(4) nle(2) s']
    have "copy_loop limit ts' toff' ss' soff' (tot + n) mem1 = (r, mem')"
      using 1(2) True c t' [symmetric] s' [symmetric] by simp
    moreover have "apart (drop toff' (addrs ts')) (drop soff' (addrs ss'))"
      using 1(5) unfolding tm(2) sm(2) by (rule apart_take_drop)
    moreover note 1(1) [OF True refl refl c [symmetric] refl t' refl s' refl]
    ultimately have ex: "\<exists>m. m = within (remaining limit (tot + n)) (min (length (addrs ts') - toff') (length (addrs ss') - soff')) \<and>
        r = tot + n + m \<and> copied mem1 mem' (take m (drop toff' (addrs ts'))) (take m (drop soff' (addrs ss')))"
      using tm(1) sm(1) by blast
    have len: "length (addrs ts') - toff' = length ?T - n" "length (addrs ss') - soff' = length ?S - n"
      using arg_cong [OF tm(2), of length] arg_cong [OF sm(2), of length] by (simp_all only: length_drop)
    obtain m where m: "m = within (remaining limit (tot + n)) (min (length ?T - n) (length ?S - n))"
        "r = tot + n + m" "copied mem1 mem' (take m (drop n ?T)) (take m (drop n ?S))"
      using ex unfolding tm(2) sm(2) len by blast
    have "copied mem mem1 (take n ?T) (take n ?S)"
    proof -
      have "n \<le> within (remaining limit tot) (buf_size s - soff)" using n by simp
      then show ?thesis using buffer_copy_1_copied [OF c] nle by (simp add: limited_remaining min_absorb1)
    qed
    then have "copied mem mem' (take (n + m) ?T) (take (n + m) ?S)"
      using copied_round m(3) 1(5) by blast
    moreover have "n + m = within (remaining limit tot) (min (length ?T) (length ?S))"
      unfolding m(1) using nle within_fixed [OF n] by (intro within_step) auto
    ultimately show ?thesis using m(2) by (metis add.assoc length_drop)
  qed
qed simp_all

lemma remaining_0 [simp]: "remaining limit 0 = limit"
  by (simp add: remaining_def option.map_ident)

lemma within_min: "min (within limit a) b = within limit (min a b)" "min a (within limit b) = within limit (min a b)"
  by (auto simp: within_def split: option.splits)

lemma within_le: "within limit a \<le> a"
  by (auto simp: within_def split: option.splits)

lemma within_mono: "a \<le> b \<Longrightarrow> within limit a \<le> within limit b"
  by (auto simp: within_def split: option.splits)

lemma many_many_copies:
  assumes "apart (addrs targets) (addrs sources)"
    and "n = within limit (min (length (addrs targets)) (length (addrs sources)))"
  shows "\<exists>mem'. buffer_copy_many_many targets sources limit mem = (n, mem') \<and>
           copied mem mem' (take n (addrs targets)) (take n (addrs sources))"
proof -
  obtain r mem' where c: "buffer_copy_many_many targets sources limit mem = (r, mem')" by fastforce
  have "offset_ok 0 bs" for bs by (simp add: offset_ok_def split: list.splits)
  then show ?thesis
    using copy_loop_copied [OF c [unfolded buffer_copy_many_many_def]] assms c by simp
qed

lemma one_many_copies:
  assumes "apart (range_of t) (addrs sources)"
    and "n = within limit (min (buf_size t) (length (addrs sources)))"
  shows "\<exists>mem'. buffer_copy_one_many t sources limit mem = (n, mem') \<and>
           copied mem mem' (take n (range_of t)) (take n (addrs sources))"
proof -
  obtain r mem' where c: "buffer_copy_one_many t sources limit mem = (r, mem')" by fastforce
  let ?k = "within limit (buf_size t)"
  have "apart (take ?k (range_of t)) (addrs sources)"
    using assms(1) by (auto simp: apart_def dest: in_set_takeD)
  then have "r = n" "copied mem mem' (take n (take ?k (range_of t))) (take n (addrs sources))"
    using gather_loop_copied [OF c [unfolded buffer_copy_one_many_def]] assms(2)
    by (simp_all add: limited_remaining within_min)
  moreover have "n \<le> ?k" using assms(2) by (simp add: within_mono)
  ultimately show ?thesis using c by (simp add: min_absorb1)
qed

lemma many_one_copies:
  assumes "apart (addrs targets) (range_of s)"
    and "n = within limit (min (length (addrs targets)) (buf_size s))"
  shows "\<exists>mem'. buffer_copy_many_one targets s limit mem = (n, mem') \<and>
           copied mem mem' (take n (addrs targets)) (take n (range_of s))"
proof -
  obtain r mem' where c: "buffer_copy_many_one targets s limit mem = (r, mem')" by fastforce
  let ?k = "within limit (buf_size s)"
  have "apart (addrs targets) (take ?k (range_of s))"
    using assms(1) by (auto simp: apart_def dest: in_set_takeD)
  then have "r = n" "copied mem mem' (take n (addrs targets)) (take n (take ?k (range_of s)))"
    using scatter_loop_copied [OF c [unfolded buffer_copy_many_one_def]] assms(2)
    by (simp_all add: limited_remaining within_min)
  moreover have "n \<le> ?k" using assms(2) by (simp add: within_mono)
  ultimately show ?thesis using c by (simp add: min_absorb1)
qed

lemma one_one_copies:
  assumes "n = within limit (min (buf_size t) (buf_size s))"
  shows "\<exists>mem'. buffer_copy_one_one t s limit mem = (n, mem') \<and>
           copied mem mem' (take n (range_of t)) (take n (range_of s))"
proof -
  obtain r mem' where c: "buffer_copy_one_one t s limit mem = (r, mem')" by fastforce
  note b = c [unfolded buffer_copy_one_one_def]
  have "r = n" using buffer_copy_1_result [OF b] assms by (simp add: limited_remaining within_min)
  moreover have "n \<le> within limit (buf_size s)" using assms by (simp add: within_mono)
  ultimately show ?thesis
    using buffer_copy_1_copied [OF b] c by (simp add: limited_remaining min_absorb1)
qed

end
