(* ===== verification/Consuming_Buffers.thy ===== *)
theory Consuming_Buffers
  imports Asio_Buffers
begin

text \<open>
  \<^verbatim>\<open>asio/detail/consuming_buffers.hpp\<close>: the cursor that the composed operations move over a
  buffer sequence.  The class template has one implementation for general sequences and
  specialisations for one buffer and for an array of two; the locale \<open>consuming\<close> states what
  the composed operations rely on, and each implementation is shown to provide it.
\<close>

section \<open>General sequences\<close>

record consuming_buffers =
  cb_buffers :: "buffer list"
  cb_total_size :: nat
  cb_total_consumed :: nat
  cb_next_elem :: nat
  cb_next_elem_offset :: nat

definition consuming_buffers_init :: "buffer list \<Rightarrow> consuming_buffers" where
  "consuming_buffers_init buffers =
     \<lparr>cb_buffers = buffers, cb_total_size = buffer_size buffers, cb_total_consumed = 0, cb_next_elem = 0,
      cb_next_elem_offset = 0\<rparr>"

definition cb_empty :: "consuming_buffers \<Rightarrow> bool" where
  "cb_empty cb \<longleftrightarrow> cb_total_consumed cb \<ge> cb_total_size cb"

text \<open>
  \<open>prepared_max\<close> is \<^verbatim>\<open>prepared_buffers::max_buffers\<close> for a sequence type whose
  \<^verbatim>\<open>prepared_buffers_max\<close> is \<open>n\<close>; the result of \<^verbatim>\<open>prepare\<close> is the filled part of
  \<^verbatim>\<open>elems\<close>.
\<close>

definition prepared_max :: "nat \<Rightarrow> nat" where
  "prepared_max n = (if n < 16 then n else 16)"

fun prepare_loop :: "nat \<Rightarrow> buffer list \<Rightarrow> nat \<Rightarrow> nat \<Rightarrow> buffer list \<Rightarrow> buffer list" where
  "prepare_loop max_buffers [] elem_offset max_size result = result"
| "prepare_loop max_buffers (b # next) elem_offset max_size result =
     (if max_size > 0 \<and> length result < max_buffers then
        let elem = buffer_limit (buffer_plus b elem_offset) max_size
        in prepare_loop max_buffers next 0 (max_size - buf_size elem)
             (if buf_size elem > 0 then result @ [elem] else result)
      else result)"

definition cb_prepare :: "nat \<Rightarrow> consuming_buffers \<Rightarrow> nat \<Rightarrow> buffer list" where
  "cb_prepare n cb max_size =
     prepare_loop (prepared_max n) (drop (cb_next_elem cb) (cb_buffers cb)) (cb_next_elem_offset cb) max_size []"

fun consume_loop :: "buffer list \<Rightarrow> nat \<Rightarrow> nat \<Rightarrow> nat \<Rightarrow> nat \<times> nat" where
  "consume_loop [] next_elem next_elem_offset n = (next_elem, next_elem_offset)"
| "consume_loop (b # next) next_elem next_elem_offset n =
     (if n > 0 then
        let next_buf = buffer_plus b next_elem_offset
        in if n < buf_size next_buf then (next_elem, next_elem_offset + n)
           else consume_loop next (Suc next_elem) 0 (n - buf_size next_buf)
      else (next_elem, next_elem_offset))"

definition cb_consume :: "consuming_buffers \<Rightarrow> nat \<Rightarrow> consuming_buffers" where
  "cb_consume cb n =
     (let cb' = cb\<lparr>cb_total_consumed := cb_total_consumed cb + n\<rparr>;
          (next_elem, next_elem_offset) =
            consume_loop (drop (cb_next_elem cb') (cb_buffers cb')) (cb_next_elem cb') (cb_next_elem_offset cb') n
      in cb'\<lparr>cb_next_elem := next_elem, cb_next_elem_offset := next_elem_offset\<rparr>)"

section \<open>A single buffer\<close>

record consuming_single_buffer =
  sb_buffer :: buffer
  sb_total_consumed :: nat

definition consuming_single_buffer_init :: "buffer \<Rightarrow> consuming_single_buffer" where
  "consuming_single_buffer_init b = \<lparr>sb_buffer = b, sb_total_consumed = 0\<rparr>"

definition sb_empty :: "consuming_single_buffer \<Rightarrow> bool" where
  "sb_empty sb \<longleftrightarrow> sb_total_consumed sb \<ge> buf_size (sb_buffer sb)"

definition sb_prepare :: "consuming_single_buffer \<Rightarrow> nat \<Rightarrow> buffer list" where
  "sb_prepare sb max_size = [buffer_limit (buffer_plus (sb_buffer sb) (sb_total_consumed sb)) max_size]"

definition sb_consume :: "consuming_single_buffer \<Rightarrow> nat \<Rightarrow> consuming_single_buffer" where
  "sb_consume sb n = sb\<lparr>sb_total_consumed := sb_total_consumed sb + n\<rparr>"

section \<open>An array of two buffers\<close>

record consuming_array2 =
  ab_buffer0 :: buffer
  ab_buffer1 :: buffer
  ab_total_consumed :: nat

definition consuming_array2_init :: "buffer \<Rightarrow> buffer \<Rightarrow> consuming_array2" where
  "consuming_array2_init b0 b1 = \<lparr>ab_buffer0 = b0, ab_buffer1 = b1, ab_total_consumed = 0\<rparr>"

definition ab_empty :: "consuming_array2 \<Rightarrow> bool" where
  "ab_empty ab \<longleftrightarrow> ab_total_consumed ab \<ge> buf_size (ab_buffer0 ab) + buf_size (ab_buffer1 ab)"

definition ab_prepare :: "consuming_array2 \<Rightarrow> nat \<Rightarrow> buffer list" where
  "ab_prepare ab max_size =
     (let buffer0_size = buf_size (ab_buffer0 ab);
          result0 = buffer_limit (buffer_plus (ab_buffer0 ab) (ab_total_consumed ab)) max_size;
          result1 = buffer_limit (buffer_plus (ab_buffer1 ab)
            (if ab_total_consumed ab < buffer0_size then 0 else ab_total_consumed ab - buffer0_size))
            (max_size - buf_size result0)
      in [result0, result1])"

definition ab_consume :: "consuming_array2 \<Rightarrow> nat \<Rightarrow> consuming_array2" where
  "ab_consume ab n = ab\<lparr>ab_total_consumed := ab_total_consumed ab + n\<rparr>"

section \<open>What the composed operations rely on\<close>

text \<open>
  \<open>seq\<close> is the whole sequence and \<open>total\<close> the number of bytes consumed.  What
  \<open>prepare\<close> returns is the next part of the sequence, at most \<open>m\<close> bytes of it but not empty
  while there is some; \<open>consume\<close> may be called with at most the size of what was prepared.
\<close>

locale consuming =
  fixes seq :: "'c \<Rightarrow> buffer list" and ok :: "'c \<Rightarrow> bool" and is_empty :: "'c \<Rightarrow> bool"
    and prepare :: "'c \<Rightarrow> nat \<Rightarrow> buffer list" and consume :: "'c \<Rightarrow> nat \<Rightarrow> 'c" and total :: "'c \<Rightarrow> nat"
  assumes total_le: "ok c \<Longrightarrow> total c \<le> length (addrs (seq c))"
    and is_empty: "ok c \<Longrightarrow> is_empty c \<longleftrightarrow> total c = length (addrs (seq c))"
    and prepare: "ok c \<Longrightarrow> \<exists>k\<le>m. addrs (prepare c m) = take k (drop (total c) (addrs (seq c))) \<and>
                    (0 < m \<longrightarrow> \<not> is_empty c \<longrightarrow> 0 < k)"
    and consume: "ok c \<Longrightarrow> n \<le> length (addrs (prepare c m)) \<Longrightarrow>
                    ok (consume c n) \<and> total (consume c n) = total c + n \<and> seq (consume c n) = seq c"
begin

lemma prepared:
  assumes "ok c"
  shows "addrs (prepare c m) = take (length (addrs (prepare c m))) (drop (total c) (addrs (seq c)))"
    and "length (addrs (prepare c m)) \<le> m"
    and "0 < m \<Longrightarrow> \<not> is_empty c \<Longrightarrow> 0 < length (addrs (prepare c m))"
proof -
  obtain k where k: "k \<le> m" "addrs (prepare c m) = take k (drop (total c) (addrs (seq c)))"
      "0 < m \<Longrightarrow> \<not> is_empty c \<Longrightarrow> 0 < k"
    using prepare [OF assms, of m] by blast
  show "addrs (prepare c m) = take (length (addrs (prepare c m))) (drop (total c) (addrs (seq c)))"
    unfolding k(2) by (simp add: min_def)
  show "length (addrs (prepare c m)) \<le> m" using k(1,2) by simp
  show "0 < length (addrs (prepare c m))" if "0 < m" "\<not> is_empty c"
    using k(2) k(3) [OF that] that(2) assms total_le [of c] by (simp add: is_empty)
qed

end

section \<open>Each implementation provides it\<close>

lemma prepare_loop_addrs:
  assumes "offset_ok off bs"
  shows "\<exists>k\<le>m. addrs (prepare_loop M bs off m res) = addrs res @ take k (drop off (addrs bs)) \<and>
           (0 < m \<longrightarrow> length res < M \<longrightarrow> drop off (addrs bs) \<noteq> [] \<longrightarrow> 0 < k)"
  using assms
proof (induction M bs off m res rule: prepare_loop.induct)
  case (2 M b bs off m res)
  let ?e = "buffer_limit (buffer_plus b off) m"
  let ?res = "if buf_size ?e > 0 then res @ [?e] else res"
  have res: "addrs ?res = addrs res @ take m (drop off (range_of b))"
    using range_of_empty [of ?e] by auto
  have ok: "offset_ok 0 bs" by (simp add: offset_ok_def split: list.splits)
  have off: "off \<le> buf_size b" using 2(2) by (simp add: offset_ok_def)
  show ?case
  proof (cases "m > 0 \<and> length res < M")
    case True
    from 2(1) [OF True refl ok] obtain k where k: "k \<le> m - buf_size ?e"
        "addrs (prepare_loop M bs 0 (m - buf_size ?e) ?res) = addrs ?res @ take k (addrs bs)"
        "0 < m - buf_size ?e \<Longrightarrow> length ?res < M \<Longrightarrow> addrs bs \<noteq> [] \<Longrightarrow> 0 < k"
      by auto
    have "k + buf_size ?e \<le> m" using k(1) by auto
    moreover have "take (k + buf_size ?e) (drop off (addrs (b # bs))) = take m (drop off (range_of b)) @ take k (addrs bs)"
      using off k(1) by (auto simp: min_def split: if_splits)
    moreover have "drop off (addrs (b # bs)) \<noteq> [] \<Longrightarrow> 0 < k + buf_size ?e"
      using k(3) True off by (cases "buf_size b = off") auto
    ultimately show ?thesis
      using True k(2) res by (auto simp: Let_def intro!: exI [of _ "k + buf_size ?e"])
  qed auto
qed auto

lemma consume_loop_moves:
  assumes "offset_ok off bs" and "n \<le> length (drop off (addrs bs))" and "consume_loop bs i off n = (i', off')"
  shows "i \<le> i' \<and> offset_ok off' (drop (i' - i) bs) \<and>
         drop off' (addrs (drop (i' - i) bs)) = drop n (drop off (addrs bs))"
  using assms
proof (induction bs i off n rule: consume_loop.induct)
  case (2 b bs i off n)
  have ok: "offset_ok 0 bs" by (simp add: offset_ok_def split: list.splits)
  have off: "off \<le> buf_size b" using 2(2) by (simp add: offset_ok_def)
  consider "n = 0" | "0 < n" "n < buf_size b - off" | "0 < n" "buf_size b - off \<le> n" by linarith
  then show ?case
  proof cases
    case 3
    have "Suc i \<le> i' \<and> offset_ok off' (drop (i' - Suc i) bs) \<and>
        drop off' (addrs (drop (i' - Suc i) bs)) = drop (n - (buf_size b - off)) (drop 0 (addrs bs))"
      using 2(1) [OF 3(1) refl] 2(3,4) 3 ok off by (auto simp: Let_def)
    then show ?thesis using 3 off by (auto simp: drop_Cons' Suc_diff_le)
  qed (use 2 off in \<open>auto simp: Let_def offset_ok_def add.commute\<close>)
qed auto

definition cb_ok :: "consuming_buffers \<Rightarrow> bool" where
  "cb_ok cb \<longleftrightarrow> cb_total_size cb = length (addrs (cb_buffers cb)) \<and>
     cb_total_consumed cb \<le> cb_total_size cb \<and>
     offset_ok (cb_next_elem_offset cb) (drop (cb_next_elem cb) (cb_buffers cb)) \<and>
     drop (cb_next_elem_offset cb) (addrs (drop (cb_next_elem cb) (cb_buffers cb))) =
       drop (cb_total_consumed cb) (addrs (cb_buffers cb))"

lemma cb_consume_ok:
  assumes "cb_ok cb" and "n \<le> cb_total_size cb - cb_total_consumed cb"
  shows "cb_ok (cb_consume cb n) \<and> cb_total_consumed (cb_consume cb n) = cb_total_consumed cb + n \<and>
         cb_buffers (cb_consume cb n) = cb_buffers cb"
proof -
  let ?bs = "drop (cb_next_elem cb) (cb_buffers cb)"
  obtain i off where c: "consume_loop ?bs (cb_next_elem cb) (cb_next_elem_offset cb) n = (i, off)" by fastforce
  have rest: "drop (cb_next_elem_offset cb) (addrs ?bs) = drop (cb_total_consumed cb) (addrs (cb_buffers cb))"
    using assms(1) by (simp add: cb_ok_def)
  have "cb_next_elem cb \<le> i \<and> offset_ok off (drop (i - cb_next_elem cb) ?bs) \<and>
      drop off (addrs (drop (i - cb_next_elem cb) ?bs)) = drop n (drop (cb_next_elem_offset cb) (addrs ?bs))"
    using assms rest by (intro consume_loop_moves [OF _ _ c]) (simp_all add: cb_ok_def)
  then have "cb_next_elem cb \<le> i" "offset_ok off (drop i (cb_buffers cb))"
      "drop off (addrs (drop i (cb_buffers cb))) = drop (n + cb_total_consumed cb) (addrs (cb_buffers cb))"
    unfolding rest by auto
  then show ?thesis using assms c by (auto simp: cb_ok_def cb_consume_def add.commute)
qed

interpretation general: consuming cb_buffers cb_ok cb_empty "cb_prepare (Suc n)" cb_consume cb_total_consumed
  for n
proof unfold_locales
  fix c m
  assume ok: "cb_ok c"
  show "cb_total_consumed c \<le> length (addrs (cb_buffers c))" using ok by (simp add: cb_ok_def)
  show "cb_empty c \<longleftrightarrow> cb_total_consumed c = length (addrs (cb_buffers c))"
    using ok by (auto simp: cb_ok_def cb_empty_def)
  show "\<exists>k\<le>m. addrs (cb_prepare (Suc n) c m) = take k (drop (cb_total_consumed c) (addrs (cb_buffers c))) \<and>
      (0 < m \<longrightarrow> \<not> cb_empty c \<longrightarrow> 0 < k)"
    using prepare_loop_addrs [of "cb_next_elem_offset c" "drop (cb_next_elem c) (cb_buffers c)" m "prepared_max (Suc n)" "[]"] ok
    by (auto simp: cb_ok_def cb_prepare_def cb_empty_def prepared_max_def)
next
  fix c k m
  assume ok: "cb_ok c" and k: "k \<le> length (addrs (cb_prepare (Suc n) c m))"
  obtain j where "addrs (cb_prepare (Suc n) c m) = take j (drop (cb_total_consumed c) (addrs (cb_buffers c)))"
    using prepare_loop_addrs [of "cb_next_elem_offset c" "drop (cb_next_elem c) (cb_buffers c)" m "prepared_max (Suc n)" "[]"] ok
    by (auto simp: cb_ok_def cb_prepare_def)
  then have "k \<le> cb_total_size c - cb_total_consumed c" using k ok by (simp add: cb_ok_def)
  then show "cb_ok (cb_consume c k) \<and> cb_total_consumed (cb_consume c k) = cb_total_consumed c + k \<and>
      cb_buffers (cb_consume c k) = cb_buffers c"
    by (rule cb_consume_ok [OF ok])
qed

definition sb_ok :: "consuming_single_buffer \<Rightarrow> bool" where
  "sb_ok sb \<longleftrightarrow> sb_total_consumed sb \<le> buf_size (sb_buffer sb)"

interpretation single: consuming "\<lambda>sb. [sb_buffer sb]" sb_ok sb_empty sb_prepare sb_consume sb_total_consumed
proof unfold_locales
  fix c m
  assume ok: "sb_ok c"
  show "\<exists>k\<le>m. addrs (sb_prepare c m) = take k (drop (sb_total_consumed c) (addrs [sb_buffer c])) \<and>
      (0 < m \<longrightarrow> \<not> sb_empty c \<longrightarrow> 0 < k)"
    by (rule exI [of _ m]) (simp add: sb_prepare_def)
qed (auto simp: sb_ok_def sb_empty_def sb_prepare_def sb_consume_def)

definition ab_seq :: "consuming_array2 \<Rightarrow> buffer list" where
  "ab_seq ab = [ab_buffer0 ab, ab_buffer1 ab]"

definition ab_ok :: "consuming_array2 \<Rightarrow> bool" where
  "ab_ok ab \<longleftrightarrow> ab_total_consumed ab \<le> buf_size (ab_buffer0 ab) + buf_size (ab_buffer1 ab)"

interpretation array2: consuming ab_seq ab_ok ab_empty ab_prepare ab_consume ab_total_consumed
proof unfold_locales
  fix c m
  assume ok: "ab_ok c"
  show "\<exists>k\<le>m. addrs (ab_prepare c m) = take k (drop (ab_total_consumed c) (addrs (ab_seq c))) \<and>
      (0 < m \<longrightarrow> \<not> ab_empty c \<longrightarrow> 0 < k)"
    by (rule exI [of _ m]) (auto simp: ab_prepare_def ab_seq_def Let_def min_def)
qed (auto simp: ab_ok_def ab_empty_def ab_prepare_def ab_consume_def ab_seq_def Let_def min_def split: if_splits)

lemma consuming_init_ok [simp]:
  "cb_ok (consuming_buffers_init bs)" "sb_ok (consuming_single_buffer_init b)" "ab_ok (consuming_array2_init b0 b1)"
  "cb_buffers (consuming_buffers_init bs) = bs" "sb_buffer (consuming_single_buffer_init b) = b"
  "ab_seq (consuming_array2_init b0 b1) = [b0, b1]"
  "cb_total_consumed (consuming_buffers_init bs) = 0" "sb_total_consumed (consuming_single_buffer_init b) = 0"
  "ab_total_consumed (consuming_array2_init b0 b1) = 0"
  by (simp_all add: cb_ok_def sb_ok_def ab_ok_def ab_seq_def consuming_buffers_init_def
      consuming_single_buffer_init_def consuming_array2_init_def offset_ok_def split: list.splits)

end
