(* ===== verification/Composed_Io.thy ===== *)
theory Composed_Io
  imports Consuming_Buffers
begin

text \<open>
  \<^verbatim>\<open>asio/completion_condition.hpp\<close>, \<^verbatim>\<open>asio/impl/write.hpp\<close> and
  \<^verbatim>\<open>asio/impl/read.hpp\<close>: the composed operations \<^verbatim>\<open>write\<close>, \<^verbatim>\<open>read\<close>,
  \<^verbatim>\<open>async_write\<close> and \<^verbatim>\<open>async_read\<close> on a buffer sequence, which call the stream's
  \<^verbatim>\<open>write_some\<close> and \<^verbatim>\<open>read_some\<close> until the completion condition says stop.  The
  templates are functions of the record \<open>buffers_type\<close>, which has one value for each
  implementation of \<^verbatim>\<open>consuming_buffers\<close>.  The stream itself is a parameter: a function
  for the synchronous operations, and for the asynchronous ones the list of the completions of the
  operations they start.
\<close>

section \<open>Error codes and completion conditions\<close>

datatype asio_error = Operation_aborted | Eof | Invalid_argument | Address_family_not_supported | Os_error int

type_synonym error_code = "asio_error option"

abbreviation no_error :: error_code where
  "no_error \<equiv> None"

type_synonym completion_condition = "error_code \<Rightarrow> nat \<Rightarrow> nat"

definition default_max_transfer_size :: nat where
  "default_max_transfer_size = 65536"

definition adapt_bool_result :: "bool \<Rightarrow> nat" where
  "adapt_bool_result result = (if result then 0 else default_max_transfer_size)"

definition transfer_all :: completion_condition where
  "transfer_all err n = (if err \<noteq> no_error then 0 else default_max_transfer_size)"

definition transfer_at_least :: "nat \<Rightarrow> completion_condition" where
  "transfer_at_least minimum err bytes_transferred =
     (if err \<noteq> no_error \<or> bytes_transferred \<ge> minimum then 0 else default_max_transfer_size)"

definition transfer_exactly :: "nat \<Rightarrow> completion_condition" where
  "transfer_exactly sz err bytes_transferred =
     (if err \<noteq> no_error \<or> bytes_transferred \<ge> sz then 0
      else if sz - bytes_transferred < default_max_transfer_size then sz - bytes_transferred
      else default_max_transfer_size)"

section \<open>The implementations of the cursor\<close>

record 'c buffers_type =
  op_empty :: "'c \<Rightarrow> bool"
  op_prepare :: "'c \<Rightarrow> nat \<Rightarrow> buffer list"
  op_consume :: "'c \<Rightarrow> nat \<Rightarrow> 'c"
  op_total :: "'c \<Rightarrow> nat"

definition general_ops :: "nat \<Rightarrow> consuming_buffers buffers_type" where
  "general_ops n = \<lparr>op_empty = cb_empty, op_prepare = cb_prepare n, op_consume = cb_consume, op_total = cb_total_consumed\<rparr>"

definition single_ops :: "consuming_single_buffer buffers_type" where
  "single_ops = \<lparr>op_empty = sb_empty, op_prepare = sb_prepare, op_consume = sb_consume, op_total = sb_total_consumed\<rparr>"

definition array2_ops :: "consuming_array2 buffers_type" where
  "array2_ops = \<lparr>op_empty = ab_empty, op_prepare = ab_prepare, op_consume = ab_consume, op_total = ab_total_consumed\<rparr>"

section \<open>Synchronous operations\<close>

text \<open>
  \<open>some\<close> is the stream's \<^verbatim>\<open>write_some\<close> or \<^verbatim>\<open>read_some\<close>: given the prepared buffers
  it returns the number of bytes transferred and the error code.  The loops have no bound of their
  own: on a stream that transfers nothing and reports no error they do not return.
\<close>

partial_function (option) write_loop ::
  "'c buffers_type \<Rightarrow> completion_condition \<Rightarrow> ('s \<Rightarrow> buffer list \<Rightarrow> nat \<times> error_code \<times> 's) \<Rightarrow>
   's \<Rightarrow> 'c \<Rightarrow> error_code \<Rightarrow> (nat \<times> error_code \<times> 's) option" where
  "write_loop B completion_condition write_some s tmp ec =
     (if op_empty B tmp then Some (op_total B tmp, ec, s)
      else let max_size = completion_condition ec (op_total B tmp)
           in if max_size \<noteq> 0 then
                case write_some s (op_prepare B tmp max_size) of
                  (n, ec', s') \<Rightarrow> write_loop B completion_condition write_some s' (op_consume B tmp n) ec'
              else Some (op_total B tmp, ec, s))"

definition write_sync ::
  "'c buffers_type \<Rightarrow> completion_condition \<Rightarrow> ('s \<Rightarrow> buffer list \<Rightarrow> nat \<times> error_code \<times> 's) \<Rightarrow>
   's \<Rightarrow> 'c \<Rightarrow> (nat \<times> error_code \<times> 's) option" where
  "write_sync B completion_condition write_some s buffers =
     write_loop B completion_condition write_some s buffers no_error"

partial_function (option) read_loop ::
  "'c buffers_type \<Rightarrow> completion_condition \<Rightarrow> ('s \<Rightarrow> buffer list \<Rightarrow> nat \<times> error_code \<times> 's) \<Rightarrow>
   's \<Rightarrow> 'c \<Rightarrow> error_code \<Rightarrow> (nat \<times> error_code \<times> 's) option" where
  "read_loop B completion_condition read_some s tmp ec =
     (if op_empty B tmp then Some (op_total B tmp, ec, s)
      else let max_size = completion_condition ec (op_total B tmp)
           in if max_size \<noteq> 0 then
                case read_some s (op_prepare B tmp max_size) of
                  (n, ec', s') \<Rightarrow> read_loop B completion_condition read_some s' (op_consume B tmp n) ec'
              else Some (op_total B tmp, ec, s))"

definition read_buffer_seq ::
  "'c buffers_type \<Rightarrow> completion_condition \<Rightarrow> ('s \<Rightarrow> buffer list \<Rightarrow> nat \<times> error_code \<times> 's) \<Rightarrow>
   's \<Rightarrow> 'c \<Rightarrow> (nat \<times> error_code \<times> 's) option" where
  "read_buffer_seq B completion_condition read_some s buffers =
     read_loop B completion_condition read_some s buffers no_error"

text \<open>The forms without an error code throw a \<^verbatim>\<open>system_error\<close>.\<close>

definition throw_error :: "nat \<times> error_code \<times> 's \<Rightarrow> asio_error + nat \<times> 's" where
  "throw_error r = (case r of (n, ec, s) \<Rightarrow> case ec of None \<Rightarrow> Inr (n, s) | Some e \<Rightarrow> Inl e)"

definition write_or_throw ::
  "'c buffers_type \<Rightarrow> completion_condition \<Rightarrow> ('s \<Rightarrow> buffer list \<Rightarrow> nat \<times> error_code \<times> 's) \<Rightarrow>
   's \<Rightarrow> 'c \<Rightarrow> (asio_error + nat \<times> 's) option" where
  "write_or_throw B completion_condition write_some s buffers =
     map_option throw_error (write_sync B completion_condition write_some s buffers)"

definition read_or_throw ::
  "'c buffers_type \<Rightarrow> completion_condition \<Rightarrow> ('s \<Rightarrow> buffer list \<Rightarrow> nat \<times> error_code \<times> 's) \<Rightarrow>
   's \<Rightarrow> 'c \<Rightarrow> (asio_error + nat \<times> 's) option" where
  "read_or_throw B completion_condition read_some s buffers =
     map_option throw_error (read_buffer_seq B completion_condition read_some s buffers)"

section \<open>Asynchronous operations\<close>

text \<open>
  A call of the operation's function object either starts the stream's \<^verbatim>\<open>async_write_some\<close> on
  the prepared buffers (and the object, with its cursor, waits for that to complete) or calls the
  handler.  \<open>cancelled\<close> says whether the cancellation slot of the handler has been signalled.
\<close>

datatype 'c io_action = Start_some "buffer list" 'c | Handler error_code nat

definition write_op_start :: "'c buffers_type \<Rightarrow> completion_condition \<Rightarrow> 'c \<Rightarrow> 'c io_action" where
  "write_op_start B completion_condition buffers =
     (let max_size = completion_condition no_error (op_total B buffers)
      in Start_some (op_prepare B buffers max_size) buffers)"

definition write_op ::
  "'c buffers_type \<Rightarrow> completion_condition \<Rightarrow> bool \<Rightarrow> 'c \<Rightarrow> error_code \<Rightarrow> nat \<Rightarrow> 'c io_action" where
  "write_op B completion_condition cancelled buffers ec bytes_transferred =
     (let buffers = op_consume B buffers bytes_transferred
      in if (ec = no_error \<and> bytes_transferred = 0) \<or> op_empty B buffers then Handler ec (op_total B buffers)
         else let max_size = completion_condition ec (op_total B buffers)
              in if max_size = 0 then Handler ec (op_total B buffers)
                 else if cancelled then Handler (Some Operation_aborted) (op_total B buffers)
                 else Start_some (op_prepare B buffers max_size) buffers)"

definition read_op_start :: "'c buffers_type \<Rightarrow> completion_condition \<Rightarrow> 'c \<Rightarrow> 'c io_action" where
  "read_op_start B completion_condition buffers =
     (let max_size = completion_condition no_error (op_total B buffers)
      in Start_some (op_prepare B buffers max_size) buffers)"

definition read_op ::
  "'c buffers_type \<Rightarrow> completion_condition \<Rightarrow> bool \<Rightarrow> 'c \<Rightarrow> error_code \<Rightarrow> nat \<Rightarrow> 'c io_action" where
  "read_op B completion_condition cancelled buffers ec bytes_transferred =
     (let buffers = op_consume B buffers bytes_transferred
      in if (ec = no_error \<and> bytes_transferred = 0) \<or> op_empty B buffers then Handler ec (op_total B buffers)
         else let max_size = completion_condition ec (op_total B buffers)
              in if max_size = 0 then Handler ec (op_total B buffers)
                 else if cancelled then Handler (Some Operation_aborted) (op_total B buffers)
                 else Start_some (op_prepare B buffers max_size) buffers)"

lemma read_op_write_op: "read_op = write_op" "read_op_start = write_op_start"
  by (simp_all add: fun_eq_iff read_op_def write_op_def read_op_start_def write_op_start_def)

text \<open>
  A run of the asynchronous write: a completion says with which error code the socket completed,
  how many bytes it had room for (it takes no more than the prepared buffers hold), and whether the
  operation was cancelled meanwhile.  The result is what went onto the wire and, once the handler
  has been called, its arguments.
\<close>

record completion =
  cmp_ec :: error_code
  cmp_room :: nat
  cmp_cancelled :: bool

fun write_run ::
  "'c buffers_type \<Rightarrow> completion_condition \<Rightarrow> memory \<Rightarrow> 'c io_action \<Rightarrow> completion list \<Rightarrow>
   byte list \<times> (error_code \<times> nat) option" where
  "write_run B cond mem (Handler ec n) cs = ([], Some (ec, n))"
| "write_run B cond mem (Start_some bufs tmp) [] = ([], None)"
| "write_run B cond mem (Start_some bufs tmp) (c # cs) =
     (let n = min (cmp_room c) (buffer_size bufs);
          (sent, result) = write_run B cond mem (write_op B cond (cmp_cancelled c) tmp (cmp_ec c) n) cs
      in (take n (bytes_of mem bufs) @ sent, result))"

definition async_write ::
  "'c buffers_type \<Rightarrow> completion_condition \<Rightarrow> memory \<Rightarrow> 'c \<Rightarrow> completion list \<Rightarrow>
   byte list \<times> (error_code \<times> nat) option" where
  "async_write B cond mem buffers cs = write_run B cond mem (write_op_start B cond buffers) cs"

text \<open>
  A run of the asynchronous read: a completion carries the bytes that had arrived, of which the
  socket stores as many as fit into the prepared buffers.  The result is the memory, the bytes
  received and the arguments of the handler.
\<close>

record arrival =
  arr_ec :: error_code
  arr_bytes :: "byte list"
  arr_cancelled :: bool

fun store_bytes :: "nat list \<Rightarrow> byte list \<Rightarrow> memory \<Rightarrow> memory" where
  "store_bytes (a # as) (b # bs) mem = store_bytes as bs (mem(a := b))"
| "store_bytes _ _ mem = mem"

fun read_run ::
  "'c buffers_type \<Rightarrow> completion_condition \<Rightarrow> memory \<Rightarrow> 'c io_action \<Rightarrow> arrival list \<Rightarrow>
   memory \<times> byte list \<times> (error_code \<times> nat) option" where
  "read_run B cond mem (Handler ec n) cs = (mem, [], Some (ec, n))"
| "read_run B cond mem (Start_some bufs tmp) [] = (mem, [], None)"
| "read_run B cond mem (Start_some bufs tmp) (c # cs) =
     (let got = take (buffer_size bufs) (arr_bytes c);
          (mem', received, result) =
            read_run B cond (store_bytes (addrs bufs) got mem)
              (read_op B cond (arr_cancelled c) tmp (arr_ec c) (length got)) cs
      in (mem', got @ received, result))"

definition async_read ::
  "'c buffers_type \<Rightarrow> completion_condition \<Rightarrow> memory \<Rightarrow> 'c \<Rightarrow> arrival list \<Rightarrow>
   memory \<times> byte list \<times> (error_code \<times> nat) option" where
  "async_read B cond mem buffers cs = read_run B cond mem (read_op_start B cond buffers) cs"

section \<open>What the composed operations do\<close>

definition stops_on_error :: "completion_condition \<Rightarrow> bool" where
  "stops_on_error cond \<longleftrightarrow> (\<forall>e n. cond (Some e) n = 0)"

lemma conditions_stop_on_error [simp]:
  "stops_on_error transfer_all" "stops_on_error (transfer_at_least k)" "stops_on_error (transfer_exactly k)"
  by (simp_all add: stops_on_error_def transfer_all_def transfer_at_least_def transfer_exactly_def)

lemma store_bytes_spec:
  "distinct as \<Longrightarrow> length bs \<le> length as \<Longrightarrow>
   map (store_bytes as bs mem) (take (length bs) as) = bs \<and>
   (\<forall>a. a \<notin> set (take (length bs) as) \<longrightarrow> store_bytes as bs mem a = mem a)"
proof (induction as arbitrary: bs mem)
  case (Cons a as)
  show ?case
  proof (cases bs)
    case bs: (Cons b bs')
    then have "a \<notin> set (take (length bs') as)" using Cons.prems by (auto dest: in_set_takeD)
    then show ?thesis using Cons.IH [of bs' "mem(a := b)"] Cons.prems bs by (auto simp: fun_upd_def)
  qed simp
qed simp

text \<open>The control flow of a read is that of a write to a socket with room for the bytes that arrive.\<close>

definition as_completion :: "arrival \<Rightarrow> completion" where
  "as_completion a = \<lparr>cmp_ec = arr_ec a, cmp_room = length (arr_bytes a), cmp_cancelled = arr_cancelled a\<rparr>"

lemma as_completion_simps [simp]:
  "cmp_ec (as_completion a) = arr_ec a" "cmp_room (as_completion a) = length (arr_bytes a)"
  "cmp_cancelled (as_completion a) = arr_cancelled a"
  by (simp_all add: as_completion_def)

lemma read_run_as_write:
  "read_run B cond mem act cs = (mem', received, r) \<Longrightarrow>
   \<exists>sent. write_run B cond mem0 act (map as_completion cs) = (sent, r) \<and> length sent = length received"
proof (induction B cond mem act cs arbitrary: mem' received r rule: read_run.induct)
  case (3 B cond mem bufs tmp c cs)
  let ?got = "take (buffer_size bufs) (arr_bytes c)"
  obtain received1 where run: "read_run B cond (store_bytes (addrs bufs) ?got mem)
        (read_op B cond (arr_cancelled c) tmp (arr_ec c) (length ?got)) cs = (mem', received1, r)"
    and received: "received = ?got @ received1"
    using 3(2) by (auto simp: Let_def split: prod.splits)
  from 3(1) [OF refl run] obtain sent1 where
      "write_run B cond mem0 (write_op B cond (arr_cancelled c) tmp (arr_ec c) (length ?got)) (map as_completion cs) = (sent1, r)"
      "length sent1 = length received1"
    unfolding read_op_write_op by blast
  then show ?case using received by (simp add: Let_def bytes_of_def min.commute)
qed auto

locale composed_io =
  consuming seq ok "op_empty B" "op_prepare B" "op_consume B" "op_total B"
  for seq :: "'c \<Rightarrow> buffer list" and ok :: "'c \<Rightarrow> bool" and B :: "'c buffers_type"
begin

abbreviation whole :: "'c \<Rightarrow> nat list" where
  "whole c \<equiv> addrs (seq c)"

lemma write_op_cases:
  assumes "ok c" and "n \<le> length (addrs (op_prepare B c m))"
  obtains
    (finish) ec' where "write_op B cond cancelled c ec n = Handler ec' (op_total B c + n)"
      "ec' = no_error \<Longrightarrow> ec = no_error \<and>
         (n = 0 \<or> op_total B c + n = length (whole c) \<or> cond no_error (op_total B c + n) = 0)"
  | (continue) c' where
      "write_op B cond cancelled c ec n = Start_some (op_prepare B c' (cond ec (op_total B c'))) c'"
      "ok c'" "op_total B c' = op_total B c + n" "seq c' = seq c" "op_total B c' < length (whole c)"
      "cond ec (op_total B c') \<noteq> 0" "ec = no_error \<Longrightarrow> 0 < n"
proof -
  let ?c = "op_consume B c n"
  have c': "ok ?c" "op_total B ?c = op_total B c + n" "seq ?c = seq c"
    using consume [OF assms] by simp_all
  consider (f) "(ec = no_error \<and> n = 0) \<or> op_empty B ?c \<or> cond ec (op_total B ?c) = 0 \<or> cancelled"
    | (g) "\<not> (ec = no_error \<and> n = 0)" "\<not> op_empty B ?c" "cond ec (op_total B ?c) \<noteq> 0" "\<not> cancelled"
    by blast
  then show thesis
  proof cases
    case f
    then show ?thesis
      using c' is_empty [OF c'(1)]
      by (intro finish [of "if (ec = no_error \<and> n = 0) \<or> op_empty B ?c \<or> cond ec (op_total B ?c) = 0
              then ec else Some Operation_aborted"])
        (auto simp: write_op_def Let_def split: if_splits)
  next
    case g
    then show ?thesis
      using c' is_empty [OF c'(1)] total_le [OF c'(1)]
      by (intro continue [of ?c]) (auto simp: write_op_def Let_def)
  qed
qed

text \<open>Whatever the socket does, what is on the wire is the beginning of the data, as long as reported.\<close>

lemma write_run_prefix:
  assumes "ok c" and "write_run B cond mem (Start_some (op_prepare B c m) c) cs = (sent, r)"
  shows "op_total B c + length sent \<le> length (whole c) \<and>
    sent = take (length sent) (drop (op_total B c) (bytes_of mem (seq c))) \<and>
    (\<forall>ec t. r = Some (ec, t) \<longrightarrow> t = op_total B c + length sent)"
  using assms
proof (induction cs arbitrary: c m sent r)
  case Nil
  then show ?case using total_le [of c] by simp
next
  case (Cons x cs)
  let ?p = "op_prepare B c m"
  let ?n = "min (cmp_room x) (length (addrs ?p))"
  obtain sent1 where run: "write_run B cond mem (write_op B cond (cmp_cancelled x) c (cmp_ec x) ?n) cs = (sent1, r)"
    and sent: "sent = take ?n (bytes_of mem ?p) @ sent1"
    using Cons.prems(2) by (auto simp: Let_def split: prod.splits)
  have pre: "addrs ?p = take (length (addrs ?p)) (drop (op_total B c) (whole c))"
    by (rule prepared(1)) (fact Cons.prems(1))
  have le: "length (addrs ?p) \<le> length (whole c) - op_total B c"
    using arg_cong [OF pre, of length] by simp
  have first: "take ?n (bytes_of mem ?p) = take ?n (drop (op_total B c) (bytes_of mem (seq c)))"
    unfolding bytes_of_def by (subst pre) (simp add: take_map drop_map min_def)
  have n: "?n \<le> length (addrs ?p)" by simp
  show ?case
  proof (rule write_op_cases [OF Cons.prems(1) n, of cond "cmp_cancelled x" "cmp_ec x"], goal_cases)
    case (1 ec')
    then have "sent1 = []" "r = Some (ec', op_total B c + ?n)" using run by auto
    then show ?thesis
      using sent first le total_le [OF Cons.prems(1)] by (auto simp: bytes_of_def)
  next
    case continue: (2 c')
    note ih = Cons.IH [OF continue(2) run [unfolded continue(1)]]
    have "length (take ?n (bytes_of mem ?p)) = ?n" by (simp add: bytes_of_def)
    moreover have "sent1 = take (length sent1) (drop ?n (drop (op_total B c) (bytes_of mem (seq c))))"
      using ih continue(3,4) by (simp add: add.commute)
    ultimately show ?thesis
      using ih first continue(3,4) unfolding sent
      by (auto simp: take_add simp del: drop_drop)
  qed
qed

lemma write_run_success:
  assumes "ok c" and "stops_on_error cond"
    and "\<And>x. x \<in> set cs \<Longrightarrow> cmp_ec x = no_error \<Longrightarrow> 0 < cmp_room x"
    and "write_run B cond mem (Start_some (op_prepare B c (cond no_error (op_total B c))) c) cs = (sent, Some (no_error, t))"
  shows "t = length (whole c) \<or> cond no_error t = 0"
  using assms(1,3,4)
proof (induction cs arbitrary: c sent)
  case (Cons x cs)
  let ?p = "op_prepare B c (cond no_error (op_total B c))"
  let ?n = "min (cmp_room x) (length (addrs ?p))"
  obtain sent1 where run: "write_run B cond mem (write_op B cond (cmp_cancelled x) c (cmp_ec x) ?n) cs = (sent1, Some (no_error, t))"
    using Cons.prems(3) by (auto simp: Let_def split: prod.splits)
  have n: "?n \<le> length (addrs ?p)" by simp
  have n0: "op_total B c = length (whole c) \<or> cond no_error (op_total B c) = 0" if "?n = 0" "cmp_ec x = no_error"
    using prepared(3) [OF Cons.prems(1), of "cond no_error (op_total B c)"] is_empty [OF Cons.prems(1)]
      Cons.prems(2) [of x] that by (auto simp: min_def split: if_splits)
  show ?case
  proof (rule write_op_cases [OF Cons.prems(1) n, of cond "cmp_cancelled x" "cmp_ec x"], goal_cases)
    case (1 ec')
    then show ?case using run n0 by auto
  next
    case continue: (2 c')
    have "cmp_ec x = no_error" using continue(6) assms(2) by (cases "cmp_ec x") (auto simp: stops_on_error_def)
    then show ?case
      using Cons.IH [OF continue(2)] run continue(1,4) Cons.prems(2) by simp
  qed
qed simp

lemma write_run_completes:
  assumes "ok c" and "stops_on_error cond"
    and "\<And>x. x \<in> set cs \<Longrightarrow> cmp_ec x = no_error \<Longrightarrow> 0 < cmp_room x"
    and "cs \<noteq> []" and "length (whole c) - op_total B c \<le> length cs"
  shows "\<exists>sent ec t. write_run B cond mem (Start_some (op_prepare B c m) c) cs = (sent, Some (ec, t))"
  using assms(1,3,4,5)
proof (induction cs arbitrary: c m)
  case (Cons x cs)
  let ?p = "op_prepare B c m"
  let ?n = "min (cmp_room x) (length (addrs ?p))"
  have n: "?n \<le> length (addrs ?p)" by simp
  have "\<exists>sent ec t. write_run B cond mem (write_op B cond (cmp_cancelled x) c (cmp_ec x) ?n) cs = (sent, Some (ec, t))"
  proof (rule write_op_cases [OF Cons.prems(1) n, of cond "cmp_cancelled x" "cmp_ec x"], goal_cases)
    case (1 ec')
    then show ?case by auto
  next
    case continue: (2 c')
    have ec: "cmp_ec x = no_error" using continue(6) assms(2) by (cases "cmp_ec x") (auto simp: stops_on_error_def)
    have "length (whole c') - op_total B c' \<le> length cs"
      using Cons.prems(4) continue(5) continue(7) [OF ec] unfolding continue(3,4) length_Cons by linarith
    moreover have "cs \<noteq> []" using calculation continue(4,5) by auto
    ultimately show ?case
      using Cons.IH [OF continue(2)] continue(1) Cons.prems(2) by simp
  qed
  then show ?case by (auto simp: Let_def)
qed simp

lemma read_run_stores:
  assumes "ok c" and "distinct (whole c)"
    and "read_run B cond mem (Start_some (op_prepare B c m) c) cs = (mem', received, r)"
  shows "map mem' (take (length received) (drop (op_total B c) (whole c))) = received \<and>
    (\<forall>a. a \<notin> set (take (length received) (drop (op_total B c) (whole c))) \<longrightarrow> mem' a = mem a)"
  using assms
proof (induction cs arbitrary: c m mem received)
  case (Cons x cs)
  let ?p = "op_prepare B c m"
  let ?got = "take (buffer_size ?p) (arr_bytes x)"
  let ?mem = "store_bytes (addrs ?p) ?got mem"
  let ?rest = "drop (op_total B c) (whole c)"
  obtain received1 where run: "read_run B cond ?mem (read_op B cond (arr_cancelled x) c (arr_ec x) (length ?got)) cs =
      (mem', received1, r)" and received: "received = ?got @ received1"
    using Cons.prems(3) by (auto simp: Let_def split: prod.splits)
  have pre: "addrs ?p = take (length (addrs ?p)) ?rest"
    by (rule prepared(1)) (fact Cons.prems(1))
  have n: "length ?got \<le> length (addrs ?p)" by simp
  have "distinct (addrs ?p)" by (subst pre) (use Cons.prems(2) in simp)
  moreover have "take (length ?got) (addrs ?p) = take (length ?got) ?rest"
    by (subst pre) (use n in \<open>simp add: min_absorb1\<close>)
  ultimately have got: "map ?mem (take (length ?got) ?rest) = ?got"
      "\<And>a. a \<notin> set (take (length ?got) ?rest) \<Longrightarrow> ?mem a = mem a"
    using store_bytes_spec [OF _ n, of mem] by simp_all
  show ?case
  proof (rule write_op_cases [OF Cons.prems(1) n, of cond "arr_cancelled x" "arr_ec x"], goal_cases)
    case (1 ec')
    then have "received1 = []" "mem' = ?mem" using run by (simp_all add: read_op_write_op)
    then show ?case using got unfolding received by simp
  next
    case continue: (2 c')
    have run': "read_run B cond ?mem (Start_some (op_prepare B c' (cond (arr_ec x) (op_total B c'))) c') cs = (mem', received1, r)"
      using run continue(1) by (simp add: read_op_write_op)
    have ih: "map mem' (take (length received1) (drop (length ?got) ?rest)) = received1"
        "\<And>a. a \<notin> set (take (length received1) (drop (length ?got) ?rest)) \<Longrightarrow> mem' a = ?mem a"
      using Cons.IH [OF continue(2) _ run'] Cons.prems(2) continue(3,4) by (simp_all add: add.commute)
    have "set (take (length ?got) ?rest) \<inter> set (drop (length ?got) ?rest) = {}"
      using Cons.prems(2) by (intro set_take_disj_set_drop_if_distinct) simp_all
    then have eq: "map mem' (take (length ?got) ?rest) = map ?mem (take (length ?got) ?rest)"
      by (intro map_cong refl ih(2)) (auto dest: in_set_takeD)
    have "map mem' (take (length received) ?rest) = received"
      by (simp only: received length_append take_add map_append eq got(1) ih(1))
    moreover have "mem' a = mem a" if "a \<notin> set (take (length received) ?rest)" for a
      using that got(2) [of a] ih(2) [of a] unfolding received length_append take_add by simp
    ultimately show ?case by blast
  qed
qed simp

text \<open>
  The synchronous loops.  \<open>R s as s'\<close> says what the stream does when it transfers the bytes at
  the addresses \<open>as\<close>; \<open>f\<close> is either loop.
\<close>

lemma sync_loop_returns:
  assumes unfold: "\<And>s c ec. f s c ec =
      (if op_empty B c then Some (op_total B c, ec, s)
       else let max_size = cond ec (op_total B c)
            in if max_size \<noteq> 0 then case io s (op_prepare B c max_size) of (n, ec', s') \<Rightarrow> f s' (op_consume B c n) ec'
               else Some (op_total B c, ec, s))"
    and io: "\<And>s bufs n ec s'. io s bufs = (n, ec, s') \<Longrightarrow>
      n \<le> length (addrs bufs) \<and> R s (take n (addrs bufs)) s' \<and> (ec = no_error \<and> addrs bufs \<noteq> [] \<longrightarrow> 0 < n)"
    and R: "\<And>s. R s [] s" "\<And>s as s' as' s''. R s as s' \<Longrightarrow> R s' as' s'' \<Longrightarrow> R s (as @ as') s''"
    and cond: "stops_on_error cond"
    and "ok c"
  shows "\<exists>t ec' s'. f s c ec = Some (t, ec', s') \<and> op_total B c \<le> t \<and> t \<le> length (whole c) \<and>
    R s (take (t - op_total B c) (drop (op_total B c) (whole c))) s' \<and>
    (ec' = no_error \<longrightarrow> t = length (whole c) \<or> cond no_error t = 0)"
  using \<open>ok c\<close>
proof (induction "if ec = no_error then Suc (length (whole c) - op_total B c) else 0" arbitrary: s c ec rule: less_induct)
  case less
  note empty = is_empty [OF less.prems] and le = total_le [OF less.prems]
  let ?m = "cond ec (op_total B c)"
  show ?case
  proof (cases "op_empty B c \<or> ?m = 0")
    case True
    then have "f s c ec = Some (op_total B c, ec, s)" by (subst unfold) (auto simp: Let_def)
    then show ?thesis using True empty le R(1) by auto
  next
    case False
    then have ec: "ec = no_error" using cond by (cases ec) (auto simp: stops_on_error_def)
    let ?p = "op_prepare B c ?m"
    obtain n ec' s' where step: "io s ?p = (n, ec', s')" by (metis surj_pair)
    note n = io [OF step]
    have c': "ok (op_consume B c n)" "op_total B (op_consume B c n) = op_total B c + n" "seq (op_consume B c n) = seq c"
      using consume [OF less.prems, of n ?m] n by simp_all
    have "0 < length (addrs ?p)" using prepared(3) [OF less.prems] False by simp
    then have n0: "ec' = no_error \<Longrightarrow> 0 < n" using n by auto
    have "op_total B c < length (whole c)" using False empty le by auto
    then have decr: "(if ec' = no_error then Suc (length (whole (op_consume B c n)) - op_total B (op_consume B c n)) else 0)
        < (if ec = no_error then Suc (length (whole c) - op_total B c) else 0)"
      using n0 ec unfolding c' by auto
    obtain t ec'' s'' where rec: "f s' (op_consume B c n) ec' = Some (t, ec'', s'')" "op_total B c + n \<le> t"
        "t \<le> length (whole c)" "R s' (take (t - (op_total B c + n)) (drop (op_total B c + n) (whole c))) s''"
        "ec'' = no_error \<Longrightarrow> t = length (whole c) \<or> cond no_error t = 0"
      using less.hyps [OF decr c'(1), of s'] unfolding c' by blast
    have "take n (addrs ?p) = take n (drop (op_total B c) (whole c))"
      by (subst prepared(1) [OF less.prems]) (use n in \<open>simp add: min_absorb1\<close>)
    then have "R s (take n (drop (op_total B c) (whole c)) @ take (t - (op_total B c + n)) (drop (op_total B c + n) (whole c))) s''"
      using n rec(4) R(2) by metis
    moreover have "take (t - op_total B c) (drop (op_total B c) (whole c)) =
        take n (drop (op_total B c) (whole c)) @ take (t - (op_total B c + n)) (drop (op_total B c + n) (whole c))"
      using rec(2) take_add [of n "t - (op_total B c + n)" "drop (op_total B c) (whole c)"] by (simp add: add.commute)
    moreover have "f s c ec = Some (t, ec'', s'')" using False step rec(1) by (subst unfold) (simp add: Let_def)
    ultimately show ?thesis using rec(2,3,5) by auto
  qed
qed

end

section \<open>The three instances\<close>

lemmas async_eval = async_write_def write_op_start_def write_op_def async_read_def read_op_start_def read_op_def
  general_ops_def single_ops_def consuming_buffers_init_def consuming_single_buffer_init_def
  cb_empty_def cb_prepare_def cb_consume_def prepared_max_def sb_empty_def sb_prepare_def sb_consume_def
  buffer_size_def buffer_plus_def buffer_limit_def transfer_all_def default_max_transfer_size_def Let_def
  bytes_of_def range_of_def

interpretation general_io: composed_io cb_buffers cb_ok "general_ops (Suc n)" for n
  by (simp add: composed_io_def general_ops_def general.consuming_axioms)

interpretation single_io: composed_io "\<lambda>sb. [sb_buffer sb]" sb_ok single_ops
  by (simp add: composed_io_def single_ops_def single.consuming_axioms)

interpretation array2_io: composed_io ab_seq ab_ok array2_ops
  by (simp add: composed_io_def array2_ops_def array2.consuming_axioms)

lemma transfer_all_continues [simp]: "transfer_all no_error t \<noteq> 0"
  by (simp add: transfer_all_def default_max_transfer_size_def)

lemma async_write_effect:
  assumes "\<forall>x\<in>set cs. cmp_ec x = no_error \<longrightarrow> 0 < cmp_room x"
    and "async_write (general_ops (Suc k)) transfer_all mem (consuming_buffers_init bs) cs = (sent, r)"
  shows "sent = take (length sent) (bytes_of mem bs)"
    and "r = Some (ec, t) \<longrightarrow> t = length sent \<and> (ec = no_error \<longrightarrow> sent = bytes_of mem bs)"
    and "cs \<noteq> [] \<and> buffer_size bs \<le> length cs \<longrightarrow> r \<noteq> None"
proof -
  let ?c = "consuming_buffers_init bs" and ?B = "general_ops (Suc k)"
  have tot: "op_total ?B ?c = 0" by (simp add: general_ops_def)
  note run = assms(2) [unfolded async_write_def write_op_start_def Let_def]
  note pre = general_io.write_run_prefix [OF consuming_init_ok(1) run, simplified]
  show "sent = take (length sent) (bytes_of mem bs)" using pre by (simp add: tot)
  show "r = Some (ec, t) \<longrightarrow> t = length sent \<and> (ec = no_error \<longrightarrow> sent = bytes_of mem bs)"
    using pre general_io.write_run_success [OF consuming_init_ok(1) conditions_stop_on_error(1), of cs k mem bs sent t] run assms(1)
    by (auto simp: tot bytes_of_def)
  show "cs \<noteq> [] \<and> buffer_size bs \<le> length cs \<longrightarrow> r \<noteq> None"
    using general_io.write_run_completes [OF consuming_init_ok(1) conditions_stop_on_error(1), of cs bs k mem
        "transfer_all no_error (op_total ?B ?c)"] run assms(1)
    by (auto simp: tot)
qed

text \<open>
  C32: \<^verbatim>\<open>async_write\<close> on a buffer sequence with the default condition, against a socket that takes at
  least one byte whenever it reports success.  What is on the wire is at any moment the beginning of the
  data; the handler is told how many bytes that is, and is told success only if all of the data
  was sent; and it is called after at most as many completions as there are bytes.
\<close>

theorem async_write_delivers:
  assumes "\<forall>x\<in>set cs. cmp_ec x = no_error \<longrightarrow> 0 < cmp_room x"
    and "async_write (general_ops (Suc k)) transfer_all mem (consuming_buffers_init bs) cs = (sent, r)"
  shows "(sent = take (length sent) (bytes_of mem bs))
    \<and> (r = Some (ec, t) \<longrightarrow> t = length sent \<and> (ec = no_error \<longrightarrow> sent = bytes_of mem bs))
    \<and> (cs \<noteq> [] \<and> buffer_size bs \<le> length cs \<longrightarrow> r \<noteq> None)"
  using async_write_effect [OF assms] by blast

theorem async_write_delivers_witness:
  "async_write (general_ops (Suc 63)) transfer_all (\<lambda>a. of_nat a)
     (consuming_buffers_init [\<lparr>buf_data = 3, buf_size = 2\<rparr>, \<lparr>buf_data = 9, buf_size = 0\<rparr>, \<lparr>buf_data = 20, buf_size = 3\<rparr>])
     [\<lparr>cmp_ec = no_error, cmp_room = 4, cmp_cancelled = False\<rparr>, \<lparr>cmp_ec = no_error, cmp_room = 4, cmp_cancelled = False\<rparr>] = ([3, 4, 20, 21, 22], Some (no_error, 5)) \<and>
   [3, 4, 20, 21, 22] = bytes_of (\<lambda>a. of_nat a)
     [\<lparr>buf_data = 3, buf_size = 2\<rparr>, \<lparr>buf_data = 9, buf_size = 0\<rparr>, \<lparr>buf_data = 20, buf_size = 3\<rparr>]"
proof -
  let ?bs = "[\<lparr>buf_data = 3, buf_size = 2\<rparr>, \<lparr>buf_data = 9, buf_size = 0\<rparr>, \<lparr>buf_data = 20, buf_size = 3\<rparr>]"
  let ?cs = "[\<lparr>cmp_ec = no_error, cmp_room = 4, cmp_cancelled = False\<rparr>, \<lparr>cmp_ec = no_error, cmp_room = 4, cmp_cancelled = False\<rparr>]"
  have run: "async_write (general_ops (Suc 63)) transfer_all (\<lambda>a. of_nat a) (consuming_buffers_init ?bs) ?cs =
      ([3, 4, 20, 21, 22], Some (no_error, 5))"
    by (simp add: async_eval del: buffer_size_addrs)
  have "[3, 4, 20, 21, 22] = bytes_of (\<lambda>a. of_nat a) ?bs"
    using async_write_delivers [OF _ run, of no_error 5, THEN conjunct2, THEN conjunct1] by simp
  then show ?thesis using run by blast
qed

lemma async_read_effect:
  assumes "\<forall>x\<in>set cs. arr_ec x = no_error \<longrightarrow> arr_bytes x \<noteq> []"
    and "async_read single_ops transfer_all mem (consuming_single_buffer_init b) cs = (mem', received, r)"
  shows "map mem' (take (length received) (range_of b)) = received"
    and "a \<notin> set (take (length received) (range_of b)) \<longrightarrow> mem' a = mem a"
    and "r = Some (ec, t) \<longrightarrow> t = length received \<and> (ec = no_error \<longrightarrow> length received = buf_size b)"
    and "cs \<noteq> [] \<and> buf_size b \<le> length cs \<longrightarrow> r \<noteq> None"
proof -
  let ?c = "consuming_single_buffer_init b"
  have tot: "op_total single_ops ?c = 0" by (simp add: single_ops_def)
  note run = assms(2) [unfolded async_read_def read_op_start_def Let_def]
  have "distinct (addrs [sb_buffer ?c])" by (simp add: range_of_def)
  note st = single_io.read_run_stores [OF consuming_init_ok(2) this run, simplified tot, simplified]
  show "map mem' (take (length received) (range_of b)) = received"
    and "a \<notin> set (take (length received) (range_of b)) \<longrightarrow> mem' a = mem a"
    using st by simp_all
  obtain sent where w: "write_run single_ops transfer_all mem
        (Start_some (op_prepare single_ops ?c (transfer_all no_error (op_total single_ops ?c))) ?c) (map as_completion cs) = (sent, r)"
      "length sent = length received"
    using read_run_as_write [OF run] by blast
  have room: "\<And>x. x \<in> set (map as_completion cs) \<Longrightarrow> cmp_ec x = no_error \<Longrightarrow> 0 < cmp_room x"
    using assms(1) by auto
  note pre = single_io.write_run_prefix [OF consuming_init_ok(2) w(1), simplified tot, simplified]
  show "r = Some (ec, t) \<longrightarrow> t = length received \<and> (ec = no_error \<longrightarrow> length received = buf_size b)"
  proof -
    have "t = buf_size b" if "r = Some (no_error, t)"
      using single_io.write_run_success [OF consuming_init_ok(2) conditions_stop_on_error(1) room w(1) [unfolded that]] by simp
    then show ?thesis using pre w(2) by auto
  qed
  show "cs \<noteq> [] \<and> buf_size b \<le> length cs \<longrightarrow> r \<noteq> None"
    using w single_io.write_run_completes [OF consuming_init_ok(2) conditions_stop_on_error(1), of "map as_completion cs" b mem
        "transfer_all no_error (op_total single_ops ?c)"] room
    by (auto simp: tot)
qed

text \<open>
  \<^verbatim>\<open>async_read\<close> into one buffer, as the sessions use it, against a socket that reports success
  only with at least one byte.  The bytes received are stored in order from the start of the buffer and
  nothing else is written; the handler is told their number, and is told success only if the buffer is full;
  and it is called after at most as many completions as the buffer has bytes.
\<close>

theorem async_read_fills:
  assumes "\<forall>x\<in>set cs. arr_ec x = no_error \<longrightarrow> arr_bytes x \<noteq> []"
    and "async_read single_ops transfer_all mem (consuming_single_buffer_init b) cs = (mem', received, r)"
  shows "(map mem' (take (length received) (range_of b)) = received)
    \<and> (a \<notin> set (take (length received) (range_of b)) \<longrightarrow> mem' a = mem a)
    \<and> (r = Some (ec, t) \<longrightarrow> t = length received \<and> (ec = no_error \<longrightarrow> length received = buf_size b))
    \<and> (cs \<noteq> [] \<and> buf_size b \<le> length cs \<longrightarrow> r \<noteq> None)"
  using async_read_effect [OF assms] by blast

theorem async_read_fills_witness:
  "fst (snd (async_read single_ops transfer_all (\<lambda>a. 0) (consuming_single_buffer_init \<lparr>buf_data = 3, buf_size = 3\<rparr>)
      [\<lparr>arr_ec = no_error, arr_bytes = [7, 8], arr_cancelled = False\<rparr>,
       \<lparr>arr_ec = no_error, arr_bytes = [9, 10], arr_cancelled = False\<rparr>])) = [7, 8, 9] \<and>
   map (fst (async_read single_ops transfer_all (\<lambda>a. 0) (consuming_single_buffer_init \<lparr>buf_data = 3, buf_size = 3\<rparr>)
      [\<lparr>arr_ec = no_error, arr_bytes = [7, 8], arr_cancelled = False\<rparr>,
       \<lparr>arr_ec = no_error, arr_bytes = [9, 10], arr_cancelled = False\<rparr>])) [3, 4, 5] = [7, 8, 9]"
proof -
  let ?cs = "[\<lparr>arr_ec = no_error, arr_bytes = [7, 8], arr_cancelled = False\<rparr>,
       \<lparr>arr_ec = no_error, arr_bytes = [9, 10], arr_cancelled = False\<rparr>]"
  let ?run = "async_read single_ops transfer_all (\<lambda>a. 0) (consuming_single_buffer_init \<lparr>buf_data = 3, buf_size = 3\<rparr>) ?cs"
  have r: "fst (snd ?run) = [7, 8, 9]" by (simp add: async_eval del: buffer_size_addrs)
  obtain mem' r where run: "?run = (mem', [7, 8, 9], r)" using r by (metis prod.collapse)
  have "map mem' [3, 4, 5] = [7, 8, 9]"
    using async_read_fills [OF _ run] by (simp add: range_of_def)
  then show ?thesis using run by simp
qed

section \<open>The synchronous operations return\<close>

text \<open>
  A stream that accepts bytes: \<open>out\<close> is what it has accepted.  A stream that delivers
  bytes: \<open>mem_of\<close> is the memory it writes and \<open>got\<close> what it has delivered.  Either makes progress
  on every call that reports success.
\<close>

definition accepts :: "memory \<Rightarrow> ('s \<Rightarrow> byte list) \<Rightarrow> ('s \<Rightarrow> buffer list \<Rightarrow> nat \<times> error_code \<times> 's) \<Rightarrow> bool" where
  "accepts mem out io \<longleftrightarrow> (\<forall>s bufs n ec s'. io s bufs = (n, ec, s') \<longrightarrow>
     n \<le> length (addrs bufs) \<and> out s' = out s @ map mem (take n (addrs bufs)) \<and>
     (ec = no_error \<and> addrs bufs \<noteq> [] \<longrightarrow> 0 < n))"

definition delivers :: "('s \<Rightarrow> memory) \<Rightarrow> ('s \<Rightarrow> byte list) \<Rightarrow> ('s \<Rightarrow> buffer list \<Rightarrow> nat \<times> error_code \<times> 's) \<Rightarrow> bool" where
  "delivers mem_of got io \<longleftrightarrow> (\<forall>s bufs n ec s'. io s bufs = (n, ec, s') \<longrightarrow>
     n \<le> length (addrs bufs) \<and>
     (\<exists>bs. length bs = n \<and> got s' = got s @ bs \<and> mem_of s' = store_bytes (take n (addrs bufs)) bs (mem_of s)) \<and>
     (ec = no_error \<and> addrs bufs \<noteq> [] \<longrightarrow> 0 < n))"

lemma store_bytes_append:
  "length as = length bs \<Longrightarrow> store_bytes (as @ as') (bs @ bs') mem = store_bytes as' bs' (store_bytes as bs mem)"
  by (induction as bs arbitrary: mem rule: list_induct2) auto

lemma write_sync_returns:
  assumes "accepts mem out io" and "stops_on_error cond"
  shows "\<exists>t ec s'. write_sync (general_ops (Suc k)) cond io s (consuming_buffers_init bs) = Some (t, ec, s') \<and>
    t \<le> buffer_size bs \<and> out s' = out s @ take t (bytes_of mem bs) \<and>
    (ec = no_error \<longrightarrow> t = buffer_size bs \<or> cond no_error t = 0)"
proof -
  let ?c = "consuming_buffers_init bs" and ?B = "general_ops (Suc k)"
  have tot: "op_total ?B ?c = 0" by (simp add: general_ops_def)
  have "\<exists>t ec' s'. write_loop ?B cond io s ?c no_error = Some (t, ec', s') \<and> op_total ?B ?c \<le> t \<and> t \<le> length (addrs (cb_buffers ?c)) \<and>
    out s' = out s @ map mem (take (t - op_total ?B ?c) (drop (op_total ?B ?c) (addrs (cb_buffers ?c)))) \<and>
    (ec' = no_error \<longrightarrow> t = length (addrs (cb_buffers ?c)) \<or> cond no_error t = 0)"
  proof (rule general_io.sync_loop_returns [where io = io, OF write_loop.simps])
    show "n \<le> length (addrs bufs) \<and> out s' = out s @ map mem (take n (addrs bufs)) \<and>
        (ec = no_error \<and> addrs bufs \<noteq> [] \<longrightarrow> 0 < n)" if "io s bufs = (n, ec, s')" for s bufs n ec s'
      using assms(1) that unfolding accepts_def by blast
  qed (simp_all add: assms(2))
  then show ?thesis by (auto simp: write_sync_def tot bytes_of_def take_map)
qed

lemma read_buffer_seq_returns:
  assumes "delivers mem_of got io" and "stops_on_error cond"
  shows "\<exists>t ec s' bytes. read_buffer_seq (general_ops (Suc k)) cond io s (consuming_buffers_init bs) = Some (t, ec, s') \<and>
    t \<le> buffer_size bs \<and> length bytes = t \<and> got s' = got s @ bytes \<and>
    mem_of s' = store_bytes (take t (addrs bs)) bytes (mem_of s) \<and>
    (ec = no_error \<longrightarrow> t = buffer_size bs \<or> cond no_error t = 0)"
proof -
  let ?c = "consuming_buffers_init bs" and ?B = "general_ops (Suc k)"
  let ?R = "\<lambda>s as s'. \<exists>bytes. length bytes = length as \<and> got s' = got s @ bytes \<and> mem_of s' = store_bytes as bytes (mem_of s)"
  have tot: "op_total ?B ?c = 0" by (simp add: general_ops_def)
  have "\<exists>t ec' s'. read_loop ?B cond io s ?c no_error = Some (t, ec', s') \<and> op_total ?B ?c \<le> t \<and> t \<le> length (addrs (cb_buffers ?c)) \<and>
    ?R s (take (t - op_total ?B ?c) (drop (op_total ?B ?c) (addrs (cb_buffers ?c)))) s' \<and>
    (ec' = no_error \<longrightarrow> t = length (addrs (cb_buffers ?c)) \<or> cond no_error t = 0)"
  proof (rule general_io.sync_loop_returns [where io = io and R = ?R, OF read_loop.simps])
    show "n \<le> length (addrs bufs) \<and> ?R s (take n (addrs bufs)) s' \<and> (ec = no_error \<and> addrs bufs \<noteq> [] \<longrightarrow> 0 < n)"
      if "io s bufs = (n, ec, s')" for s bufs n ec s'
      using assms(1) that unfolding delivers_def by (fastforce simp: min_absorb2)
    show "?R s (as @ as') s''" if "?R s as s'" "?R s' as' s''" for s as s' as' s''
      using that by (metis append.assoc length_append store_bytes_append)
  qed (simp_all add: assms(2))
  then show ?thesis by (auto simp: read_buffer_seq_def tot min_absorb2)
qed

end
