(* ===== verification/Ip_Address.thy ===== *)
theory Ip_Address
  imports Composed_Io "HOL-Library.List_Lexorder"
begin

text \<open>
  \<^verbatim>\<open>asio/ip/address_v4\<close>, \<^verbatim>\<open>address_v6\<close> and \<^verbatim>\<open>address\<close>, and the POSIX branch of
  \<^verbatim>\<open>inet_ntop\<close> and \<^verbatim>\<open>inet_pton\<close> in \<^verbatim>\<open>asio/detail/impl/socket_ops.ipp\<close>.  The
  operating system's own \<^verbatim>\<open>inet_ntop\<close>, \<^verbatim>\<open>inet_pton\<close>, \<^verbatim>\<open>if_indextoname\<close> and
  \<^verbatim>\<open>if_nametoindex\<close> are the fields of the record \<open>inet_os\<close>, a parameter of every
  function that uses them.
\<close>

section \<open>Exceptions and byte order\<close>

datatype ip_exception =
  Out_of_range_exception | Invalid_argument_exception | Bad_address_cast | System_error asio_error

text \<open>\<^verbatim>\<open>htonl\<close> and \<^verbatim>\<open>ntohl\<close> on the little-endian targets of the build reverse the bytes.\<close>

definition host_to_network_long :: "uint32_t \<Rightarrow> uint32_t" where
  "host_to_network_long value = le_word (rev (le_bytes 4 value))"

definition network_to_host_long :: "uint32_t \<Rightarrow> uint32_t" where
  "network_to_host_long value = le_word (rev (le_bytes 4 value))"

lemma network_host_roundtrip [simp]:
  "network_to_host_long (host_to_network_long w) = w" "host_to_network_long (network_to_host_long w) = w"
proof -
  have "le_word (rev (le_bytes 4 (le_word (rev (le_bytes 4 v)) :: uint32_t))) = v" for v :: uint32_t
    using le_bytes_le_word [of "rev (le_bytes 4 v)", where 'a = 32] by (simp add: le_word_le_bytes)
  then show "network_to_host_long (host_to_network_long w) = w" "host_to_network_long (network_to_host_long w) = w"
    by (simp_all add: network_to_host_long_def host_to_network_long_def)
qed

section \<open>IPv4 addresses\<close>

text \<open>\<open>s_addr\<close> is the member \<^verbatim>\<open>addr_.s_addr\<close>, in network byte order.\<close>

datatype address_v4 = Address_v4 (s_addr: uint32_t)

definition address_v4_default :: address_v4 where
  "address_v4_default = Address_v4 0"

definition address_v4_of_bytes :: "byte list \<Rightarrow> address_v4" where
  "address_v4_of_bytes bytes = Address_v4 (le_word bytes)"

definition address_v4_of_uint :: "uint32_t \<Rightarrow> address_v4" where
  "address_v4_of_uint addr = Address_v4 (host_to_network_long addr)"

definition to_bytes :: "address_v4 \<Rightarrow> byte list" where
  "to_bytes a = le_bytes 4 (s_addr a)"

definition to_uint :: "address_v4 \<Rightarrow> uint32_t" where
  "to_uint a = network_to_host_long (s_addr a)"

definition v4_is_loopback :: "address_v4 \<Rightarrow> bool" where
  "v4_is_loopback a \<longleftrightarrow> and (to_uint a) 0xFF000000 = 0x7F000000"

definition v4_is_unspecified :: "address_v4 \<Rightarrow> bool" where
  "v4_is_unspecified a \<longleftrightarrow> to_uint a = 0"

definition is_class_a :: "address_v4 \<Rightarrow> bool" where
  "is_class_a a \<longleftrightarrow> and (to_uint a) 0x80000000 = 0"

definition is_class_b :: "address_v4 \<Rightarrow> bool" where
  "is_class_b a \<longleftrightarrow> and (to_uint a) 0xC0000000 = 0x80000000"

definition is_class_c :: "address_v4 \<Rightarrow> bool" where
  "is_class_c a \<longleftrightarrow> and (to_uint a) 0xE0000000 = 0xC0000000"

definition v4_is_multicast :: "address_v4 \<Rightarrow> bool" where
  "v4_is_multicast a \<longleftrightarrow> and (to_uint a) 0xF0000000 = 0xE0000000"

definition v4_loopback :: address_v4 where
  "v4_loopback = address_v4_of_uint 0x7F000001"

definition v4_broadcast :: address_v4 where
  "v4_broadcast = address_v4_of_uint 0xFFFFFFFF"

definition v4_broadcast_of :: "address_v4 \<Rightarrow> address_v4 \<Rightarrow> address_v4" where
  "v4_broadcast_of addr netmask = address_v4_of_uint (or (to_uint addr) (xor (to_uint netmask) 0xFFFFFFFF))"

definition v4_netmask :: "address_v4 \<Rightarrow> address_v4" where
  "v4_netmask addr =
     (if is_class_a addr then address_v4_of_uint 0xFF000000
      else if is_class_b addr then address_v4_of_uint 0xFFFF0000
      else if is_class_c addr then address_v4_of_uint 0xFFFFFF00
      else address_v4_of_uint 0xFFFFFFFF)"

lemma to_uint_of_uint [simp]: "to_uint (address_v4_of_uint w) = w" "address_v4_of_uint (to_uint a) = a"
  by (simp_all add: to_uint_def address_v4_of_uint_def)

lemma to_uint_inject [simp]: "to_uint a = to_uint b \<longleftrightarrow> a = b"
  by (metis to_uint_of_uint(2))

lemma to_bytes_of_bytes [simp]: "length bs = 4 \<Longrightarrow> to_bytes (address_v4_of_bytes bs) = bs"
  using le_bytes_le_word [of bs, where 'a = 32] by (simp add: to_bytes_def address_v4_of_bytes_def)

lemma of_bytes_to_bytes [simp]: "address_v4_of_bytes (to_bytes a) = a"
  by (simp add: to_bytes_def address_v4_of_bytes_def le_word_le_bytes)

lemma length_to_bytes [simp]: "length (to_bytes a) = 4"
  by (simp add: to_bytes_def)

lemma to_bytes_of_uint: "to_bytes (address_v4_of_uint w) = rev (le_bytes 4 w)"
  using le_bytes_le_word [of "rev (le_bytes 4 w)", where 'a = 32]
  by (simp add: to_bytes_def address_v4_of_uint_def host_to_network_long_def)

text \<open>The comparison operators compare the addresses as numbers: a linear order.\<close>

definition v4_less_equal :: "address_v4 \<Rightarrow> address_v4 \<Rightarrow> bool" where
  "v4_less_equal a1 a2 \<longleftrightarrow> to_uint a1 \<le> to_uint a2"

definition v4_less :: "address_v4 \<Rightarrow> address_v4 \<Rightarrow> bool" where
  "v4_less a1 a2 \<longleftrightarrow> to_uint a1 < to_uint a2"

instantiation address_v4 :: linorder
begin

definition less_eq_address_v4 :: "address_v4 \<Rightarrow> address_v4 \<Rightarrow> bool" where
  "less_eq_address_v4 = v4_less_equal"

definition less_address_v4 :: "address_v4 \<Rightarrow> address_v4 \<Rightarrow> bool" where
  "less_address_v4 = v4_less"

instance
  by standard
    (auto simp: less_eq_address_v4_def less_address_v4_def v4_less_def v4_less_equal_def dest: antisym)

end

lemma address_v4_order: "a \<le> b \<longleftrightarrow> to_uint a \<le> to_uint b" "a < b \<longleftrightarrow> to_uint a < to_uint b" for a b :: address_v4
  by (simp_all add: less_eq_address_v4_def less_address_v4_def v4_less_def v4_less_equal_def)

section \<open>IPv6 addresses\<close>

type_synonym scope_id_type = uint32_t

datatype address_v6 = Address_v6 (s6_addr: "byte list") (scope_id: scope_id_type)

definition address_v6_default :: address_v6 where
  "address_v6_default = Address_v6 (replicate 16 0) 0"

definition address_v6_of_bytes :: "byte list \<Rightarrow> scope_id_type \<Rightarrow> address_v6" where
  "address_v6_of_bytes bytes scope = Address_v6 (take 16 bytes) scope"

definition v6_to_bytes :: "address_v6 \<Rightarrow> byte list" where
  "v6_to_bytes a = s6_addr a"

definition v6_is_loopback :: "address_v6 \<Rightarrow> bool" where
  "v6_is_loopback a \<longleftrightarrow> (\<forall>i<15. s6_addr a ! i = 0) \<and> s6_addr a ! 15 = 1"

definition v6_is_unspecified :: "address_v6 \<Rightarrow> bool" where
  "v6_is_unspecified a \<longleftrightarrow> (\<forall>i<16. s6_addr a ! i = 0)"

definition is_link_local :: "address_v6 \<Rightarrow> bool" where
  "is_link_local a \<longleftrightarrow> s6_addr a ! 0 = 0xfe \<and> and (s6_addr a ! 1) 0xc0 = 0x80"

definition is_site_local :: "address_v6 \<Rightarrow> bool" where
  "is_site_local a \<longleftrightarrow> s6_addr a ! 0 = 0xfe \<and> and (s6_addr a ! 1) 0xc0 = 0xc0"

definition is_v4_mapped :: "address_v6 \<Rightarrow> bool" where
  "is_v4_mapped a \<longleftrightarrow> (\<forall>i<10. s6_addr a ! i = 0) \<and> s6_addr a ! 10 = 0xff \<and> s6_addr a ! 11 = 0xff"

definition is_v4_compatible :: "address_v6 \<Rightarrow> bool" where
  "is_v4_compatible a \<longleftrightarrow> (\<forall>i<12. s6_addr a ! i = 0) \<and>
     \<not> (s6_addr a ! 12 = 0 \<and> s6_addr a ! 13 = 0 \<and> s6_addr a ! 14 = 0 \<and> (s6_addr a ! 15 = 0 \<or> s6_addr a ! 15 = 1))"

definition v6_is_multicast :: "address_v6 \<Rightarrow> bool" where
  "v6_is_multicast a \<longleftrightarrow> s6_addr a ! 0 = 0xff"

definition is_multicast_global :: "address_v6 \<Rightarrow> bool" where
  "is_multicast_global a \<longleftrightarrow> s6_addr a ! 0 = 0xff \<and> and (s6_addr a ! 1) 0x0f = 0x0e"

definition is_multicast_link_local :: "address_v6 \<Rightarrow> bool" where
  "is_multicast_link_local a \<longleftrightarrow> s6_addr a ! 0 = 0xff \<and> and (s6_addr a ! 1) 0x0f = 0x02"

definition is_multicast_node_local :: "address_v6 \<Rightarrow> bool" where
  "is_multicast_node_local a \<longleftrightarrow> s6_addr a ! 0 = 0xff \<and> and (s6_addr a ! 1) 0x0f = 0x01"

definition is_multicast_org_local :: "address_v6 \<Rightarrow> bool" where
  "is_multicast_org_local a \<longleftrightarrow> s6_addr a ! 0 = 0xff \<and> and (s6_addr a ! 1) 0x0f = 0x08"

definition is_multicast_site_local :: "address_v6 \<Rightarrow> bool" where
  "is_multicast_site_local a \<longleftrightarrow> s6_addr a ! 0 = 0xff \<and> and (s6_addr a ! 1) 0x0f = 0x05"

definition v6_loopback :: address_v6 where
  "v6_loopback = Address_v6 ((replicate 16 0)[15 := 1]) 0"

definition v4_mapped :: "address_v4 \<Rightarrow> address_v6" where
  "v4_mapped addr =
     (let v4_bytes = to_bytes addr
      in address_v6_of_bytes ([0, 0, 0, 0, 0, 0, 0, 0, 0, 0, 0xFF, 0xFF,
           v4_bytes ! 0, v4_bytes ! 1, v4_bytes ! 2, v4_bytes ! 3]) 0)"

definition v4_compatible :: "address_v4 \<Rightarrow> address_v6" where
  "v4_compatible addr =
     (let v4_bytes = to_bytes addr
      in address_v6_of_bytes ([0, 0, 0, 0, 0, 0, 0, 0, 0, 0, 0, 0,
           v4_bytes ! 0, v4_bytes ! 1, v4_bytes ! 2, v4_bytes ! 3]) 0)"

definition v6_to_v4 :: "address_v6 \<Rightarrow> ip_exception + address_v4" where
  "v6_to_v4 a =
     (if \<not> is_v4_mapped a \<and> \<not> is_v4_compatible a then Inl Bad_address_cast
      else Inr (address_v4_of_bytes [s6_addr a ! 12, s6_addr a ! 13, s6_addr a ! 14, s6_addr a ! 15]))"

definition make_address_v4_mapped :: "address_v6 \<Rightarrow> ip_exception + address_v4" where
  "make_address_v4_mapped v6_addr =
     (if \<not> is_v4_mapped v6_addr then Inl Bad_address_cast
      else let v6_bytes = v6_to_bytes v6_addr
           in Inr (address_v4_of_bytes [v6_bytes ! 12, v6_bytes ! 13, v6_bytes ! 14, v6_bytes ! 15]))"

definition make_address_v6_mapped :: "address_v4 \<Rightarrow> address_v6" where
  "make_address_v6_mapped v4_addr =
     (let v4_bytes = to_bytes v4_addr
      in address_v6_of_bytes ([0, 0, 0, 0, 0, 0, 0, 0, 0, 0, 0xFF, 0xFF,
           v4_bytes ! 0, v4_bytes ! 1, v4_bytes ! 2, v4_bytes ! 3]) 0)"

definition v6_ok :: "address_v6 \<Rightarrow> bool" where
  "v6_ok a \<longleftrightarrow> length (s6_addr a) = 16"

text \<open>
  \<^verbatim>\<open>memcmp\<close> compares bytes from the first on; \<^verbatim>\<open>operator<\<close> on addresses compares the bytes
  and then the scope.
\<close>

fun memcmp :: "byte list \<Rightarrow> byte list \<Rightarrow> int" where
  "memcmp (b # bs) (c # cs) = (if b < c then -1 else if c < b then 1 else memcmp bs cs)"
| "memcmp [] (c # cs) = -1"
| "memcmp (b # bs) [] = 1"
| "memcmp [] [] = 0"

lemma memcmp_less: "memcmp bs cs < 0 \<longleftrightarrow> bs < cs" "memcmp bs cs > 0 \<longleftrightarrow> cs < bs"
  by (induction bs cs rule: memcmp.induct) auto

definition v6_less :: "address_v6 \<Rightarrow> address_v6 \<Rightarrow> bool" where
  "v6_less a1 a2 \<longleftrightarrow>
     (let memcmp_result = memcmp (s6_addr a1) (s6_addr a2)
      in if memcmp_result < 0 then True else if memcmp_result > 0 then False else scope_id a1 < scope_id a2)"

definition v6_less_equal :: "address_v6 \<Rightarrow> address_v6 \<Rightarrow> bool" where
  "v6_less_equal a1 a2 \<longleftrightarrow> \<not> v6_less a2 a1"

definition v6_equal :: "address_v6 \<Rightarrow> address_v6 \<Rightarrow> bool" where
  "v6_equal a1 a2 \<longleftrightarrow> memcmp (s6_addr a1) (s6_addr a2) = 0 \<and> scope_id a1 = scope_id a2"

lemma v6_less_iff:
  "v6_less a1 a2 \<longleftrightarrow> s6_addr a1 < s6_addr a2 \<or> (s6_addr a1 = s6_addr a2 \<and> scope_id a1 < scope_id a2)"
  by (auto simp: v6_less_def Let_def memcmp_less)

lemma v6_equal_iff: "v6_equal a1 a2 \<longleftrightarrow> a1 = a2"
proof -
  have "memcmp (s6_addr a1) (s6_addr a2) = 0 \<longleftrightarrow> s6_addr a1 = s6_addr a2"
    using memcmp_less [of "s6_addr a1" "s6_addr a2"] by (metis less_irrefl linorder_neqE)
  then show ?thesis by (auto simp: v6_equal_def intro: address_v6.expand)
qed

instantiation address_v6 :: linorder
begin

definition less_address_v6 :: "address_v6 \<Rightarrow> address_v6 \<Rightarrow> bool" where
  "less_address_v6 = v6_less"

definition less_eq_address_v6 :: "address_v6 \<Rightarrow> address_v6 \<Rightarrow> bool" where
  "less_eq_address_v6 = v6_less_equal"

instance
  by standard
    (auto simp: less_eq_address_v6_def less_address_v6_def v6_less_equal_def v6_less_iff intro: address_v6.expand)

end

section \<open>Numbers in text\<close>

definition digit_char :: "nat \<Rightarrow> char" where
  "digit_char d = char_of (48 + d)"

definition digit_value :: "char \<Rightarrow> nat" where
  "digit_value c = of_char c - 48"

definition is_digit :: "char \<Rightarrow> bool" where
  "is_digit c \<longleftrightarrow> (48 :: nat) \<le> of_char c \<and> (of_char c :: nat) \<le> 57"

text \<open>\<^verbatim>\<open>printf\<close> with \<^verbatim>\<open>%u\<close> and \<^verbatim>\<open>%lu\<close>.\<close>

function decimal :: "nat \<Rightarrow> string" where
  "decimal n = (if n < 10 then [digit_char n] else decimal (n div 10) @ [digit_char (n mod 10)])"
  by pat_completeness auto

termination
  by (relation "measure id") auto

declare decimal.simps [simp del]

definition digits_value :: "string \<Rightarrow> nat" where
  "digits_value cs = foldl (\<lambda>v c. 10 * v + digit_value c) 0 cs"

text \<open>
  \<^verbatim>\<open>atoi\<close>: white space, a sign, digits up to the first other character.  A number that is not an
  \<^verbatim>\<open>int\<close> is undefined behaviour.
\<close>

definition is_space :: "char \<Rightarrow> bool" where
  "is_space c \<longleftrightarrow> of_char c = (32 :: nat) \<or> ((9 :: nat) \<le> of_char c \<and> of_char c \<le> (13 :: nat))"

definition atoi :: "string \<Rightarrow> undefined_behaviour + int" where
  "atoi str =
     (let s = dropWhile is_space str;
          (neg, ds) = (case s of c # cs \<Rightarrow> if c = CHR ''-'' then (True, cs) else if c = CHR ''+'' then (False, cs) else (False, s)
                       | [] \<Rightarrow> (False, []));
          v = int (digits_value (takeWhile is_digit ds));
          i = (if neg then - v else v)
      in if - (2 ^ 31) \<le> i \<and> i < 2 ^ 31 then Inr i else Inl Integer_out_of_range)"

lemma digit_value_char [simp]: "d < 10 \<Longrightarrow> digit_value (digit_char d) = d" "d < 10 \<Longrightarrow> is_digit (digit_char d)"
  by (simp_all add: digit_value_def digit_char_def is_digit_def of_char_of)

lemma decimal_digits: "c \<in> set (decimal n) \<Longrightarrow> is_digit c"
proof (induction n rule: decimal.induct)
  case (1 n)
  then show ?case by (subst (asm) (2) decimal.simps) (auto split: if_splits)
qed

lemma digits_value_decimal [simp]: "digits_value (decimal n) = n"
proof (induction n rule: decimal.induct)
  case (1 n)
  then show ?case by (subst decimal.simps) (auto simp: digits_value_def)
qed

lemma decimal_not_Nil [simp]: "decimal n \<noteq> []"
  by (subst decimal.simps) simp

lemma length_decimal: "n < 10 ^ k \<Longrightarrow> 0 < k \<Longrightarrow> length (decimal n) \<le> k"
proof (induction k arbitrary: n)
  case (Suc k)
  show ?case
  proof (cases "n < 10")
    case False
    then have "n div 10 < 10 ^ k" "0 < k" using Suc.prems by (auto intro: gr0I)
    then show ?thesis using Suc.IH False by (subst decimal.simps) auto
  qed (subst decimal.simps, simp)
qed simp

lemma digit_not_sign: "is_digit c \<Longrightarrow> \<not> is_space c \<and> c \<noteq> CHR ''-'' \<and> c \<noteq> CHR ''+'' \<and> c \<noteq> CHR ''/'' \<and> c \<noteq> CHR ''%''"
  by (auto simp: is_digit_def is_space_def)

lemma atoi_digits:
  assumes "\<forall>c\<in>set ds. is_digit c" and "ds \<noteq> []"
  shows "atoi ds = (if digits_value ds < 2 ^ 31 then Inr (int (digits_value ds)) else Inl Integer_out_of_range)"
proof -
  obtain c cs where ds: "ds = c # cs" using assms(2) by (cases ds) auto
  have all: "takeWhile is_digit cs = cs" using assms(1) ds by simp
  show ?thesis using digit_not_sign [of c] assms(1) ds by (auto simp: atoi_def Let_def all)
qed

lemma atoi_decimal: "n < 2 ^ 31 \<Longrightarrow> atoi (decimal n) = Inr (int n)"
  using atoi_digits [of "decimal n"] decimal_digits by auto

section \<open>inet\_ntop and inet\_pton\<close>

datatype family = AF_INET | AF_INET6

text \<open>
  What the operating system provides: the conversions return the error number (\<open>no_error\<close> for 0)
  and their result; \<^verbatim>\<open>inet_ntop\<close> is given the size of the destination.
\<close>

record inet_os =
  os_inet_ntop :: "family \<Rightarrow> byte list \<Rightarrow> nat \<Rightarrow> error_code \<times> string option"
  os_inet_pton :: "family \<Rightarrow> string \<Rightarrow> error_code \<times> int \<times> byte list"
  os_if_indextoname :: "uint32_t \<Rightarrow> string option"
  os_if_nametoindex :: "string \<Rightarrow> uint32_t"

definition max_addr_v4_str_len :: nat where
  "max_addr_v4_str_len = 16"

definition max_addr_v6_str_len :: nat where
  "max_addr_v6_str_len = 46 + 1 + 16"

definition scoped :: "byte list \<Rightarrow> bool" where
  "scoped bytes \<longleftrightarrow>
     (bytes ! 0 = 0xfe \<and> and (bytes ! 1) 0xc0 = 0x80) \<or> (bytes ! 0 = 0xff \<and> and (bytes ! 1) 0x0f = 0x02)"

definition scope_suffix :: "inet_os \<Rightarrow> byte list \<Rightarrow> uint64_t \<Rightarrow> string" where
  "scope_suffix os src scope =
     CHR ''%'' # (case (if scoped src then os_if_indextoname os (ucast scope) else None) of
                    None \<Rightarrow> decimal (unat scope) | Some name \<Rightarrow> name)"

text \<open>\<open>len\<close> is the size of the destination; \<^verbatim>\<open>strcat\<close> past it is undefined behaviour.\<close>

definition inet_ntop ::
  "inet_os \<Rightarrow> family \<Rightarrow> byte list \<Rightarrow> nat \<Rightarrow> uint64_t \<Rightarrow> undefined_behaviour + error_code \<times> string option" where
  "inet_ntop os af src len scope =
     (let (errno, result) = os_inet_ntop os af src len;
          ec = (if result = None \<and> errno = no_error then Some Invalid_argument else errno)
      in case result of
           None \<Rightarrow> Inr (ec, None)
         | Some dest \<Rightarrow>
             if af = AF_INET6 \<and> scope \<noteq> 0 then
               let text = dest @ scope_suffix os src scope
               in if length text < len then Inr (ec, Some text) else Inl Buffer_overrun
             else Inr (ec, Some dest))"

text \<open>
  The result, the bytes, and the scope identifier if the caller asked for it.  \<open>if_name\<close> is the
  text after the per cent sign.
\<close>

definition inet_pton ::
  "inet_os \<Rightarrow> family \<Rightarrow> string \<Rightarrow> undefined_behaviour + error_code \<times> int \<times> byte list \<times> uint64_t" where
  "inet_pton os af src =
     (let is_v6 = (af = AF_INET6);
          has_scope = (is_v6 \<and> CHR ''%'' \<in> set src);
          src_ptr = (if has_scope then takeWhile (\<lambda>c. c \<noteq> CHR ''%'') src else src);
          if_name = tl (dropWhile (\<lambda>c. c \<noteq> CHR ''%'') src)
      in if has_scope \<and> length src_ptr > max_addr_v6_str_len then Inr (Some Invalid_argument, 0, [], 0)
         else
           let (errno, result, dest) = os_inet_pton os af src_ptr;
               ec = (if result \<le> 0 \<and> errno = no_error then Some Invalid_argument else errno)
           in if result > 0 \<and> has_scope then
                let scope = (if scoped dest then os_if_nametoindex os if_name else 0)
                in if scope = 0 then map_sum id (\<lambda>i. (ec, result, dest, of_int i)) (atoi if_name)
                   else Inr (ec, result, dest, ucast scope)
              else Inr (ec, result, dest, 0))"

section \<open>Addresses as text\<close>

definition v4_to_string_ec :: "inet_os \<Rightarrow> address_v4 \<Rightarrow> undefined_behaviour + error_code \<times> string" where
  "v4_to_string_ec os a =
     map_sum id (\<lambda>(ec, addr). (ec, case addr of None \<Rightarrow> [] | Some str \<Rightarrow> str))
       (inet_ntop os AF_INET (to_bytes a) max_addr_v4_str_len 0)"

text \<open>\<^verbatim>\<open>throw_error(ec)\<close> does nothing if \<^verbatim>\<open>ec\<close> is not set; then the null pointer is used.\<close>

definition text_or_throw :: "error_code \<times> string option \<Rightarrow> undefined_behaviour + ip_exception + string" where
  "text_or_throw r =
     (case r of
        (ec, Some str) \<Rightarrow> Inr (Inr str)
      | (Some e, None) \<Rightarrow> Inr (Inl (System_error e))
      | (None, None) \<Rightarrow> Inl Out_of_bounds_read)"

definition v4_to_string :: "inet_os \<Rightarrow> address_v4 \<Rightarrow> undefined_behaviour + ip_exception + string" where
  "v4_to_string os a =
     (case inet_ntop os AF_INET (to_bytes a) max_addr_v4_str_len 0 of Inl ub \<Rightarrow> Inl ub | Inr r \<Rightarrow> text_or_throw r)"

definition v6_to_string :: "inet_os \<Rightarrow> address_v6 \<Rightarrow> undefined_behaviour + ip_exception + string" where
  "v6_to_string os a =
     (case inet_ntop os AF_INET6 (s6_addr a) max_addr_v6_str_len (ucast (scope_id a)) of
        Inl ub \<Rightarrow> Inl ub | Inr r \<Rightarrow> text_or_throw r)"

definition v6_to_string_ec :: "inet_os \<Rightarrow> address_v6 \<Rightarrow> undefined_behaviour + error_code \<times> string" where
  "v6_to_string_ec os a =
     map_sum id (\<lambda>(ec, addr). (ec, case addr of None \<Rightarrow> [] | Some str \<Rightarrow> str))
       (inet_ntop os AF_INET6 (s6_addr a) max_addr_v6_str_len (ucast (scope_id a)))"

definition make_address_v4_ec :: "inet_os \<Rightarrow> string \<Rightarrow> undefined_behaviour + error_code \<times> address_v4" where
  "make_address_v4_ec os str =
     map_sum id (\<lambda>(ec, result, bytes, scope). (ec, if result \<le> 0 then address_v4_default else address_v4_of_bytes bytes))
       (inet_pton os AF_INET str)"

definition make_address_v6_ec :: "inet_os \<Rightarrow> string \<Rightarrow> undefined_behaviour + error_code \<times> address_v6" where
  "make_address_v6_ec os str =
     map_sum id (\<lambda>(ec, result, bytes, scope).
         (ec, if result \<le> 0 then address_v6_default else address_v6_of_bytes bytes (ucast scope)))
       (inet_pton os AF_INET6 str)"

text \<open>The forms that throw.\<close>

definition or_throw :: "undefined_behaviour + error_code \<times> 'a \<Rightarrow> undefined_behaviour + ip_exception + 'a" where
  "or_throw r = map_sum id (\<lambda>(ec, x). case ec of None \<Rightarrow> Inr x | Some e \<Rightarrow> Inl (System_error e)) r"

definition make_address_v4 :: "inet_os \<Rightarrow> string \<Rightarrow> undefined_behaviour + ip_exception + address_v4" where
  "make_address_v4 os str = or_throw (make_address_v4_ec os str)"

definition make_address_v6 :: "inet_os \<Rightarrow> string \<Rightarrow> undefined_behaviour + ip_exception + address_v6" where
  "make_address_v6 os str = or_throw (make_address_v6_ec os str)"

section \<open>Version-independent addresses\<close>

datatype address_type = ipv4 | ipv6

record address =
  type :: address_type
  ipv4_address :: address_v4
  ipv6_address :: address_v6

definition address_default :: address where
  "address_default = \<lparr>type = ipv4, ipv4_address = address_v4_default, ipv6_address = address_v6_default\<rparr>"

definition address_of_v4 :: "address_v4 \<Rightarrow> address" where
  "address_of_v4 a = \<lparr>type = ipv4, ipv4_address = a, ipv6_address = address_v6_default\<rparr>"

definition address_of_v6 :: "address_v6 \<Rightarrow> address" where
  "address_of_v6 a = \<lparr>type = ipv6, ipv4_address = address_v4_default, ipv6_address = a\<rparr>"

definition make_address_ec :: "inet_os \<Rightarrow> string \<Rightarrow> undefined_behaviour + error_code \<times> address" where
  "make_address_ec os str =
     (case make_address_v6_ec os str of
        Inl ub \<Rightarrow> Inl ub
      | Inr (None, a6) \<Rightarrow> Inr (no_error, address_of_v6 a6)
      | Inr (Some _, _) \<Rightarrow>
          (case make_address_v4_ec os str of
             Inl ub \<Rightarrow> Inl ub
           | Inr (None, a4) \<Rightarrow> Inr (no_error, address_of_v4 a4)
           | Inr (Some e, _) \<Rightarrow> Inr (Some e, address_default)))"

definition make_address :: "inet_os \<Rightarrow> string \<Rightarrow> undefined_behaviour + ip_exception + address" where
  "make_address os str = or_throw (make_address_ec os str)"

definition address_to_v4 :: "address \<Rightarrow> ip_exception + address_v4" where
  "address_to_v4 a = (if type a \<noteq> ipv4 then Inl Bad_address_cast else Inr (ipv4_address a))"

definition address_to_v6 :: "address \<Rightarrow> ip_exception + address_v6" where
  "address_to_v6 a = (if type a \<noteq> ipv6 then Inl Bad_address_cast else Inr (ipv6_address a))"

definition address_to_string :: "inet_os \<Rightarrow> address \<Rightarrow> undefined_behaviour + ip_exception + string" where
  "address_to_string os a =
     (if type a = ipv6 then v6_to_string os (ipv6_address a) else v4_to_string os (ipv4_address a))"

definition address_is_loopback :: "address \<Rightarrow> bool" where
  "address_is_loopback a =
     (if type a = ipv4 then v4_is_loopback (ipv4_address a) else v6_is_loopback (ipv6_address a))"

definition address_is_unspecified :: "address \<Rightarrow> bool" where
  "address_is_unspecified a =
     (if type a = ipv4 then v4_is_unspecified (ipv4_address a) else v6_is_unspecified (ipv6_address a))"

definition address_is_multicast :: "address \<Rightarrow> bool" where
  "address_is_multicast a =
     (if type a = ipv4 then v4_is_multicast (ipv4_address a) else v6_is_multicast (ipv6_address a))"

definition address_eq :: "address \<Rightarrow> address \<Rightarrow> bool" where
  "address_eq a1 a2 =
     (if type a1 \<noteq> type a2 then False
      else if type a1 = ipv6 then ipv6_address a1 = ipv6_address a2
      else ipv4_address a1 = ipv4_address a2)"

definition address_less :: "address \<Rightarrow> address \<Rightarrow> bool" where
  "address_less a1 a2 =
     (if type a1 = ipv4 \<and> type a2 = ipv6 then True
      else if type a1 = ipv6 \<and> type a2 = ipv4 then False
      else if type a1 = ipv6 then ipv6_address a1 < ipv6_address a2
      else ipv4_address a1 < ipv4_address a2)"

section \<open>Properties\<close>

text \<open>
  What the operating system's conversions promise: the text of an address is at most as long as
  \<^verbatim>\<open>INET_ADDRSTRLEN\<close> and \<^verbatim>\<open>INET6_ADDRSTRLEN\<close> say, contains no per cent sign, and is read back as the
  same address; an interface name is shorter than \<^verbatim>\<open>IF_NAMESIZE\<close> and names the interface it came from, whose number is not 0.
\<close>

definition os_text_ok :: "inet_os \<Rightarrow> family \<Rightarrow> nat \<Rightarrow> byte list \<Rightarrow> bool" where
  "os_text_ok os af len bytes \<longleftrightarrow>
     (case os_inet_ntop os af bytes len of
        (errno, result) \<Rightarrow> errno = no_error \<and>
          (case result of None \<Rightarrow> False
           | Some str \<Rightarrow> length str \<le> (if af = AF_INET then 15 else 45) \<and> CHR ''%'' \<notin> set str \<and>
               os_inet_pton os af str = (no_error, 1, bytes)))"

definition os_names_ok :: "inet_os \<Rightarrow> uint32_t \<Rightarrow> bool" where
  "os_names_ok os i \<longleftrightarrow>
     (case os_if_indextoname os i of
        None \<Rightarrow> True
      | Some name \<Rightarrow> length name < 16 \<and> os_if_nametoindex os name = i)"

lemma os_text_okE:
  assumes "os_text_ok os af len bytes"
  obtains str where "os_inet_ntop os af bytes len = (no_error, Some str)" "length str \<le> (if af = AF_INET then 15 else 45)"
    "CHR ''%'' \<notin> set str" "os_inet_pton os af str = (no_error, 1, bytes)"
  using assms by (auto simp: os_text_ok_def split: prod.splits option.splits)

lemma v4_text_roundtrip:
  assumes "os_text_ok os AF_INET max_addr_v4_str_len (to_bytes a)"
  shows "\<exists>str. v4_to_string os a = Inr (Inr str) \<and> make_address_v4_ec os str = Inr (no_error, a) \<and> CHR ''%'' \<notin> set str"
  using assms
  by (elim os_text_okE) (simp add: v4_to_string_def inet_ntop_def text_or_throw_def make_address_v4_ec_def inet_pton_def)

lemma takeWhile_percent:
  "CHR ''%'' \<notin> set str \<Longrightarrow> takeWhile (\<lambda>c. c \<noteq> CHR ''%'') (str @ CHR ''%'' # rest) = str"
  "CHR ''%'' \<notin> set str \<Longrightarrow> dropWhile (\<lambda>c. c \<noteq> CHR ''%'') (str @ CHR ''%'' # rest) = CHR ''%'' # rest"
  by (induction str) auto

lemma ucast_scope [simp]:
  "unat (ucast (i :: uint32_t) :: uint64_t) = unat i" "ucast (ucast (i :: uint32_t) :: uint64_t) = i"
  "(ucast (i :: uint32_t) :: uint64_t) = 0 \<longleftrightarrow> i = 0"
proof -
  show u: "unat (ucast i :: uint64_t) = unat i"
    by (simp add: unsigned_ucast_eq take_bit_nat_eq_self unsigned_less [THEN order_less_le_trans])
  show "ucast (ucast i :: uint64_t) = i" by (rule bit_word_eqI) (auto simp: bit_ucast_iff)
  show "(ucast i :: uint64_t) = 0 \<longleftrightarrow> i = 0" using u by (metis unsigned_0 unsigned_word_eqI)
qed

lemma scope_suffix_length:
  assumes "os_names_ok os i"
  shows "length (scope_suffix os bytes (ucast i)) \<le> 16"
proof -
  have "unat i < 10 ^ 10" using unsigned_less [of i, where ?'a = nat] by simp
  then have "length (decimal (unat i)) \<le> 10" by (rule length_decimal) simp
  then show ?thesis using assms by (auto simp: scope_suffix_def os_names_ok_def split: option.splits)
qed

lemma inet_ntop_v6:
  assumes "os_text_ok os AF_INET6 max_addr_v6_str_len bytes" and "os_names_ok os i"
  obtains str where "inet_ntop os AF_INET6 bytes max_addr_v6_str_len (ucast i) =
        Inr (no_error, Some (if i = 0 then str else str @ scope_suffix os bytes (ucast i)))"
    "CHR ''%'' \<notin> set str" "length str \<le> 45" "os_inet_pton os AF_INET6 str = (no_error, 1, bytes)"
proof -
  obtain str where str: "os_inet_ntop os AF_INET6 bytes max_addr_v6_str_len = (no_error, Some str)" "length str \<le> 45"
    "CHR ''%'' \<notin> set str" "os_inet_pton os AF_INET6 str = (no_error, 1, bytes)"
    using os_text_okE [OF assms(1)] by auto
  show thesis
    using scope_suffix_length [OF assms(2), of bytes] str
    by (intro that [of str]) (auto simp: inet_ntop_def max_addr_v6_str_len_def Let_def)
qed

text \<open>
  Reading back an address printed with a scope: what the conversion makes of the name after the per cent sign.
\<close>

lemma make_address_scope:
  assumes "CHR ''%'' \<notin> set str" "length str \<le> 45" "os_inet_pton os AF_INET6 str = (no_error, 1, s6_addr a)" "v6_ok a"
  shows "make_address_v6_ec os (str @ CHR ''%'' # name) =
    (let s = if scoped (s6_addr a) then os_if_nametoindex os name else 0 in
     if s \<noteq> 0 then Inr (no_error, Address_v6 (s6_addr a) s)
     else map_sum id (\<lambda>i. (no_error, Address_v6 (s6_addr a) (ucast (of_int i :: uint64_t)))) (atoi name))"
proof -
  have len: "\<not> length str > max_addr_v6_str_len" using assms(2) by (simp add: max_addr_v6_str_len_def)
  have a: "take 16 (s6_addr a) = s6_addr a" using assms(4) by (simp add: v6_ok_def)
  show ?thesis using assms(1,3) len a
    by (cases "atoi name") (simp_all add: make_address_v6_ec_def inet_pton_def takeWhile_percent address_v6_of_bytes_def Let_def)
qed

text \<open>
  C40: \<^verbatim>\<open>address_v6::to_string\<close> stays within its character array for every scope identifier, and \<^verbatim>\<open>make_address_v6\<close> reads the text
  back as the same address and scope in these cases: no scope; a link-local address whose interface has a name; a scope below \<^verbatim>\<open>2^31\<close> on
  an address that is not link-local; and a scope below \<^verbatim>\<open>2^31\<close> without an interface on a link-local address, provided that
  no interface has that number as its name.  A scope of \<^verbatim>\<open>2^31\<close> or more on an address that is not
  link-local makes the reading undefined (\<^verbatim>\<open>atoi\<close> of a number that is not an \<^verbatim>\<open>int\<close>).
\<close>

theorem v6_text_roundtrip:
  assumes "v6_ok a" and "os_text_ok os AF_INET6 max_addr_v6_str_len (s6_addr a)" and "os_names_ok os (scope_id a)"
  shows "\<exists>str. v6_to_string os a = Inr (Inr str) \<and>
    (scope_id a = 0 \<or>
     scoped (s6_addr a) \<and> os_if_indextoname os (scope_id a) \<noteq> None \<or>
     \<not> scoped (s6_addr a) \<and> unat (scope_id a) < 2 ^ 31 \<or>
     scoped (s6_addr a) \<and> os_if_indextoname os (scope_id a) = None \<and> unat (scope_id a) < 2 ^ 31 \<and>
       os_if_nametoindex os (decimal (unat (scope_id a))) = 0
     \<longrightarrow> make_address_v6_ec os str = Inr (no_error, a)) \<and>
    (\<not> scoped (s6_addr a) \<and> 2 ^ 31 \<le> unat (scope_id a) \<longrightarrow> make_address_v6_ec os str = Inl Integer_out_of_range)"
proof -
  let ?i = "scope_id a" and ?b = "s6_addr a"
  obtain str where str: "inet_ntop os AF_INET6 ?b max_addr_v6_str_len (ucast ?i) =
        Inr (no_error, Some (if ?i = 0 then str else str @ scope_suffix os ?b (ucast ?i)))"
    "CHR ''%'' \<notin> set str" "length str \<le> 45" "os_inet_pton os AF_INET6 str = (no_error, 1, ?b)"
    using inet_ntop_v6 [OF assms(2,3)] by blast
  have a: "Address_v6 ?b ?i = a" "take 16 ?b = ?b" using assms(1) by (cases a; simp add: v6_ok_def)+
  define name where "name = (case os_if_indextoname os ?i of Some n \<Rightarrow> if scoped ?b then n else decimal (unat ?i) | None \<Rightarrow> decimal (unat ?i))"
  define shown where "shown = (if ?i = 0 then str else str @ CHR ''%'' # name)"
  have "scope_suffix os ?b (ucast ?i) = CHR ''%'' # name" by (simp add: scope_suffix_def name_def split: option.split)
  then have "v6_to_string os a = Inr (Inr shown)" using str(1) by (simp add: v6_to_string_def text_or_throw_def shown_def)
  moreover have "make_address_v6_ec os shown = Inr (no_error, a)" if "?i = 0"
    using that str a by (simp add: shown_def make_address_v6_ec_def inet_pton_def address_v6_of_bytes_def)
  moreover have "make_address_v6_ec os shown = Inr (no_error, a)"
    if "?i \<noteq> 0" "scoped ?b" "os_if_indextoname os ?i = Some n" for n
    using that make_address_scope [OF str(2-4) assms(1), of name] assms(3) a by (simp add: shown_def name_def os_names_ok_def Let_def)
  moreover have "make_address_v6_ec os shown = Inr (no_error, a)"
    if "?i \<noteq> 0" "unat ?i < 2 ^ 31" "\<not> scoped ?b \<or> os_if_indextoname os ?i = None \<and> os_if_nametoindex os (decimal (unat ?i)) = 0"
  proof -
    have "name = decimal (unat ?i)" using that(3) by (auto simp: name_def split: option.split)
    moreover have "ucast (of_nat (unat ?i) :: uint64_t) = ?i" by simp
    ultimately show ?thesis using that make_address_scope [OF str(2-4) assms(1), of name] a
      by (auto simp: shown_def Let_def atoi_decimal)
  qed
  moreover have "make_address_v6_ec os shown = Inl Integer_out_of_range" if "\<not> scoped ?b" "2 ^ 31 \<le> unat ?i"
  proof -
    have "name = decimal (unat ?i)" "?i \<noteq> 0" using that by (auto simp: name_def split: option.split)
    moreover have "atoi (decimal (unat ?i)) = Inl Integer_out_of_range"
      using atoi_digits [of "decimal (unat ?i)"] decimal_digits that(2) by auto
    ultimately show ?thesis using that make_address_scope [OF str(2-4) assms(1), of name] by (simp add: shown_def Let_def)
  qed
  ultimately show ?thesis by (intro exI [of _ shown]) auto
qed

text \<open>An operating system that knows the addresses and the interface the examples use.\<close>

definition ex_link_local :: "byte list" where
  "ex_link_local = [0xfe, 0x80, 0, 0, 0, 0, 0, 0, 0, 0, 0, 0, 0, 0, 0, 1]"

definition ex_global :: "byte list" where
  "ex_global = [0x20, 0x01, 0x0d, 0xb8, 0, 0, 0, 0, 0, 0, 0, 0, 0, 0, 0, 1]"

definition ex_names :: "(byte list \<times> string) list" where
  "ex_names = [(ex_link_local, ''fe80::1''), (ex_global, ''2001:db8::1''), ([10, 1, 2, 3], ''10.1.2.3'')]"

definition ex_os :: inet_os where
  "ex_os = \<lparr>os_inet_ntop = (\<lambda>af bytes len. (no_error, map_of ex_names bytes)),
     os_inet_pton = (\<lambda>af str. case find (\<lambda>(b, t). t = str) ex_names of
        Some (b, t) \<Rightarrow> (no_error, 1, b) | None \<Rightarrow> (no_error, 0, [])),
     os_if_indextoname = (\<lambda>i. if i = 2 then Some ''eth0'' else None),
     os_if_nametoindex = (\<lambda>n. if n = ''eth0'' then 2 else 0)\<rparr>"

lemma ex_os_text_ok:
  "os_text_ok ex_os AF_INET6 max_addr_v6_str_len ex_link_local" "os_text_ok ex_os AF_INET6 max_addr_v6_str_len ex_global"
  "os_text_ok ex_os AF_INET max_addr_v4_str_len [10, 1, 2, 3]"
  by (simp_all add: os_text_ok_def ex_os_def ex_names_def ex_link_local_def ex_global_def)

lemma ex_os_names_ok: "os_names_ok ex_os 2" "os_names_ok ex_os 0x80000000"
  by (simp_all add: os_names_ok_def ex_os_def)

theorem v6_text_roundtrip_witness:
  "(\<exists>str. v6_to_string ex_os (Address_v6 ex_link_local 2) = Inr (Inr str) \<and>
      make_address_v6_ec ex_os str = Inr (no_error, Address_v6 ex_link_local 2)) \<and>
   (\<exists>str. v6_to_string ex_os (Address_v6 ex_global 0x80000000) = Inr (Inr str) \<and>
      make_address_v6_ec ex_os str = Inl Integer_out_of_range)"
proof -
  have "v6_ok (Address_v6 ex_link_local 2)" "v6_ok (Address_v6 ex_global 0x80000000)"
    by (simp_all add: v6_ok_def ex_link_local_def ex_global_def)
  moreover have "scoped ex_link_local" "\<not> scoped ex_global" "os_if_indextoname ex_os 2 \<noteq> None"
    by (simp_all add: scoped_def ex_link_local_def ex_global_def ex_os_def)
  ultimately show ?thesis
    using v6_text_roundtrip [of "Address_v6 ex_link_local 2" ex_os] v6_text_roundtrip [of "Address_v6 ex_global 0x80000000" ex_os]
      ex_os_text_ok ex_os_names_ok by auto
qed

section \<open>IPv4 addresses inside IPv6 addresses\<close>

lemma four_bytes: "length bs = 4 \<Longrightarrow> [bs ! 0, bs ! 1, bs ! 2, bs ! 3] = bs"
  by (auto simp: numeral_eq_Suc length_Suc_conv)

lemma mapped_roundtrip:
  "make_address_v4_mapped (make_address_v6_mapped a) = Inr a" "v6_to_v4 (v4_mapped a) = Inr a"
proof -
  have "\<forall>i<10. (0 # 0 # 0 # 0 # 0 # 0 # 0 # 0 # 0 # 0 # bs) ! i = (0 :: byte)" for bs
    by (auto simp: less_Suc_eq numeral_eq_Suc)
  then show "make_address_v4_mapped (make_address_v6_mapped a) = Inr a" "v6_to_v4 (v4_mapped a) = Inr a"
    using four_bytes [of "to_bytes a"]
    by (simp_all add: make_address_v4_mapped_def make_address_v6_mapped_def v6_to_v4_def v4_mapped_def is_v4_mapped_def
        address_v6_of_bytes_def v6_to_bytes_def Let_def)
qed

end
