(* ===== verification/Word_Prefix.thy ===== *)
theory Word_Prefix
  imports Prelude
begin

text \<open>
  Words that agree on their leading bits, and loops that count upwards with wrap-around: the
  arithmetic behind networks and address ranges.
\<close>

section \<open>Leading bits\<close>

definition lowest :: "nat \<Rightarrow> 'a::len word \<Rightarrow> 'a word" where
  "lowest h w = and w (not (mask h))"

definition highest :: "nat \<Rightarrow> 'a::len word \<Rightarrow> 'a word" where
  "highest h w = or w (mask h)"

definition agree :: "nat \<Rightarrow> 'a::len word \<Rightarrow> 'a word \<Rightarrow> bool" where
  "agree h v w \<longleftrightarrow> drop_bit h v = drop_bit h w"

lemma agree_bits: "agree h v w \<longleftrightarrow> (\<forall>i\<ge>h. bit v i = bit w i)"
proof -
  have "agree h v w \<longleftrightarrow> (\<forall>n. bit v (h + n) = bit w (h + n))"
    by (auto simp: agree_def bit_eq_iff bit_drop_bit_eq) (metis bit_imp_le_length not_less trans_le_add2)+
  then show ?thesis by (metis le_iff_add)
qed

lemma lowest_eq: "lowest h w = push_bit h (drop_bit h w)"
  by (rule bit_word_eqI) (auto simp: lowest_def bit_and_iff bit_not_iff bit_mask_iff bit_push_bit_iff bit_drop_bit_eq)

lemma agree_lowest: "agree h v w \<longleftrightarrow> lowest h v = lowest h w"
  unfolding agree_bits bit_eq_iff [of "lowest h v"]
  by (auto simp: lowest_def bit_and_iff bit_not_iff bit_mask_iff dest: bit_imp_le_length)

lemma unat_lowest: "unat (lowest h w) = 2 ^ h * (unat w div 2 ^ h)"
proof -
  have "2 ^ h * (unat w div 2 ^ h) \<le> unat w" by (simp add: mult.commute [of "2 ^ h"] div_times_less_eq_dividend)
  then have "2 ^ h * (unat w div 2 ^ h) < 2 ^ LENGTH('a)"
    using unsigned_less [of w, where ?'a = nat] by linarith
  then show ?thesis
    unfolding lowest_eq unsigned_push_bit_eq unat_drop_bit_eq
    by (simp add: push_bit_eq_mult drop_bit_eq_div take_bit_nat_eq_self mult.commute)
qed

lemma unat_highest:
  assumes "h \<le> LENGTH('a)"
  shows "unat (highest h w :: 'a::len word) = 2 ^ h * (unat w div 2 ^ h) + (2 ^ h - 1)"
proof -
  have "highest h w = or (lowest h w) (mask h)"
    by (rule bit_word_eqI) (auto simp: highest_def lowest_def bit_or_iff bit_and_iff bit_not_iff)
  then have "unat (highest h w) = or (unat (lowest h w)) (unat (mask h :: 'a word))"
    by (simp add: unsigned_or_eq)
  also have "unat (mask h :: 'a word) = mask h"
    using assms by (auto intro!: bit_eqI simp: bit_unsigned_iff bit_mask_iff)
  also have "or (unat (lowest h w)) (mask h) = unat (lowest h w) + mask h"
    by (rule disjunctive_add_eq_or [symmetric])
      (auto simp: bit_eq_iff bit_and_iff bit_mask_iff bit_unsigned_iff lowest_def bit_not_iff)
  finally show ?thesis by (simp add: unat_lowest mask_eq_exp_minus_1)
qed

lemma agree_range:
  fixes v w :: "'a::len word"
  assumes "h \<le> LENGTH('a)"
  shows "agree h v w \<longleftrightarrow> lowest h w \<le> v \<and> v \<le> highest h w"
proof -
  have "agree h v w \<longleftrightarrow> unat v div 2 ^ h = unat w div 2 ^ h"
    unfolding agree_def drop_bit_eq_div [symmetric] unat_drop_bit_eq [symmetric] by (auto intro: unsigned_word_eqI)
  also have "\<dots> \<longleftrightarrow> 2 ^ h * (unat w div 2 ^ h) \<le> unat v \<and> unat v \<le> 2 ^ h * (unat w div 2 ^ h) + (2 ^ h - 1)"
  proof -
    have "x div d = q \<longleftrightarrow> d * q \<le> x \<and> x \<le> d * q + (d - 1)" if d: "0 < d" for x q d :: nat
    proof
      assume "x div d = q"
      then show "d * q \<le> x \<and> x \<le> d * q + (d - 1)"
        using mult_div_mod_eq [of d x] mod_less_divisor [OF d, of x] by auto
    next
      assume "d * q \<le> x \<and> x \<le> d * q + (d - 1)"
      then show "x div d = q" using d by (intro div_nat_eqI) auto
    qed
    then show ?thesis by simp
  qed
  finally show ?thesis by (simp add: word_le_nat_alt unat_lowest unat_highest [OF assms])
qed

lemma agree_refl [simp]: "agree h w w"
  by (simp add: agree_def)

lemma agree_sym: "agree h v w \<Longrightarrow> agree h w v"
  by (simp add: agree_def)

lemma agree_trans: "agree h u v \<Longrightarrow> agree h v w \<Longrightarrow> agree h u w"
  by (simp add: agree_def)

lemma agree_mono: "h \<le> k \<Longrightarrow> agree h v w \<Longrightarrow> agree k v w"
  by (auto simp: agree_bits)

text \<open>The words that agree with \<open>v\<close> on more bits than those that agree with \<open>w\<close>.\<close>

lemma agree_psubset:
  fixes v w :: "'a::len word"
  assumes "h \<le> LENGTH('a)" and "k \<le> LENGTH('a)"
  shows "{x. agree h x v} \<subset> {x. agree k x w} \<longleftrightarrow> h < k \<and> agree k v w"
proof
  assume sub: "{x. agree h x v} \<subset> {x. agree k x w}"
  have "v \<in> {x. agree h x v}" by simp
  then have vw: "agree k v w" using sub by blast
  have "h < k"
  proof (rule ccontr)
    assume "\<not> h < k"
    then have "k \<le> h" by simp
    have "{x. agree k x w} \<subseteq> {x. agree h x v}"
    proof
      fix x assume "x \<in> {x. agree k x w}"
      then have "agree k x v" using vw agree_sym agree_trans by blast
      then show "x \<in> {x. agree h x v}" using \<open>k \<le> h\<close> agree_mono by blast
    qed
    then show False using sub by blast
  qed
  then show "h < k \<and> agree k v w" using vw by blast
next
  assume *: "h < k \<and> agree k v w"
  let ?x = "flip_bit h v"
  have "h < LENGTH('a)" using * assms by simp
  then have "\<not> agree h ?x v" by (auto simp: agree_bits bit_flip_bit_iff)
  moreover have "agree k ?x v" using * by (auto simp: agree_bits bit_flip_bit_iff dest: bit_imp_le_length)
  then have "agree k ?x w" using * agree_trans by blast
  moreover have "{x. agree h x v} \<subseteq> {x. agree k x w}"
    using * by (auto intro: agree_trans agree_mono [of h k] less_imp_le)
  ultimately show "{x. agree h x v} \<subset> {x. agree k x w}" by blast
qed

section \<open>Counting from a word to a word\<close>

text \<open>The words a loop visits that starts at \<open>b\<close>, adds one, and stops when it is at \<open>e\<close>.\<close>

definition visited :: "'a::len word \<Rightarrow> 'a word \<Rightarrow> 'a word set" where
  "visited b e = {b + of_nat k | k. \<forall>j\<le>k. b + of_nat j \<noteq> e}"

lemma visits_iff: "(\<forall>j\<le>k. b + of_nat j \<noteq> e) \<longleftrightarrow> k < unat (e - b)" for b e :: "'a::len word"
proof
  assume *: "\<forall>j\<le>k. b + of_nat j \<noteq> e"
  have "b + of_nat (unat (e - b)) = e" by simp
  with * show "k < unat (e - b)" by (meson not_le)
next
  assume k: "k < unat (e - b)"
  show "\<forall>j\<le>k. b + of_nat j \<noteq> e"
  proof (intro allI impI notI)
    fix j assume j: "j \<le> k" "b + of_nat j = e"
    then have "unat (of_nat j :: 'a word) = unat (e - b)" by auto
    moreover have "j < 2 ^ LENGTH('a)" using j(1) k unsigned_less [of "e - b", where ?'a = nat] by linarith
    ultimately show False using j(1) k by (simp add: unat_of_nat)
  qed
qed

lemma visited_interval:
  assumes "b \<le> e"
  shows "visited b e = {b..<e}"
proof -
  have "(\<exists>k. x = b + of_nat k \<and> k < unat (e - b)) \<longleftrightarrow> b \<le> x \<and> x < e" for x
  proof
    assume "\<exists>k. x = b + of_nat k \<and> k < unat (e - b)"
    then obtain k where k: "x = b + of_nat k" "k < unat e - unat b" using assms by (auto simp: unat_sub)
    then have "unat b + k < 2 ^ LENGTH('a)" using unsigned_less [of e, where ?'a = nat] by linarith
    then have "unat x = unat b + k" using k(1) by (simp add: unat_word_ariths unat_of_nat)
    then show "b \<le> x \<and> x < e" using k(2) by (simp add: word_le_nat_alt word_less_nat_alt)
  next
    assume x: "b \<le> x \<and> x < e"
    then have "unat (x - b) < unat (e - b)" using assms by (auto simp: unat_sub word_le_nat_alt word_less_nat_alt)
    then show "\<exists>k. x = b + of_nat k \<and> k < unat (e - b)" by (intro exI [of _ "unat (x - b)"]) simp
  qed
  then show ?thesis unfolding visited_def visits_iff by auto
qed

lemma visited_self: "visited b b = {}"
  by (auto simp: visited_def)

lemma visited_iff: "x \<in> visited b e \<longleftrightarrow> x - b < e - b"
proof -
  have "x \<in> visited b e \<longleftrightarrow> (\<exists>k. x = b + of_nat k \<and> k < unat (e - b))"
    unfolding visited_def visits_iff by auto
  also have "\<dots> \<longleftrightarrow> unat (x - b) < unat (e - b)"
  proof
    assume "\<exists>k. x = b + of_nat k \<and> k < unat (e - b)"
    then obtain k where k: "x - b = of_nat k" "k < unat (e - b)" by auto
    then have "k < 2 ^ LENGTH('a)" using unsigned_less [of "e - b", where ?'a = nat] by linarith
    then show "unat (x - b) < unat (e - b)" using k by (simp add: unat_of_nat)
  next
    assume "unat (x - b) < unat (e - b)"
    then show "\<exists>k. x = b + of_nat k \<and> k < unat (e - b)" by (intro exI [of _ "unat (x - b)"]) simp
  qed
  finally show ?thesis by (simp add: word_less_nat_alt)
qed

text \<open>The words that agree with \<open>w\<close> on the leading bits, visited one after the other.\<close>

lemma visited_agree:
  fixes w :: "'a::len word"
  assumes "h < LENGTH('a)"
  shows "visited (lowest h w) (highest h w + 1) = {x. agree h x w}"
proof -
  let ?b = "lowest h w"
  have le: "h \<le> LENGTH('a)" using assms by simp
  have p: "unat ((2 :: 'a word) ^ h) = 2 ^ h" using assms unat_of_nat [of "2 ^ h", where 'a = 'a] by simp
  have "unat (highest h w + 1) = (unat ?b + 2 ^ h) mod 2 ^ LENGTH('a)"
    unfolding unat_word_ariths unat_highest [OF le] unat_lowest by (simp add: mod_Suc_eq)
  also have "\<dots> = unat (?b + 2 ^ h)" by (simp add: unat_word_ariths p)
  finally have "highest h w + 1 = ?b + 2 ^ h" by (rule unsigned_word_eqI)
  then have "x \<in> visited ?b (highest h w + 1) \<longleftrightarrow> unat (x - ?b) < 2 ^ h" for x
    by (simp add: visited_iff word_less_nat_alt p)
  also have "unat (x - ?b) < 2 ^ h \<longleftrightarrow> agree h x w" for x
  proof
    assume y: "unat (x - ?b) < 2 ^ h"
    have q: "unat ?b div 2 ^ h = unat w div 2 ^ h" by (simp add: unat_lowest)
    have "unat ?b + unat (x - ?b) \<le> unat (highest h w)"
      using y unfolding unat_lowest unat_highest [OF le] by simp
    then have "unat ?b + unat (x - ?b) < 2 ^ LENGTH('a)"
      using unsigned_less [of "highest h w", where ?'a = nat] by linarith
    then have "unat x = unat ?b + unat (x - ?b)"
      using unat_word_ariths(1) [of ?b "x - ?b"] by simp
    then have "?b \<le> x \<and> x \<le> highest h w"
      using y \<open>unat ?b + unat (x - ?b) \<le> unat (highest h w)\<close> by (simp add: word_le_nat_alt)
    then show "agree h x w" using agree_range [OF le] by blast
  next
    assume "agree h x w"
    then have "?b \<le> x" "x \<le> highest h w" using agree_range [OF le] by blast+
    then have "unat ?b \<le> unat x" "unat x \<le> unat ?b + (2 ^ h - 1)"
      unfolding word_le_nat_alt unat_highest [OF le] unat_lowest by simp_all
    moreover have "unat (x - ?b) = unat x - unat ?b" using \<open>?b \<le> x\<close> by (simp add: unat_sub)
    moreover have "0 < (2 :: nat) ^ h" by simp
    ultimately show "unat (x - ?b) < 2 ^ h" by linarith
  qed
  finally show ?thesis by auto
qed

end
