(* ===== verification/Ip_Network.thy ===== *)
theory Ip_Network
  imports Ip_Address Word_Prefix
begin

text \<open>
  \<^verbatim>\<open>asio/ip/network_v4\<close> and \<^verbatim>\<open>network_v6\<close> with the address iterators and ranges.  Networks are
  compared with sets of addresses: \<open>members\<close> are the addresses that agree with the network's
  address on the first \<open>prefix_length\<close> bits.
\<close>

section \<open>Iterators and ranges of IPv4 addresses\<close>

text \<open>An iterator is the address it points to.\<close>

definition v4_increment :: "address_v4 \<Rightarrow> address_v4" where
  "v4_increment a = address_v4_of_uint (and (to_uint a + 1) 0xFFFFFFFF)"

definition v4_decrement :: "address_v4 \<Rightarrow> address_v4" where
  "v4_decrement a = address_v4_of_uint (and (to_uint a - 1) 0xFFFFFFFF)"

record 'a address_range =
  range_begin :: 'a
  range_end :: 'a

definition v4_range_size :: "address_v4 address_range \<Rightarrow> uint64_t" where
  "v4_range_size r = ucast (to_uint (range_end r) - to_uint (range_begin r))"

definition v4_range_empty :: "address_v4 address_range \<Rightarrow> bool" where
  "v4_range_empty r \<longleftrightarrow> v4_range_size r = 0"

definition v4_range_find :: "address_v4 address_range \<Rightarrow> address_v4 \<Rightarrow> address_v4" where
  "v4_range_find r addr = (if addr \<ge> range_begin r \<and> addr < range_end r then addr else range_end r)"

section \<open>IPv4 networks\<close>

record network_v4 =
  net_address :: address_v4
  net_prefix_length :: uint16_t

definition network_v4_default :: network_v4 where
  "network_v4_default = \<lparr>net_address = address_v4_default, net_prefix_length = 0\<rparr>"

definition network_v4_of_prefix :: "address_v4 \<Rightarrow> uint16_t \<Rightarrow> ip_exception + network_v4" where
  "network_v4_of_prefix addr prefix_len =
     (if prefix_len > 32 then Inl Out_of_range_exception
      else Inr \<lparr>net_address = addr, net_prefix_length = prefix_len\<rparr>)"

text \<open>
  The switch on a byte of the mask, whose cases fall through: the number of leading ones, and
  whether the mask is finished.
\<close>

definition mask_byte :: "byte \<Rightarrow> (uint16_t \<times> bool) option" where
  "mask_byte b =
     (if b = 255 then Some (8, False)
      else if b = 254 then Some (7, True)
      else if b = 252 then Some (6, True)
      else if b = 248 then Some (5, True)
      else if b = 240 then Some (4, True)
      else if b = 224 then Some (3, True)
      else if b = 192 then Some (2, True)
      else if b = 128 then Some (1, True)
      else if b = 0 then Some (0, True)
      else None)"

fun mask_loop :: "byte list \<Rightarrow> bool \<Rightarrow> uint16_t \<Rightarrow> ip_exception + uint16_t" where
  "mask_loop [] finished prefix_length = Inr prefix_length"
| "mask_loop (b # bs) finished prefix_length =
     (if finished then
        (if b \<noteq> 0 then Inl Invalid_argument_exception else mask_loop bs finished prefix_length)
      else
        case mask_byte b of
          None \<Rightarrow> Inl Out_of_range_exception
        | Some (n, fin) \<Rightarrow> mask_loop bs fin (prefix_length + n))"

definition network_v4_of_mask :: "address_v4 \<Rightarrow> address_v4 \<Rightarrow> ip_exception + network_v4" where
  "network_v4_of_mask addr netmask =
     map_sum id (\<lambda>prefix_length. \<lparr>net_address = addr, net_prefix_length = prefix_length\<rparr>)
       (mask_loop (to_bytes netmask) False 0)"

definition netmask :: "network_v4 \<Rightarrow> address_v4" where
  "netmask n =
     (let nmbits = 0xffffffff
      in address_v4_of_uint (if net_prefix_length n = 0 then 0 else push_bit (32 - unat (net_prefix_length n)) nmbits))"

definition network :: "network_v4 \<Rightarrow> address_v4" where
  "network n = address_v4_of_uint (and (to_uint (net_address n)) (to_uint (netmask n)))"

definition broadcast :: "network_v4 \<Rightarrow> address_v4" where
  "broadcast n = address_v4_of_uint (or (to_uint (network n)) (xor (to_uint (netmask n)) 0xFFFFFFFF))"

definition is_host :: "network_v4 \<Rightarrow> bool" where
  "is_host n \<longleftrightarrow> net_prefix_length n = 32"

definition hosts :: "network_v4 \<Rightarrow> address_v4 address_range" where
  "hosts n =
     (if is_host n
      then \<lparr>range_begin = net_address n, range_end = address_v4_of_uint (to_uint (net_address n) + 1)\<rparr>
      else \<lparr>range_begin = address_v4_of_uint (to_uint (network n) + 1), range_end = broadcast n\<rparr>)"

definition canonical :: "network_v4 \<Rightarrow> ip_exception + network_v4" where
  "canonical n = network_v4_of_prefix (network n) (net_prefix_length n)"

definition is_subnet_of :: "network_v4 \<Rightarrow> network_v4 \<Rightarrow> ip_exception + bool" where
  "is_subnet_of n other =
     (if net_prefix_length other \<ge> net_prefix_length n then Inr False
      else case network_v4_of_prefix (net_address n) (net_prefix_length other) of
             Inl e \<Rightarrow> Inl e
           | Inr me \<Rightarrow>
               (case (canonical other, canonical me) of
                  (Inr c1, Inr c2) \<Rightarrow> Inr (c1 = c2)
                | (Inl e, _) \<Rightarrow> Inl e
                | (_, Inl e) \<Rightarrow> Inl e))"

definition v4_network_to_string :: "inet_os \<Rightarrow> network_v4 \<Rightarrow> undefined_behaviour + ip_exception + string" where
  "v4_network_to_string os n =
     map_sum id (map_sum id (\<lambda>addr. addr @ CHR ''/'' # decimal (unat (net_prefix_length n))))
       (v4_to_string os (net_address n))"

text \<open>
  Parsing: \<open>pos\<close> is where the slash is; nothing but digits may follow it.  \<^verbatim>\<open>atoi\<close> is called
  on these digits.
\<close>

definition make_network_v4_ec :: "inet_os \<Rightarrow> string \<Rightarrow> undefined_behaviour + ip_exception + error_code \<times> network_v4" where
  "make_network_v4_ec os str =
     (let pos = length (takeWhile (\<lambda>c. c \<noteq> CHR ''/'') str);
          rest = drop (pos + 1) str
      in if pos = length str then Inr (Inr (Some Invalid_argument, network_v4_default))
         else if pos = length str - 1 then Inr (Inr (Some Invalid_argument, network_v4_default))
         else if \<exists>c\<in>set rest. \<not> is_digit c then Inr (Inr (Some Invalid_argument, network_v4_default))
         else case make_address_v4_ec os (take pos str) of
                Inl ub \<Rightarrow> Inl ub
              | Inr (Some e, _) \<Rightarrow> Inr (Inr (Some e, network_v4_default))
              | Inr (None, addr) \<Rightarrow>
                  (case atoi rest of
                     Inl ub \<Rightarrow> Inl ub
                   | Inr prefix_len \<Rightarrow>
                       if prefix_len < 0 \<or> prefix_len > 32 then Inr (Inr (Some Invalid_argument, network_v4_default))
                       else Inr (map_sum id (Pair no_error) (network_v4_of_prefix addr (of_int prefix_len)))))"

section \<open>IPv4 networks as sets of addresses\<close>

definition net_ok :: "network_v4 \<Rightarrow> bool" where
  "net_ok n \<longleftrightarrow> net_prefix_length n \<le> 32"

definition host_bits :: "network_v4 \<Rightarrow> nat" where
  "host_bits n = 32 - unat (net_prefix_length n)"

definition members :: "network_v4 \<Rightarrow> address_v4 set" where
  "members n = {a. agree (host_bits n) (to_uint a) (to_uint (net_address n))}"

lemma all_ones: "(0xFFFFFFFF :: uint32_t) = - 1" "(0xFF :: byte) = - 1"
  by simp_all

lemma host_bits_le: "host_bits n \<le> LENGTH(32)"
  by (simp add: host_bits_def)

lemma netmask_uint: "to_uint (netmask n) = not (mask (host_bits n))"
proof -
  have "not (mask 32) = (0 :: uint32_t)" by (rule bit_word_eqI) (simp add: bit_not_iff bit_mask_iff)
  then show ?thesis
    by (simp add: netmask_def host_bits_def all_ones push_bit_minus_one_eq_not_mask Let_def)
qed

lemma network_uint: "to_uint (network n) = lowest (host_bits n) (to_uint (net_address n))"
  by (simp add: network_def netmask_uint lowest_def)

lemma broadcast_uint: "to_uint (broadcast n) = highest (host_bits n) (to_uint (net_address n))"
  unfolding broadcast_def to_uint_of_uint network_uint netmask_uint all_ones
  by (rule bit_word_eqI) (auto simp: lowest_def highest_def bit_or_iff bit_xor_iff bit_and_iff bit_not_iff bit_mask_iff)

lemma members_interval: "members n = {network n..broadcast n}"
  using agree_range [OF host_bits_le]
  by (auto simp: members_def address_v4_order network_uint broadcast_uint)

lemma net_ok_prefix: "net_ok n \<Longrightarrow> network_v4_of_prefix a (net_prefix_length n) = Inr \<lparr>net_address = a, net_prefix_length = net_prefix_length n\<rparr>"
  by (auto simp: network_v4_of_prefix_def net_ok_def)

lemma v4_image_eq: "to_uint ` A = to_uint ` B \<longleftrightarrow> A = B"
  by (rule inj_image_eq_iff) (simp add: inj_def)

lemma members_psubset:
  "members n \<subset> members other \<longleftrightarrow>
     host_bits n < host_bits other \<and> agree (host_bits other) (to_uint (net_address n)) (to_uint (net_address other))"
proof -
  have m: "to_uint ` members n = {x. agree (host_bits n) x (to_uint (net_address n))}" for n
    by (auto simp: members_def image_iff intro!: exI [of _ "address_v4_of_uint x" for x])
  have "members n \<subset> members other \<longleftrightarrow> to_uint ` members n \<subset> to_uint ` members other"
    by (metis inj_image_mem_iff inj_image_subset_iff injI psubset_eq to_uint_inject v4_image_eq)
  then show ?thesis unfolding m agree_psubset [OF host_bits_le host_bits_le] .
qed

text \<open>
  \<^verbatim>\<open>network_v4::is_subnet_of\<close> never throws on networks made by the constructors and answers whether
  the addresses of the one network are a proper subset of the addresses of the other.
\<close>

theorem is_subnet_of_proper_subset:
  assumes "net_ok n" and "net_ok other"
  shows "is_subnet_of n other = Inr (members n \<subset> members other)"
proof -
  have p: "unat (net_prefix_length n) \<le> 32" "unat (net_prefix_length other) \<le> 32"
    using assms by (simp_all add: net_ok_def word_le_nat_alt)
  show ?thesis
  proof (cases "net_prefix_length other \<ge> net_prefix_length n")
    case True
    then have "\<not> host_bits n < host_bits other" by (auto simp: host_bits_def word_le_nat_alt)
    then show ?thesis using True by (simp add: is_subnet_of_def members_psubset)
  next
    case False
    then have lt: "host_bits n < host_bits other" using p by (auto simp: host_bits_def word_le_nat_alt)
    let ?me = "\<lparr>net_address = net_address n, net_prefix_length = net_prefix_length other\<rparr>"
    have h: "host_bits ?me = host_bits other" by (simp add: host_bits_def)
    have "network other = network ?me \<longleftrightarrow>
        agree (host_bits other) (to_uint (net_address n)) (to_uint (net_address other))"
      unfolding to_uint_inject [symmetric] network_uint h by (auto simp: agree_lowest)
    moreover have "net_ok ?me" using assms(2) by (simp add: net_ok_def)
    ultimately show ?thesis
      using False assms lt
      by (simp add: is_subnet_of_def members_psubset net_ok_prefix canonical_def net_ok_prefix [of ?me, simplified])
  qed
qed

theorem is_subnet_of_proper_subset_witness:
  "is_subnet_of \<lparr>net_address = address_v4_of_uint 0x0A010200, net_prefix_length = 24\<rparr>
       \<lparr>net_address = address_v4_of_uint 0x0A000000, net_prefix_length = 8\<rparr> = Inr True \<and>
   members \<lparr>net_address = address_v4_of_uint 0x0A010200, net_prefix_length = 24\<rparr> \<subset>
       members \<lparr>net_address = address_v4_of_uint 0x0A000000, net_prefix_length = 8\<rparr>"
proof -
  let ?n = "\<lparr>net_address = address_v4_of_uint 0x0A010200, net_prefix_length = 24\<rparr>"
  let ?o = "\<lparr>net_address = address_v4_of_uint 0x0A000000, net_prefix_length = 8\<rparr>"
  have "is_subnet_of ?n ?o = Inr True"
    by (simp add: is_subnet_of_def network_v4_of_prefix_def canonical_def network_def netmask_def Let_def)
  moreover have "is_subnet_of ?n ?o = Inr (members ?n \<subset> members ?o)"
    by (rule is_subnet_of_proper_subset) (simp_all add: net_ok_def)
  ultimately show ?thesis by simp
qed

section \<open>Prefix lengths and masks\<close>

definition prefix_mask :: "nat \<Rightarrow> byte list" where
  "prefix_mask k = to_bytes (address_v4_of_uint (if k = 0 then 0 else push_bit (32 - k) 0xffffffff))"

lemma prefix_mask_table:
  "map prefix_mask [0..<33] =
    [[0, 0, 0, 0], [128, 0, 0, 0], [192, 0, 0, 0], [224, 0, 0, 0], [240, 0, 0, 0], [248, 0, 0, 0], [252, 0, 0, 0], [254, 0, 0, 0],
     [255, 0, 0, 0], [255, 128, 0, 0], [255, 192, 0, 0], [255, 224, 0, 0], [255, 240, 0, 0], [255, 248, 0, 0], [255, 252, 0, 0], [255, 254, 0, 0],
     [255, 255, 0, 0], [255, 255, 128, 0], [255, 255, 192, 0], [255, 255, 224, 0], [255, 255, 240, 0], [255, 255, 248, 0], [255, 255, 252, 0],
     [255, 255, 254, 0], [255, 255, 255, 0], [255, 255, 255, 128], [255, 255, 255, 192], [255, 255, 255, 224], [255, 255, 255, 240],
     [255, 255, 255, 248], [255, 255, 255, 252], [255, 255, 255, 254], [255, 255, 255, 255]]"
  by code_simp

lemma mask_loop_table: "map (\<lambda>k. mask_loop (prefix_mask k) False 0) [0..<33] = map (\<lambda>k. Inr (of_nat k)) [0..<33]"
proof -
  have "map (\<lambda>bs. mask_loop bs False 0) (map prefix_mask [0..<33]) = map (\<lambda>k. Inr (of_nat k)) [0..<33]"
    unfolding prefix_mask_table by code_simp
  then show ?thesis by (simp add: comp_def)
qed

lemma mask_loop_prefix: "k < 33 \<Longrightarrow> mask_loop (prefix_mask k) False 0 = Inr (of_nat k)"
  using arg_cong [OF mask_loop_table, of "\<lambda>xs. xs ! k"] by simp

lemma prefix_mask_nth: "k < 33 \<Longrightarrow> prefix_mask k = map prefix_mask [0..<33] ! k"
  by simp

lemma mask_loop_finished: "mask_loop bs True p = Inr q \<longleftrightarrow> q = p \<and> (\<forall>b\<in>set bs. b = 0)"
  by (induction bs) auto

lemma mask_loop_accepts:
  assumes "mask_loop [b0, b1, b2, b3] False 0 = Inr p"
  shows "unat p < 33 \<and> prefix_mask (unat p) = [b0, b1, b2, b3]"
proof -
  have "mask_loop [b0, b1, b2, b3] False 0 = Inr p \<Longrightarrow>
     unat p < 33 \<and> map prefix_mask [0..<33] ! unat p = [b0, b1, b2, b3]"
    unfolding prefix_mask_table
    by (auto simp: mask_byte_def mask_loop_finished split: if_splits)
  then show ?thesis using assms prefix_mask_nth by metis
qed

lemma netmask_bytes: "net_ok n \<Longrightarrow> to_bytes (netmask n) = prefix_mask (unat (net_prefix_length n))"
  by (auto simp: netmask_def prefix_mask_def Let_def unat_eq_0)

text \<open>
  The constructor from a mask accepts exactly the contiguous masks, and computes the prefix length whose
  \<^verbatim>\<open>netmask()\<close> is that mask.
\<close>

theorem network_of_mask_iff:
  "network_v4_of_mask a m = Inr n \<longleftrightarrow> net_address n = a \<and> net_ok n \<and> netmask n = m"
proof
  assume *: "network_v4_of_mask a m = Inr n"
  obtain b0 b1 b2 b3 where m: "to_bytes m = [b0, b1, b2, b3]"
    using four_bytes [OF length_to_bytes, of m] by metis
  obtain p where p: "mask_loop [b0, b1, b2, b3] False 0 = Inr p" "n = \<lparr>net_address = a, net_prefix_length = p\<rparr>"
    using * m by (auto simp: network_v4_of_mask_def map_sum_def split: sum.splits)
  have ok: "net_ok n" using mask_loop_accepts [OF p(1)] p(2) by (simp add: net_ok_def word_le_nat_alt)
  then have "to_bytes (netmask n) = to_bytes m" using mask_loop_accepts [OF p(1)] p(2) m by (simp add: netmask_bytes)
  then have "netmask n = m" by (metis of_bytes_to_bytes)
  then show "net_address n = a \<and> net_ok n \<and> netmask n = m" using ok p(2) by simp
next
  assume *: "net_address n = a \<and> net_ok n \<and> netmask n = m"
  then have "unat (net_prefix_length n) < 33" by (simp add: net_ok_def word_le_nat_alt)
  then show "network_v4_of_mask a m = Inr n"
    using * by (auto simp: network_v4_of_mask_def netmask_bytes mask_loop_prefix)
qed

section \<open>The hosts of a network\<close>

text \<open>The addresses a loop over a range visits, by incrementing the iterator until it equals the end.\<close>

definition visits :: "('a \<Rightarrow> 'a) \<Rightarrow> 'a address_range \<Rightarrow> 'a set" where
  "visits incr r = {(incr ^^ k) (range_begin r) | k. \<forall>j\<le>k. (incr ^^ j) (range_begin r) \<noteq> range_end r}"

lemma v4_increments: "to_uint ((v4_increment ^^ k) a) = to_uint a + of_nat k"
  by (induction k) (simp_all add: v4_increment_def all_ones)

lemma visits_v4: "to_uint ` visits v4_increment r = visited (to_uint (range_begin r)) (to_uint (range_end r))"
proof -
  have "(v4_increment ^^ j) (range_begin r) \<noteq> range_end r \<longleftrightarrow> to_uint (range_begin r) + of_nat j \<noteq> to_uint (range_end r)" for j
    by (metis to_uint_inject v4_increments)
  then show ?thesis by (auto simp: visits_def visited_def image_def v4_increments) (metis v4_increments)
qed

lemma unat_eq_iff_numeral: "w = 32 \<longleftrightarrow> unat w = 32" for w :: uint16_t
  using unsigned_word_eqI [of w 32, where ?'a = nat] by auto

lemma inc_le_iff:
  fixes v w :: "'a::len word"
  assumes "v < u"
  shows "v + 1 \<le> w \<longleftrightarrow> v < w"
  using assms by (auto simp: inc_less_eq_iff)

text \<open>
  A loop over \<^verbatim>\<open>network_v4::hosts()\<close> terminates and visits exactly the usable host addresses: those strictly between
  the network's address and its broadcast address, and for a host network its one address (also for
  255.255.255.255, where the end of the range wraps around to 0.0.0.0).
\<close>

theorem hosts_visits:
  assumes "net_ok n"
  shows "visits v4_increment (hosts n) = (if is_host n then {net_address n} else {network n<..<broadcast n})"
proof (cases "is_host n")
  case True
  let ?w = "to_uint (net_address n)"
  have "visited ?w (?w + 1) = {?w}"
    unfolding visited_def visits_iff by auto
  then have "to_uint ` visits v4_increment (hosts n) = to_uint ` {net_address n}"
    using True by (simp add: visits_v4 hosts_def)
  then show ?thesis using True unfolding v4_image_eq by simp
next
  case False
  let ?N = "to_uint (network n)" and ?B = "to_uint (broadcast n)"
  have "unat (net_prefix_length n) \<noteq> 32" using False by (simp add: is_host_def unat_eq_iff_numeral)
  then have "0 < host_bits n" using assms by (auto simp: net_ok_def host_bits_def word_le_nat_alt)
  then have "1 < (2 :: nat) ^ host_bits n" using one_less_power [of "2 :: nat" "host_bits n"] by simp
  then have "?N < ?B"
    unfolding network_uint broadcast_uint word_less_nat_alt unat_lowest unat_highest [OF host_bits_le] by linarith
  then have step: "?N + 1 \<le> ?B" "\<And>x. ?N + 1 \<le> x \<longleftrightarrow> ?N < x"
    by (simp_all add: inc_le_iff [OF \<open>?N < ?B\<close>])
  have "visited (?N + 1) ?B = {?N + 1..<?B}" by (rule visited_interval) (rule step)
  also have "\<dots> = {?N<..<?B}" by (simp only: set_eq_iff atLeastLessThan_iff greaterThanLessThan_iff step(2) simp_thms)
  also have "\<dots> = to_uint ` {network n<..<broadcast n}"
    by (auto simp: address_v4_order intro!: image_eqI [where x = "address_v4_of_uint x" for x])
  finally have "to_uint ` visits v4_increment (hosts n) = to_uint ` {network n<..<broadcast n}"
    using False by (simp add: visits_v4 hosts_def)
  then show ?thesis using False unfolding v4_image_eq by simp
qed

theorem hosts_visits_witness:
  "visits v4_increment (hosts \<lparr>net_address = v4_broadcast, net_prefix_length = 32\<rparr>) = {v4_broadcast} \<and>
   range_end (hosts \<lparr>net_address = v4_broadcast, net_prefix_length = 32\<rparr>) = address_v4_of_uint 0"
proof -
  have "visits v4_increment (hosts \<lparr>net_address = v4_broadcast, net_prefix_length = 32\<rparr>) = {v4_broadcast}"
    by (subst hosts_visits) (simp_all add: net_ok_def is_host_def)
  moreover have "(0xFFFFFFFF + 1 :: uint32_t) = 0" by simp
  ultimately show ?thesis by (simp only: hosts_def is_host_def v4_broadcast_def to_uint_of_uint network_v4.simps address_range.simps if_True simp_thms)
qed

section \<open>Networks as text\<close>

lemma takeWhile_slash: "CHR ''/'' \<notin> set str \<Longrightarrow> takeWhile (\<lambda>c. c \<noteq> CHR ''/'') (str @ CHR ''/'' # rest) = str"
  by (induction str) auto

text \<open>
  The text of a network, its address and its prefix length after a slash, is read back as the same network, given the
  operating system's own conversion of the address.
\<close>

theorem network_text_roundtrip:
  assumes "net_ok n" and "os_text_ok os AF_INET max_addr_v4_str_len (to_bytes (net_address n))"
    and "\<forall>str. os_inet_ntop os AF_INET (to_bytes (net_address n)) max_addr_v4_str_len = (no_error, Some str) \<longrightarrow> CHR ''/'' \<notin> set str"
  shows "\<exists>str. v4_network_to_string os n = Inr (Inr str) \<and> make_network_v4_ec os str = Inr (Inr (no_error, n))"
proof -
  let ?p = "unat (net_prefix_length n)"
  have p: "?p \<le> 32" using assms(1) by (simp add: net_ok_def word_le_nat_alt)
  obtain str where str: "os_inet_ntop os AF_INET (to_bytes (net_address n)) max_addr_v4_str_len = (no_error, Some str)"
      "os_inet_pton os AF_INET str = (no_error, 1, to_bytes (net_address n))"
    using os_text_okE [OF assms(2)] by auto
  have slash: "CHR ''/'' \<notin> set str" using assms(3) str(1) by blast
  let ?t = "str @ CHR ''/'' # decimal ?p"
  have tw: "takeWhile (\<lambda>c. c \<noteq> CHR ''/'') ?t = str" using slash by (rule takeWhile_slash)
  have "v4_network_to_string os n = Inr (Inr ?t)"
    using str(1) by (simp add: v4_network_to_string_def v4_to_string_def inet_ntop_def text_or_throw_def)
  moreover have "make_network_v4_ec os ?t = Inr (Inr (no_error, n))"
  proof -
    have "make_address_v4_ec os str = Inr (no_error, net_address n)"
      using str(2) by (simp add: make_address_v4_ec_def inet_pton_def)
    moreover have "atoi (decimal ?p) = Inr (int ?p)" using p by (intro atoi_decimal) simp
    moreover have "network_v4_of_prefix (net_address n) (net_prefix_length n) = Inr n"
      using assms(1) by (simp add: net_ok_prefix)
    moreover have "\<not> 32 < uint (net_prefix_length n)"
    proof -
      have "int ?p \<le> 32" using p by linarith
      then show ?thesis by simp
    qed
    ultimately show ?thesis
      using p decimal_digits [of _ ?p] by (auto simp: make_network_v4_ec_def tw Let_def)
  qed
  ultimately show ?thesis by blast
qed

theorem network_text_roundtrip_witness:
  "\<exists>str. v4_network_to_string ex_os \<lparr>net_address = address_v4_of_bytes [10, 1, 2, 3], net_prefix_length = 8\<rparr> = Inr (Inr str) \<and>
     make_network_v4_ec ex_os str = Inr (Inr (no_error, \<lparr>net_address = address_v4_of_bytes [10, 1, 2, 3], net_prefix_length = 8\<rparr>))"
  by (rule network_text_roundtrip) (simp_all add: net_ok_def ex_os_text_ok, simp add: ex_os_def ex_names_def ex_link_local_def ex_global_def)

text \<open>
  A prefix of ten digits can pass the checks: the digits are given to \<^verbatim>\<open>atoi\<close> before the value is
  compared with 32, and a value that is not an \<^verbatim>\<open>int\<close> is undefined behaviour instead of an error.
\<close>

theorem network_huge_prefix_undefined:
  assumes "os_inet_pton os AF_INET str = (no_error, 1, bytes)" and "CHR ''/'' \<notin> set str" and "2 ^ 31 \<le> k"
  shows "make_network_v4_ec os (str @ CHR ''/'' # decimal k) = Inl Integer_out_of_range"
proof -
  have tw: "takeWhile (\<lambda>c. c \<noteq> CHR ''/'') (str @ CHR ''/'' # decimal k) = str"
    using assms(2) by (rule takeWhile_slash)
  have "atoi (decimal k) = Inl Integer_out_of_range"
    using atoi_digits [of "decimal k"] decimal_digits assms(3) by auto
  moreover have "make_address_v4_ec os str = Inr (no_error, address_v4_of_bytes bytes)"
    using assms(1) by (simp add: make_address_v4_ec_def inet_pton_def)
  ultimately show ?thesis
    using decimal_digits [of _ k] by (auto simp: make_network_v4_ec_def tw Let_def)
qed

theorem network_huge_prefix_undefined_witness:
  "make_network_v4_ec ex_os (''10.1.2.3'' @ CHR ''/'' # decimal 4294967304) = Inl Integer_out_of_range"
  by (rule network_huge_prefix_undefined) (simp_all add: ex_os_def ex_names_def)

end
