(* ===== verification/Ip_Network6.thy ===== *)
theory Ip_Network6
  imports Ip_Network
begin

text \<open>
  \<^verbatim>\<open>asio/ip/network_v6\<close> and the iterator of IPv6 addresses, which work byte by byte.  They are
  compared with the same operations on 128-bit numbers: \<open>v6_uint\<close> is the number an address
  stands for.
\<close>

section \<open>Iterators and ranges\<close>

text \<open>The loops go from the last byte to the first: they are functions of the reversed bytes.\<close>

fun increment_bytes :: "byte list \<Rightarrow> byte list" where
  "increment_bytes [] = []"
| "increment_bytes (b # bs) = (if b < 0xFF then (b + 1) # bs else 0 # increment_bytes bs)"

definition v6_increment :: "address_v6 \<Rightarrow> address_v6" where
  "v6_increment a = Address_v6 (rev (increment_bytes (rev (s6_addr a)))) (scope_id a)"

fun decrement_bytes :: "byte list \<Rightarrow> byte list" where
  "decrement_bytes [] = []"
| "decrement_bytes (b # bs) = (if b > 0 then (b - 1) # bs else 0xFF # decrement_bytes bs)"

definition v6_decrement :: "address_v6 \<Rightarrow> address_v6" where
  "v6_decrement a = Address_v6 (rev (decrement_bytes (rev (s6_addr a)))) (scope_id a)"

definition v6_range_empty :: "address_v6 address_range \<Rightarrow> bool" where
  "v6_range_empty r \<longleftrightarrow> range_begin r = range_end r"

definition v6_range_find :: "address_v6 address_range \<Rightarrow> address_v6 \<Rightarrow> address_v6" where
  "v6_range_find r addr = (if addr \<ge> range_begin r \<and> addr < range_end r then addr else range_end r)"

section \<open>Networks\<close>

record network_v6 =
  net6_address :: address_v6
  net6_prefix_length :: uint16_t

definition network_v6_default :: network_v6 where
  "network_v6_default = \<lparr>net6_address = address_v6_default, net6_prefix_length = 0\<rparr>"

definition network_v6_of_prefix :: "address_v6 \<Rightarrow> uint16_t \<Rightarrow> ip_exception + network_v6" where
  "network_v6_of_prefix addr prefix_len =
     (if prefix_len > 128 then Inl Out_of_range_exception
      else Inr \<lparr>net6_address = addr, net6_prefix_length = prefix_len\<rparr>)"

text \<open>One round of the loops over the bytes: the byte of index \<open>i\<close> of the lowest and of the highest address.\<close>

definition low_byte :: "nat \<Rightarrow> nat \<Rightarrow> byte \<Rightarrow> byte" where
  "low_byte p i b =
     (if p \<le> i * 8 then 0
      else if p < (i + 1) * 8 then ucast (and (ucast b) (drop_bit (p mod 8) 0xFF00) :: 32 word)
      else b)"

definition high_byte :: "nat \<Rightarrow> nat \<Rightarrow> byte \<Rightarrow> byte" where
  "high_byte p i b =
     (if p \<le> i * 8 then 0xFF
      else if p < (i + 1) * 8 then ucast (or (ucast b) (drop_bit (p mod 8) 0xFF) :: 32 word)
      else b)"

definition network6 :: "network_v6 \<Rightarrow> address_v6" where
  "network6 n =
     (let bytes = v6_to_bytes (net6_address n); p = unat (net6_prefix_length n)
      in address_v6_of_bytes (map (\<lambda>i. low_byte p i (bytes ! i)) [0..<16]) (scope_id (net6_address n)))"

definition hosts6 :: "network_v6 \<Rightarrow> address_v6 address_range" where
  "hosts6 n =
     (let bytes = v6_to_bytes (net6_address n); p = unat (net6_prefix_length n);
          begin_bytes = map (\<lambda>i. low_byte p i (bytes ! i)) [0..<16];
          end_bytes = map (\<lambda>i. high_byte p i (bytes ! i)) [0..<16]
      in \<lparr>range_begin = address_v6_of_bytes begin_bytes (scope_id (net6_address n)),
          range_end = v6_increment (address_v6_of_bytes end_bytes (scope_id (net6_address n)))\<rparr>)"

definition is_host6 :: "network_v6 \<Rightarrow> bool" where
  "is_host6 n \<longleftrightarrow> net6_prefix_length n = 128"

definition canonical6 :: "network_v6 \<Rightarrow> ip_exception + network_v6" where
  "canonical6 n = network_v6_of_prefix (network6 n) (net6_prefix_length n)"

definition is_subnet_of6 :: "network_v6 \<Rightarrow> network_v6 \<Rightarrow> ip_exception + bool" where
  "is_subnet_of6 n other =
     (if net6_prefix_length other \<ge> net6_prefix_length n then Inr False
      else case network_v6_of_prefix (net6_address n) (net6_prefix_length other) of
             Inl e \<Rightarrow> Inl e
           | Inr me \<Rightarrow>
               (case (canonical6 other, canonical6 me) of
                  (Inr c1, Inr c2) \<Rightarrow> Inr (c1 = c2)
                | (Inl e, _) \<Rightarrow> Inl e
                | (_, Inl e) \<Rightarrow> Inl e))"

definition v6_network_to_string :: "inet_os \<Rightarrow> network_v6 \<Rightarrow> undefined_behaviour + ip_exception + string" where
  "v6_network_to_string os n =
     map_sum id (map_sum id (\<lambda>addr. addr @ CHR ''/'' # decimal (unat (net6_prefix_length n))))
       (v6_to_string os (net6_address n))"

definition make_network_v6_ec :: "inet_os \<Rightarrow> string \<Rightarrow> undefined_behaviour + ip_exception + error_code \<times> network_v6" where
  "make_network_v6_ec os str =
     (let pos = length (takeWhile (\<lambda>c. c \<noteq> CHR ''/'') str);
          rest = drop (pos + 1) str
      in if pos = length str then Inr (Inr (Some Invalid_argument, network_v6_default))
         else if pos = length str - 1 then Inr (Inr (Some Invalid_argument, network_v6_default))
         else if \<exists>c\<in>set rest. \<not> is_digit c then Inr (Inr (Some Invalid_argument, network_v6_default))
         else case make_address_v6_ec os (take pos str) of
                Inl ub \<Rightarrow> Inl ub
              | Inr (Some e, _) \<Rightarrow> Inr (Inr (Some e, network_v6_default))
              | Inr (None, addr) \<Rightarrow>
                  (case atoi rest of
                     Inl ub \<Rightarrow> Inl ub
                   | Inr prefix_len \<Rightarrow>
                       if prefix_len < 0 \<or> prefix_len > 128 then Inr (Inr (Some Invalid_argument, network_v6_default))
                       else Inr (map_sum id (Pair no_error) (network_v6_of_prefix addr (of_int prefix_len)))))"

section \<open>Addresses as numbers\<close>

definition v6_uint :: "address_v6 \<Rightarrow> 128 word" where
  "v6_uint a = le_word (rev (s6_addr a))"

lemma le_word_plus: "le_word (b # bs) = (ucast b + 256 * le_word bs :: 'a::len word)"
proof -
  have "and (ucast b) (push_bit 8 (le_word bs)) = (0 :: 'a word)"
    by (rule bit_word_eqI) (auto simp: bit_and_iff bit_push_bit_iff bit_ucast_iff dest: bit_imp_le_length)
  then have "le_word (b # bs) = (ucast b + push_bit 8 (le_word bs) :: 'a word)"
    by (simp add: disjunctive_add_eq_or)
  then show ?thesis by (simp add: push_bit_eq_mult mult.commute)
qed

lemma length_increment [simp]: "length (increment_bytes bs) = length bs" "length (decrement_bytes bs) = length bs"
  by (induction bs) auto

fun bytes_value :: "byte list \<Rightarrow> nat" where
  "bytes_value [] = 0"
| "bytes_value (b # bs) = unat b + 256 * bytes_value bs"

lemma byte_bound: "unat (b :: byte) \<le> 255"
  using unsigned_less [of b, where ?'a = nat] by simp

lemma bytes_value_bound: "bytes_value bs < 256 ^ length bs"
proof (induction bs)
  case (Cons b bs)
  then show ?case using byte_bound [of b] by simp
qed simp

lemma le_word_value: "le_word bs = (of_nat (bytes_value bs) :: 'a::len word)"
  by (induction bs) (simp_all add: le_word_plus del: le_word.simps(2))

lemma increment_value: "bytes_value (increment_bytes bs) = (bytes_value bs + 1) mod 256 ^ length bs"
proof (induction bs)
  case (Cons b bs)
  have bound: "bytes_value bs < 256 ^ length bs" by (rule bytes_value_bound)
  show ?case
  proof (cases "b < 0xFF")
    case True
    then have b: "unat (b + 1) = unat b + 1" "unat b < 255" by (simp_all add: word_less_nat_alt unat_word_ariths)
    then have "bytes_value (b # bs) + 1 < 256 ^ length (b # bs)" using bound by simp
    then show ?thesis using True b by simp
  next
    case False
    then have "unat b = 255" using byte_bound [of b] by (simp add: word_less_nat_alt)
    then have "bytes_value (b # bs) + 1 = 256 * (bytes_value bs + 1)" by simp
    then show ?thesis using False Cons.IH by (simp add: mult_mod_right)
  qed
qed simp

lemma decrement_value: "bytes_value (decrement_bytes bs) = (bytes_value bs + (256 ^ length bs - 1)) mod 256 ^ length bs"
proof (induction bs)
  case (Cons b bs)
  have bound: "bytes_value bs < 256 ^ length bs" by (rule bytes_value_bound)
  show ?case
  proof (cases "b > 0")
    case True
    then have b: "unat (b - 1) = unat b - 1" "0 < unat b"
      using unat_minus_one [of b] by (simp_all add: unat_gt_0)
    have "bytes_value (b # bs) + (256 ^ length (b # bs) - 1) = (bytes_value (b # bs) - 1) + 256 ^ length (b # bs)"
      using b by simp
    moreover have "bytes_value (b # bs) - 1 < 256 ^ length (b # bs)" using bytes_value_bound [of "b # bs"] by linarith
    moreover have "bytes_value (decrement_bytes (b # bs)) = bytes_value (b # bs) - 1" using True b by simp
    ultimately show ?thesis by (simp only: mod_add_self2 mod_less)
  next
    case False
    then have b: "b = 0" by simp
    have "256 * bytes_value bs + (256 * 256 ^ length bs - 1) = 255 + 256 * (bytes_value bs + (256 ^ length bs - 1))"
    proof -
      obtain q where "(256 :: nat) ^ length bs = Suc q" by (metis nat.exhaust power_not_zero zero_neq_numeral)
      then show ?thesis by simp
    qed
    moreover have "(255 + 256 * k) mod (256 * 256 ^ n) = 255 + 256 * (k mod 256 ^ n)" for k n :: nat
      using mod_mult2_eq [of "255 + 256 * k" 256 "256 ^ n"] by simp
    ultimately show ?thesis using b Cons.IH by simp
  qed
qed simp

lemma v6_ok_steps [simp]: "v6_ok (v6_increment a) = v6_ok a" "v6_ok (v6_decrement a) = v6_ok a"
  by (simp_all add: v6_ok_def v6_increment_def v6_decrement_def)

lemma v6_uint_increment: "v6_ok a \<Longrightarrow> v6_uint (v6_increment a) = v6_uint a + 1"
proof -
  assume ok: "v6_ok a"
  have "(of_nat (k mod 2 ^ 128) :: 128 word) = of_nat k" for k
    by (rule unsigned_word_eqI [where ?'a = nat]) (simp add: unat_of_nat)
  then show ?thesis using ok by (simp add: v6_uint_def v6_increment_def le_word_value increment_value v6_ok_def)
qed

lemma v6_uint_decrement: "v6_ok a \<Longrightarrow> v6_uint (v6_decrement a) = v6_uint a - 1"
proof -
  assume ok: "v6_ok a"
  have "(of_nat (k mod 2 ^ 128) :: 128 word) = of_nat k" for k
    by (rule unsigned_word_eqI [where ?'a = nat]) (simp add: unat_of_nat)
  moreover have "(of_nat (2 ^ 128 - 1) :: 128 word) = - 1" by simp
  ultimately show ?thesis
    using ok by (simp add: v6_uint_def v6_decrement_def le_word_value decrement_value v6_ok_def)
qed

lemma le_word_inject:
  assumes "length bs = 16" and "length cs = 16" and "(le_word bs :: 128 word) = le_word cs"
  shows "bs = cs"
  using le_bytes_le_word [of bs, where 'a = 128] le_bytes_le_word [of cs, where 'a = 128] assms by simp

lemma v6_uint_inject:
  "v6_ok a \<Longrightarrow> v6_ok b \<Longrightarrow> scope_id a = scope_id b \<Longrightarrow> v6_uint a = v6_uint b \<longleftrightarrow> a = b"
  using le_word_inject [of "rev (s6_addr a)" "rev (s6_addr b)"]
  by (auto simp: v6_ok_def v6_uint_def intro: address_v6.expand)

lemma v6_of_uint: "\<exists>a. v6_ok a \<and> scope_id a = s \<and> v6_uint a = w"
proof -
  let ?a = "Address_v6 (rev (le_bytes 16 w)) s"
  have "v6_uint ?a = w" by (simp add: v6_uint_def le_word_le_bytes)
  then show ?thesis by (intro exI [of _ ?a]) (simp add: v6_ok_def)
qed

text \<open>Bit \<open>i\<close> of the number is bit \<open>i mod 8\<close> of the byte that is \<open>i div 8\<close> from the end.\<close>

lemma bit_le_word:
  "i < 8 * length bs \<Longrightarrow> i < LENGTH('a) \<Longrightarrow> bit (le_word bs :: 'a::len word) i = bit (bs ! (i div 8)) (i mod 8)"
proof (induction bs arbitrary: i)
  case (Cons b bs)
  show ?case
  proof (cases "i < 8")
    case True
    then show ?thesis using Cons.prems by (simp add: bit_or_iff bit_push_bit_iff bit_ucast_iff)
  next
    case False
    then have "i div 8 = Suc ((i - 8) div 8)" "i mod 8 = (i - 8) mod 8" by (auto simp: le_div_geq le_mod_geq)
    moreover have "\<not> bit b i" using False by (auto dest: bit_imp_le_length)
    ultimately show ?thesis
      using Cons.IH [of "i - 8"] Cons.prems False by (simp add: bit_or_iff bit_push_bit_iff bit_ucast_iff)
  qed
qed simp

lemma bit_v6_uint: "v6_ok a \<Longrightarrow> i < 128 \<Longrightarrow> bit (v6_uint a) i = bit (s6_addr a ! (15 - i div 8)) (i mod 8)"
  by (simp add: v6_uint_def bit_le_word v6_ok_def rev_nth)

section \<open>Networks as sets of addresses\<close>

lemma bit_FF00: "bit (0xFF00 :: 32 word) m \<longleftrightarrow> 8 \<le> m \<and> m < 16" "bit (0xFF :: 32 word) m \<longleftrightarrow> m < 8" "bit (0xFF :: byte) m \<longleftrightarrow> m < 8"
proof -
  have e: "(0xFF00 :: 32 word) = push_bit 8 (mask 8)" "(0xFF :: 32 word) = mask 8" "(0xFF :: byte) = mask 8"
    by (simp_all add: mask_eq_exp_minus_1)
  show "bit (0xFF00 :: 32 word) m \<longleftrightarrow> 8 \<le> m \<and> m < 16" "bit (0xFF :: 32 word) m \<longleftrightarrow> m < 8" "bit (0xFF :: byte) m \<longleftrightarrow> m < 8"
    unfolding e by (auto simp: bit_push_bit_iff bit_mask_iff)
qed

lemma bit_masked:
  fixes b :: byte and x :: "32 word"
  assumes "k < 8"
  shows "bit (ucast (and (ucast b) (drop_bit r x)) :: byte) k \<longleftrightarrow> bit b k \<and> bit x (r + k)"
    and "bit (ucast (or (ucast b) (drop_bit r x)) :: byte) k \<longleftrightarrow> bit b k \<or> bit x (r + k)"
  using assms by (auto simp: bit_ucast_iff bit_and_iff bit_or_iff bit_drop_bit_eq)

lemma byte_cases:
  fixes p i :: nat
  obtains "p \<le> i * 8" | "(i + 1) * 8 \<le> p" | r where "p = i * 8 + r" "0 < r" "r < 8"
proof -
  consider "p \<le> i * 8" | "(i + 1) * 8 \<le> p" | "i * 8 < p" "p < (i + 1) * 8" by linarith
  then show thesis by cases (use that(1,2) that(3) [of "p - i * 8"] in auto)
qed

lemma bit_low_byte: "k < 8 \<Longrightarrow> bit (low_byte p i b) k \<longleftrightarrow> bit b k \<and> 8 * (i + 1) \<le> p + k"
proof -
  assume k: "k < 8"
  show ?thesis
  proof (cases p i rule: byte_cases)
    case (3 r)
    then have "low_byte p i b = ucast (and (ucast b) (drop_bit r 0xFF00) :: 32 word)" by (simp add: low_byte_def)
    moreover have "8 * (i + 1) \<le> p + k \<longleftrightarrow> 8 \<le> r + k \<and> r + k < 16" using 3 k by auto
    ultimately show ?thesis by (simp only: bit_masked [OF k] bit_FF00)
  qed (use k in \<open>auto simp: low_byte_def\<close>)
qed

lemma bit_high_byte: "k < 8 \<Longrightarrow> bit (high_byte p i b) k \<longleftrightarrow> bit b k \<or> p + k < 8 * (i + 1)"
proof -
  assume k: "k < 8"
  show ?thesis
  proof (cases p i rule: byte_cases)
    case (3 r)
    then have "high_byte p i b = ucast (or (ucast b) (drop_bit r 0xFF) :: 32 word)" by (simp add: high_byte_def)
    moreover have "p + k < 8 * (i + 1) \<longleftrightarrow> r + k < 8" using 3 by auto
    ultimately show ?thesis by (simp only: bit_masked [OF k] bit_FF00)
  next
    case 1
    then have "high_byte p i b = 0xFF" by (simp add: high_byte_def)
    moreover have "p + k < 8 * (i + 1)" using 1 k by simp
    ultimately show ?thesis using k by (simp only: bit_FF00 simp_thms)
  qed (use k in \<open>auto simp: high_byte_def\<close>)
qed

definition net6_ok :: "network_v6 \<Rightarrow> bool" where
  "net6_ok n \<longleftrightarrow> net6_prefix_length n \<le> 128 \<and> v6_ok (net6_address n)"

definition host_bits6 :: "network_v6 \<Rightarrow> nat" where
  "host_bits6 n = 128 - unat (net6_prefix_length n)"

definition members6 :: "network_v6 \<Rightarrow> address_v6 set" where
  "members6 n = {a. v6_ok a \<and> scope_id a = scope_id (net6_address n) \<and>
     agree (host_bits6 n) (v6_uint a) (v6_uint (net6_address n))}"

lemma byte_position:
  fixes i p :: nat
  assumes "i < 128"
  shows "8 * (15 - i div 8 + 1) \<le> p + i mod 8 \<longleftrightarrow> 128 - p \<le> i"
    and "p + i mod 8 < 8 * (15 - i div 8 + 1) \<longleftrightarrow> i < 128 - p"
proof -
  obtain q r where "i = 8 * q + r" "r < 8" "i div 8 = q" "i mod 8 = r"
    by (metis mod_less_divisor mult_div_mod_eq zero_less_numeral)
  then show "8 * (15 - i div 8 + 1) \<le> p + i mod 8 \<longleftrightarrow> 128 - p \<le> i"
    and "p + i mod 8 < 8 * (15 - i div 8 + 1) \<longleftrightarrow> i < 128 - p"
    using assms by auto
qed

lemma nth_index: "[0..<16] ! (15 - i) = 15 - (i :: nat)"
  by (subst nth_upt) auto

lemma low_address:
  assumes "net6_ok n" and "p = unat (net6_prefix_length n)"
  shows "v6_uint (address_v6_of_bytes (map (\<lambda>i. low_byte p i (s6_addr (net6_address n) ! i)) [0..<16]) s) =
    lowest (host_bits6 n) (v6_uint (net6_address n))" (is "v6_uint ?a = _")
proof (rule bit_word_eqI)
  fix i assume "i < LENGTH(128)"
  then have i: "i < 128" by simp
  have p: "p \<le> 128" using assms by (simp add: net6_ok_def word_le_nat_alt)
  have "v6_ok ?a" by (simp add: v6_ok_def address_v6_of_bytes_def)
  then have "bit (v6_uint ?a) i \<longleftrightarrow> bit (low_byte p (15 - i div 8) (s6_addr (net6_address n) ! (15 - i div 8))) (i mod 8)"
    using i nth_index by (simp add: bit_v6_uint address_v6_of_bytes_def)
  also have "\<dots> \<longleftrightarrow> bit (s6_addr (net6_address n) ! (15 - i div 8)) (i mod 8) \<and> 8 * (15 - i div 8 + 1) \<le> p + i mod 8"
    by (rule bit_low_byte) simp
  also have "8 * (15 - i div 8 + 1) \<le> p + i mod 8 \<longleftrightarrow> 128 - p \<le> i" by (rule byte_position(1) [OF i])
  finally show "bit (v6_uint ?a) i \<longleftrightarrow> bit (lowest (host_bits6 n) (v6_uint (net6_address n))) i"
    using assms i by (auto simp: lowest_def bit_and_iff bit_not_iff bit_mask_iff host_bits6_def bit_v6_uint net6_ok_def)
qed

lemma high_address:
  assumes "net6_ok n" and "p = unat (net6_prefix_length n)"
  shows "v6_uint (address_v6_of_bytes (map (\<lambda>i. high_byte p i (s6_addr (net6_address n) ! i)) [0..<16]) s) =
    highest (host_bits6 n) (v6_uint (net6_address n))" (is "v6_uint ?a = _")
proof (rule bit_word_eqI)
  fix i assume "i < LENGTH(128)"
  then have i: "i < 128" by simp
  have p: "p \<le> 128" using assms by (simp add: net6_ok_def word_le_nat_alt)
  have "v6_ok ?a" by (simp add: v6_ok_def address_v6_of_bytes_def)
  then have "bit (v6_uint ?a) i \<longleftrightarrow> bit (high_byte p (15 - i div 8) (s6_addr (net6_address n) ! (15 - i div 8))) (i mod 8)"
    using i nth_index by (simp add: bit_v6_uint address_v6_of_bytes_def)
  also have "\<dots> \<longleftrightarrow> bit (s6_addr (net6_address n) ! (15 - i div 8)) (i mod 8) \<or> p + i mod 8 < 8 * (15 - i div 8 + 1)"
    by (rule bit_high_byte) simp
  also have "p + i mod 8 < 8 * (15 - i div 8 + 1) \<longleftrightarrow> i < 128 - p" by (rule byte_position(2) [OF i])
  finally show "bit (v6_uint ?a) i \<longleftrightarrow> bit (highest (host_bits6 n) (v6_uint (net6_address n))) i"
    using assms i by (auto simp: highest_def bit_or_iff bit_mask_iff host_bits6_def bit_v6_uint net6_ok_def)
qed

lemma v6_increments:
  "v6_ok a \<Longrightarrow> v6_ok ((v6_increment ^^ k) a) \<and> scope_id ((v6_increment ^^ k) a) = scope_id a \<and>
     v6_uint ((v6_increment ^^ k) a) = v6_uint a + of_nat k"
proof (induction k)
  case (Suc k)
  then show ?case using v6_uint_increment by (simp add: v6_increment_def [of "(v6_increment ^^ k) a", THEN arg_cong [of _ _ scope_id]])
qed simp

lemma visits_v6:
  assumes "v6_ok (range_begin r)" and "v6_ok (range_end r)" and "scope_id (range_end r) = scope_id (range_begin r)"
  shows "visits v6_increment r = {a. v6_ok a \<and> scope_id a = scope_id (range_begin r) \<and>
      v6_uint a \<in> visited (v6_uint (range_begin r)) (v6_uint (range_end r))}"
proof -
  note inc = v6_increments [OF assms(1)]
  have ne: "(v6_increment ^^ j) (range_begin r) \<noteq> range_end r \<longleftrightarrow>
      v6_uint (range_begin r) + of_nat j \<noteq> v6_uint (range_end r)" for j
    using inc [of j] v6_uint_inject [of "(v6_increment ^^ j) (range_begin r)" "range_end r"] assms by simp
  have "a \<in> visits v6_increment r \<longleftrightarrow> v6_ok a \<and> scope_id a = scope_id (range_begin r) \<and>
      v6_uint a \<in> visited (v6_uint (range_begin r)) (v6_uint (range_end r))" for a
  proof
    assume "a \<in> visits v6_increment r"
    then show "v6_ok a \<and> scope_id a = scope_id (range_begin r) \<and>
        v6_uint a \<in> visited (v6_uint (range_begin r)) (v6_uint (range_end r))"
      using inc ne by (auto simp: visits_def visited_def)
  next
    assume a: "v6_ok a \<and> scope_id a = scope_id (range_begin r) \<and>
        v6_uint a \<in> visited (v6_uint (range_begin r)) (v6_uint (range_end r))"
    then obtain k where k: "v6_uint a = v6_uint (range_begin r) + of_nat k"
        "\<forall>j\<le>k. v6_uint (range_begin r) + of_nat j \<noteq> v6_uint (range_end r)"
      by (auto simp: visited_def)
    then have "a = (v6_increment ^^ k) (range_begin r)"
      using a inc [of k] v6_uint_inject [of a "(v6_increment ^^ k) (range_begin r)"] by simp
    then show "a \<in> visits v6_increment r" using k(2) ne by (auto simp: visits_def)
  qed
  then show ?thesis by blast
qed

text \<open>
  A loop over \<^verbatim>\<open>network_v6::hosts()\<close> visits exactly the addresses of the network, also where the range ends
  at the highest address; but for the network of prefix length 0 the range is empty, because its end wraps around to its
  beginning.
\<close>

theorem hosts6_visits:
  assumes "net6_ok n"
  shows "visits v6_increment (hosts6 n) = (if net6_prefix_length n = 0 then {} else members6 n)"
proof -
  let ?w = "v6_uint (net6_address n)" and ?h = "host_bits6 n"
  have begin_v: "v6_ok (range_begin (hosts6 n))" "scope_id (range_begin (hosts6 n)) = scope_id (net6_address n)"
      "v6_uint (range_begin (hosts6 n)) = lowest ?h ?w"
    using low_address [OF assms refl]
    by (simp_all add: hosts6_def Let_def v6_to_bytes_def v6_ok_def address_v6_of_bytes_def)
  have "v6_ok (address_v6_of_bytes (map f [0..<16]) s)" for f s by (simp add: v6_ok_def address_v6_of_bytes_def)
  then have end_v: "v6_ok (range_end (hosts6 n))" "scope_id (range_end (hosts6 n)) = scope_id (net6_address n)"
      "v6_uint (range_end (hosts6 n)) = highest ?h ?w + 1"
    using high_address [OF assms refl] v6_uint_increment
    by (simp_all add: hosts6_def Let_def v6_to_bytes_def v6_increment_def [THEN arg_cong, of scope_id] address_v6_of_bytes_def)
  have vis: "visits v6_increment (hosts6 n) = {a. v6_ok a \<and> scope_id a = scope_id (net6_address n) \<and>
      v6_uint a \<in> visited (lowest ?h ?w) (highest ?h ?w + 1)}"
    using visits_v6 [of "hosts6 n"] begin_v end_v by simp
  show ?thesis
  proof (cases "net6_prefix_length n = 0")
    case True
    then have h: "?h = 128" by (simp add: host_bits6_def)
    have "lowest 128 ?w = 0" by (rule bit_word_eqI) (simp add: lowest_def bit_and_iff bit_not_iff bit_mask_iff)
    moreover have "highest 128 ?w = - 1" by (rule bit_word_eqI) (simp add: highest_def bit_or_iff bit_mask_iff)
    ultimately show ?thesis using True by (simp add: vis h visited_self)
  next
    case False
    then have "?h < LENGTH(128)" by (simp add: host_bits6_def unat_gt_0)
    then have "visited (lowest ?h ?w) (highest ?h ?w + 1) = {x. agree ?h x ?w}" by (rule visited_agree)
    then show ?thesis using False by (simp add: vis members6_def)
  qed
qed

theorem hosts6_visits_witness:
  "visits v6_increment (hosts6 \<lparr>net6_address = address_v6_default, net6_prefix_length = 0\<rparr>) = {} \<and>
   visits v6_increment (hosts6 \<lparr>net6_address = v6_loopback, net6_prefix_length = 128\<rparr>) =
     members6 \<lparr>net6_address = v6_loopback, net6_prefix_length = 128\<rparr> \<and>
   v6_loopback \<in> members6 \<lparr>net6_address = v6_loopback, net6_prefix_length = 128\<rparr>"
  by (subst (1 2) hosts6_visits)
    (simp_all add: net6_ok_def v6_ok_def address_v6_default_def v6_loopback_def members6_def)

lemma v6_sets_subset:
  "{a. v6_ok a \<and> scope_id a = s \<and> v6_uint a \<in> A} \<subseteq> {a. v6_ok a \<and> scope_id a = s \<and> v6_uint a \<in> B} \<longleftrightarrow> A \<subseteq> B"
proof
  assume sub: "{a. v6_ok a \<and> scope_id a = s \<and> v6_uint a \<in> A} \<subseteq> {a. v6_ok a \<and> scope_id a = s \<and> v6_uint a \<in> B}"
  show "A \<subseteq> B"
  proof
    fix w assume "w \<in> A"
    obtain a where "v6_ok a" "scope_id a = s" "v6_uint a = w" using v6_of_uint by blast
    then show "w \<in> B" using sub \<open>w \<in> A\<close> by auto
  qed
qed auto

lemma members6_psubset:
  assumes "net6_ok n" and "net6_ok other"
  shows "members6 n \<subset> members6 other \<longleftrightarrow> scope_id (net6_address n) = scope_id (net6_address other) \<and>
     host_bits6 n < host_bits6 other \<and> agree (host_bits6 other) (v6_uint (net6_address n)) (v6_uint (net6_address other))"
proof (cases "scope_id (net6_address n) = scope_id (net6_address other)")
  case True
  define A where "A n = {x. agree (host_bits6 n) x (v6_uint (net6_address n))}" for n
  have m: "members6 m = {a. v6_ok a \<and> scope_id a = scope_id (net6_address m) \<and> v6_uint a \<in> A m}" for m
    by (simp add: members6_def A_def)
  have "members6 n \<subseteq> members6 other \<longleftrightarrow> A n \<subseteq> A other" "members6 other \<subseteq> members6 n \<longleftrightarrow> A other \<subseteq> A n"
    unfolding m True by (rule v6_sets_subset)+
  then have "members6 n \<subset> members6 other \<longleftrightarrow> A n \<subset> A other" by auto
  also have "\<dots> \<longleftrightarrow> host_bits6 n < host_bits6 other \<and> agree (host_bits6 other) (v6_uint (net6_address n)) (v6_uint (net6_address other))"
    unfolding A_def by (rule agree_psubset) (simp_all add: host_bits6_def)
  finally show ?thesis using True by simp
next
  case False
  have "net6_address n \<in> members6 n" using assms(1) by (simp add: members6_def net6_ok_def)
  moreover have "net6_address n \<notin> members6 other" using False by (simp add: members6_def)
  ultimately show ?thesis using False by blast
qed

lemma network6_eq:
  assumes "net6_ok n" and "net6_ok m" and "net6_prefix_length n = net6_prefix_length m"
  shows "network6 n = network6 m \<longleftrightarrow> scope_id (net6_address n) = scope_id (net6_address m) \<and>
     agree (host_bits6 n) (v6_uint (net6_address n)) (v6_uint (net6_address m))"
proof -
  have h: "host_bits6 m = host_bits6 n" using assms(3) by (simp add: host_bits6_def)
  have v: "v6_ok (network6 k)" "scope_id (network6 k) = scope_id (net6_address k)" for k
    by (simp_all add: network6_def Let_def v6_ok_def address_v6_of_bytes_def)
  have u: "v6_uint (network6 n) = lowest (host_bits6 n) (v6_uint (net6_address n))"
      "v6_uint (network6 m) = lowest (host_bits6 n) (v6_uint (net6_address m))"
    using low_address [OF assms(1) refl] low_address [OF assms(2) refl] by (simp_all add: network6_def Let_def v6_to_bytes_def h)
  have "network6 n = network6 m \<longleftrightarrow> scope_id (net6_address n) = scope_id (net6_address m) \<and>
      v6_uint (network6 n) = v6_uint (network6 m)"
    using v6_uint_inject [OF v(1) v(1)] v(2) by metis
  then show ?thesis unfolding u agree_lowest .
qed

text \<open>
  \<^verbatim>\<open>network_v6::is_subnet_of\<close> answers whether the addresses of the one network are a proper subset of
  the addresses of the other; networks of different scopes have no address in common.
\<close>

theorem is_subnet_of6_proper_subset:
  assumes "net6_ok n" and "net6_ok other"
  shows "is_subnet_of6 n other = Inr (members6 n \<subset> members6 other)"
proof -
  have p: "unat (net6_prefix_length n) \<le> 128" "unat (net6_prefix_length other) \<le> 128"
    using assms by (simp_all add: net6_ok_def word_le_nat_alt)
  show ?thesis
  proof (cases "net6_prefix_length other \<ge> net6_prefix_length n")
    case True
    then have "\<not> host_bits6 n < host_bits6 other" by (auto simp: host_bits6_def word_le_nat_alt)
    then show ?thesis using True assms by (simp add: is_subnet_of6_def members6_psubset)
  next
    case False
    then have lt: "host_bits6 n < host_bits6 other" using p by (auto simp: host_bits6_def word_le_nat_alt)
    let ?me = "\<lparr>net6_address = net6_address n, net6_prefix_length = net6_prefix_length other\<rparr>"
    have me: "net6_ok ?me" using assms by (simp add: net6_ok_def)
    have made: "net6_prefix_length other \<le> 128 \<Longrightarrow> network_v6_of_prefix a (net6_prefix_length other) =
        Inr \<lparr>net6_address = a, net6_prefix_length = net6_prefix_length other\<rparr>" for a
      by (auto simp: network_v6_of_prefix_def)
    show ?thesis
      using False assms(2) lt network6_eq [OF assms(2) me] agree_sym
      by (auto simp: is_subnet_of6_def members6_psubset [OF assms] made canonical6_def net6_ok_def)
  qed
qed

theorem is_subnet_of6_proper_subset_witness:
  "is_subnet_of6 \<lparr>net6_address = Address_v6 ex_global 0, net6_prefix_length = 64\<rparr>
       \<lparr>net6_address = Address_v6 ex_global 0, net6_prefix_length = 30\<rparr> = Inr True \<and>
   members6 \<lparr>net6_address = Address_v6 ex_global 0, net6_prefix_length = 64\<rparr> \<subset>
       members6 \<lparr>net6_address = Address_v6 ex_global 0, net6_prefix_length = 30\<rparr>"
proof -
  let ?n = "\<lparr>net6_address = Address_v6 ex_global 0, net6_prefix_length = 64\<rparr>"
  let ?o = "\<lparr>net6_address = Address_v6 ex_global 0, net6_prefix_length = 30\<rparr>"
  have "is_subnet_of6 ?n ?o = Inr True"
    by (simp add: is_subnet_of6_def network_v6_of_prefix_def canonical6_def)
  moreover have "is_subnet_of6 ?n ?o = Inr (members6 ?n \<subset> members6 ?o)"
    by (rule is_subnet_of6_proper_subset) (simp_all add: net6_ok_def v6_ok_def ex_global_def)
  ultimately show ?thesis by simp
qed

end
