(* ===== verification/Op_Queue.thy ===== *)
theory Op_Queue
  imports Prelude
begin

text \<open>
  \<^verbatim>\<open>asio/detail/op_queue.hpp\<close>: the intrusive singly linked queue in which the scheduler, the timers
  and the reactor keep operations.  An operation is its address, the member \<^verbatim>\<open>next_\<close> of all operations
  is one function, and a queue is its two pointers.  The queues of a program together refine
  a family of lists; the components that use the queues work with the lists.
\<close>

section \<open>The queue\<close>

type_synonym op_ref = nat
type_synonym op_links = "op_ref \<Rightarrow> op_ref option"

record op_queue =
  oq_front :: "op_ref option"
  oq_back :: "op_ref option"

definition op_queue_init :: op_queue where
  "op_queue_init = \<lparr>oq_front = None, oq_back = None\<rparr>"

definition oq_pop :: "op_links \<Rightarrow> op_queue \<Rightarrow> op_links \<times> op_queue" where
  "oq_pop next q =
     (case oq_front q of
        None \<Rightarrow> (next, q)
      | Some tmp \<Rightarrow>
          let q1 = q\<lparr>oq_front := next tmp\<rparr>;
              q2 = (if oq_front q1 = None then q1\<lparr>oq_back := None\<rparr> else q1)
          in (next(tmp := None), q2))"

definition oq_push :: "op_links \<Rightarrow> op_queue \<Rightarrow> op_ref \<Rightarrow> op_links \<times> op_queue" where
  "oq_push next q h =
     (let next1 = next(h := None)
      in case oq_back q of
           Some b \<Rightarrow> (next1(b := Some h), q\<lparr>oq_back := Some h\<rparr>)
         | None \<Rightarrow> (next1, q\<lparr>oq_front := Some h, oq_back := Some h\<rparr>))"

definition oq_push_queue :: "op_links \<Rightarrow> op_queue \<Rightarrow> op_queue \<Rightarrow> op_links \<times> op_queue \<times> op_queue" where
  "oq_push_queue next q other =
     (case oq_front other of
        None \<Rightarrow> (next, q, other)
      | Some other_front \<Rightarrow>
          let (next1, q1) = (case oq_back q of
                               Some b \<Rightarrow> (next(b := Some other_front), q)
                             | None \<Rightarrow> (next, q\<lparr>oq_front := Some other_front\<rparr>))
          in (next1, q1\<lparr>oq_back := oq_back other\<rparr>, other\<lparr>oq_front := None, oq_back := None\<rparr>))"

definition oq_empty :: "op_queue \<Rightarrow> bool" where
  "oq_empty q \<longleftrightarrow> oq_front q = None"

definition oq_is_enqueued :: "op_links \<Rightarrow> op_queue \<Rightarrow> op_ref \<Rightarrow> bool" where
  "oq_is_enqueued next q h \<longleftrightarrow> next h \<noteq> None \<or> oq_back q = Some h"

text \<open>The destructor pops and destroys until the queue is empty; the result is the destroyed operations.\<close>

partial_function (option) op_queue_destroy :: "op_links \<Rightarrow> op_queue \<Rightarrow> op_ref list \<Rightarrow> (op_links \<times> op_ref list) option" where
  "op_queue_destroy next q destroyed =
     (case oq_front q of
        None \<Rightarrow> Some (next, destroyed)
      | Some op \<Rightarrow> (case oq_pop next q of (next', q') \<Rightarrow> op_queue_destroy next' q' (destroyed @ [op])))"

section \<open>What a queue holds\<close>

fun path :: "op_links \<Rightarrow> op_ref option \<Rightarrow> op_ref list \<Rightarrow> bool" where
  "path next p [] \<longleftrightarrow> p = None"
| "path next p (x # xs) \<longleftrightarrow> p = Some x \<and> path next (next x) xs"

definition holds :: "op_links \<Rightarrow> op_queue \<Rightarrow> op_ref list \<Rightarrow> bool" where
  "holds next q xs \<longleftrightarrow> distinct xs \<and> path next (oq_front q) xs \<and>
     oq_back q = (if xs = [] then None else Some (last xs))"

lemma path_upd [simp]: "a \<notin> set xs \<Longrightarrow> path (next(a := v)) p xs = path next p xs"
  by (induction xs arbitrary: p) auto

lemma path_snoc_link:
  "path next p (xs @ [b]) \<Longrightarrow> b \<notin> set xs \<Longrightarrow> path (next(b := q)) q ys \<Longrightarrow> path (next(b := q)) p (xs @ b # ys)"
  by (induction xs arbitrary: p) auto

lemma path_last: "path next p (xs @ [b]) \<Longrightarrow> next b = None"
  by (induction xs arbitrary: p) auto

lemma path_inner: "path next p xs \<Longrightarrow> x \<in> set xs \<Longrightarrow> x \<noteq> last xs \<Longrightarrow> next x \<noteq> None"
proof (induction xs arbitrary: p)
  case (Cons y ys)
  then show ?case by (cases ys) auto
qed simp

lemma holds_frame: "holds next q xs \<Longrightarrow> a \<notin> set xs \<Longrightarrow> holds (next(a := v)) q xs"
  by (simp add: holds_def)

lemma holds_init [simp]: "holds next op_queue_init []"
  by (simp add: holds_def op_queue_init_def)

lemma holds_empty: "holds next q xs \<Longrightarrow> oq_empty q \<longleftrightarrow> xs = []"
  by (cases xs) (auto simp: holds_def oq_empty_def)

lemma holds_pop:
  assumes "holds next q (x # xs)" and "oq_pop next q = (next', q')"
  shows "next' = next(x := None)" "holds next' q' xs"
proof -
  have p: "oq_front q = Some x" "path next (next x) xs" "x \<notin> set xs" "distinct xs"
    using assms(1) by (auto simp: holds_def)
  show "next' = next(x := None)" using assms(2) p by (auto simp: oq_pop_def Let_def)
  moreover have "next x = None \<longleftrightarrow> xs = []" using p(2) by (cases xs) auto
  ultimately show "holds next' q' xs"
    using assms p by (auto simp: holds_def oq_pop_def Let_def split: if_splits)
qed

lemma holds_push:
  assumes "holds next q xs" and "a \<notin> set xs" and "oq_push next q a = (next', q')"
  shows "holds next' q' (xs @ [a])"
    and "next' = (if xs = [] then next(a := None) else next(a := None, last xs := Some a))"
proof -
  show n: "next' = (if xs = [] then next(a := None) else next(a := None, last xs := Some a))"
    using assms by (auto simp: holds_def oq_push_def Let_def split: option.splits)
  show "holds next' q' (xs @ [a])"
  proof (cases xs rule: rev_cases)
    case (snoc ys b)
    then have "path (next(a := None)) (oq_front q) (ys @ [b])" "b \<notin> set ys" "a \<noteq> b"
      using assms(1,2) by (auto simp: holds_def)
    then have "path (next(a := None, b := Some a)) (oq_front q) (ys @ b # [a])"
      by (intro path_snoc_link) auto
    then show ?thesis using assms snoc n by (auto simp: holds_def oq_push_def Let_def)
  qed (use assms in \<open>auto simp: holds_def oq_push_def Let_def\<close>)
qed

lemma holds_push_queue:
  assumes "holds next q xs" and "holds next other ys" and "set xs \<inter> set ys = {}"
    and "oq_push_queue next q other = (next', q', other')"
  shows "holds next' q' (xs @ ys)" and "holds next' other' []"
    and "next' = (if xs = [] \<or> ys = [] then next else next(last xs := Some (hd ys)))"
proof -
  have front: "oq_front other = (if ys = [] then None else Some (hd ys))"
    using assms(2) by (cases ys) (auto simp: holds_def)
  have bk: "oq_back q = (if xs = [] then None else Some (last xs))" using assms(1) by (simp add: holds_def)
  show n: "next' = (if xs = [] \<or> ys = [] then next else next(last xs := Some (hd ys)))"
    using assms(4) front bk by (auto simp: oq_push_queue_def Let_def split: if_splits)
  show "holds next' other' []"
    using assms front by (auto simp: oq_push_queue_def holds_def Let_def split: if_splits option.splits prod.splits)
  show "holds next' q' (xs @ ys)"
  proof (cases "xs = [] \<or> ys = []")
    case True
    then show ?thesis using assms front bk by (auto simp: oq_push_queue_def holds_def Let_def split: if_splits)
  next
    case False
    then obtain zs b where xs: "xs = zs @ [b]" by (metis rev_exhaust)
    have "path next (Some (hd ys)) ys" using assms(2) front False by (simp add: holds_def)
    moreover have "b \<notin> set ys" using assms(3) xs by auto
    moreover have "path next (oq_front q) (zs @ [b])" "b \<notin> set zs" using assms(1) xs by (auto simp: holds_def)
    ultimately have "path (next(b := Some (hd ys))) (oq_front q) (zs @ b # ys)"
      by (intro path_snoc_link) simp_all
    then show ?thesis
      using assms front bk False xs n by (auto simp: oq_push_queue_def holds_def Let_def)
  qed
qed

lemma destroy_holds:
  "holds n q xs \<Longrightarrow> \<exists>n1. op_queue_destroy n q ds = Some (n1, ds @ xs)"
proof (induction xs arbitrary: n q ds)
  case Nil
  then show ?case by (subst op_queue_destroy.simps) (simp add: holds_def)
next
  case (Cons x xs)
  obtain n1 q' where p: "oq_pop n q = (n1, q')" by fastforce
  have "holds n1 q' xs" by (rule holds_pop(2) [OF Cons.prems p])
  then have "\<exists>n2. op_queue_destroy n1 q' (ds @ [x]) = Some (n2, (ds @ [x]) @ xs)" by (rule Cons.IH)
  then show ?case using Cons.prems p by (subst op_queue_destroy.simps) (auto simp: holds_def)
qed

section \<open>Refinement to lists\<close>

text \<open>
  The queues of a program, by number, and the commands on them: push an operation, pop the front, move all of
  one queue to the back of another.  The abstract commands work on lists.
\<close>

datatype oq_command = Push nat op_ref | Pop nat | Splice nat nat

type_synonym oq_state = "op_links \<times> (nat \<Rightarrow> op_queue)"

fun oq_step :: "oq_command \<Rightarrow> oq_state \<Rightarrow> oq_state" where
  "oq_step (Push i a) (next, qs) = (case oq_push next (qs i) a of (next', q) \<Rightarrow> (next', qs(i := q)))"
| "oq_step (Pop i) (next, qs) = (case oq_pop next (qs i) of (next', q) \<Rightarrow> (next', qs(i := q)))"
| "oq_step (Splice i j) (next, qs) =
     (case oq_push_queue next (qs i) (qs j) of (next', q, q') \<Rightarrow> (next', qs(i := q, j := q')))"

fun list_step :: "oq_command \<Rightarrow> (nat \<Rightarrow> op_ref list) \<Rightarrow> (nat \<Rightarrow> op_ref list)" where
  "list_step (Push i a) ls = ls(i := ls i @ [a])"
| "list_step (Pop i) ls = ls(i := tl (ls i))"
| "list_step (Splice i j) ls = ls(i := ls i @ ls j, j := [])"

text \<open>The callers push an operation only when it is in no queue, and never move a queue to itself.\<close>

fun command_ok :: "oq_command \<Rightarrow> (nat \<Rightarrow> op_ref list) \<Rightarrow> bool" where
  "command_ok (Push i a) ls \<longleftrightarrow> (\<forall>k. a \<notin> set (ls k))"
| "command_ok (Pop i) ls \<longleftrightarrow> True"
| "command_ok (Splice i j) ls \<longleftrightarrow> i \<noteq> j"

definition oq_refines :: "oq_state \<Rightarrow> (nat \<Rightarrow> op_ref list) \<Rightarrow> bool" where
  "oq_refines s ls \<longleftrightarrow> (\<forall>i. holds (fst s) (snd s i) (ls i)) \<and>
     (\<forall>i j. i \<noteq> j \<longrightarrow> set (ls i) \<inter> set (ls j) = {}) \<and>
     (\<forall>a. (\<forall>i. a \<notin> set (ls i)) \<longrightarrow> fst s a = None)"

lemma oq_refinesD:
  assumes "oq_refines (next, qs) ls"
  shows "holds next (qs i) (ls i)" and "i \<noteq> j \<Longrightarrow> set (ls i) \<inter> set (ls j) = {}"
    and "(\<And>i. a \<notin> set (ls i)) \<Longrightarrow> next a = None"
  using assms by (auto simp: oq_refines_def)

lemma refines_push:
  assumes r: "oq_refines (next, qs) ls" and a: "\<forall>k. a \<notin> set (ls k)" and "oq_push next (qs i) a = (next', q)"
  shows "oq_refines (next', qs(i := q)) (ls(i := ls i @ [a]))"
proof -
  note h = holds_push [OF oq_refinesD(1) [OF r, of i] a [rule_format] assms(3)]
  have other: "holds next' (qs k) (ls k)" if "k \<noteq> i" for k
  proof -
    have "last (ls i) \<notin> set (ls k)" if "ls i \<noteq> []"
      using oq_refinesD(2) [OF r, of i k] \<open>k \<noteq> i\<close> last_in_set [OF that] by blast
    then show ?thesis
      unfolding h(2) using oq_refinesD(1) [OF r, of k] a by (auto intro!: holds_frame)
  qed
  have none: "next' b = None" if "\<forall>k. b \<notin> set ((ls(i := ls i @ [a])) k)" for b
  proof -
    have "b \<notin> set (ls k)" for k using that [rule_format, of k] by (cases "k = i") auto
    moreover have "b \<noteq> a" using that [rule_format, of i] by auto
    moreover have "ls i \<noteq> [] \<Longrightarrow> b \<noteq> last (ls i)" using calculation(1) last_in_set by metis
    ultimately show ?thesis
      unfolding h(2) using oq_refinesD(3) [OF r, of b] by (auto split: if_splits)
  qed
  have disj: "set ((ls(i := ls i @ [a])) k) \<inter> set ((ls(i := ls i @ [a])) l) = {}" if "k \<noteq> l" for k l
    using oq_refinesD(2) [OF r that] a that by (auto simp: fun_upd_def)
  show ?thesis unfolding oq_refines_def using h(1) other none disj by simp
qed

lemma refines_pop:
  assumes r: "oq_refines (next, qs) ls" and p: "oq_pop next (qs i) = (next', q)"
  shows "oq_refines (next', qs(i := q)) (ls(i := tl (ls i)))"
proof (cases "ls i")
  case Nil
  then have "next' = next" "q = qs i"
    using oq_refinesD(1) [OF r, of i] p by (auto simp: oq_pop_def holds_def)
  moreover have "ls(i := tl (ls i)) = ls" using Nil by (simp add: fun_upd_idem)
  ultimately show ?thesis using r by (simp add: fun_upd_idem)
next
  case (Cons x xs)
  note h = holds_pop [OF oq_refinesD(1) [OF r, of i, unfolded Cons] p]
  have x: "x \<notin> set (ls k)" if "k \<noteq> i" for k
    using oq_refinesD(2) [OF r that] Cons by auto
  have other: "holds next' (qs k) (ls k)" if "k \<noteq> i" for k
    unfolding h(1) using oq_refinesD(1) [OF r, of k] x [OF that] by (rule holds_frame)
  have none: "next' b = None" if "\<forall>k. b \<notin> set ((ls(i := tl (ls i))) k)" for b
  proof (cases "b = x")
    case False
    then have "b \<notin> set (ls k)" for k using that [rule_format, of k] Cons by (cases "k = i") auto
    then show ?thesis unfolding h(1) using oq_refinesD(3) [OF r] False by simp
  qed (simp add: h(1))
  have disj: "set ((ls(i := tl (ls i))) k) \<inter> set ((ls(i := tl (ls i))) l) = {}" if "k \<noteq> l" for k l
    using oq_refinesD(2) [OF r that] that Cons by (auto simp: fun_upd_def split: if_splits)
  show ?thesis unfolding oq_refines_def using h(2) other none disj Cons by simp
qed

lemma refines_splice:
  assumes r: "oq_refines (next, qs) ls" and "i \<noteq> j" and p: "oq_push_queue next (qs i) (qs j) = (next', q, q')"
  shows "oq_refines (next', qs(i := q, j := q')) (ls(i := ls i @ ls j, j := []))"
proof -
  let ?ls = "ls(i := ls i @ ls j, j := [])"
  note h = holds_push_queue [OF oq_refinesD(1) [OF r] oq_refinesD(1) [OF r] oq_refinesD(2) [OF r assms(2)] p]
  have other: "holds next' (qs k) (ls k)" if "k \<noteq> i" "k \<noteq> j" for k
  proof -
    have "last (ls i) \<notin> set (ls k)" if "ls i \<noteq> []"
      using oq_refinesD(2) [OF r, of i k] \<open>k \<noteq> i\<close> last_in_set [OF that] by blast
    then show ?thesis unfolding h(3) using oq_refinesD(1) [OF r, of k] by (auto intro!: holds_frame)
  qed
  have none: "next' b = None" if "\<forall>k. b \<notin> set (?ls k)" for b
  proof -
    have nb: "b \<notin> set (ls k)" for k
      using that [rule_format, of k] that [rule_format, of i] assms(2) by (cases "k = i"; cases "k = j") auto
    then have "ls i \<noteq> [] \<Longrightarrow> b \<noteq> last (ls i)" using last_in_set by metis
    then show ?thesis unfolding h(3) using oq_refinesD(3) [OF r, of b] nb by (auto split: if_splits)
  qed
  have disj: "set (?ls k) \<inter> set (?ls l) = {}" if "k \<noteq> l" for k l
    using oq_refinesD(2) [OF r that] oq_refinesD(2) [OF r, of i l] oq_refinesD(2) [OF r, of j l]
      oq_refinesD(2) [OF r, of k i] oq_refinesD(2) [OF r, of k j] that assms(2)
    by (cases "k = i"; cases "l = i"; cases "k = j"; cases "l = j") auto
  show ?thesis unfolding oq_refines_def using h(1,2) other none disj assms(2) by simp
qed

text \<open>
  C39: the queues behave as lists: pushing appends, popping removes the front, and moving one queue to the back of
  another concatenates and empties it, whatever the other queues hold.
\<close>

theorem op_queues_refine_lists:
  assumes "oq_refines s ls" and "command_ok c ls"
  shows "oq_refines (oq_step c s) (list_step c ls)"
proof (cases s)
  case (Pair nx qs)
  show ?thesis
    using assms refines_push refines_pop refines_splice unfolding Pair
    by (cases c) (auto split: prod.splits)
qed

lemma refines_init: "oq_refines (\<lambda>_. None, \<lambda>_. op_queue_init) (\<lambda>_. [])"
  by (simp add: oq_refines_def)

theorem op_queues_refine_lists_witness:
  "oq_refines (oq_step (Splice 0 1) (oq_step (Push 1 7) (oq_step (Push 0 5) (\<lambda>_. None, \<lambda>_. op_queue_init))))
     ((\<lambda>_. [])(0 := [5, 7]))"
proof -
  have 1: "oq_refines (oq_step (Push 0 5) (\<lambda>_. None, \<lambda>_. op_queue_init)) ((\<lambda>_. [])(0 := [5]))"
    using op_queues_refine_lists [OF refines_init, of "Push 0 5"] by simp
  have 2: "oq_refines (oq_step (Push 1 7) (oq_step (Push 0 5) (\<lambda>_. None, \<lambda>_. op_queue_init))) ((\<lambda>_. [])(0 := [5], 1 := [7]))"
    using op_queues_refine_lists [OF 1, of "Push 1 7"] by simp
  have "((\<lambda>_. [])(0 := [5], 1 := [7], 0 := [5, 7], 1 := [])) = (\<lambda>_. [])(0 :: nat := [5, 7 :: nat])"
    by (simp add: fun_eq_iff)
  then show ?thesis using op_queues_refine_lists [OF 2, of "Splice 0 1"] by simp
qed

text \<open>The membership test looks at the operation's link and at the back pointer only.\<close>

lemma is_enqueued_iff:
  assumes "oq_refines (next, qs) ls" and "\<forall>j. j \<noteq> i \<longrightarrow> a \<notin> set (ls j)"
  shows "oq_is_enqueued next (qs i) a \<longleftrightarrow> a \<in> set (ls i)"
proof -
  have h: "holds next (qs i) (ls i)" using oq_refinesD(1) [OF assms(1)] .
  show ?thesis
  proof (cases "a \<in> set (ls i)")
    case True
    then show ?thesis using h path_inner [of "next" "oq_front (qs i)" "ls i" a]
      by (auto simp: oq_is_enqueued_def holds_def)
  next
    case False
    then have "next a = None" using oq_refinesD(3) [OF assms(1), of a] assms(2) by metis
    then show ?thesis using False h last_in_set by (auto simp: oq_is_enqueued_def holds_def)
  qed
qed

end
