(* ===== verification/Timer_Queue.thy ===== *)
theory Timer_Queue
  imports Op_Queue Composed_Io "HOL-Library.Multiset"
begin

text \<open>
  \<^verbatim>\<open>asio/detail/timer_queue.hpp\<close>: the timers of a reactor, in a binary heap by expiry time, with the
  position of each timer in the heap kept in the timer, and in a doubly linked list of all active timers.
  A timer is its address; each member of \<^verbatim>\<open>per_timer_data\<close> is a function of the address, and the
  queue of waiting operations is the list which \<^verbatim>\<open>op_queue\<close> refines (\<^verbatim>\<open>Op_Queue\<close>).
  Times are ticks of the clock; all accesses to the heap have an index below its size.  That
  \<^verbatim>\<open>push_back\<close> may fail for lack of memory is not modelled.
\<close>

section \<open>The queue\<close>

type_synonym timer_ref = nat
type_synonym time_type = int
type_synonym heap_entry = "time_type \<times> timer_ref"

record timer_queue =
  timer_ops :: "timer_ref \<Rightarrow> op_ref list"
  heap_index :: "timer_ref \<Rightarrow> nat"
  timer_next :: "timer_ref \<Rightarrow> timer_ref option"
  timer_prev :: "timer_ref \<Rightarrow> timer_ref option"
  timers :: "timer_ref option"
  timer_heap :: "heap_entry list"
  op_ec :: "op_ref \<Rightarrow> error_code"

text \<open>The largest \<^verbatim>\<open>size_t\<close> says that a timer has no entry in the heap.\<close>

definition no_index :: nat where
  "no_index = 2 ^ 64 - 1"

definition timer_queue_init :: "timer_queue \<Rightarrow> timer_queue" where
  "timer_queue_init q = q\<lparr>timers := None, timer_heap := []\<rparr>"

definition per_timer_data_init :: "timer_queue \<Rightarrow> timer_ref \<Rightarrow> timer_queue" where
  "per_timer_data_init q t =
     q\<lparr>timer_ops := (timer_ops q)(t := []), heap_index := (heap_index q)(t := no_index),
       timer_next := (timer_next q)(t := None), timer_prev := (timer_prev q)(t := None)\<rparr>"

section \<open>The heap\<close>

definition swap_heap :: "timer_queue \<Rightarrow> nat \<Rightarrow> nat \<Rightarrow> timer_queue" where
  "swap_heap q index1 index2 =
     (let tmp = timer_heap q ! index1;
          h = (timer_heap q)[index1 := timer_heap q ! index2, index2 := tmp]
      in q\<lparr>timer_heap := h, heap_index := (heap_index q)(snd (h ! index1) := index1, snd (h ! index2) := index2)\<rparr>)"

function up_heap :: "timer_queue \<Rightarrow> nat \<Rightarrow> timer_queue" where
  "up_heap q index =
     (if 0 < index then
        let parent = (index - 1) div 2
        in if \<not> fst (timer_heap q ! index) < fst (timer_heap q ! parent) then q
           else up_heap (swap_heap q index parent) parent
      else q)"
  by pat_completeness auto
termination
  by (relation "measure snd") auto

definition min_child :: "timer_queue \<Rightarrow> nat \<Rightarrow> nat" where
  "min_child q child =
     (if child + 1 = length (timer_heap q) \<or> fst (timer_heap q ! child) < fst (timer_heap q ! (child + 1)) then child else child + 1)"

lemma length_swap_heap [simp]: "length (timer_heap (swap_heap q i j)) = length (timer_heap q)"
  by (simp add: swap_heap_def Let_def)

lemma min_child_cases: "min_child q c = c \<or> min_child q c = c + 1"
  by (simp add: min_child_def)

function down_heap :: "timer_queue \<Rightarrow> nat \<Rightarrow> timer_queue" where
  "down_heap q index =
     (let child = index * 2 + 1
      in if child < length (timer_heap q) then
           let m = min_child q child
           in if fst (timer_heap q ! index) < fst (timer_heap q ! m) then q
              else down_heap (swap_heap q index m) m
         else q)"
  by pat_completeness auto
termination
proof (relation "measure (\<lambda>(q, i). length (timer_heap q) - i)", goal_cases)
  case (2 q i c m)
  then show ?case using min_child_cases [of q c] by auto
qed simp

declare up_heap.simps [simp del] down_heap.simps [simp del]

section \<open>The operations\<close>

definition unlink_timer :: "timer_queue \<Rightarrow> timer_ref \<Rightarrow> timer_queue" where
  "unlink_timer q timer =
     (let q1 = (if timers q = Some timer then q\<lparr>timers := timer_next q timer\<rparr> else q);
          q2 = (case timer_prev q1 timer of Some p \<Rightarrow> q1\<lparr>timer_next := (timer_next q1)(p := timer_next q1 timer)\<rparr> | None \<Rightarrow> q1);
          q3 = (case timer_next q2 timer of Some n \<Rightarrow> q2\<lparr>timer_prev := (timer_prev q2)(n := timer_prev q2 timer)\<rparr> | None \<Rightarrow> q2)
      in q3\<lparr>timer_next := (timer_next q3)(timer := None), timer_prev := (timer_prev q3)(timer := None)\<rparr>)"

definition pop_heap :: "timer_queue \<Rightarrow> timer_ref \<Rightarrow> timer_queue" where
  "pop_heap q timer = q\<lparr>heap_index := (heap_index q)(timer := no_index), timer_heap := butlast (timer_heap q)\<rparr>"

definition remove_from_heap :: "timer_queue \<Rightarrow> timer_ref \<Rightarrow> timer_queue" where
  "remove_from_heap q timer =
     (let index = heap_index q timer
      in if timer_heap q \<noteq> [] \<and> index < length (timer_heap q) then
           if index = length (timer_heap q) - 1 then pop_heap q timer
           else
             let q1 = pop_heap (swap_heap q index (length (timer_heap q) - 1)) timer
             in if 0 < index \<and> fst (timer_heap q1 ! index) < fst (timer_heap q1 ! ((index - 1) div 2))
                then up_heap q1 index else down_heap q1 index
         else q)"

definition remove_timer :: "timer_queue \<Rightarrow> timer_ref \<Rightarrow> timer_queue" where
  "remove_timer q timer = unlink_timer (remove_from_heap q timer) timer"

text \<open>The link to the front of the list of active timers, and the enqueueing of an operation.\<close>

definition link_timer :: "timer_queue \<Rightarrow> timer_ref \<Rightarrow> timer_queue" where
  "link_timer q timer =
     (let q1 = q\<lparr>timer_next := (timer_next q)(timer := timers q), timer_prev := (timer_prev q)(timer := None)\<rparr>;
          q2 = (case timers q1 of Some h \<Rightarrow> q1\<lparr>timer_prev := (timer_prev q1)(h := Some timer)\<rparr> | None \<Rightarrow> q1)
      in q2\<lparr>timers := Some timer\<rparr>)"

definition idle_timer :: "timer_queue \<Rightarrow> timer_ref \<Rightarrow> bool" where
  "idle_timer q timer \<longleftrightarrow> timer_prev q timer = None \<and> timers q \<noteq> Some timer"

definition activate_timer :: "(time_type \<Rightarrow> bool) \<Rightarrow> timer_queue \<Rightarrow> time_type \<Rightarrow> timer_ref \<Rightarrow> timer_queue" where
  "activate_timer is_positive_infinity q time timer =
     (if idle_timer q timer then
        let q1 =
          (if is_positive_infinity time then q\<lparr>heap_index := (heap_index q)(timer := no_index)\<rparr>
           else up_heap
                  (q\<lparr>heap_index := (heap_index q)(timer := length (timer_heap q)), timer_heap := timer_heap q @ [(time, timer)]\<rparr>)
                  (length (timer_heap q)))
        in link_timer q1 timer
      else q)"

definition enqueue_timer ::
  "(time_type \<Rightarrow> bool) \<Rightarrow> timer_queue \<Rightarrow> time_type \<Rightarrow> timer_ref \<Rightarrow> op_ref \<Rightarrow> timer_queue \<times> bool" where
  "enqueue_timer is_positive_infinity q time timer op =
     (let q1 = activate_timer is_positive_infinity q time timer;
          q2 = q1\<lparr>timer_ops := (timer_ops q1)(timer := timer_ops q1 timer @ [op])\<rparr>
      in (q2, heap_index q2 timer = 0 \<and> hd (timer_ops q2 timer) = op))"

definition tq_empty :: "timer_queue \<Rightarrow> bool" where
  "tq_empty q \<longleftrightarrow> timers q = None"

text \<open>The inner loop of \<^verbatim>\<open>get_ready_timers\<close>: all operations of a timer complete without error.\<close>

primrec complete_ops :: "op_ref list \<Rightarrow> (op_ref \<Rightarrow> error_code) \<Rightarrow> op_ref list \<Rightarrow> (op_ref \<Rightarrow> error_code) \<times> op_ref list" where
  "complete_ops [] ec ops = (ec, ops)"
| "complete_ops (op # queue) ec ops = complete_ops queue (ec(op := no_error)) (ops @ [op])"

definition complete_timer :: "timer_queue \<Rightarrow> op_ref list \<Rightarrow> timer_ref \<Rightarrow> timer_queue \<times> op_ref list" where
  "complete_timer q ops timer =
     (let (ec, ops') = complete_ops (timer_ops q timer) (op_ec q) ops
      in (remove_timer (q\<lparr>timer_ops := (timer_ops q)(timer := []), op_ec := ec\<rparr>) timer, ops'))"

partial_function (option) ready_loop :: "time_type \<Rightarrow> timer_queue \<Rightarrow> op_ref list \<Rightarrow> (timer_queue \<times> op_ref list) option" where
  "ready_loop now q ops =
     (if timer_heap q \<noteq> [] \<and> \<not> now < fst (timer_heap q ! 0) then
        case complete_timer q ops (snd (timer_heap q ! 0)) of (q', ops') \<Rightarrow> ready_loop now q' ops'
      else Some (q, ops))"

definition get_ready_timers :: "time_type \<Rightarrow> timer_queue \<Rightarrow> op_ref list \<Rightarrow> (timer_queue \<times> op_ref list) option" where
  "get_ready_timers now q ops = (if timer_heap q \<noteq> [] then ready_loop now q ops else Some (q, ops))"

partial_function (option) all_loop :: "timer_queue \<Rightarrow> op_ref list \<Rightarrow> (timer_queue \<times> op_ref list) option" where
  "all_loop q ops =
     (case timers q of
        None \<Rightarrow> Some (q, ops)
      | Some timer \<Rightarrow>
          all_loop (q\<lparr>timers := timer_next q timer, timer_ops := (timer_ops q)(timer := []),
                      timer_next := (timer_next q)(timer := None), timer_prev := (timer_prev q)(timer := None)\<rparr>)
                   (ops @ timer_ops q timer))"

definition get_all_timers :: "timer_queue \<Rightarrow> op_ref list \<Rightarrow> (timer_queue \<times> op_ref list) option" where
  "get_all_timers q ops = map_option (\<lambda>(q', ops'). (q'\<lparr>timer_heap := []\<rparr>, ops')) (all_loop q ops)"

fun cancel_loop ::
  "nat \<Rightarrow> op_ref list \<Rightarrow> (op_ref \<Rightarrow> error_code) \<Rightarrow> op_ref list \<Rightarrow> nat \<Rightarrow>
   op_ref list \<times> (op_ref \<Rightarrow> error_code) \<times> op_ref list \<times> nat" where
  "cancel_loop max_cancelled [] ec ops num_cancelled = ([], ec, ops, num_cancelled)"
| "cancel_loop max_cancelled (op # queue) ec ops num_cancelled =
     (if num_cancelled \<noteq> max_cancelled then
        cancel_loop max_cancelled queue (ec(op := Some Operation_aborted)) (ops @ [op]) (num_cancelled + 1)
      else (op # queue, ec, ops, num_cancelled))"

definition cancel_timer :: "timer_queue \<Rightarrow> timer_ref \<Rightarrow> op_ref list \<Rightarrow> nat \<Rightarrow> timer_queue \<times> op_ref list \<times> nat" where
  "cancel_timer q timer ops max_cancelled =
     (if \<not> idle_timer q timer then
        case cancel_loop max_cancelled (timer_ops q timer) (op_ec q) ops 0 of
          (queue, ec, ops', num_cancelled) \<Rightarrow>
            let q1 = q\<lparr>timer_ops := (timer_ops q)(timer := queue), op_ec := ec\<rparr>
            in (if queue = [] then remove_timer q1 timer else q1, ops', num_cancelled)
      else (q, ops, 0))"

fun key_loop ::
  "(op_ref \<Rightarrow> 'k) \<Rightarrow> 'k \<Rightarrow> op_ref list \<Rightarrow> (op_ref \<Rightarrow> error_code) \<Rightarrow> op_ref list \<Rightarrow> op_ref list \<Rightarrow>
   (op_ref \<Rightarrow> error_code) \<times> op_ref list \<times> op_ref list" where
  "key_loop key_of cancellation_key [] ec ops other_ops = (ec, ops, other_ops)"
| "key_loop key_of cancellation_key (op # queue) ec ops other_ops =
     (if key_of op = cancellation_key
      then key_loop key_of cancellation_key queue (ec(op := Some Operation_aborted)) (ops @ [op]) other_ops
      else key_loop key_of cancellation_key queue ec ops (other_ops @ [op]))"

definition cancel_timer_by_key ::
  "(op_ref \<Rightarrow> 'k) \<Rightarrow> timer_queue \<Rightarrow> timer_ref \<Rightarrow> op_ref list \<Rightarrow> 'k \<Rightarrow> timer_queue \<times> op_ref list" where
  "cancel_timer_by_key key_of q timer ops cancellation_key =
     (if \<not> idle_timer q timer then
        case key_loop key_of cancellation_key (timer_ops q timer) (op_ec q) ops [] of
          (ec, ops', other_ops) \<Rightarrow>
            let q1 = q\<lparr>timer_ops := (timer_ops q)(timer := other_ops), op_ec := ec\<rparr>
            in (if other_ops = [] then remove_timer q1 timer else q1, ops')
      else (q, ops))"

definition move_entry :: "timer_queue \<Rightarrow> timer_ref \<Rightarrow> timer_ref \<Rightarrow> timer_queue" where
  "move_entry q target source =
     (let q1 = q\<lparr>heap_index := (heap_index q)(target := heap_index q source, source := no_index)\<rparr>;
          index = heap_index q1 target
      in if index < length (timer_heap q1)
         then q1\<lparr>timer_heap := (timer_heap q1)[index := (fst (timer_heap q1 ! index), target)]\<rparr> else q1)"

definition move_links :: "timer_queue \<Rightarrow> timer_ref \<Rightarrow> timer_ref \<Rightarrow> timer_queue" where
  "move_links q target source =
     (let q1 = (if timers q = Some source then q\<lparr>timers := Some target\<rparr> else q);
          q2 = (case timer_prev q1 source of Some p \<Rightarrow> q1\<lparr>timer_next := (timer_next q1)(p := Some target)\<rparr> | None \<Rightarrow> q1);
          q3 = (case timer_next q2 source of Some n \<Rightarrow> q2\<lparr>timer_prev := (timer_prev q2)(n := Some target)\<rparr> | None \<Rightarrow> q2)
      in q3\<lparr>timer_next := (timer_next q3)(target := timer_next q3 source, source := None),
            timer_prev := (timer_prev q3)(target := timer_prev q3 source, source := None)\<rparr>)"

definition move_timer :: "timer_queue \<Rightarrow> timer_ref \<Rightarrow> timer_ref \<Rightarrow> timer_queue" where
  "move_timer q target source =
     (let q1 = q\<lparr>timer_ops := (timer_ops q)(target := timer_ops q target @ timer_ops q source, source := [])\<rparr>
      in move_links (move_entry q1 target source) target source)"

section \<open>The heap order\<close>

definition parent :: "nat \<Rightarrow> nat" where
  "parent i = (i - 1) div 2"

definition keys :: "timer_queue \<Rightarrow> nat \<Rightarrow> time_type" where
  "keys q i = fst (timer_heap q ! i)"

definition heap_ok :: "nat \<Rightarrow> (nat \<Rightarrow> time_type) \<Rightarrow> bool" where
  "heap_ok n k \<longleftrightarrow> (\<forall>j. 0 < j \<longrightarrow> j < n \<longrightarrow> k (parent j) \<le> k j)"

text \<open>The order with one defect: the entry at \<open>i\<close> may be smaller than its parent, or larger than its children.\<close>

definition up_ok :: "nat \<Rightarrow> (nat \<Rightarrow> time_type) \<Rightarrow> nat \<Rightarrow> bool" where
  "up_ok n k i \<longleftrightarrow> i < n \<and> (\<forall>j. 0 < j \<longrightarrow> j < n \<longrightarrow> j \<noteq> i \<longrightarrow> k (parent j) \<le> k j)
     \<and> (\<forall>j. 0 < i \<longrightarrow> 0 < j \<longrightarrow> j < n \<longrightarrow> parent j = i \<longrightarrow> k (parent i) \<le> k j)"

definition down_ok :: "nat \<Rightarrow> (nat \<Rightarrow> time_type) \<Rightarrow> nat \<Rightarrow> bool" where
  "down_ok n k i \<longleftrightarrow> (\<forall>j. 0 < j \<longrightarrow> j < n \<longrightarrow> parent j \<noteq> i \<longrightarrow> k (parent j) \<le> k j)
     \<and> (\<forall>j. 0 < i \<longrightarrow> 0 < j \<longrightarrow> j < n \<longrightarrow> parent j = i \<longrightarrow> k (parent i) \<le> k j)"

lemma parent_less [simp]: "0 < j \<Longrightarrow> parent j < j"
  by (simp add: parent_def)

lemma parent_neq [simp]: "0 < j \<Longrightarrow> parent j \<noteq> j"
  using parent_less [of j] by linarith

lemma parent_eq_iff: "0 < j \<Longrightarrow> parent j = i \<longleftrightarrow> j = i * 2 + 1 \<or> j = i * 2 + 2"
  by (auto simp: parent_def)

lemma heap_root_min: "heap_ok n k \<Longrightarrow> i < n \<Longrightarrow> k 0 \<le> k i"
proof (induction i rule: less_induct)
  case (less i)
  show ?case
  proof (cases "i = 0")
    case False
    then have "k 0 \<le> k (parent i)" using less parent_less [of i] by auto
    also have "\<dots> \<le> k i" using less False by (simp add: heap_ok_def)
    finally show ?thesis .
  qed simp
qed

lemma up_step:
  assumes "up_ok n k i" and "0 < i" and "k i < k (parent i)"
  shows "up_ok n (k(i := k (parent i), parent i := k i)) (parent i)"
proof -
  have order: "\<And>j. 0 < j \<Longrightarrow> j < n \<Longrightarrow> j \<noteq> i \<Longrightarrow> k (parent j) \<le> k j"
    and below: "\<And>j. 0 < j \<Longrightarrow> j < n \<Longrightarrow> parent j = i \<Longrightarrow> k (parent i) \<le> k j" and "i < n"
    using assms(1,2) by (auto simp: up_ok_def)
  note lt = parent_less [OF assms(2)]
  let ?k = "k(i := k (parent i), parent i := k i)"
  have "?k (parent j) \<le> ?k j" if j: "0 < j" "j < n" "j \<noteq> parent i" for j
    using order [of j] below [of j] j lt assms(3) \<open>0 < i\<close> by auto
  moreover have "k (parent (parent i)) \<le> ?k j" if j: "0 < parent i" "0 < j" "j < n" "parent j = parent i" for j
  proof -
    have "k (parent (parent i)) \<le> k (parent i)" using order [of "parent i"] j lt \<open>i < n\<close> by auto
    then show ?thesis using order [of j] j by auto
  qed
  moreover have "parent (parent i) \<noteq> i" if "0 < parent i" using parent_less [OF that] lt by linarith
  ultimately show ?thesis using lt \<open>i < n\<close> by (auto simp: up_ok_def)
qed

lemma up_stop: "up_ok n k i \<Longrightarrow> i = 0 \<or> k (parent i) \<le> k i \<Longrightarrow> heap_ok n k"
  unfolding up_ok_def heap_ok_def by blast

lemma down_step:
  assumes "down_ok n k i" and "m < n" and "0 < m" and "parent m = i" and "k m \<le> k i"
    and least: "\<And>j. 0 < j \<Longrightarrow> j < n \<Longrightarrow> parent j = i \<Longrightarrow> k m \<le> k j"
  shows "down_ok n (k(i := k m, m := k i)) m"
proof -
  have order: "\<And>j. 0 < j \<Longrightarrow> j < n \<Longrightarrow> parent j \<noteq> i \<Longrightarrow> k (parent j) \<le> k j"
    and above: "\<And>j. 0 < i \<Longrightarrow> 0 < j \<Longrightarrow> j < n \<Longrightarrow> parent j = i \<Longrightarrow> k (parent i) \<le> k j"
    using assms(1) by (auto simp: down_ok_def)
  have lt: "i < m" using parent_less [OF assms(3)] assms(4) by simp
  let ?k = "k(i := k m, m := k i)"
  have "?k (parent j) \<le> ?k j" if j: "0 < j" "j < n" "parent j \<noteq> m" for j
    using order [of j] above [of m] least [of j] j lt assms(2,3,4,5) by (cases "j = i"; cases "j = m"; cases "parent j = i") auto
  moreover have "?k (parent m) \<le> ?k j" if j: "0 < j" "j < n" "parent j = m" for j
    using order [of j] j lt assms(4) parent_less [of j] by auto
  ultimately show ?thesis unfolding down_ok_def by blast
qed

lemma down_stop:
  "down_ok n k i \<Longrightarrow> (\<And>j. 0 < j \<Longrightarrow> j < n \<Longrightarrow> parent j = i \<Longrightarrow> k i \<le> k j) \<Longrightarrow> heap_ok n k"
  unfolding down_ok_def heap_ok_def by metis

section \<open>Rearranging the heap\<close>

text \<open>Every entry of the heap knows its position.\<close>

definition indexed :: "timer_queue \<Rightarrow> bool" where
  "indexed q \<longleftrightarrow> (\<forall>i < length (timer_heap q). heap_index q (snd (timer_heap q ! i)) = i)"

text \<open>
  \<open>q'\<close> has the entries of the heap of \<open>q\<close> in another order, with their indices, and is the same
  otherwise.
\<close>

definition rearranged :: "timer_queue \<Rightarrow> timer_queue \<Rightarrow> bool" where
  "rearranged q q' \<longleftrightarrow>
     (\<exists>h f. q' = q\<lparr>timer_heap := h, heap_index := f\<rparr> \<and> mset h = mset (timer_heap q)
        \<and> (\<forall>t. t \<notin> snd ` set (timer_heap q) \<longrightarrow> f t = heap_index q t))
     \<and> indexed q'"

lemma rearranged_refl: "indexed q \<Longrightarrow> rearranged q q"
  unfolding rearranged_def by (metis timer_queue.surjective timer_queue.update_convs(2,6))

lemma rearrangedI:
  "q' = q\<lparr>timer_heap := h, heap_index := f\<rparr> \<Longrightarrow> mset h = mset (timer_heap q) \<Longrightarrow>
   (\<And>t. t \<notin> snd ` set (timer_heap q) \<Longrightarrow> f t = heap_index q t) \<Longrightarrow> indexed q' \<Longrightarrow> rearranged q q'"
  unfolding rearranged_def by blast

lemma rearranged_trans:
  assumes "rearranged q q'" and "rearranged q' q''"
  shows "rearranged q q''"
proof -
  obtain h f where 1: "q' = q\<lparr>timer_heap := h, heap_index := f\<rparr>" "mset h = mset (timer_heap q)"
    "\<forall>t. t \<notin> snd ` set (timer_heap q) \<longrightarrow> f t = heap_index q t" using assms(1) by (auto simp: rearranged_def)
  obtain h' f' where 2: "q'' = q'\<lparr>timer_heap := h', heap_index := f'\<rparr>" "mset h' = mset (timer_heap q')"
    "\<forall>t. t \<notin> snd ` set (timer_heap q') \<longrightarrow> f' t = heap_index q' t" "indexed q''"
    using assms(2) by (auto simp: rearranged_def)
  have "q'' = q\<lparr>timer_heap := h', heap_index := f'\<rparr>" "mset h' = mset (timer_heap q)" using 1 2 by simp_all
  moreover have "\<forall>t. t \<notin> snd ` set (timer_heap q) \<longrightarrow> f' t = heap_index q t"
    using 1 2(3) mset_eq_setD [OF 1(2)] by simp
  ultimately show ?thesis unfolding rearranged_def using 2(4) by blast
qed

lemma rearranged_sel:
  assumes "rearranged q q'"
  shows "timer_ops q' = timer_ops q" "timer_next q' = timer_next q" "timer_prev q' = timer_prev q"
    "timers q' = timers q" "op_ec q' = op_ec q" "mset (timer_heap q') = mset (timer_heap q)"
    "length (timer_heap q') = length (timer_heap q)" "set (timer_heap q') = set (timer_heap q)" "indexed q'"
    "\<And>t. t \<notin> snd ` set (timer_heap q) \<Longrightarrow> heap_index q' t = heap_index q t"
  using assms by (auto simp: rearranged_def dest: mset_eq_length mset_eq_setD)

lemma indexed_inject:
  "indexed q \<Longrightarrow> i < length (timer_heap q) \<Longrightarrow> j < length (timer_heap q) \<Longrightarrow>
   snd (timer_heap q ! i) = snd (timer_heap q ! j) \<longleftrightarrow> i = j"
  unfolding indexed_def by metis

lemma keys_swap:
  "i < length (timer_heap q) \<Longrightarrow> j < length (timer_heap q) \<Longrightarrow>
   keys (swap_heap q i j) = (keys q)(i := keys q j, j := keys q i)"
  by (auto simp: keys_def swap_heap_def Let_def nth_list_update fun_eq_iff)

lemma swap_rearranged:
  assumes "indexed q" and ij: "i < length (timer_heap q)" "j < length (timer_heap q)"
  shows "rearranged q (swap_heap q i j)"
proof -
  let ?h = "(timer_heap q)[i := timer_heap q ! j, j := timer_heap q ! i]"
  have "indexed (swap_heap q i j)"
    using assms indexed_inject [OF assms(1)]
    by (auto simp: indexed_def swap_heap_def Let_def nth_list_update)
  moreover have "mset ?h = mset (timer_heap q)" using mset_swap [OF ij(2,1)] by simp
  moreover have "snd (?h ! i) \<in> snd ` set (timer_heap q)" "snd (?h ! j) \<in> snd ` set (timer_heap q)"
    using ij by (auto simp: nth_list_update)
  ultimately show ?thesis
    by (intro rearrangedI [where h = ?h and f = "(heap_index q)(snd (?h ! i) := i, snd (?h ! j) := j)"])
      (auto simp: swap_heap_def Let_def)
qed

lemma up_heap_ok:
  "indexed q \<Longrightarrow> up_ok (length (timer_heap q)) (keys q) i \<Longrightarrow>
   rearranged q (up_heap q i) \<and> heap_ok (length (timer_heap q)) (keys (up_heap q i))"
proof (induction q i rule: up_heap.induct)
  case (1 q i)
  show ?case
  proof (cases "0 < i \<and> keys q i < keys q (parent i)")
    case True
    let ?q = "swap_heap q i (parent i)"
    have i: "i < length (timer_heap q)" "parent i < length (timer_heap q)"
      using 1(3) True less_trans [OF parent_less [of i]] by (auto simp only: up_ok_def)
    have r: "rearranged q ?q" by (rule swap_rearranged [OF 1(2) i])
    have nn: "\<not> \<not> fst (timer_heap q ! i) < fst (timer_heap q ! parent i)" using True by (simp add: keys_def)
    have "up_ok (length (timer_heap q)) (keys ?q) (parent i)"
      using up_step [OF 1(3)] True keys_swap [OF i] by simp
    then have "rearranged ?q (up_heap ?q (parent i)) \<and> heap_ok (length (timer_heap q)) (keys (up_heap ?q (parent i)))"
      using 1(1) [OF conjunct1 [OF True] parent_def nn rearranged_sel(9) [OF r]] by simp
    moreover have "up_heap q i = up_heap ?q (parent i)"
      using True by (subst up_heap.simps) (simp add: parent_def keys_def Let_def)
    ultimately show ?thesis using rearranged_trans [OF r] by simp
  next
    case False
    then have "up_heap q i = q" by (subst up_heap.simps) (auto simp: keys_def parent_def Let_def)
    then show ?thesis using 1(2,3) False up_stop rearranged_refl by auto
  qed
qed

lemma min_child_least:
  assumes "i * 2 + 1 < length (timer_heap q)" and m: "m = min_child q (i * 2 + 1)"
  shows "m < length (timer_heap q)" "0 < m" "parent m = i"
    "0 < j \<Longrightarrow> j < length (timer_heap q) \<Longrightarrow> parent j = i \<Longrightarrow> keys q m \<le> keys q j"
proof -
  show "m < length (timer_heap q)" "0 < m" "parent m = i" using assms by (auto simp: min_child_def parent_def)
  assume j: "0 < j" "j < length (timer_heap q)" "parent j = i"
  then have "j = i * 2 + 1 \<or> j = i * 2 + 1 + 1" using parent_eq_iff [of j i] by linarith
  then show "keys q m \<le> keys q j" using j(2) m by (auto simp: min_child_def keys_def)
qed

lemma down_heap_ok:
  "indexed q \<Longrightarrow> down_ok (length (timer_heap q)) (keys q) i \<Longrightarrow>
   rearranged q (down_heap q i) \<and> heap_ok (length (timer_heap q)) (keys (down_heap q i))"
proof (induction q i rule: down_heap.induct)
  case (1 q i)
  let ?n = "length (timer_heap q)" and ?m = "min_child q (i * 2 + 1)"
  let ?q = "swap_heap q i ?m"
  show ?case
  proof (cases "i * 2 + 1 < ?n")
    case child: True
    note m = min_child_least [OF child refl]
    show ?thesis
    proof (cases "keys q i < keys q ?m")
      case True
      then have "down_heap q i = q" using child by (subst down_heap.simps) (simp add: keys_def)
      moreover have "heap_ok ?n (keys q)"
      proof (rule down_stop [OF 1(3)])
        show "keys q i \<le> keys q j" if "0 < j" "j < ?n" "parent j = i" for j
          using m(4) [OF that] True by linarith
      qed
      ultimately show ?thesis using 1(2) rearranged_refl by simp
    next
      case False
      have i: "i < ?n" using child by linarith
      have r: "rearranged q ?q" by (rule swap_rearranged [OF 1(2) i m(1)])
      have nn: "\<not> fst (timer_heap q ! i) < fst (timer_heap q ! ?m)" using False by (simp add: keys_def)
      have "down_ok ?n ((keys q)(i := keys q ?m, ?m := keys q i)) ?m"
        using False by (intro down_step [OF 1(3) m(1-3) _ m(4)]) simp_all
      then have "down_ok (length (timer_heap ?q)) (keys ?q) ?m"
        by (simp only: length_swap_heap keys_swap [OF i m(1)])
      then have "rearranged ?q (down_heap ?q ?m) \<and> heap_ok ?n (keys (down_heap ?q ?m))"
        using 1(1) [OF refl child refl nn rearranged_sel(9) [OF r]] by (simp only: length_swap_heap)
      moreover have "down_heap q i = down_heap ?q ?m"
        using child False by (subst down_heap.simps) (simp add: keys_def Let_def)
      ultimately show ?thesis using rearranged_trans [OF r] by simp
    qed
  next
    case False
    then have "down_heap q i = q" by (subst down_heap.simps) simp
    moreover have "heap_ok ?n (keys q)" using False parent_eq_iff by (intro down_stop [OF 1(3)]) auto
    ultimately show ?thesis using 1(2) rearranged_refl by simp
  qed
qed

section \<open>Removing an entry\<close>

definition drop_entry :: "timer_queue \<Rightarrow> timer_ref \<Rightarrow> timer_queue" where
  "drop_entry q t = q\<lparr>timer_heap := filter (\<lambda>e. snd e \<noteq> t) (timer_heap q), heap_index := (heap_index q)(t := no_index)\<rparr>"

lemma indexed_distinct: "indexed q \<Longrightarrow> distinct (map snd (timer_heap q))"
  by (simp add: distinct_conv_nth indexed_inject)

lemma pop_rearranged:
  assumes "rearranged q q1" and "timer_heap q1 = h @ [(d, t)]"
  shows "rearranged (drop_entry q t) (pop_heap q1 t)"
proof -
  obtain f where q1: "q1 = q\<lparr>timer_heap := h @ [(d, t)], heap_index := f\<rparr>"
    and f0: "\<And>t. t \<notin> snd ` set (timer_heap q) \<Longrightarrow> f t = heap_index q t"
    using assms by (auto simp: rearranged_def)
  have f: "f t = heap_index q t" if "\<forall>a. (a, t) \<notin> set (timer_heap q)" for t
    using that by (intro f0) auto
  note r = rearranged_sel [OF assms(1)]
  have t: "t \<notin> snd ` set h" using indexed_distinct [OF r(9)] assms(2) by (auto simp: image_iff)
  then have "filter (\<lambda>e. snd e \<noteq> t) h = h" by (auto simp: filter_id_conv)
  then have "mset h = mset (filter (\<lambda>e. snd e \<noteq> t) (timer_heap q))"
    using arg_cong [OF r(6), of "filter_mset (\<lambda>e. snd e \<noteq> t)"] assms(2) by (simp flip: mset_filter)
  moreover have "indexed (pop_heap q1 t)"
    unfolding indexed_def
  proof (intro allI impI)
    fix i assume "i < length (timer_heap (pop_heap q1 t))"
    then have i: "i < length h" using assms(2) by (simp add: pop_heap_def)
    then have "heap_index q1 (snd (h ! i)) = i"
      using r(9) assms(2) by (auto simp: indexed_def nth_append dest: spec [of _ i])
    moreover have "snd (h ! i) \<noteq> t" using t i by (auto simp: image_iff)
    ultimately show "heap_index (pop_heap q1 t) (snd (timer_heap (pop_heap q1 t) ! i)) = i"
      using assms(2) by (simp add: pop_heap_def)
  qed
  ultimately show ?thesis
    using f by (intro rearrangedI [where h = h and f = "f(t := no_index)"])
      (auto simp: q1 drop_entry_def pop_heap_def image_iff)
qed

lemma replaced_key:
  assumes "heap_ok n k" and "Suc i < n" and "\<And>j. j < n - 1 \<Longrightarrow> k' j = (k(i := x)) j"
  shows "if 0 < i \<and> k' i < k' (parent i) then up_ok (n - 1) k' i else down_ok (n - 1) k' i"
proof -
  have order: "k (parent j) \<le> k j" if "0 < j" "j < n" for j using assms(1) that by (simp add: heap_ok_def)
  have k': "k' j = (if j = i then x else k j)" if "j < n - 1" for j using assms(3) [OF that] by simp
  have p: "parent j < n - 1" if "0 < j" "j < n - 1" for j using parent_less [OF that(1)] that by linarith
  have two: "k (parent i) \<le> k j" if "0 < i" "0 < j" "j < n - 1" "parent j = i" for j
  proof -
    have "k (parent i) \<le> k i" "k (parent j) \<le> k j" using assms(2) that by (auto intro: order)
    then show ?thesis using that(4) by simp
  qed
  have far: "k' (parent j) \<le> k' j" if "0 < j" "j < n - 1" "j \<noteq> i" "parent j \<noteq> i" for j
    using order [of j] k' [of j] k' [OF p [of j]] that by auto
  have near: "k' (parent i) \<le> k' j" if "0 < i" "0 < j" "j < n - 1" "parent j = i" for j
    using two [OF that] k' [of j] k' [OF p [of i]] that assms(2) parent_less [of i] parent_less [of j] by auto
  show ?thesis
    using far near assms(2) unfolding up_ok_def down_ok_def by (smt (verit, best) less_diff_conv Suc_eq_plus1)
qed

lemma remove_rearranged:
  assumes "indexed q" and "heap_ok (length (timer_heap q)) (keys q)"
    and t: "i < length (timer_heap q)" "snd (timer_heap q ! i) = t"
  shows "rearranged (drop_entry q t) (remove_from_heap q t)"
    and "heap_ok (length (timer_heap (remove_from_heap q t))) (keys (remove_from_heap q t))"
proof -
  let ?n = "length (timer_heap q)"
  have i: "heap_index q t = i" using assms(1) t by (auto simp: indexed_def)
  have ne: "timer_heap q \<noteq> []" using t(1) by auto
  have "rearranged (drop_entry q t) (remove_from_heap q t)
      \<and> heap_ok (length (timer_heap (remove_from_heap q t))) (keys (remove_from_heap q t))"
  proof (cases "i = ?n - 1")
    case True
    then have e: "remove_from_heap q t = pop_heap q t"
      using t i ne by (simp add: remove_from_heap_def Let_def)
    have "timer_heap q = butlast (timer_heap q) @ [(fst (timer_heap q ! i), t)]"
      using True t ne by (metis append_butlast_last_id last_conv_nth prod.collapse)
    then have "rearranged (drop_entry q t) (pop_heap q t)"
      by (rule pop_rearranged [OF rearranged_refl [OF assms(1)]])
    moreover have "heap_ok (?n - 1) (keys (pop_heap q t))"
      using assms(2) parent_less
      by (auto simp: heap_ok_def keys_def pop_heap_def nth_butlast less_trans [OF parent_less])
    ultimately show ?thesis by (simp add: e) (simp add: pop_heap_def)
  next
    case False
    let ?q = "swap_heap q i (?n - 1)"
    let ?p = "pop_heap ?q t"
    have l: "?n - 1 < ?n" and si: "Suc i < ?n" using ne t(1) False by (auto simp: Suc_lessI)
    have r: "rearranged q ?q" by (rule swap_rearranged [OF assms(1) t(1) l])
    have "last (timer_heap ?q) = timer_heap q ! i"
      using t(1) ne l by (simp add: swap_heap_def Let_def last_conv_nth nth_list_update)
    moreover have "timer_heap ?q \<noteq> []" using ne length_swap_heap by (metis length_0_conv)
    ultimately have h: "timer_heap ?q = butlast (timer_heap ?q) @ [(fst (timer_heap q ! i), t)]"
      using t(2) by (metis append_butlast_last_id prod.collapse)
    have p: "rearranged (drop_entry q t) ?p" by (rule pop_rearranged [OF r h])
    have len: "length (timer_heap ?p) = ?n - 1" by (simp add: pop_heap_def)
    have "keys ?p j = ((keys q)(i := keys q (?n - 1))) j" if "j < ?n - 1" for j
      using that keys_swap [OF t(1) l] by (simp add: keys_def pop_heap_def nth_butlast fun_eq_iff)
    then have "if 0 < i \<and> keys ?p i < keys ?p (parent i) then up_ok (?n - 1) (keys ?p) i else down_ok (?n - 1) (keys ?p) i"
      by (rule replaced_key [OF assms(2) si])
    moreover have "remove_from_heap q t =
        (if 0 < i \<and> keys ?p i < keys ?p (parent i) then up_heap ?p i else down_heap ?p i)"
      using i t(1) ne False by (simp add: remove_from_heap_def Let_def parent_def keys_def)
    ultimately have "rearranged ?p (remove_from_heap q t) \<and> heap_ok (?n - 1) (keys (remove_from_heap q t))"
      using up_heap_ok [of ?p i] down_heap_ok [of ?p i] rearranged_sel(9) [OF p] unfolding len
      by presburger
    then show ?thesis using rearranged_trans [OF p] rearranged_sel(7) len by metis
  qed
  then show "rearranged (drop_entry q t) (remove_from_heap q t)"
    "heap_ok (length (timer_heap (remove_from_heap q t))) (keys (remove_from_heap q t))" by simp_all
qed

end
