(* ===== verification/Timer_Runs.thy ===== *)
theory Timer_Runs
  imports Timer_Queue
begin

text \<open>
  The invariant of the timer queue of \<^verbatim>\<open>Timer_Queue\<close>: the doubly linked list of the active timers, the heap over the
  timers that expire and the operations that wait.  Every operation keeps it, and over the invariant each
  operation has its effect on the expiry times and the waiting operations.
\<close>

section \<open>The list of active timers\<close>

fun lseg :: "(timer_ref \<Rightarrow> timer_ref option) \<Rightarrow> (timer_ref \<Rightarrow> timer_ref option) \<Rightarrow>
    timer_ref option \<Rightarrow> timer_ref option \<Rightarrow> timer_ref list \<Rightarrow> timer_ref option \<Rightarrow> bool" where
  "lseg nx pv p h [] z \<longleftrightarrow> h = z"
| "lseg nx pv p h (x # xs) z \<longleftrightarrow> h = Some x \<and> pv x = p \<and> lseg nx pv (Some x) (nx x) xs z"

definition end_of :: "timer_ref option \<Rightarrow> timer_ref list \<Rightarrow> timer_ref option" where
  "end_of p xs = (if xs = [] then p else Some (last xs))"

lemma end_of_simps [simp]: "end_of p [] = p" "end_of p (x # xs) = end_of (Some x) xs" "end_of p (xs @ [x]) = Some x"
  by (simp_all add: end_of_def)

lemma lseg_append:
  "lseg nx pv p h (xs @ ys) z \<longleftrightarrow> (\<exists>m. lseg nx pv p h xs m \<and> lseg nx pv (end_of p xs) m ys z)"
  by (induction xs arbitrary: p h) auto

lemma lseg_next_frame [simp]: "a \<notin> set xs \<Longrightarrow> lseg (nx(a := v)) pv p h xs z = lseg nx pv p h xs z"
  by (induction xs arbitrary: p h) auto

lemma lseg_prev_frame [simp]: "a \<notin> set xs \<Longrightarrow> lseg nx (pv(a := v)) p h xs z = lseg nx pv p h xs z"
  by (induction xs arbitrary: p h) auto

lemma lseg_prev: "lseg nx pv p h xs z \<Longrightarrow> x \<in> set xs \<Longrightarrow> pv x = p \<and> h = Some x \<or> (\<exists>y \<in> set xs. pv x = Some y)"
  by (induction xs arbitrary: p h) auto

text \<open>A new end for a segment: the link of its last timer, or its head, changes.\<close>

definition set_next :: "(timer_ref \<Rightarrow> timer_ref option) \<Rightarrow> timer_ref option \<Rightarrow> timer_ref option \<Rightarrow> (timer_ref \<Rightarrow> timer_ref option)" where
  "set_next f p v = (case p of Some a \<Rightarrow> f(a := v) | None \<Rightarrow> f)"

lemma lseg_redirect:
  "lseg nx pv None h xs m \<Longrightarrow> distinct xs \<Longrightarrow>
   lseg (set_next nx (end_of None xs) m') pv None (if xs = [] then m' else h) xs m'"
  by (cases xs rule: rev_cases) (auto simp: set_next_def lseg_append)

lemma lseg_new_prev:
  "lseg nx pv p m ys None \<Longrightarrow> distinct ys \<Longrightarrow> lseg nx (set_next pv m p') p' m ys None"
  by (cases ys) (auto simp: set_next_def)

section \<open>The invariant\<close>

text \<open>
  \<open>ts\<close> is the list of the active timers.  An active timer without an entry in the heap never expires.  A timer
  is active as long as operations wait on it.
\<close>

definition linked :: "timer_queue \<Rightarrow> timer_ref list \<Rightarrow> bool" where
  "linked q ts \<longleftrightarrow> lseg (timer_next q) (timer_prev q) None (timers q) ts None \<and> distinct ts
     \<and> (\<forall>t. t \<notin> set ts \<longrightarrow> timer_next q t = None \<and> timer_prev q t = None)"

definition heaped :: "timer_queue \<Rightarrow> timer_ref list \<Rightarrow> bool" where
  "heaped q ts \<longleftrightarrow> indexed q \<and> heap_ok (length (timer_heap q)) (keys q) \<and> snd ` set (timer_heap q) \<subseteq> set ts
     \<and> length (timer_heap q) \<le> no_index
     \<and> (\<forall>t. t \<in> set ts \<longrightarrow> t \<notin> snd ` set (timer_heap q) \<longrightarrow> heap_index q t = no_index)"

definition tq_ok :: "timer_queue \<Rightarrow> timer_ref list \<Rightarrow> bool" where
  "tq_ok q ts \<longleftrightarrow> linked q ts \<and> heaped q ts \<and> (\<forall>t. timer_ops q t \<noteq> [] \<longleftrightarrow> t \<in> set ts)"

text \<open>The expiry time of a timer, if it has one.\<close>

definition deadline :: "timer_queue \<Rightarrow> timer_ref \<Rightarrow> time_type option" where
  "deadline q = map_of (map prod.swap (timer_heap q))"

lemma deadline_Some: "indexed q \<Longrightarrow> deadline q t = Some d \<longleftrightarrow> (d, t) \<in> set (timer_heap q)"
  using indexed_distinct [of q] by (auto simp: deadline_def o_def)

lemma deadline_None: "deadline q t = None \<longleftrightarrow> t \<notin> snd ` set (timer_heap q)"
  by (auto simp: deadline_def map_of_eq_None_iff image_iff)

lemma deadline_cong:
  "indexed q \<Longrightarrow> indexed q' \<Longrightarrow> set (timer_heap q') = set (timer_heap q) \<Longrightarrow> deadline q' = deadline q"
  by (rule ext) (metis deadline_Some option.exhaust)

lemma idle_iff: "linked q ts \<Longrightarrow> idle_timer q t \<longleftrightarrow> t \<notin> set ts"
  using lseg_prev [of "timer_next q" "timer_prev q" None "timers q" ts None t]
  by (cases ts) (auto simp: linked_def idle_timer_def)

lemma linked_cong:
  "timers q' = timers q \<Longrightarrow> timer_next q' = timer_next q \<Longrightarrow> timer_prev q' = timer_prev q \<Longrightarrow> linked q' ts = linked q ts"
  by (simp add: linked_def)

lemma heaped_cong:
  "timer_heap q' = timer_heap q \<Longrightarrow> heap_index q' = heap_index q \<Longrightarrow> heaped q' ts = heaped q ts"
  by (simp add: heaped_def indexed_def keys_def [abs_def])

lemma unlink_timer_eq:
  "timer_prev q t \<noteq> Some t \<Longrightarrow>
   unlink_timer q t = q\<lparr>timers := (if timers q = Some t then timer_next q t else timers q),
     timer_next := (set_next (timer_next q) (timer_prev q t) (timer_next q t))(t := None),
     timer_prev := (set_next (timer_prev q) (timer_next q t) (timer_prev q t))(t := None)\<rparr>"
  by (auto simp: unlink_timer_def Let_def set_next_def split: option.splits)

lemma linked_splitE:
  assumes "linked q ts" and "t \<in> set ts"
  obtains as bs where "ts = as @ t # bs" "lseg (timer_next q) (timer_prev q) None (timers q) as (Some t)"
    "timer_prev q t = end_of None as" "lseg (timer_next q) (timer_prev q) (Some t) (timer_next q t) bs None"
    "distinct as" "distinct bs" "t \<notin> set as" "t \<notin> set bs" "set as \<inter> set bs = {}"
    "timers q = Some t \<longleftrightarrow> as = []"
proof -
  obtain as bs where ts: "ts = as @ t # bs" using assms(2) by (meson split_list)
  with assms(1) obtain m where "lseg (timer_next q) (timer_prev q) None (timers q) as m"
    "lseg (timer_next q) (timer_prev q) (end_of None as) m (t # bs) None" by (auto simp: linked_def lseg_append)
  moreover have "timers q = Some t \<longleftrightarrow> as = []" using calculation assms(1) ts by (cases as) (auto simp: linked_def)
  ultimately show ?thesis using that ts assms(1) by (auto simp: linked_def)
qed

lemma end_of_in: "end_of None as = Some a \<Longrightarrow> a \<in> set as"
  by (cases as rule: rev_cases) (auto simp: end_of_def)

lemma lseg_head_in: "lseg nx pv p (Some a) bs None \<Longrightarrow> a \<in> set bs"
  by (cases bs) auto

lemma set_next_frames:
  "(\<And>a. p = Some a \<Longrightarrow> a \<notin> set xs) \<Longrightarrow> lseg (set_next nx p v) pv r h xs z = lseg nx pv r h xs z"
  "(\<And>a. p = Some a \<Longrightarrow> a \<notin> set xs) \<Longrightarrow> lseg nx (set_next pv p v) r h xs z = lseg nx pv r h xs z"
  by (auto simp: set_next_def split: option.splits)

lemma unlink_linked:
  assumes "linked q ts" and "t \<in> set ts"
  shows "linked (unlink_timer q t) (remove1 t ts)"
proof (rule linked_splitE [OF assms], goal_cases)
  case (1 as bs)
  let ?n = "set_next (timer_next q) (end_of None as) (timer_next q t)"
  let ?p = "set_next (timer_prev q) (timer_next q t) (end_of None as)"
  have nx: "\<And>a. timer_next q t = Some a \<Longrightarrow> a \<in> set bs" using 1(4) lseg_head_in by metis
  have "timer_prev q t \<noteq> Some t" using 1(3,7) end_of_in by metis
  note u = unlink_timer_eq [OF this]
  have "lseg ?n (timer_prev q) None (if as = [] then timer_next q t else timers q) as (timer_next q t)"
    by (rule lseg_redirect [OF 1(2,5)])
  then have a: "lseg ?n ?p None (if as = [] then timer_next q t else timers q) as (timer_next q t)"
    using nx 1(9) by (subst set_next_frames(2)) auto
  have "lseg (timer_next q) ?p (end_of None as) (timer_next q t) bs None" by (rule lseg_new_prev [OF 1(4,6)])
  then have b: "lseg ?n ?p (end_of None as) (timer_next q t) bs None"
    using end_of_in [of as] 1(9) by (subst set_next_frames(1)) auto
  have "lseg ?n ?p None (if timers q = Some t then timer_next q t else timers q) (as @ bs) None"
    using a b 1(10) by (auto simp: lseg_append)
  moreover have "\<forall>x. x \<notin> set (as @ bs) \<longrightarrow> (?n(t := None)) x = None \<and> (?p(t := None)) x = None"
    using assms(1) 1(1) nx end_of_in [of as] by (auto simp: linked_def set_next_def split: option.splits)
  ultimately show ?thesis
    using u 1 assms(1) by (auto simp: linked_def remove1_append)
qed

lemma link_linked:
  assumes "linked q ts" and "t \<notin> set ts"
  shows "linked (link_timer q t) (t # ts)"
proof -
  have "lseg (timer_next q) (set_next (timer_prev q) (timers q) (Some t)) (Some t) (timers q) ts None"
    using assms by (intro lseg_new_prev [where p = None]) (auto simp: linked_def)
  then show ?thesis
    using assms lseg_head_in [of "timer_next q" "timer_prev q" None _ ts]
    by (auto simp: linked_def link_timer_def Let_def set_next_def fun_upd_twist [of t] split: option.splits)
qed

lemma unlink_sel [simp]:
  "timer_heap (unlink_timer q t) = timer_heap q" "heap_index (unlink_timer q t) = heap_index q"
  "timer_ops (unlink_timer q t) = timer_ops q" "op_ec (unlink_timer q t) = op_ec q"
  by (auto simp: unlink_timer_def Let_def split: option.splits)

lemma link_sel [simp]:
  "timer_heap (link_timer q t) = timer_heap q" "heap_index (link_timer q t) = heap_index q"
  "timer_ops (link_timer q t) = timer_ops q" "op_ec (link_timer q t) = op_ec q"
  by (auto simp: link_timer_def Let_def split: option.splits)

lemma remove_from_heap_ok:
  assumes "heaped q ts" and "t \<in> set ts" and "distinct ts"
  defines "q' \<equiv> remove_from_heap q t"
  shows "heaped q' (remove1 t ts)" "set (timer_heap q') = {e \<in> set (timer_heap q). snd e \<noteq> t}"
    "timer_ops q' = timer_ops q" "timer_next q' = timer_next q" "timer_prev q' = timer_prev q"
    "timers q' = timers q" "op_ec q' = op_ec q" "heap_index q' t = no_index"
proof -
  have h: "indexed q" "heap_ok (length (timer_heap q)) (keys q)" "snd ` set (timer_heap q) \<subseteq> set ts"
    "length (timer_heap q) \<le> no_index" "\<forall>t. t \<in> set ts \<longrightarrow> t \<notin> snd ` set (timer_heap q) \<longrightarrow> heap_index q t = no_index"
    using assms(1) by (auto simp: heaped_def)
  have "rearranged (drop_entry q t) q' \<and> heap_ok (length (timer_heap q')) (keys q')"
  proof (cases "t \<in> snd ` set (timer_heap q)")
    case True
    then obtain i where "i < length (timer_heap q)" "snd (timer_heap q ! i) = t" by (auto simp: in_set_conv_nth image_iff)
    then show ?thesis using remove_rearranged [OF h(1,2)] q'_def by simp
  next
    case False
    then have "heap_index q t = no_index" using h(5) assms(2) by simp
    moreover have "filter (\<lambda>e. snd e \<noteq> t) (timer_heap q) = timer_heap q" using False by (auto simp: filter_id_conv)
    ultimately have "q' = q" "drop_entry q t = q"
      using h(4) by (simp_all add: q'_def remove_from_heap_def drop_entry_def Let_def fun_upd_idem)
    then show ?thesis using h rearranged_refl by simp
  qed
  then have r: "rearranged (drop_entry q t) q'" and ok: "heap_ok (length (timer_heap q')) (keys q')" by simp_all
  note s = rearranged_sel [OF r]
  show "set (timer_heap q') = {e \<in> set (timer_heap q). snd e \<noteq> t}" using s(8) by (simp add: drop_entry_def)
  show "timer_ops q' = timer_ops q" "timer_next q' = timer_next q" "timer_prev q' = timer_prev q"
    "timers q' = timers q" "op_ec q' = op_ec q" using s(1-5) by (simp_all add: drop_entry_def)
  have idx: "x \<notin> snd ` {e \<in> set (timer_heap q). snd e \<noteq> t} \<Longrightarrow> heap_index q' x = (if x = t then no_index else heap_index q x)" for x
    using s(10) [of x] by (simp add: drop_entry_def)
  show "heap_index q' t = no_index" using idx [of t] by auto
  have "length (timer_heap q') \<le> no_index"
    using s(7) le_trans [OF length_filter_le h(4)] by (simp add: drop_entry_def)
  moreover have "heap_index q' x = no_index" if "x \<in> set ts" "x \<noteq> t" "x \<notin> snd ` set (timer_heap q')" for x
    using that idx [of x] h(5) s(8) by (auto simp: drop_entry_def image_iff)
  moreover have "snd ` set (timer_heap q') \<subseteq> set (remove1 t ts)"
    using h(3) s(8) assms(3) by (auto simp: drop_entry_def)
  ultimately show "heaped q' (remove1 t ts)" using s(9) ok assms(3) by (auto simp: heaped_def)
qed

lemma remove_timer_ok:
  assumes "linked q ts" and "heaped q ts" and "t \<in> set ts"
  defines "q' \<equiv> remove_timer q t"
  shows "linked q' (remove1 t ts)" "heaped q' (remove1 t ts)" "timer_ops q' = timer_ops q" "op_ec q' = op_ec q"
    "deadline q' = (deadline q)(t := None)" "set (timer_heap q') = {e \<in> set (timer_heap q). snd e \<noteq> t}"
    "heap_index q' t = no_index"
proof -
  have "distinct ts" using assms(1) by (simp add: linked_def)
  note r = remove_from_heap_ok [OF assms(2,3) this]
  have "linked (remove_from_heap q t) ts" using linked_cong [OF r(6,4,5)] assms(1) by simp
  then show "linked q' (remove1 t ts)" unfolding q'_def remove_timer_def by (rule unlink_linked [OF _ assms(3)])
  show h: "heaped q' (remove1 t ts)"
    using r(1) heaped_cong [of q' "remove_from_heap q t"] by (simp add: q'_def remove_timer_def)
  show "timer_ops q' = timer_ops q" "op_ec q' = op_ec q" "heap_index q' t = no_index" using r by (simp_all add: q'_def remove_timer_def)
  show s: "set (timer_heap q') = {e \<in> set (timer_heap q). snd e \<noteq> t}" using r(2) by (simp add: q'_def remove_timer_def)
  have "indexed q" "indexed q'" using h assms(2) by (simp_all add: heaped_def)
  then have "deadline q' x = Some d \<longleftrightarrow> ((deadline q)(t := None)) x = Some d" for x d
    using s by (auto simp: deadline_Some)
  then show "deadline q' = (deadline q)(t := None)" by (intro ext) (metis option.exhaust)
qed

section \<open>Enqueueing\<close>

text \<open>An entry that rises to the root was earlier than the root.\<close>

lemma up_heap_first:
  "indexed q \<Longrightarrow> i < length (timer_heap q) \<Longrightarrow> heap_index (up_heap q i) (snd (timer_heap q ! i)) = 0 \<Longrightarrow>
   i = 0 \<or> keys q i < keys q 0"
proof (induction q i rule: up_heap.induct)
  case (1 q i)
  show ?case
  proof (cases "0 < i \<and> keys q i < keys q (parent i)")
    case True
    let ?q = "swap_heap q i (parent i)"
    have p: "parent i < length (timer_heap q)" "i \<noteq> parent i" using 1(3) True less_trans [OF parent_less [of i]] by auto
    have nn: "\<not> \<not> fst (timer_heap q ! i) < fst (timer_heap q ! parent i)" using True by (simp add: keys_def)
    have "up_heap q i = up_heap ?q (parent i)"
      using True by (subst up_heap.simps) (simp add: parent_def keys_def Let_def)
    moreover have "snd (timer_heap ?q ! parent i) = snd (timer_heap q ! i)"
      using 1(3) p by (simp add: swap_heap_def Let_def nth_list_update)
    ultimately have "parent i = 0 \<or> keys ?q (parent i) < keys ?q 0"
      using 1(1) [OF conjunct1 [OF True] parent_def nn rearranged_sel(9) [OF swap_rearranged [OF 1(2,3) p(1)]]] 1(4) p
      by simp
    then show ?thesis using True keys_swap [OF 1(3) p(1)] p(2) by (auto split: if_splits)
  next
    case False
    then have "up_heap q i = q" by (subst up_heap.simps) (auto simp: keys_def parent_def Let_def)
    then show ?thesis using 1(2-4) by (auto simp: indexed_def)
  qed
qed

text \<open>The heap part of enqueueing an idle timer that expires.\<close>

definition push_entry :: "timer_queue \<Rightarrow> time_type \<Rightarrow> timer_ref \<Rightarrow> timer_queue" where
  "push_entry q time t = q\<lparr>heap_index := (heap_index q)(t := length (timer_heap q)), timer_heap := timer_heap q @ [(time, t)]\<rparr>"

lemma push_entry_ok:
  fixes time :: time_type
  assumes "heaped q ts" and "t \<notin> set ts" and "length (timer_heap q) < no_index"
  defines "q' \<equiv> up_heap (push_entry q time t) (length (timer_heap q))"
  shows "heaped q' (t # ts)" "deadline q' = (deadline q)(t \<mapsto> time)"
    "timer_ops q' = timer_ops q" "timer_next q' = timer_next q" "timer_prev q' = timer_prev q"
    "timers q' = timers q" "op_ec q' = op_ec q"
    "heap_index q' t = 0 \<longleftrightarrow> (\<forall>t' d. deadline q t' = Some d \<longrightarrow> time < d)"
proof -
  let ?n = "length (timer_heap q)" and ?q = "push_entry q time t"
  have h: "indexed q" "heap_ok ?n (keys q)" "snd ` set (timer_heap q) \<subseteq> set ts"
    "\<And>t. t \<in> set ts \<Longrightarrow> t \<notin> snd ` set (timer_heap q) \<Longrightarrow> heap_index q t = no_index"
    using assms(1) by (auto simp: heaped_def)
  have t: "t \<notin> snd ` set (timer_heap q)" using h(3) assms(2) by blast
  have i: "indexed ?q"
    using h(1) t by (auto simp: indexed_def push_entry_def nth_append less_Suc_eq image_iff)
  have k: "keys ?q j = (if j = ?n then time else keys q j)" if "j < Suc ?n" for j
    using that by (auto simp: keys_def push_entry_def nth_append less_Suc_eq)
  have "parent j \<noteq> ?n" if "0 < j" "j < Suc ?n" for j using parent_less [of j] that by linarith
  moreover have "keys ?q (parent j) \<le> keys ?q j" if "0 < j" "j < ?n" for j
    using k [of j] k [of "parent j"] less_trans [OF parent_less [OF that(1)] that(2)] that h(2) by (simp add: heap_ok_def)
  moreover have len: "length (timer_heap ?q) = Suc ?n" by (simp add: push_entry_def)
  ultimately have "up_ok (length (timer_heap ?q)) (keys ?q) ?n"
    unfolding up_ok_def len by (auto simp: less_Suc_eq)
  then have r: "rearranged ?q q'" and ok: "heap_ok (length (timer_heap ?q)) (keys q')"
    using up_heap_ok [OF i] by (simp_all add: q'_def)
  note s = rearranged_sel [OF r]
  show "timer_ops q' = timer_ops q" "timer_next q' = timer_next q" "timer_prev q' = timer_prev q"
    "timers q' = timers q" "op_ec q' = op_ec q" using s(1-5) by (simp_all add: push_entry_def)
  have set: "set (timer_heap q') = insert (time, t) (set (timer_heap q))" using s(8) by (simp add: push_entry_def)
  show d: "deadline q' = (deadline q)(t \<mapsto> time)"
  proof (rule ext)
    fix x
    have "deadline q' x = Some d \<longleftrightarrow> ((deadline q)(t \<mapsto> time)) x = Some d" for d
      using set t by (auto simp: deadline_Some [OF s(9)] deadline_Some [OF h(1)] image_iff)
    then show "deadline q' x = ((deadline q)(t \<mapsto> time)) x" by (metis option.exhaust)
  qed
  show "heaped q' (t # ts)"
    using s(7,9,10) set ok h(3,4) assms(2,3) t by (auto simp: heaped_def push_entry_def image_iff)
  show "heap_index q' t = 0 \<longleftrightarrow> (\<forall>t' d. deadline q t' = Some d \<longrightarrow> time < d)"
  proof
    assume "heap_index q' t = 0"
    then have "?n = 0 \<or> time < keys q 0"
      using up_heap_first [OF i, of ?n] k [of ?n] k [of 0] by (auto simp: q'_def push_entry_def split: if_splits)
    then show "\<forall>t' d. deadline q t' = Some d \<longrightarrow> time < d"
      using heap_root_min [OF h(2)] by (force simp: deadline_Some [OF h(1)] in_set_conv_nth keys_def)
  next
    assume less: "\<forall>t' d. deadline q t' = Some d \<longrightarrow> time < d"
    have 0: "0 < length (timer_heap q')" using s(7) by (simp add: push_entry_def)
    have "(time, t) \<in> set (timer_heap q')" using set by simp
    then obtain j where "j < length (timer_heap q')" "timer_heap q' ! j = (time, t)" by (meson in_set_conv_nth)
    then have "keys q' 0 \<le> time" using heap_root_min [OF ok, of j] s(7) by (simp add: keys_def)
    moreover have "timer_heap q' ! 0 \<in> set (timer_heap q')" using 0 by (rule nth_mem)
    ultimately have "timer_heap q' ! 0 = (time, t)"
      using less set by (cases "timer_heap q' ! 0") (fastforce simp: keys_def deadline_Some [OF h(1)])
    then show "heap_index q' t = 0" using s(9) 0 by (auto simp: indexed_def)
  qed
qed

lemma activate_timer_ok:
  fixes time :: time_type and pinf :: "time_type \<Rightarrow> bool" and t :: timer_ref
  assumes "linked q ts" and "heaped q ts" and "length (timer_heap q) < no_index"
  defines "q' \<equiv> activate_timer pinf q time t" and "ts' \<equiv> if t \<in> set ts then ts else t # ts"
  shows "linked q' ts'" "heaped q' ts'" "timer_ops q' = timer_ops q" "op_ec q' = op_ec q"
    "deadline q' = (if t \<in> set ts \<or> pinf time then deadline q else (deadline q)(t \<mapsto> time))"
    "t \<notin> set ts \<Longrightarrow> heap_index q' t = 0 \<longleftrightarrow> \<not> pinf time \<and> (\<forall>t' d. deadline q t' = Some d \<longrightarrow> time < d)"
proof -
  have idle: "idle_timer q t \<longleftrightarrow> t \<notin> set ts" by (rule idle_iff [OF assms(1)])
  consider (active) "t \<in> set ts" | (never) "t \<notin> set ts" "pinf time" | (expires) "t \<notin> set ts" "\<not> pinf time" by blast
  then have "linked q' ts' \<and> heaped q' ts' \<and> timer_ops q' = timer_ops q \<and> op_ec q' = op_ec q
    \<and> deadline q' = (if t \<in> set ts \<or> pinf time then deadline q else (deadline q)(t \<mapsto> time))
    \<and> (t \<notin> set ts \<longrightarrow> heap_index q' t = 0 \<longleftrightarrow> \<not> pinf time \<and> (\<forall>t' d. deadline q t' = Some d \<longrightarrow> time < d))"
  proof cases
    case active
    then show ?thesis using assms(1,2) idle by (simp add: q'_def ts'_def activate_timer_def)
  next
    case never
    let ?q = "q\<lparr>heap_index := (heap_index q)(t := no_index)\<rparr>"
    have q': "q' = link_timer ?q t" using never idle by (simp add: q'_def activate_timer_def)
    have "linked q' (t # ts)" using linked_cong [of ?q q ts] assms(1) never(1) by (simp add: q' link_linked)
    moreover have "heaped ?q (t # ts)"
      using assms(2,3) never(1) by (auto simp: heaped_def indexed_def keys_def [abs_def] image_subset_iff)
    then have "heaped q' (t # ts)" using heaped_cong [of q' ?q] by (simp add: q')
    ultimately show ?thesis
      using never by (simp add: q' ts'_def deadline_def no_index_def)
  next
    case expires
    let ?q = "up_heap (push_entry q time t) (length (timer_heap q))"
    note p = push_entry_ok [OF assms(2) expires(1) assms(3), of time]
    have q': "q' = link_timer ?q t" using expires idle by (simp add: q'_def activate_timer_def push_entry_def)
    have "linked q' (t # ts)" using linked_cong [OF p(6,4,5)] assms(1) expires(1) by (simp add: q' link_linked)
    moreover have "heaped q' (t # ts)" using heaped_cong [of q' ?q] p(1) by (simp add: q')
    ultimately show ?thesis using expires p(2,3,7,8) by (simp add: q' ts'_def deadline_def)
  qed
  then show "linked q' ts'" "heaped q' ts'" "timer_ops q' = timer_ops q" "op_ec q' = op_ec q"
    "deadline q' = (if t \<in> set ts \<or> pinf time then deadline q else (deadline q)(t \<mapsto> time))"
    "t \<notin> set ts \<Longrightarrow> heap_index q' t = 0 \<longleftrightarrow> \<not> pinf time \<and> (\<forall>t' d. deadline q t' = Some d \<longrightarrow> time < d)"
    by blast+
qed

lemma enqueue_timer_ok:
  fixes time :: time_type
  assumes "tq_ok q ts" and "length (timer_heap q) < no_index" and "enqueue_timer pinf q time t op = (q', first)"
  shows "tq_ok q' (if t \<in> set ts then ts else t # ts)"
    and "timer_ops q' = (timer_ops q)(t := timer_ops q t @ [op])" and "op_ec q' = op_ec q"
    and "deadline q' = (if t \<in> set ts \<or> pinf time then deadline q else (deadline q)(t \<mapsto> time))"
    and "t \<notin> set ts \<Longrightarrow> first \<longleftrightarrow> \<not> pinf time \<and> (\<forall>t' d. deadline q t' = Some d \<longrightarrow> time < d)"
    and "t \<in> set ts \<Longrightarrow> op \<notin> set (timer_ops q t) \<Longrightarrow> \<not> first"
proof -
  have ok: "linked q ts" "heaped q ts" and ops: "\<And>t. timer_ops q t \<noteq> [] \<longleftrightarrow> t \<in> set ts"
    using assms(1) by (auto simp: tq_ok_def)
  let ?a = "activate_timer pinf q time t"
  note a = activate_timer_ok [OF ok assms(2), where pinf = pinf and time = time and t = t]
  have q': "q' = ?a\<lparr>timer_ops := (timer_ops q)(t := timer_ops q t @ [op])\<rparr>"
    and first: "first \<longleftrightarrow> heap_index ?a t = 0 \<and> hd (timer_ops q t @ [op]) = op"
    using assms(3) a(3) by (auto simp: enqueue_timer_def Let_def)
  show "timer_ops q' = (timer_ops q)(t := timer_ops q t @ [op])" "op_ec q' = op_ec q" using a(4) by (simp_all add: q')
  show "tq_ok q' (if t \<in> set ts then ts else t # ts)"
    using a(1,2) ops linked_cong [of q' ?a] heaped_cong [of q' ?a] by (auto simp: tq_ok_def q')
  show "deadline q' = (if t \<in> set ts \<or> pinf time then deadline q else (deadline q)(t \<mapsto> time))"
    using a(5) by (simp add: q' deadline_def)
  show "t \<notin> set ts \<Longrightarrow> first \<longleftrightarrow> \<not> pinf time \<and> (\<forall>t' d. deadline q t' = Some d \<longrightarrow> time < d)"
    using a(6) ops [of t] first by simp
  show "t \<in> set ts \<Longrightarrow> op \<notin> set (timer_ops q t) \<Longrightarrow> \<not> first"
    using ops [of t] first by (cases "timer_ops q t") auto
qed

section \<open>Expiry and cancellation\<close>

lemma complete_ops_eq:
  "complete_ops xs ec ops = ((\<lambda>a. if a \<in> set xs then no_error else ec a), ops @ xs)"
  by (induction xs arbitrary: ec ops) (auto simp: fun_eq_iff)

lemma cancel_loop_eq:
  "n \<le> m \<Longrightarrow> cancel_loop m xs ec ops n =
     (drop (m - n) xs, (\<lambda>a. if a \<in> set (take (m - n) xs) then Some Operation_aborted else ec a),
      ops @ take (m - n) xs, n + min (m - n) (length xs))"
proof (induction m xs ec ops n rule: cancel_loop.induct)
  case (2 m x xs ec ops n)
  show ?case
  proof (cases "n = m")
    case False
    with 2(2) obtain k where "m - n = Suc k" "m - Suc n = k" by (metis Suc_diff_Suc le_neq_implies_less)
    then show ?thesis using 2 False by (auto simp: fun_eq_iff fun_upd_def)
  qed simp
qed simp

lemma key_loop_eq:
  "key_loop key_of key xs ec ops others =
     ((\<lambda>a. if a \<in> set xs \<and> key_of a = key then Some Operation_aborted else ec a),
      ops @ filter (\<lambda>a. key_of a = key) xs, others @ filter (\<lambda>a. key_of a \<noteq> key) xs)"
  by (induction key_of key xs ec ops others rule: key_loop.induct) (auto simp: fun_eq_iff fun_upd_def)

text \<open>Taking operations from an active timer; it goes when none is left.\<close>

definition shrink :: "timer_queue \<Rightarrow> timer_ref \<Rightarrow> op_ref list \<Rightarrow> (op_ref \<Rightarrow> error_code) \<Rightarrow> timer_queue" where
  "shrink q t left ec =
     (let q1 = q\<lparr>timer_ops := (timer_ops q)(t := left), op_ec := ec\<rparr> in if left = [] then remove_timer q1 t else q1)"

lemma shrink_ok:
  assumes "tq_ok q ts" and "t \<in> set ts"
  shows "tq_ok (shrink q t left ec) (if left = [] then remove1 t ts else ts)"
    and "timer_ops (shrink q t left ec) = (timer_ops q)(t := left)" and "op_ec (shrink q t left ec) = ec"
    and "deadline (shrink q t left ec) = (if left = [] then (deadline q)(t := None) else deadline q)"
proof -
  let ?q = "q\<lparr>timer_ops := (timer_ops q)(t := left), op_ec := ec\<rparr>"
  have l: "linked ?q ts" "heaped ?q ts" and "distinct ts" and ops: "\<And>x. timer_ops q x \<noteq> [] \<longleftrightarrow> x \<in> set ts"
    using assms(1) linked_cong [of ?q q ts] heaped_cong [of ?q q ts] by (auto simp: tq_ok_def linked_def)
  note r = remove_timer_ok [OF l assms(2)]
  have d: "deadline ?q = deadline q" by (simp add: deadline_def)
  show "timer_ops (shrink q t left ec) = (timer_ops q)(t := left)" "op_ec (shrink q t left ec) = ec"
    "deadline (shrink q t left ec) = (if left = [] then (deadline q)(t := None) else deadline q)"
    using r(3,4,5) d by (cases "left = []"; simp add: shrink_def Let_def)+
  show "tq_ok (shrink q t left ec) (if left = [] then remove1 t ts else ts)"
    using r(1,2,3) l ops assms(2) \<open>distinct ts\<close>
    by (cases "left = []") (auto simp: shrink_def tq_ok_def Let_def split: if_splits)
qed

lemma complete_timer_shrink:
  "complete_timer q ops t =
     (shrink q t [] (\<lambda>a. if a \<in> set (timer_ops q t) then no_error else op_ec q a), ops @ timer_ops q t)"
  by (simp add: complete_timer_def complete_ops_eq shrink_def Let_def)

lemma cancel_timer_shrink:
  "linked q ts \<Longrightarrow> t \<in> set ts \<Longrightarrow> cancel_timer q t ops m =
     (shrink q t (drop m (timer_ops q t)) (\<lambda>a. if a \<in> set (take m (timer_ops q t)) then Some Operation_aborted else op_ec q a),
      ops @ take m (timer_ops q t), min m (length (timer_ops q t)))"
  by (simp add: cancel_timer_def cancel_loop_eq idle_iff shrink_def Let_def)

lemma cancel_by_key_shrink:
  "linked q ts \<Longrightarrow> t \<in> set ts \<Longrightarrow> cancel_timer_by_key key_of q t ops key =
     (shrink q t (filter (\<lambda>a. key_of a \<noteq> key) (timer_ops q t))
        (\<lambda>a. if a \<in> set (timer_ops q t) \<and> key_of a = key then Some Operation_aborted else op_ec q a),
      ops @ filter (\<lambda>a. key_of a = key) (timer_ops q t))"
  by (simp add: cancel_timer_by_key_def key_loop_eq idle_iff shrink_def Let_def)

text \<open>\<open>rs\<close> are the timers that \<open>get_ready_timers\<close> takes out of the queue, in the order of their expiry.\<close>

definition taken_ready :: "time_type \<Rightarrow> timer_queue \<Rightarrow> timer_ref list \<Rightarrow> timer_queue \<Rightarrow> timer_ref list \<Rightarrow> bool" where
  "taken_ready now q ts q' rs \<longleftrightarrow>
     distinct rs \<and> set rs = {t. \<exists>d \<le> now. deadline q t = Some d} \<and> sorted (map (the \<circ> deadline q) rs)
     \<and> tq_ok q' (filter (\<lambda>t. t \<notin> set rs) ts) \<and> deadline q' = deadline q |` (- set rs)
     \<and> timer_ops q' = (\<lambda>t. if t \<in> set rs then [] else timer_ops q t)
     \<and> op_ec q' = (\<lambda>a. if a \<in> set (concat (map (timer_ops q) rs)) then no_error else op_ec q a)"

lemma taken_ready_Nil:
  assumes "tq_ok q ts" and "timer_heap q = [] \<or> now < fst (timer_heap q ! 0)"
  shows "taken_ready now q ts q []"
proof -
  have "indexed q" "heap_ok (length (timer_heap q)) (keys q)" using assms(1) by (auto simp: tq_ok_def heaped_def)
  then have "now < d" if "deadline q t = Some d" for t d
    using assms(2) that heap_root_min [of "length (timer_heap q)" "keys q"]
    by (fastforce simp: deadline_Some in_set_conv_nth keys_def)
  then show ?thesis using assms(1) by (fastforce simp: taken_ready_def)
qed

lemma taken_ready_Cons:
  assumes "tq_ok q ts" and t: "timer_heap q \<noteq> []" "fst (timer_heap q ! 0) \<le> now" "snd (timer_heap q ! 0) = t"
    and q1: "complete_timer q ops t = (q1, ops1)" and r: "taken_ready now q1 (remove1 t ts) q' rs"
  shows "taken_ready now q ts q' (t # rs)"
    and "ops1 @ concat (map (timer_ops q1) rs) = ops @ concat (map (timer_ops q) (t # rs))"
proof -
  have ok: "indexed q" "heap_ok (length (timer_heap q)) (keys q)" "distinct ts" "snd ` set (timer_heap q) \<subseteq> set ts"
    using assms(1) by (auto simp: tq_ok_def heaped_def linked_def)
  have root: "(fst (timer_heap q ! 0), t) \<in> set (timer_heap q)" using t by (metis length_greater_0_conv nth_mem prod.collapse)
  then have dt: "deadline q t = Some (fst (timer_heap q ! 0))" by (simp add: deadline_Some [OF ok(1)])
  have "t \<in> set ts" using root ok(4) by force
  note s = shrink_ok [OF assms(1) this, where left = "[]"]
  have ops1: "ops1 = ops @ timer_ops q t" and e: "q1 = shrink q t [] (\<lambda>a. if a \<in> set (timer_ops q t) then no_error else op_ec q a)"
    using q1 by (auto simp: complete_timer_shrink)
  have d1: "deadline q1 = (deadline q)(t := None)" and o1: "timer_ops q1 = (timer_ops q)(t := [])" using s by (simp_all add: e)
  have rs: "t \<notin> set rs" using r d1 by (auto simp: taken_ready_def)
  then have c: "map (timer_ops q1) rs = map (timer_ops q) rs" using o1 by auto
  have m: "map (the \<circ> deadline q1) rs = map (the \<circ> deadline q) rs" using rs d1 by auto
  show "ops1 @ concat (map (timer_ops q1) rs) = ops @ concat (map (timer_ops q) (t # rs))"
    using c by (simp add: ops1 del: map_eq_conv)
  have early: "fst (timer_heap q ! 0) \<le> d" if "deadline q x = Some d" for x d
    using that heap_root_min [OF ok(2)] by (fastforce simp: deadline_Some [OF ok(1)] in_set_conv_nth keys_def)
  have "set (t # rs) = {x. \<exists>d \<le> now. deadline q x = Some d}"
    using r dt t(2) d1 by (auto simp: taken_ready_def split: if_splits)
  moreover have "distinct (t # rs)" using r rs by (simp add: taken_ready_def)
  moreover have "sorted (map (the \<circ> deadline q) (t # rs))"
    using r m early dt d1 by (auto simp: taken_ready_def simp del: map_eq_conv)
  moreover have "tq_ok q' (filter (\<lambda>x. x \<notin> set (t # rs)) ts)"
  proof -
    have "filter (\<lambda>x. x \<notin> set rs) (remove1 t ts) = filter (\<lambda>x. x \<notin> set (t # rs)) ts"
      using ok(3) by (induction ts) (auto simp: filter_id_conv intro!: filter_cong)
    then show ?thesis using r unfolding taken_ready_def by metis
  qed
  moreover have "deadline q' = deadline q |` (- set (t # rs))"
    using r d1 by (auto simp: taken_ready_def restrict_map_def fun_eq_iff)
  moreover have "timer_ops q' = (\<lambda>x. if x \<in> set (t # rs) then [] else timer_ops q x)"
    using r o1 by (auto simp: taken_ready_def fun_eq_iff)
  moreover have "op_ec q' = (\<lambda>a. if a \<in> set (concat (map (timer_ops q) (t # rs))) then no_error else op_ec q a)"
  proof -
    have "op_ec q' = (\<lambda>a. if a \<in> set (concat (map (timer_ops q) rs)) then no_error else op_ec q1 a)"
      using r c unfolding taken_ready_def by metis
    moreover have "op_ec q1 = (\<lambda>a. if a \<in> set (timer_ops q t) then no_error else op_ec q a)" using s(3) by (simp add: e)
    ultimately show ?thesis by (auto simp: fun_eq_iff)
  qed
  ultimately show "taken_ready now q ts q' (t # rs)" unfolding taken_ready_def by blast
qed

lemma ready_loop_ok:
  "tq_ok q ts \<Longrightarrow>
   \<exists>q' rs. ready_loop now q ops = Some (q', ops @ concat (map (timer_ops q) rs)) \<and> taken_ready now q ts q' rs"
proof (induction "length ts" arbitrary: q ts ops rule: less_induct)
  case less
  show ?case
  proof (cases "timer_heap q \<noteq> [] \<and> \<not> now < fst (timer_heap q ! 0)")
    case True
    let ?t = "snd (timer_heap q ! 0)"
    have "?t \<in> set ts" using less.prems True by (auto simp: tq_ok_def heaped_def intro!: nth_mem)
    obtain q1 ops1 where q1: "complete_timer q ops ?t = (q1, ops1)" by fastforce
    have "tq_ok q1 (remove1 ?t ts)"
      using shrink_ok(1) [OF less.prems \<open>?t \<in> set ts\<close>, where left = "[]"] q1 by (auto simp: complete_timer_shrink)
    moreover have "length (remove1 ?t ts) < length ts"
      using \<open>?t \<in> set ts\<close> length_pos_if_in_set [OF \<open>?t \<in> set ts\<close>] by (simp add: length_remove1)
    ultimately obtain q' rs where r: "ready_loop now q1 ops1 = Some (q', ops1 @ concat (map (timer_ops q1) rs))"
      "taken_ready now q1 (remove1 ?t ts) q' rs" using less.hyps by blast
    have "fst (timer_heap q ! 0) \<le> now" using True by simp
    note c = taken_ready_Cons [OF less.prems conjunct1 [OF True] this refl q1 r(2)]
    have "ready_loop now q ops = Some (q', ops @ concat (map (timer_ops q) (?t # rs)))"
      using True q1 r(1) c(2) by (subst ready_loop.simps) simp
    then show ?thesis using c(1) by blast
  next
    case False
    then have "ready_loop now q ops = Some (q, ops @ concat (map (timer_ops q) []))"
      by (subst ready_loop.simps) auto
    moreover have "taken_ready now q ts q []" using False by (intro taken_ready_Nil [OF less.prems]) auto
    ultimately show ?thesis by blast
  qed
qed

lemma get_ready_timers_ok:
  "tq_ok q ts \<Longrightarrow>
   \<exists>q' rs. get_ready_timers now q ops = Some (q', ops @ concat (map (timer_ops q) rs)) \<and> taken_ready now q ts q' rs"
  using ready_loop_ok [of q ts now ops] by (auto simp: get_ready_timers_def intro!: exI [of _ "[]"] taken_ready_Nil)

section \<open>Shutdown and moves\<close>

lemma all_loop_ok:
  "lseg (timer_next q) (timer_prev q) p (timers q) ts None \<Longrightarrow> distinct ts \<Longrightarrow>
   \<exists>q'. all_loop q ops = Some (q', ops @ concat (map (timer_ops q) ts)) \<and> timers q' = None
      \<and> timer_ops q' = (\<lambda>t. if t \<in> set ts then [] else timer_ops q t)
      \<and> timer_next q' = (\<lambda>t. if t \<in> set ts then None else timer_next q t)
      \<and> timer_prev q' = (\<lambda>t. if t \<in> set ts then None else timer_prev q t)
      \<and> op_ec q' = op_ec q"
proof (induction ts arbitrary: q p ops)
  case Nil
  then show ?case by (subst all_loop.simps) auto
next
  case (Cons t ts)
  let ?q = "q\<lparr>timers := timer_next q t, timer_ops := (timer_ops q)(t := []),
              timer_next := (timer_next q)(t := None), timer_prev := (timer_prev q)(t := None)\<rparr>"
  have "\<exists>q'. all_loop ?q (ops @ timer_ops q t) = Some (q', (ops @ timer_ops q t) @ concat (map (timer_ops ?q) ts)) \<and> timers q' = None
      \<and> timer_ops q' = (\<lambda>t. if t \<in> set ts then [] else timer_ops ?q t)
      \<and> timer_next q' = (\<lambda>t. if t \<in> set ts then None else timer_next ?q t)
      \<and> timer_prev q' = (\<lambda>t. if t \<in> set ts then None else timer_prev ?q t)
      \<and> op_ec q' = op_ec ?q"
  proof (rule Cons.IH)
    show "lseg (timer_next ?q) (timer_prev ?q) (Some t) (timers ?q) ts None" using Cons.prems by simp
    show "distinct ts" using Cons.prems by simp
  qed
  moreover have "map (timer_ops ?q) ts = map (timer_ops q) ts" using Cons.prems(2) by auto
  moreover have "all_loop q ops = all_loop ?q (ops @ timer_ops q t)"
    using Cons.prems(1) by (subst all_loop.simps) simp
  ultimately show ?case using Cons.prems(2) by (auto simp: fun_eq_iff simp del: map_eq_conv)
qed

lemma get_all_timers_ok:
  assumes "tq_ok q ts"
  shows "\<exists>q'. get_all_timers q ops = Some (q', ops @ concat (map (timer_ops q) ts)) \<and> tq_ok q' [] \<and> op_ec q' = op_ec q"
proof -
  have l: "lseg (timer_next q) (timer_prev q) None (timers q) ts None" "distinct ts"
    using assms by (auto simp: tq_ok_def linked_def)
  show ?thesis
    using all_loop_ok [OF l, of ops] assms
    by (auto simp: get_all_timers_def tq_ok_def linked_def heaped_def indexed_def heap_ok_def)
qed

definition renamed :: "timer_ref \<Rightarrow> timer_ref \<Rightarrow> timer_ref \<Rightarrow> timer_ref" where
  "renamed target source t = (if t = source then target else t)"

lemma move_links_eq:
  assumes "target \<noteq> source" and "timer_prev q source \<noteq> Some source" and "timer_next q source \<noteq> Some source"
  shows "move_links q target source = q\<lparr>
     timers := (if timers q = Some source then Some target else timers q),
     timer_next := (set_next (timer_next q) (timer_prev q source) (Some target))(target := timer_next q source, source := None),
     timer_prev := (set_next (timer_prev q) (timer_next q source) (Some target))(target := timer_prev q source, source := None)\<rparr>"
  using assms by (cases "timer_prev q source"; cases "timer_next q source") (auto simp: move_links_def Let_def set_next_def)

lemma map_renamed [simp]: "s \<notin> set xs \<Longrightarrow> map (renamed t s) xs = xs"
  by (induction xs) (auto simp: renamed_def)

lemma linked_no_loop:
  assumes "linked q ts"
  shows "timer_prev q t \<noteq> Some t" "timer_next q t \<noteq> Some t"
proof -
  have "timer_prev q t \<noteq> Some t \<and> timer_next q t \<noteq> Some t"
  proof (cases "t \<in> set ts")
    case True
    show ?thesis
    proof (rule linked_splitE [OF assms True], goal_cases)
      case (1 as bs)
      then show ?case using end_of_in [of as t] lseg_head_in [of "timer_next q" "timer_prev q" "Some t" t bs] by metis
    qed
  qed (use assms in \<open>simp add: linked_def\<close>)
  then show "timer_prev q t \<noteq> Some t" "timer_next q t \<noteq> Some t" by simp_all
qed

lemma move_linked:
  assumes "linked q ts" and t: "t \<notin> set ts" "t \<noteq> s"
  shows "linked (move_links q t s) (map (renamed t s) ts)"
proof (cases "s \<in> set ts")
  case True
  note e = move_links_eq [OF t(2) linked_no_loop [OF assms(1)]]
  show ?thesis
  proof (rule linked_splitE [OF assms(1) True], goal_cases)
    case (1 as bs)
    let ?n = "set_next (timer_next q) (end_of None as) (Some t)"
    let ?p = "set_next (timer_prev q) (timer_next q s) (Some t)"
    have nx: "\<And>a. timer_next q s = Some a \<Longrightarrow> a \<in> set bs" using 1(4) lseg_head_in by metis
    have ts: "map (renamed t s) ts = as @ t # bs" "t \<notin> set as" "t \<notin> set bs"
      using 1(1,7,8) t(1) by (auto simp: renamed_def [of t s s])
    have "lseg ?n (timer_prev q) None (if as = [] then Some t else timers q) as (Some t)"
      by (rule lseg_redirect [OF 1(2,5)])
    then have a: "lseg ?n ?p None (if as = [] then Some t else timers q) as (Some t)"
      using nx 1(9) by (subst set_next_frames(2)) auto
    have "lseg (timer_next q) ?p (Some t) (timer_next q s) bs None" by (rule lseg_new_prev [OF 1(4,6)])
    then have b: "lseg ?n ?p (Some t) (timer_next q s) bs None"
      using end_of_in [of as] 1(9) by (subst set_next_frames(1)) auto
    have "lseg (?n(t := timer_next q s, s := None)) (?p(t := timer_prev q s, s := None)) None
        (if timers q = Some s then Some t else timers q) (as @ t # bs) None"
      using a b 1(3,7,8,10) ts t(2) by (auto simp: lseg_append)
    moreover have "x \<notin> set (as @ t # bs) \<Longrightarrow> (?n(t := timer_next q s, s := None)) x = None
        \<and> (?p(t := timer_prev q s, s := None)) x = None" for x
      using assms(1) 1(1) nx end_of_in [of as] by (auto simp: linked_def set_next_def split: option.splits)
    ultimately show ?thesis using ts 1(3,5,6,9) by (simp add: linked_def e)
  qed
next
  case False
  then have "timers q \<noteq> Some s" using assms(1) by (cases ts) (auto simp: linked_def)
  moreover have "timer_next q s = None" "timer_prev q s = None" "timer_next q t = None" "timer_prev q t = None"
    using assms False by (auto simp: linked_def)
  moreover have "map (renamed t s) ts = ts" using False by simp
  ultimately show ?thesis
    using assms(1) move_links_eq [OF t(2), of q] by (auto simp: linked_def set_next_def fun_upd_idem)
qed

lemma move_heaped:
  assumes "heaped q ts" and t: "t \<notin> set ts" "t \<noteq> s" and "s \<in> set ts \<or> heap_index q s = no_index"
  defines "q' \<equiv> move_entry q t s"
  shows "heaped q' (map (renamed t s) ts)" and "deadline q' = (deadline q)(t := deadline q s, s := None)"
proof -
  have ok: "indexed q" "heap_ok (length (timer_heap q)) (keys q)" "snd ` set (timer_heap q) \<subseteq> set ts"
    "length (timer_heap q) \<le> no_index" "\<And>t. t \<in> set ts \<Longrightarrow> t \<notin> snd ` set (timer_heap q) \<Longrightarrow> heap_index q t = no_index"
    using assms(1) by (auto simp: heaped_def)
  have th: "t \<notin> snd ` set (timer_heap q)" using ok(3) t(1) by blast
  have ix: "heap_index q (snd (timer_heap q ! j)) = j" if "j < length (timer_heap q)" for j
    using ok(1) that by (simp add: indexed_def)
  have "heaped q' (map (renamed t s) ts) \<and> deadline q' = (deadline q)(t := deadline q s, s := None)"
  proof (cases "s \<in> snd ` set (timer_heap q)")
    case True
    then obtain j d where j: "j < length (timer_heap q)" "timer_heap q ! j = (d, s)" by (force simp: in_set_conv_nth)
    then have i: "heap_index q s = j" using ix [of j] by simp
    have h: "timer_heap q' = (timer_heap q)[j := (d, t)]" "heap_index q' = (heap_index q)(t := j, s := no_index)"
      using j i t(2) by (simp_all add: q'_def move_entry_def)
    have ind: "indexed q'"
      using j ix t(2) th indexed_inject [OF ok(1), of j]
      by (auto simp: indexed_def h nth_list_update image_iff dest: nth_mem)
    have keys: "keys q' = keys q" using j by (auto simp: keys_def h fun_eq_iff nth_list_update)
    have set: "set (timer_heap q') = insert (d, t) (set (timer_heap q) - {(d, s)})"
      using set_update_distinct [OF _ j(1), of "(d, t)"] indexed_distinct [OF ok(1)] j(2) by (simp add: h(1) distinct_map)
    have ds: "(d, s) \<in> set (timer_heap q)" using nth_mem [OF j(1)] j(2) by simp
    then have only: "(e, s) \<in> set (timer_heap q) \<longleftrightarrow> e = d" for e
      using deadline_Some [OF ok(1)] by (metis option.inject)
    have img: "snd ` set (timer_heap q') = insert t (snd ` set (timer_heap q) - {s})"
    proof -
      have "snd ` (set (timer_heap q) - {(d, s)}) = snd ` set (timer_heap q) - {s}"
        using inj_on_image_set_diff [of snd "set (timer_heap q)" "set (timer_heap q)" "{(d, s)}"]
          indexed_distinct [OF ok(1)] ds by (simp add: distinct_map)
      then show ?thesis unfolding set by simp
    qed
    have "heaped q' (map (renamed t s) ts)"
      unfolding heaped_def
    proof (intro conjI allI impI)
      show "heap_ok (length (timer_heap q')) (keys q')" "length (timer_heap q') \<le> no_index" using ok(2,4) keys by (simp_all add: h(1))
      show "snd ` set (timer_heap q') \<subseteq> set (map (renamed t s) ts)" using img ok(3) True by (auto simp: renamed_def)
      fix x assume "x \<in> set (map (renamed t s) ts)" "x \<notin> snd ` set (timer_heap q')"
      then show "heap_index q' x = no_index" using img ok(5) by (auto simp: h(2) renamed_def split: if_splits)
    qed (rule ind)
    moreover have "deadline q' x = Some e \<longleftrightarrow> ((deadline q)(t := deadline q s, s := None)) x = Some e" for x e
      using t(2) set only th by (auto simp: deadline_Some [OF ind] deadline_Some [OF ok(1)] image_iff)
    then have "deadline q' x = ((deadline q)(t := deadline q s, s := None)) x" for x by (metis option.exhaust)
    ultimately show ?thesis by (auto simp: fun_eq_iff)
  next
    case False
    then have "heap_index q s = no_index" using assms(4) ok(5) by blast
    then have q': "q' = q\<lparr>heap_index := (heap_index q)(t := no_index, s := no_index)\<rparr>"
      using ok(4) t(2) by (simp add: q'_def move_entry_def Let_def)
    have "indexed q'" using ok(1) False th by (auto simp: q' indexed_def image_iff dest: nth_mem)
    then have "heaped q' (map (renamed t s) ts)"
      using ok(2-5) False by (auto simp: q' heaped_def keys_def [abs_def] renamed_def image_iff)
    moreover have "deadline q' = deadline q" "deadline q s = None" "deadline q t = None"
      using False th by (auto simp: deadline_None) (simp add: q' deadline_def)
    ultimately show ?thesis by (simp add: fun_upd_idem)
  qed
  then show "heaped q' (map (renamed t s) ts)" "deadline q' = (deadline q)(t := deadline q s, s := None)" by simp_all
qed

lemma move_sel [simp]:
  "timer_heap (move_links q t s) = timer_heap q" "heap_index (move_links q t s) = heap_index q"
  "timer_ops (move_links q t s) = timer_ops q" "op_ec (move_links q t s) = op_ec q"
  "timer_ops (move_entry q t s) = timer_ops q" "op_ec (move_entry q t s) = op_ec q" "timers (move_entry q t s) = timers q"
  "timer_next (move_entry q t s) = timer_next q" "timer_prev (move_entry q t s) = timer_prev q"
  by (auto simp: move_links_def move_entry_def Let_def split: option.splits)

lemma move_timer_ok:
  assumes "tq_ok q ts" and t: "t \<notin> set ts" "t \<noteq> s" and "s \<in> set ts \<or> heap_index q s = no_index"
  shows "tq_ok (move_timer q t s) (map (renamed t s) ts)"
    and "timer_ops (move_timer q t s) = (timer_ops q)(t := timer_ops q s, s := [])"
    and "deadline (move_timer q t s) = (deadline q)(t := deadline q s, s := None)"
    and "op_ec (move_timer q t s) = op_ec q"
proof -
  let ?q = "q\<lparr>timer_ops := (timer_ops q)(t := timer_ops q t @ timer_ops q s, s := [])\<rparr>"
  have ok: "linked q ts" "heaped ?q ts" and ops: "\<And>x. timer_ops q x \<noteq> [] \<longleftrightarrow> x \<in> set ts"
    using assms(1) heaped_cong [of ?q q ts] by (auto simp: tq_ok_def)
  have "s \<in> set ts \<or> heap_index ?q s = no_index" using assms(4) by simp
  note h = move_heaped [OF ok(2) t this]
  have l: "linked (move_entry ?q t s) ts" using linked_cong [of "move_entry ?q t s" q] ok(1) by simp
  have m: "move_timer q t s = move_links (move_entry ?q t s) t s" by (simp add: move_timer_def)
  have linked: "linked (move_timer q t s) (map (renamed t s) ts)" unfolding m by (rule move_linked [OF l t])
  have heaped: "heaped (move_timer q t s) (map (renamed t s) ts)"
    using h(1) heaped_cong [of "move_timer q t s" "move_entry ?q t s"] by (simp add: m)
  have "timer_ops q t = []" using ops [of t] t(1) by blast
  then show o1: "timer_ops (move_timer q t s) = (timer_ops q)(t := timer_ops q s, s := [])"
    by (simp add: m)
  show "deadline (move_timer q t s) = (deadline q)(t := deadline q s, s := None)"
    using h(2) by (simp add: m deadline_def)
  show "op_ec (move_timer q t s) = op_ec q" by (simp add: m)
  have "timer_ops (move_timer q t s) x \<noteq> [] \<longleftrightarrow> x \<in> set (map (renamed t s) ts)" for x
    using ops [of x] ops [of s] t by (auto simp: o1 renamed_def image_iff)
  then show "tq_ok (move_timer q t s) (map (renamed t s) ts)" using linked heaped by (simp add: tq_ok_def)
qed

section \<open>The runs of a timer queue\<close>

text \<open>
  What the owner of a timer queue does: timers are constructed, operations enqueued, cancelled and moved, and
  the scheduler takes out the operations of expired timers or of all timers.  A timer is moved to another, empty
  timer; a timer taken out by \<open>get_all_timers\<close> keeps its old heap index and is not moved afterwards
  (\<open>stale_move_loses_timer\<close> shows what would happen).
\<close>

inductive tq_reachable :: "(time_type \<Rightarrow> bool) \<Rightarrow> timer_queue \<Rightarrow> bool" for pinf where
  start: "(\<And>t. per_timer_data_init q t = q) \<Longrightarrow> tq_reachable pinf (timer_queue_init q)"
| construct: "tq_reachable pinf q \<Longrightarrow> idle_timer q t \<Longrightarrow> tq_reachable pinf (per_timer_data_init q t)"
| enqueue: "tq_reachable pinf q \<Longrightarrow> length (timer_heap q) < no_index \<Longrightarrow>
    tq_reachable pinf (fst (enqueue_timer pinf q time t a))"
| ready: "tq_reachable pinf q \<Longrightarrow> get_ready_timers now q ops = Some (q', ops') \<Longrightarrow> tq_reachable pinf q'"
| all: "tq_reachable pinf q \<Longrightarrow> get_all_timers q ops = Some (q', ops') \<Longrightarrow> tq_reachable pinf q'"
| cancel: "tq_reachable pinf q \<Longrightarrow> tq_reachable pinf (fst (cancel_timer q t ops m))"
| cancel_key: "tq_reachable pinf q \<Longrightarrow> tq_reachable pinf (fst (cancel_timer_by_key key_of q t ops (key :: nat)))"
| move: "tq_reachable pinf q \<Longrightarrow> idle_timer q t \<Longrightarrow> t \<noteq> s \<Longrightarrow> \<not> idle_timer q s \<or> heap_index q s = no_index \<Longrightarrow>
    tq_reachable pinf (move_timer q t s)"

lemma init_ok:
  assumes "\<And>t. per_timer_data_init q t = q"
  shows "tq_ok (timer_queue_init q) []"
proof -
  have "timer_ops q t = [] \<and> timer_next q t = None \<and> timer_prev q t = None" for t
    by (subst (1 2 3) assms [of t, symmetric]) (simp add: per_timer_data_init_def)
  then show ?thesis
    by (auto simp: tq_ok_def linked_def heaped_def indexed_def heap_ok_def timer_queue_init_def)
qed

lemma construct_ok:
  assumes "tq_ok q ts" and "idle_timer q t"
  shows "tq_ok (per_timer_data_init q t) ts"
proof -
  have ok: "linked q ts" "heaped q ts" "\<And>x. timer_ops q x \<noteq> [] \<longleftrightarrow> x \<in> set ts" using assms(1) by (auto simp: tq_ok_def)
  have t: "t \<notin> set ts" using idle_iff [OF ok(1)] assms(2) by simp
  then have "timer_ops q t = []" "timer_next q t = None" "timer_prev q t = None" using ok(1,3) by (auto simp: linked_def)
  then have e: "per_timer_data_init q t = q\<lparr>heap_index := (heap_index q)(t := no_index)\<rparr>"
    by (simp add: per_timer_data_init_def fun_upd_idem)
  have "heaped (per_timer_data_init q t) ts"
    using ok(2) t by (auto simp: e heaped_def indexed_def keys_def [abs_def] image_subset_iff)
  then show ?thesis using ok linked_cong [of "per_timer_data_init q t" q] by (simp add: tq_ok_def e)
qed

lemma cancel_ok:
  assumes "tq_ok q ts"
  shows "\<exists>ts'. tq_ok (fst (cancel_timer q t ops m)) ts'"
    and "\<exists>ts'. tq_ok (fst (cancel_timer_by_key key_of q t ops key)) ts'"
proof -
  have l: "linked q ts" using assms by (simp add: tq_ok_def)
  show "\<exists>ts'. tq_ok (fst (cancel_timer q t ops m)) ts'"
  proof (cases "t \<in> set ts")
    case True
    then show ?thesis unfolding cancel_timer_shrink [OF l True] fst_conv by (blast intro: shrink_ok(1) [OF assms])
  qed (use assms idle_iff [OF l] in \<open>auto simp: cancel_timer_def\<close>)
  show "\<exists>ts'. tq_ok (fst (cancel_timer_by_key key_of q t ops key)) ts'"
  proof (cases "t \<in> set ts")
    case True
    then show ?thesis unfolding cancel_by_key_shrink [OF l True] fst_conv by (blast intro: shrink_ok(1) [OF assms])
  qed (use assms idle_iff [OF l] in \<open>auto simp: cancel_timer_by_key_def\<close>)
qed

lemma reachable_ok: "tq_reachable pinf q \<Longrightarrow> \<exists>ts. tq_ok q ts"
proof (induction rule: tq_reachable.induct)
  case (ready q now ops q' ops')
  then obtain ts where "tq_ok q ts" by blast
  from get_ready_timers_ok [OF this, of now ops] ready.hyps(2) show ?case unfolding taken_ready_def by auto
next
  case (all q ops q' ops')
  then show ?case using get_all_timers_ok [of q _ ops] by fastforce
next
  case (enqueue q time t a)
  then show ?case using enqueue_timer_ok(1) by (metis prod.collapse)
next
  case (move q t s)
  then obtain ts where "tq_ok q ts" by blast
  moreover have "idle_timer q x \<longleftrightarrow> x \<notin> set ts" for x using calculation idle_iff by (simp add: tq_ok_def)
  ultimately show ?case using move.hyps move_timer_ok(1) by metis
qed (blast intro: init_ok construct_ok cancel_ok)+

section \<open>Properties\<close>

text \<open>A queue with two timers: timer 1 with operation 10 expires at time 20, timer 2 with operation 11 at time 10.\<close>

definition ex_empty :: timer_queue where
  "ex_empty = \<lparr>timer_ops = (\<lambda>_. []), heap_index = (\<lambda>_. no_index), timer_next = (\<lambda>_. None), timer_prev = (\<lambda>_. None),
     timers = None, timer_heap = [], op_ec = (\<lambda>_. no_error)\<rparr>"

definition ex_timers :: timer_queue where
  "ex_timers = fst (enqueue_timer (\<lambda>_. False) (fst (enqueue_timer (\<lambda>_. False) ex_empty 20 1 10)) 10 2 11)"

lemma ex_empty_reachable: "tq_reachable pinf ex_empty"
proof -
  have "per_timer_data_init ex_empty t = ex_empty" for t by (simp add: per_timer_data_init_def ex_empty_def fun_upd_idem)
  then have "tq_reachable pinf (timer_queue_init ex_empty)" by (rule tq_reachable.start)
  then show ?thesis by (simp add: timer_queue_init_def ex_empty_def)
qed

lemmas ex_simps = enqueue_timer_def activate_timer_def link_timer_def idle_timer_def ex_empty_def up_heap.simps
  swap_heap_def no_index_def Let_def

lemma ex_timers_reachable: "tq_reachable (\<lambda>_. False) ex_timers"
  unfolding ex_timers_def
  by (intro tq_reachable.enqueue ex_empty_reachable) (simp_all add: ex_simps)

lemma ex_timers_sel:
  "timer_heap ex_timers = [(10, 2), (20, 1)]" "timer_ops ex_timers = (\<lambda>_. [])(1 := [10], 2 := [11])"
  by (simp_all add: ex_timers_def ex_simps)

text \<open>
  C37: In every state of a timer queue, \<open>get_ready_timers\<close> returns, appends to its argument the operations of
  exactly the timers whose expiry time is not later than now, timer by timer in the order of expiry, all with
  no error; these timers become inactive, and every other timer keeps its operations and its expiry time.
\<close>

theorem ready_timers_in_order:
  assumes "tq_reachable pinf q"
  shows "\<exists>q' rs. get_ready_timers now q ops = Some (q', ops @ concat (map (timer_ops q) rs))
    \<and> distinct rs \<and> set rs = {t. \<exists>d \<le> now. deadline q t = Some d} \<and> sorted (map (the \<circ> deadline q) rs)
    \<and> deadline q' = deadline q |` (- set rs)
    \<and> timer_ops q' = (\<lambda>t. if t \<in> set rs then [] else timer_ops q t)
    \<and> op_ec q' = (\<lambda>a. if a \<in> set (concat (map (timer_ops q) rs)) then no_error else op_ec q a)"
proof -
  obtain ts where "tq_ok q ts" using reachable_ok [OF assms] by blast
  from get_ready_timers_ok [OF this, of now ops] show ?thesis unfolding taken_ready_def by blast
qed

theorem ready_timers_in_order_witness:
  "\<exists>q'. get_ready_timers 15 ex_timers [] = Some (q', [11]) \<and> deadline q' 2 = None \<and> deadline q' 1 = Some 20"
proof -
  obtain q' rs where r: "get_ready_timers 15 ex_timers [] = Some (q', [] @ concat (map (timer_ops ex_timers) rs))"
    "distinct rs" "set rs = {t. \<exists>d \<le> 15. deadline ex_timers t = Some d}" "deadline q' = deadline ex_timers |` (- set rs)"
    using ready_timers_in_order [OF ex_timers_reachable, of 15 "[]"] by blast
  have d: "deadline ex_timers = [1 \<mapsto> 20, 2 \<mapsto> 10]" by (simp add: deadline_def ex_timers_sel)
  have "set rs = {2}" unfolding r(3) d by auto
  moreover have "length rs = 1" using distinct_card [OF r(2)] calculation by simp
  ultimately have "rs = [2]" by (cases rs) auto
  then have "get_ready_timers 15 ex_timers [] = Some (q', [11])" "deadline q' 2 = None" "deadline q' 1 = Some 20"
    using r(1,4) by (simp_all add: ex_timers_sel d)
  then show ?thesis by blast
qed

text \<open>
  Enqueueing an operation appends it to its timer's operations.  An idle timer takes the given expiry time
  unless it is infinite, and the result is true exactly when that time is earlier than every expiry time in
  the queue, that is when the reactor has to wait less than before; a timer that is active already keeps its
  expiry time and the result is false.
\<close>

theorem enqueue_timer_earliest:
  fixes time :: time_type
  assumes "tq_reachable pinf q" and "length (timer_heap q) < no_index" and "a \<notin> set (timer_ops q t)"
    and "enqueue_timer pinf q time t a = (q', earliest)"
  shows "timer_ops q' = (timer_ops q)(t := timer_ops q t @ [a])
    \<and> (if timer_ops q t = [] then
         deadline q' = (if pinf time then deadline q else (deadline q)(t \<mapsto> time))
         \<and> (earliest \<longleftrightarrow> \<not> pinf time \<and> (\<forall>t' d. deadline q t' = Some d \<longrightarrow> time < d))
       else deadline q' = deadline q \<and> \<not> earliest)"
proof -
  obtain ts where ok: "tq_ok q ts" using reachable_ok [OF assms(1)] by blast
  then have "timer_ops q t = [] \<longleftrightarrow> t \<notin> set ts" by (auto simp: tq_ok_def)
  then show ?thesis using enqueue_timer_ok [OF ok assms(2,4)] assms(3) by simp
qed

theorem enqueue_timer_earliest_witness:
  "\<exists>q'. enqueue_timer (\<lambda>_. False) ex_timers 5 3 12 = (q', True) \<and> deadline q' 3 = Some 5"
proof -
  obtain q' e where e: "enqueue_timer (\<lambda>_. False) ex_timers 5 3 12 = (q', e)" by fastforce
  have d: "deadline ex_timers = [1 \<mapsto> 20, 2 \<mapsto> 10]" by (simp add: deadline_def ex_timers_sel)
  from enqueue_timer_earliest [OF ex_timers_reachable _ _ e] show ?thesis
    using e by (auto simp: ex_timers_sel no_index_def d split: if_splits)
qed

text \<open>
  Moving a timer that \<open>get_all_timers\<close> took out follows its old heap index: here it takes the heap entry of
  timer 2, whose operation 11 then never completes.
\<close>

definition ex_drained :: timer_queue where
  "ex_drained = fst (the (get_all_timers (fst (enqueue_timer (\<lambda>_. False) ex_empty 5 1 10)) []))"

lemma stale_move_loses_timer:
  defines "q \<equiv> move_timer (fst (enqueue_timer (\<lambda>_. False) ex_drained 7 2 11)) 3 1"
  shows "timer_ops q 2 = [11]" and "timer_heap q = [(7, 3)]"
  by (simp_all add: q_def ex_drained_def get_all_timers_def all_loop.simps move_timer_def move_entry_def move_links_def ex_simps)

end
