(* ===== verification/Timer_Wait.thy ===== *)
theory Timer_Wait
  imports Timer_Runs
begin

text \<open>
  How long a reactor waits for its timers: \<^verbatim>\<open>asio/detail/chrono_time_traits.hpp\<close>, which does arithmetic on the times of a
  clock, the waiting times of \<^verbatim>\<open>asio/detail/timer_queue.hpp\<close> and \<^verbatim>\<open>asio/detail/timer_queue_set.hpp\<close>, the timer queues of
  a reactor.  A time is the number of ticks since the epoch of the clock, a 64-bit signed integer; every arithmetic
  operation of the source is checked, and an overflow is undefined behaviour.
\<close>

section \<open>Signed 64-bit arithmetic\<close>

definition INT64_MIN :: int where "INT64_MIN = - (2 ^ 63)"
definition INT64_MAX :: int where "INT64_MAX = 2 ^ 63 - 1"

lemmas int64_defs = INT64_MIN_def INT64_MAX_def

definition in64 :: "int \<Rightarrow> bool" where
  "in64 x \<longleftrightarrow> INT64_MIN \<le> x \<and> x \<le> INT64_MAX"

definition i64 :: "int \<Rightarrow> undefined_behaviour + int" where
  "i64 x = (if in64 x then Inr x else Inl Integer_out_of_range)"

definition ub_bind :: "undefined_behaviour + 'a \<Rightarrow> ('a \<Rightarrow> undefined_behaviour + 'b) \<Rightarrow> undefined_behaviour + 'b" where
  "ub_bind r f = (case r of Inl ub \<Rightarrow> Inl ub | Inr x \<Rightarrow> f x)"

lemma ub_bind_simps [simp]: "ub_bind (Inl ub) f = Inl ub" "ub_bind (Inr x) f = f x"
  by (simp_all add: ub_bind_def)

lemma i64_Inr [simp]: "in64 x \<Longrightarrow> i64 x = Inr x"
  by (simp add: i64_def)

text \<open>The division of the language rounds towards 0.\<close>

definition c_div :: "int \<Rightarrow> int \<Rightarrow> int" where
  "c_div a b = sgn a * sgn b * (\<bar>a\<bar> div \<bar>b\<bar>)"

section \<open>Clock arithmetic\<close>

definition time_add :: "int \<Rightarrow> int \<Rightarrow> undefined_behaviour + int" where
  "time_add t d =
     (if t \<ge> 0 then
        ub_bind (i64 (INT64_MAX - t)) (\<lambda>room. if room < d then Inr INT64_MAX else i64 (t + d))
      else
        ub_bind (i64 (t - INT64_MIN)) (\<lambda>room. ub_bind (i64 (- room)) (\<lambda>low. if low > d then Inr INT64_MIN else i64 (t + d))))"

definition time_subtract :: "int \<Rightarrow> int \<Rightarrow> undefined_behaviour + int" where
  "time_subtract t1 t2 =
     (if t1 \<ge> 0 then
        if t2 \<ge> 0 then i64 (t1 - t2)
        else if t2 = INT64_MIN then Inr INT64_MAX
        else ub_bind (i64 (INT64_MAX - t1)) (\<lambda>room. ub_bind (i64 (0 - t2)) (\<lambda>neg.
               if room < neg then Inr INT64_MAX else i64 (t1 - t2)))
      else
        if t2 < 0 then i64 (t1 - t2)
        else if t1 = INT64_MIN then Inr INT64_MIN
        else ub_bind (i64 (INT64_MAX - t2)) (\<lambda>room. ub_bind (i64 (0 - t1)) (\<lambda>neg.
               if room < neg then Inr INT64_MIN else ub_bind (i64 (t2 - t1)) (\<lambda>d. i64 (- d)))))"

definition saturate :: "int \<Rightarrow> int" where
  "saturate x = max INT64_MIN (min INT64_MAX x)"

lemma time_add_saturates: "in64 t \<Longrightarrow> in64 d \<Longrightarrow> time_add t d = Inr (saturate (t + d))"
  by (auto simp: time_add_def i64_def in64_def int64_defs saturate_def)

lemma time_subtract_saturates: "in64 t1 \<Longrightarrow> in64 t2 \<Longrightarrow> time_subtract t1 t2 = Inr (saturate (t1 - t2))"
  by (auto simp: time_subtract_def i64_def in64_def int64_defs saturate_def)

section \<open>Durations\<close>

text \<open>The template that computes the greatest common divisor.\<close>

fun gcd_value :: "nat \<Rightarrow> nat \<Rightarrow> nat" where
  "gcd_value v1 v2 = (if v2 = 0 then v1 else gcd_value v2 (v1 mod v2))"

declare gcd_value.simps [simp del]

lemma gcd_value_eq: "gcd_value v1 v2 = gcd v1 v2"
  by (induction v1 v2 rule: gcd_value.induct) (subst gcd_value.simps, simp add: gcd_non_0_nat)

text \<open>\<open>(pnum, pden)\<close> is the period of the clock in seconds; \<open>num / den\<close> is the unit of the result.\<close>

definition duration_cast :: "nat \<times> nat \<Rightarrow> nat \<Rightarrow> nat \<Rightarrow> int \<Rightarrow> undefined_behaviour + int" where
  "duration_cast period Num Den ticks =
     (case period of (pnum, pden) \<Rightarrow>
        let num1 = pnum div gcd_value pnum Num; num2 = Num div gcd_value pnum Num;
            den1 = pden div gcd_value pden Den; den2 = Den div gcd_value pden Den;
            num = num1 * den2; den = num2 * den1
        in if num = 1 \<and> den = 1 then Inr ticks
           else if num \<noteq> 1 \<and> den = 1 then i64 (ticks * int num)
           else if num = 1 \<and> pden \<noteq> 1 then Inr (c_div ticks (int den))
           else ub_bind (i64 (ticks * int num)) (\<lambda>t. Inr (c_div t (int den))))"

definition total_seconds :: "nat \<times> nat \<Rightarrow> int \<Rightarrow> undefined_behaviour + int" where
  "total_seconds period ticks = duration_cast period 1 1 ticks"

definition total_milliseconds :: "nat \<times> nat \<Rightarrow> int \<Rightarrow> undefined_behaviour + int" where
  "total_milliseconds period ticks = duration_cast period 1 1000 ticks"

definition total_microseconds :: "nat \<times> nat \<Rightarrow> int \<Rightarrow> undefined_behaviour + int" where
  "total_microseconds period ticks = duration_cast period 1 1000000 ticks"

text \<open>A duration is converted exactly, rounded towards 0, unless the product overflows.\<close>

lemma c_div_common: "0 < g \<Longrightarrow> c_div (a * g) (b * g) = c_div a b"
  by (simp add: c_div_def sgn_mult abs_mult)

lemma c_div_1: "c_div a 1 = a"
  by (simp add: c_div_def mult.commute [of "sgn a"] abs_mult_sgn)

lemma duration_cast_exact:
  assumes "0 < pnum" "0 < pden" "0 < Num" "0 < Den"
    and "duration_cast (pnum, pden) Num Den ticks = Inr r"
  shows "r = c_div (ticks * int pnum * int Den) (int Num * int pden)"
proof -
  let ?g1 = "gcd pnum Num" and ?g2 = "gcd pden Den"
  let ?num = "pnum div ?g1 * (Den div ?g2)" and ?den = "Num div ?g1 * (pden div ?g2)"
  have "r = c_div (ticks * int ?num) (int ?den)"
    using assms(5) by (auto simp: duration_cast_def gcd_value_eq Let_def c_div_1 i64_def ub_bind_def split: if_splits sum.splits)
  also have "\<dots> = c_div (ticks * int ?num * int (?g1 * ?g2)) (int ?den * int (?g1 * ?g2))"
    using assms(1,2) by (intro c_div_common [symmetric]) (simp add: gcd_pos_nat)
  also have "\<dots> = c_div (ticks * int pnum * int Den) (int Num * int pden)"
  proof -
    have "?num * (?g1 * ?g2) = (pnum div ?g1 * ?g1) * (Den div ?g2 * ?g2)"
      "?den * (?g1 * ?g2) = (Num div ?g1 * ?g1) * (pden div ?g2 * ?g2)" by (simp_all only: ac_simps)
    then have "?num * (?g1 * ?g2) = pnum * Den" "?den * (?g1 * ?g2) = Num * pden" by simp_all
    then show ?thesis by (simp only: mult.assoc flip: of_nat_mult)
  qed
  finally show ?thesis .
qed

section \<open>Waiting times of a timer queue\<close>

definition clipped_wait :: "int \<Rightarrow> undefined_behaviour + int \<Rightarrow> int \<Rightarrow> undefined_behaviour + int" where
  "clipped_wait ticks amount max_duration =
     (if ticks \<le> 0 then Inr 0
      else ub_bind amount (\<lambda>n. Inr (if n = 0 then 1 else if n > max_duration then max_duration else n)))"

definition to_msec :: "nat \<times> nat \<Rightarrow> int \<Rightarrow> int \<Rightarrow> undefined_behaviour + int" where
  "to_msec period d max_duration = clipped_wait d (total_milliseconds period d) max_duration"

definition to_usec :: "nat \<times> nat \<Rightarrow> int \<Rightarrow> int \<Rightarrow> undefined_behaviour + int" where
  "to_usec period d max_duration = clipped_wait d (total_microseconds period d) max_duration"

text \<open>\<^verbatim>\<open>wait_traits\<close> returns the duration as it is.\<close>

definition to_wait_duration :: "int \<Rightarrow> int" where
  "to_wait_duration d = d"

definition wait_duration_msec :: "nat \<times> nat \<Rightarrow> time_type \<Rightarrow> timer_queue \<Rightarrow> int \<Rightarrow> undefined_behaviour + int" where
  "wait_duration_msec period now q max_duration =
     (if timer_heap q = [] then Inr max_duration
      else ub_bind (time_subtract (fst (timer_heap q ! 0)) now) (\<lambda>d. to_msec period (to_wait_duration d) max_duration))"

definition wait_duration_usec :: "nat \<times> nat \<Rightarrow> time_type \<Rightarrow> timer_queue \<Rightarrow> int \<Rightarrow> undefined_behaviour + int" where
  "wait_duration_usec period now q max_duration =
     (if timer_heap q = [] then Inr max_duration
      else ub_bind (time_subtract (fst (timer_heap q ! 0)) now) (\<lambda>d. to_usec period (to_wait_duration d) max_duration))"

text \<open>The clocks of the standard library count nanoseconds.\<close>

definition nano :: "nat \<times> nat" where
  "nano = (1, 1000000000)"

lemma nano_gcds:
  "gcd_value 1 1 = 1" "gcd_value 1000000000 1000 = 1000" "gcd_value 1000000000 1000000 = 1000000"
  by (subst gcd_value.simps, simp, subst gcd_value.simps, simp)+

lemma nano_casts:
  "total_milliseconds nano t = Inr (c_div t 1000000)" "total_microseconds nano t = Inr (c_div t 1000)"
  by (simp_all add: nano_def total_milliseconds_def total_microseconds_def duration_cast_def nano_gcds [simplified] nano_gcds Let_def)

lemma c_div_pos: "0 < t \<Longrightarrow> 0 < b \<Longrightarrow> c_div t b = t div b"
  by (simp add: c_div_def)

lemma saturate_pos: "0 < saturate x \<longleftrightarrow> 0 < x" "saturate x \<le> 0 \<longleftrightarrow> x \<le> 0" "0 < x \<Longrightarrow> saturate x \<le> x"
  by (auto simp: saturate_def int64_defs)

definition times_in_range :: "timer_queue \<Rightarrow> bool" where
  "times_in_range q \<longleftrightarrow> (\<forall>t d. deadline q t = Some d \<longrightarrow> in64 d)"

definition some_due :: "timer_queue \<Rightarrow> time_type \<Rightarrow> bool" where
  "some_due q now \<longleftrightarrow> (\<exists>t d. deadline q t = Some d \<and> d \<le> now)"

lemma first_deadline:
  assumes "tq_ok q ts" and "timer_heap q \<noteq> []"
  shows "\<exists>t. deadline q t = Some (fst (timer_heap q ! 0))" and "deadline q t = Some d \<Longrightarrow> fst (timer_heap q ! 0) \<le> d"
proof -
  have ok: "indexed q" "heap_ok (length (timer_heap q)) (keys q)" using assms(1) by (auto simp: tq_ok_def heaped_def)
  have "timer_heap q ! 0 \<in> set (timer_heap q)" using assms(2) by simp
  then show "\<exists>t. deadline q t = Some (fst (timer_heap q ! 0))"
    using deadline_Some [OF ok(1)] by (metis prod.collapse)
  show "deadline q t = Some d \<Longrightarrow> fst (timer_heap q ! 0) \<le> d"
    using heap_root_min [OF ok(2)] by (fastforce simp: deadline_Some [OF ok(1)] in_set_conv_nth keys_def)
qed

text \<open>The common part of the two waiting times, in a unit of \<open>u\<close> ticks.\<close>

lemma clipped_wait_sound:
  fixes u :: int
  assumes "tq_ok q ts" and "times_in_range q" and "in64 now" and "1 \<le> m" and "0 < u" and "timer_heap q \<noteq> []"
  shows "\<exists>r. ub_bind (time_subtract (fst (timer_heap q ! 0)) now) (\<lambda>d. clipped_wait d (Inr (c_div d u)) m) = Inr r
    \<and> 0 \<le> r \<and> r \<le> m \<and> (r = 0 \<longleftrightarrow> some_due q now)
    \<and> (\<forall>t d. deadline q t = Some d \<longrightarrow> now < d \<longrightarrow> r \<le> max 1 ((d - now) div u))"
proof -
  let ?d = "fst (timer_heap q ! 0)"
  obtain t where t: "deadline q t = Some ?d" using first_deadline(1) [OF assms(1,6)] by blast
  then have "in64 ?d" using assms(2) by (auto simp: times_in_range_def)
  then have s: "time_subtract ?d now = Inr (saturate (?d - now))" by (rule time_subtract_saturates) (rule assms(3))
  have due: "some_due q now \<longleftrightarrow> ?d \<le> now"
    using t first_deadline(2) [OF assms(1,6)] by (force simp: some_due_def)
  show ?thesis
  proof (cases "?d \<le> now")
    case True
    then show ?thesis using s due assms(4) saturate_pos(2) [of "?d - now"] by (auto simp: clipped_wait_def)
  next
    case False
    let ?s = "saturate (?d - now)"
    have pos: "0 < ?s" "?s \<le> ?d - now" using False saturate_pos(1,3) [of "?d - now"] by auto
    let ?r = "if ?s div u = 0 then 1 else if ?s div u > m then m else ?s div u"
    have nonneg: "0 \<le> ?s div u" using pos assms(5) by (simp add: pos_imp_zdiv_nonneg_iff)
    have "?r \<le> max 1 ((e - now) div u)" if "deadline q x = Some e" for x e
    proof -
      have "?s \<le> e - now" using pos first_deadline(2) [OF assms(1,6) that] by linarith
      then have "?s div u \<le> (e - now) div u" using assms(5) by (rule zdiv_mono1)
      then show ?thesis by auto
    qed
    then show ?thesis
      using s due False pos nonneg assms(4,5) by (intro exI [of _ ?r]) (auto simp: clipped_wait_def c_div_pos)
  qed
qed

lemma wait_msec_sound:
  assumes "tq_ok q ts" and "times_in_range q" and "in64 now" and "1 \<le> m"
  shows "\<exists>r. wait_duration_msec nano now q m = Inr r \<and> 0 \<le> r \<and> r \<le> m \<and> (r = 0 \<longleftrightarrow> some_due q now)
    \<and> (\<forall>t d. deadline q t = Some d \<longrightarrow> now < d \<longrightarrow> r \<le> max 1 ((d - now) div 1000000))"
proof (cases "timer_heap q = []")
  case True
  then have "deadline q t = None" for t by (simp add: deadline_None)
  then show ?thesis using True assms(4) by (simp add: wait_duration_msec_def some_due_def)
next
  case False
  from clipped_wait_sound [OF assms(1-4) _ False, of 1000000] show ?thesis
    using False by (simp add: wait_duration_msec_def to_msec_def to_wait_duration_def nano_casts)
qed

text \<open>
  The waiting time of a timer queue, for a clock that counts nanoseconds and a limit of at least one millisecond.  No overflow happens; the result
  is between 0 and the limit and is 0 exactly when a timer is due; and the reactor wakes up in time for every timer, that is not
  later than the timer, or than one millisecond if less than that is left.
\<close>

theorem wait_duration_sound:
  assumes "tq_reachable pinf q" and "times_in_range q" and "in64 now" and "1 \<le> m"
  shows "\<exists>r. wait_duration_msec nano now q m = Inr r \<and> 0 \<le> r \<and> r \<le> m \<and> (r = 0 \<longleftrightarrow> some_due q now)
    \<and> (\<forall>t d. deadline q t = Some d \<longrightarrow> now < d \<longrightarrow> r \<le> max 1 ((d - now) div 1000000))"
proof -
  obtain ts where "tq_ok q ts" using reachable_ok [OF assms(1)] by blast
  then show ?thesis by (rule wait_msec_sound [OF _ assms(2-4)])
qed

theorem wait_duration_sound_witness:
  "\<exists>r. wait_duration_msec nano 12 ex_timers 300000 = Inr r \<and> 0 \<le> r \<and> r \<le> 300000 \<and> (r = 0 \<longleftrightarrow> some_due ex_timers 12)"
proof -
  have d: "deadline ex_timers = [1 \<mapsto> 20, 2 \<mapsto> 10]" by (simp add: deadline_def ex_timers_sel)
  have "times_in_range ex_timers" "in64 12" by (auto simp: times_in_range_def d in64_def int64_defs split: if_splits)
  then show ?thesis using wait_duration_sound [OF ex_timers_reachable, of 12 300000] by auto
qed

section \<open>The timer queues of a reactor\<close>

text \<open>A queue is its address; \<open>next\<close> is the member \<^verbatim>\<open>next_\<close> of all queues, and the head of the list the member \<^verbatim>\<open>first_\<close> of the set.\<close>

type_synonym queue_ref = nat

definition timer_queue_set_init :: "queue_ref option" where
  "timer_queue_set_init = None"

definition set_insert :: "op_links \<Rightarrow> queue_ref option \<Rightarrow> queue_ref \<Rightarrow> op_links \<times> queue_ref option" where
  "set_insert nxt first q = (nxt(q := first), Some q)"

partial_function (option) erase_loop :: "op_links \<Rightarrow> queue_ref \<Rightarrow> queue_ref \<Rightarrow> op_links option" where
  "erase_loop nxt q p =
     (case nxt p of
        None \<Rightarrow> Some nxt
      | Some n \<Rightarrow> if n = q then Some (nxt(p := nxt q, q := None)) else erase_loop nxt q n)"

definition set_erase :: "op_links \<Rightarrow> queue_ref option \<Rightarrow> queue_ref \<Rightarrow> (op_links \<times> queue_ref option) option" where
  "set_erase nxt first q =
     (case first of
        None \<Rightarrow> Some (nxt, first)
      | Some f \<Rightarrow> if q = f then Some (nxt(q := None), nxt q)
                  else map_option (\<lambda>nxt'. (nxt', first)) (erase_loop nxt q f))"

text \<open>The loops over all queues share their shape: \<open>f\<close> is the body.\<close>

partial_function (option) for_queues :: "op_links \<Rightarrow> queue_ref option \<Rightarrow> (queue_ref \<Rightarrow> 's \<Rightarrow> 's option) \<Rightarrow> 's \<Rightarrow> 's option" where
  "for_queues nxt p f s =
     (case p of None \<Rightarrow> Some s | Some q \<Rightarrow> (case f q s of None \<Rightarrow> None | Some s' \<Rightarrow> for_queues nxt (nxt q) f s'))"

type_synonym queues = "queue_ref \<Rightarrow> timer_queue"

partial_function (option) set_all_empty :: "op_links \<Rightarrow> queue_ref option \<Rightarrow> queues \<Rightarrow> bool option" where
  "set_all_empty nxt p qs =
     (case p of None \<Rightarrow> Some True | Some q \<Rightarrow> if \<not> tq_empty (qs q) then Some False else set_all_empty nxt (nxt q) qs)"

definition set_wait_duration_msec ::
  "nat \<times> nat \<Rightarrow> time_type \<Rightarrow> op_links \<Rightarrow> queue_ref option \<Rightarrow> queues \<Rightarrow> int \<Rightarrow> (undefined_behaviour + int) option" where
  "set_wait_duration_msec period now nxt first qs max_duration =
     for_queues nxt first (\<lambda>q m. Some (ub_bind m (wait_duration_msec period now (qs q)))) (Inr max_duration)"

definition set_wait_duration_usec ::
  "nat \<times> nat \<Rightarrow> time_type \<Rightarrow> op_links \<Rightarrow> queue_ref option \<Rightarrow> queues \<Rightarrow> int \<Rightarrow> (undefined_behaviour + int) option" where
  "set_wait_duration_usec period now nxt first qs max_duration =
     for_queues nxt first (\<lambda>q m. Some (ub_bind m (wait_duration_usec period now (qs q)))) (Inr max_duration)"

definition ready_step :: "time_type \<Rightarrow> queue_ref \<Rightarrow> queues \<times> op_ref list \<Rightarrow> (queues \<times> op_ref list) option" where
  "ready_step now q s = (case s of (qs, ops) \<Rightarrow> map_option (\<lambda>(q', ops'). (qs(q := q'), ops')) (get_ready_timers now (qs q) ops))"

definition set_get_ready_timers ::
  "time_type \<Rightarrow> op_links \<Rightarrow> queue_ref option \<Rightarrow> queues \<Rightarrow> op_ref list \<Rightarrow> (queues \<times> op_ref list) option" where
  "set_get_ready_timers now nxt first qs ops =
     for_queues nxt first (ready_step now) (qs, ops)"

definition set_get_all_timers ::
  "op_links \<Rightarrow> queue_ref option \<Rightarrow> queues \<Rightarrow> op_ref list \<Rightarrow> (queues \<times> op_ref list) option" where
  "set_get_all_timers nxt first qs ops =
     for_queues nxt first (\<lambda>q (qs, ops). map_option (\<lambda>(q', ops'). (qs(q := q'), ops')) (get_all_timers (qs q) ops)) (qs, ops)"

text \<open>The set holds a list of queues (\<open>path\<close> of \<^verbatim>\<open>Op_Queue\<close>).\<close>

lemma set_insert_path:
  "path nxt first xs \<Longrightarrow> q \<notin> set xs \<Longrightarrow> set_insert nxt first q = (nxt', first') \<Longrightarrow> path nxt' first' (q # xs)"
  by (auto simp: set_insert_def)

lemma erase_loop_path:
  "path nxt (nxt p) xs \<Longrightarrow> distinct (p # xs) \<Longrightarrow> q \<noteq> p \<Longrightarrow>
   \<exists>nxt'. erase_loop nxt q p = Some nxt' \<and> path nxt' (nxt' p) (remove1 q xs) \<and> (\<forall>a. a \<notin> set (p # xs) \<longrightarrow> nxt' a = nxt a)"
proof (induction xs arbitrary: p)
  case Nil
  then show ?case by (subst erase_loop.simps) auto
next
  case (Cons x xs)
  show ?case
  proof (cases "x = q")
    case True
    then have "path (nxt(p := nxt q, q := None)) (nxt q) xs" using Cons.prems by simp
    then show ?thesis using Cons.prems True by (subst erase_loop.simps) auto
  next
    case False
    with Cons.IH [of x] Cons.prems obtain nxt' where n: "erase_loop nxt q x = Some nxt'" "path nxt' (nxt' x) (remove1 q xs)"
      "\<forall>a. a \<notin> set (x # xs) \<longrightarrow> nxt' a = nxt a" by auto
    then have "nxt' p = Some x" using Cons.prems by auto
    then show ?thesis using n False Cons.prems by (subst erase_loop.simps) auto
  qed
qed

lemma set_erase_path:
  assumes "path nxt first xs" and "distinct xs"
  shows "\<exists>nxt' first'. set_erase nxt first q = Some (nxt', first') \<and> path nxt' first' (remove1 q xs)"
proof (cases xs)
  case (Cons x ys)
  then have f: "first = Some x" "path nxt (nxt x) ys" using assms by auto
  show ?thesis
  proof (cases "q = x")
    case True
    then show ?thesis using f Cons assms(2) by (auto simp: set_erase_def)
  next
    case False
    with erase_loop_path [OF f(2)] Cons assms(2) obtain nxt' where "erase_loop nxt q x = Some nxt'" "path nxt' (nxt' x) (remove1 q ys)"
      by auto
    then show ?thesis using f(1) Cons False by (auto simp: set_erase_def)
  qed
qed (use assms in \<open>simp add: set_erase_def\<close>)

lemma for_queues_path:
  "path nxt p xs \<Longrightarrow> for_queues nxt p f s = fold (\<lambda>q r. Option.bind r (f q)) xs (Some s)"
proof (induction xs arbitrary: p s)
  case Nil
  then show ?case by (subst for_queues.simps) simp
next
  case (Cons x xs)
  have none: "fold (\<lambda>q r. Option.bind r (f q)) ys None = None" for ys by (induction ys) simp_all
  show ?case using Cons by (subst for_queues.simps) (auto simp: none split: option.splits)
qed

text \<open>The ready timers of all queues are taken, and every queue keeps its invariant.\<close>

lemma set_ready_ok:
  assumes "path nxt first xs" and "distinct xs" and "\<And>q. q \<in> set xs \<Longrightarrow> \<exists>ts. tq_ok (qs q) ts"
  shows "\<exists>qs' ops'. set_get_ready_timers now nxt first qs ops = Some (qs', ops') \<and>
    (\<forall>q \<in> set xs. (\<exists>ts. tq_ok (qs' q) ts) \<and> \<not> some_due (qs' q) now) \<and> (\<forall>q. q \<notin> set xs \<longrightarrow> qs' q = qs q)"
proof -
  have "\<exists>qs' ops'. fold (\<lambda>q r. Option.bind r (ready_step now q)) xs (Some (qs, ops)) = Some (qs', ops') \<and>
    (\<forall>q \<in> set xs. (\<exists>ts. tq_ok (qs' q) ts) \<and> \<not> some_due (qs' q) now) \<and> (\<forall>q. q \<notin> set xs \<longrightarrow> qs' q = qs q)"
    using assms(2,3)
  proof (induction xs arbitrary: qs ops)
    case (Cons x xs)
    obtain ts where ts: "tq_ok (qs x) ts" using Cons.prems(2) by auto
    obtain q1 rs where q1: "get_ready_timers now (qs x) ops = Some (q1, ops @ concat (map (timer_ops (qs x)) rs))"
      "taken_ready now (qs x) ts q1 rs" using get_ready_timers_ok [OF ts] by blast
    have ok1: "\<exists>ts. tq_ok q1 ts" "\<not> some_due q1 now"
      using q1(2) by (auto simp: taken_ready_def some_due_def restrict_map_def split: if_splits)
    let ?qs = "qs(x := q1)" and ?ops = "ops @ concat (map (timer_ops (qs x)) rs)"
    have all: "\<And>q. q \<in> set xs \<Longrightarrow> \<exists>ts. tq_ok (?qs q) ts" using Cons.prems by auto
    have "distinct xs" using Cons.prems(1) by simp
    from Cons.IH [where qs = ?qs and ops = ?ops, OF this all] obtain qs' ops' where
      r: "fold (\<lambda>q r. Option.bind r (ready_step now q)) xs (Some (?qs, ?ops)) = Some (qs', ops')"
      "\<forall>q \<in> set xs. (\<exists>ts. tq_ok (qs' q) ts) \<and> \<not> some_due (qs' q) now" "\<forall>q. q \<notin> set xs \<longrightarrow> qs' q = ?qs q" by blast
    have "qs' x = q1" using r(3) Cons.prems(1) by simp
    moreover have "ready_step now x (qs, ops) = Some (?qs, ?ops)" using q1(1) by (simp add: ready_step_def)
    ultimately show ?case using r ok1 by (intro exI [of _ qs'] exI [of _ ops']) (simp add: fold_simps)
  qed simp
  then show ?thesis by (simp add: set_get_ready_timers_def for_queues_path [OF assms(1)])
qed

text \<open>
  A due timer can be overlooked for a millisecond.  The loop over the queues hands the smallest waiting time so far to the next queue as its
  limit; when that is 0, because a timer of the first queue is due, and the first timer of the next queue has less than a
  millisecond left, the result is 1 although a timer is due and although it exceeds the limit.
\<close>

theorem due_queue_masked:
  assumes "path nxt first [a, b]" and "a \<noteq> b" and "tq_reachable pinf (qs a)" and "tq_reachable pinf (qs b)"
    and "times_in_range (qs a)" and "times_in_range (qs b)" and "in64 now" and "1 \<le> m"
    and "some_due (qs a) now" and "\<not> some_due (qs b) now" and "deadline (qs b) t = Some d" and "d < now + 1000000"
  shows "set_wait_duration_msec nano now nxt first qs m = Some (Inr 1)"
proof -
  obtain ta tb where ok: "tq_ok (qs a) ta" "tq_ok (qs b) tb" using assms(3,4) reachable_ok by blast
  have wa: "wait_duration_msec nano now (qs a) m = Inr 0" using wait_msec_sound [OF ok(1) assms(5,7,8)] assms(9) by auto
  have ne: "timer_heap (qs b) \<noteq> []" using assms(11) by (auto simp: deadline_def)
  let ?d = "fst (timer_heap (qs b) ! 0)"
  obtain t0 where t0: "deadline (qs b) t0 = Some ?d" using first_deadline(1) [OF ok(2) ne] by blast
  have le: "?d \<le> d" by (rule first_deadline(2) [OF ok(2) ne assms(11)])
  have gt: "now < ?d" using t0 assms(10) by (force simp: some_due_def)
  have "in64 ?d" using t0 assms(6) by (auto simp: times_in_range_def)
  then have s: "time_subtract ?d now = Inr (saturate (?d - now))" by (rule time_subtract_saturates) (rule assms(7))
  have p: "0 < saturate (?d - now)" "saturate (?d - now) < 1000000"
    using gt le assms(12) saturate_pos(1,3) [of "?d - now"] by auto
  have "wait_duration_msec nano now (qs b) 0 = Inr 1"
    using ne s p by (simp add: wait_duration_msec_def to_msec_def to_wait_duration_def nano_casts clipped_wait_def c_div_pos)
  then show ?thesis using wa by (simp add: set_wait_duration_msec_def for_queues_path [OF assms(1)])
qed

definition ex_later :: timer_queue where
  "ex_later = fst (enqueue_timer (\<lambda>_. False) ex_empty 20 1 10)"

theorem due_queue_masked_witness:
  "set_wait_duration_msec nano 12 ((\<lambda>_. None)(0 := Some 1)) (Some 0)
     ((\<lambda>_. ex_timers)(1 := ex_later)) 300000 = Some (Inr 1)"
proof -
  let ?qs = "(\<lambda>_ :: nat. ex_timers)(1 := ex_later)"
  have da: "deadline ex_timers = [1 \<mapsto> 20, 2 \<mapsto> 10]" by (simp add: deadline_def ex_timers_sel)
  have db: "deadline ex_later = [1 \<mapsto> 20]" by (simp add: ex_later_def deadline_def ex_simps)
  have r: "tq_reachable (\<lambda>_. False) (?qs 0)" "tq_reachable (\<lambda>_. False) (?qs 1)"
    using ex_timers_reachable tq_reachable.enqueue [OF ex_empty_reachable] by (simp_all add: ex_later_def ex_empty_def no_index_def)
  have i: "in64 12" "times_in_range (?qs 0)" "times_in_range (?qs 1)"
    by (auto simp: times_in_range_def da db in64_def int64_defs split: if_splits)
  have p: "path ((\<lambda>_. None)(0 := Some 1)) (Some 0) [0, 1]" by simp
  have "deadline ex_timers 2 = Some 10" by (simp add: da)
  then have "some_due ex_timers 12" unfolding some_due_def by force
  then have d: "some_due (?qs 0) 12" "\<not> some_due (?qs 1) 12" "deadline (?qs 1) 1 = Some 20"
    by (simp_all add: some_due_def [of ex_later] db)
  show ?thesis by (rule due_queue_masked [OF p _ r i(2,3,1) _ d]) simp_all
qed

end
