(* ===== verification/Hash_Map.thy ===== *)
theory Hash_Map
  imports Prelude
begin

text \<open>
  \<^verbatim>\<open>asio/detail/hash_map.hpp\<close>: the hash map of the reactors.  All entries are in one list, in which the entries of a
  bucket are adjacent; a bucket is the pair of iterators to its first and its last entry.  A list node is its
  address, an iterator is a node or \<open>None\<close> for the end of the list, and the contents of the nodes are one function.
  Erased nodes are kept in a second list and used again.  The hash of a key is a parameter; the two functions of the
  source are at the end of the model.
\<close>

section \<open>Lists and iterators\<close>

type_synonym hm_node = nat
type_synonym iterator = "hm_node option"

definition it_next :: "hm_node list \<Rightarrow> hm_node \<Rightarrow> iterator" where
  "it_next vs n = (case dropWhile (\<lambda>m. m \<noteq> n) vs of _ # m # _ \<Rightarrow> Some m | _ \<Rightarrow> None)"

definition it_prev :: "hm_node list \<Rightarrow> hm_node \<Rightarrow> iterator" where
  "it_prev vs n = it_next (rev vs) n"

definition insert_before :: "hm_node list \<Rightarrow> iterator \<Rightarrow> hm_node \<Rightarrow> hm_node list" where
  "insert_before vs it n =
     (case it of None \<Rightarrow> vs @ [n] | Some m \<Rightarrow> takeWhile (\<lambda>x. x \<noteq> m) vs @ n # dropWhile (\<lambda>x. x \<noteq> m) vs)"

section \<open>The map\<close>

type_synonym bucket_type = "iterator \<times> iterator"

record ('k, 'v) hash_map =
  hm_size :: nat
  hm_values :: "hm_node list"
  hm_spares :: "hm_node list"
  hm_buckets :: "bucket_type list"
  hm_num_buckets :: nat
  hm_at :: "hm_node \<Rightarrow> 'k \<times> 'v"
  hm_brk :: hm_node

definition hash_map_init :: "(hm_node \<Rightarrow> 'k \<times> 'v) \<Rightarrow> ('k, 'v) hash_map" where
  "hash_map_init mem = \<lparr>hm_size = 0, hm_values = [], hm_spares = [], hm_buckets = [], hm_num_buckets = 0, hm_at = mem, hm_brk = 0\<rparr>"

definition hm_empty :: "('k, 'v) hash_map \<Rightarrow> bool" where
  "hm_empty m \<longleftrightarrow> hm_values m = []"

definition bucket_of :: "('k \<Rightarrow> nat) \<Rightarrow> ('k, 'v) hash_map \<Rightarrow> 'k \<Rightarrow> nat" where
  "bucket_of hash m k = hash k mod hm_num_buckets m"

text \<open>The loop of \<open>find\<close> and \<open>insert\<close> from an iterator on, up to \<open>end_it\<close>; the list is what follows.  Running over the end is undefined.\<close>

fun scan :: "(hm_node \<Rightarrow> 'k \<times> 'v) \<Rightarrow> 'k \<Rightarrow> iterator \<Rightarrow> hm_node list \<Rightarrow> undefined_behaviour + iterator" where
  "scan mem k end_it [] = (if end_it = None then Inr None else Inl Dangling_iterator)"
| "scan mem k end_it (n # ns) =
     (if end_it = Some n then Inr None else if fst (mem n) = k then Inr (Some n) else scan mem k end_it ns)"

definition scan_bucket :: "('k, 'v) hash_map \<Rightarrow> 'k \<Rightarrow> hm_node \<Rightarrow> hm_node \<Rightarrow> undefined_behaviour + iterator" where
  "scan_bucket m k it lst =
     scan (hm_at m) k (it_next (hm_values m) lst) (dropWhile (\<lambda>x. x \<noteq> it) (hm_values m))"

definition hm_find :: "('k \<Rightarrow> nat) \<Rightarrow> ('k, 'v) hash_map \<Rightarrow> 'k \<Rightarrow> undefined_behaviour + iterator" where
  "hm_find hash m k =
     (if hm_num_buckets m \<noteq> 0 then
        (case hm_buckets m ! bucket_of hash m k of
           (None, _) \<Rightarrow> Inr None
         | (Some it, Some lst) \<Rightarrow> scan_bucket m k it lst
         | (Some it, None) \<Rightarrow> Inl Dangling_iterator)
      else Inr None)"

definition values_insert :: "('k, 'v) hash_map \<Rightarrow> iterator \<Rightarrow> 'k \<times> 'v \<Rightarrow> hm_node \<times> ('k, 'v) hash_map" where
  "values_insert m it v =
     (case hm_spares m of
        [] \<Rightarrow> (hm_brk m, m\<lparr>hm_values := insert_before (hm_values m) it (hm_brk m), hm_at := (hm_at m)(hm_brk m := v),
                          hm_brk := Suc (hm_brk m)\<rparr>)
      | n # ns \<Rightarrow> (n, m\<lparr>hm_spares := ns, hm_values := insert_before (hm_values m) it n, hm_at := (hm_at m)(n := v)\<rparr>))"

definition hash_sizes :: "nat list" where
  "hash_sizes = [3, 13, 23, 53, 97, 193, 389, 769, 1543, 3079, 6151, 12289, 24593, 49157, 98317, 196613, 393241, 786433,
     1572869, 3145739, 6291469, 12582917, 25165843]"

fun hash_size_loop :: "nat \<Rightarrow> nat list \<Rightarrow> nat" where
  "hash_size_loop num_elems [s] = s"
| "hash_size_loop num_elems (s # ss) = (if num_elems < s then s else hash_size_loop num_elems ss)"
| "hash_size_loop num_elems [] = 0"

definition hash_size :: "nat \<Rightarrow> nat" where
  "hash_size num_elems = hash_size_loop num_elems hash_sizes"

text \<open>
  The loop of \<open>rehash\<close>: the list is \<open>done @ rest\<close> and the iterator points to the head of \<open>rest\<close>.  When the
  incremented \<open>last\<close> of the bucket is not the iterator, the node is spliced before it and \<open>last\<close> decremented to the node.
\<close>

fun rehash_loop :: "('k \<Rightarrow> nat) \<Rightarrow> nat \<Rightarrow> (hm_node \<Rightarrow> 'k \<times> 'v) \<Rightarrow> hm_node list \<Rightarrow> hm_node list \<Rightarrow> bucket_type list \<Rightarrow> hm_node list \<times> bucket_type list" where
  "rehash_loop hash nb mem done [] bs = (done, bs)"
| "rehash_loop hash nb mem done (iter # rest) bs =
     (let b = hash (fst (mem iter)) mod nb in
      case bs ! b of
        (first, None) \<Rightarrow> rehash_loop hash nb mem (done @ [iter]) rest (bs[b := (Some iter, Some iter)])
      | (first, Some lst) \<Rightarrow>
          let lst' = it_next (done @ iter # rest) lst
          in if lst' = Some iter then rehash_loop hash nb mem (done @ [iter]) rest (bs[b := (first, lst')])
             else rehash_loop hash nb mem (insert_before done lst' iter) rest (bs[b := (first, Some iter)]))"

definition rehash :: "('k \<Rightarrow> nat) \<Rightarrow> nat \<Rightarrow> ('k, 'v) hash_map \<Rightarrow> ('k, 'v) hash_map" where
  "rehash hash num_buckets m =
     (if num_buckets = hm_num_buckets m then m
      else
        case rehash_loop hash num_buckets (hm_at m) [] (hm_values m) (replicate num_buckets (None, None)) of
          (vs, bs) \<Rightarrow> m\<lparr>hm_values := vs, hm_buckets := bs, hm_num_buckets := num_buckets\<rparr>)"

definition hm_insert :: "('k \<Rightarrow> nat) \<Rightarrow> ('k, 'v) hash_map \<Rightarrow> 'k \<times> 'v \<Rightarrow> undefined_behaviour + (hm_node \<times> bool \<times> ('k, 'v) hash_map)" where
  "hm_insert hash m0 v =
     (let m = (if hm_size m0 + 1 \<ge> hm_num_buckets m0 then rehash hash (hash_size (hm_size m0 + 1)) m0 else m0);
          b = bucket_of hash m (fst v)
      in case hm_buckets m ! b of
           (None, _) \<Rightarrow>
             (case values_insert m None v of
                (n, m') \<Rightarrow> Inr (n, True, m'\<lparr>hm_buckets := (hm_buckets m')[b := (Some n, Some n)], hm_size := hm_size m' + 1\<rparr>))
         | (Some it, None) \<Rightarrow> Inl Dangling_iterator
         | (Some it, Some lst) \<Rightarrow>
             (case scan_bucket m (fst v) it lst of
                Inl ub \<Rightarrow> Inl ub
              | Inr (Some n) \<Rightarrow> Inr (n, False, m)
              | Inr None \<Rightarrow>
                  (case values_insert m (it_next (hm_values m) lst) v of
                     (n, m') \<Rightarrow> Inr (n, True, m'\<lparr>hm_buckets := (hm_buckets m')[b := (Some it, Some n)], hm_size := hm_size m' + 1\<rparr>))))"

text \<open>\<open>dflt\<close> is the value-initialised entry that \<open>values_erase\<close> stores.\<close>

definition values_erase :: "'k \<times> 'v \<Rightarrow> ('k, 'v) hash_map \<Rightarrow> hm_node \<Rightarrow> ('k, 'v) hash_map" where
  "values_erase dflt m n =
     m\<lparr>hm_at := (hm_at m)(n := dflt), hm_values := remove1 n (hm_values m), hm_spares := n # hm_spares m\<rparr>"

definition hm_erase_it :: "('k \<Rightarrow> nat) \<Rightarrow> 'k \<times> 'v \<Rightarrow> ('k, 'v) hash_map \<Rightarrow> hm_node \<Rightarrow> ('k, 'v) hash_map" where
  "hm_erase_it hash dflt m it =
     (let b = bucket_of hash m (fst (hm_at m it));
          (first, lst) = hm_buckets m ! b;
          entry = (if first = Some it \<and> lst = Some it then (None, None)
                   else if first = Some it then (it_next (hm_values m) it, lst)
                   else if lst = Some it then (first, it_prev (hm_values m) it)
                   else (first, lst));
          m' = values_erase dflt (m\<lparr>hm_buckets := (hm_buckets m)[b := entry]\<rparr>) it
      in m'\<lparr>hm_size := hm_size m' - 1\<rparr>)"

definition hm_erase :: "('k \<Rightarrow> nat) \<Rightarrow> 'k \<times> 'v \<Rightarrow> ('k, 'v) hash_map \<Rightarrow> 'k \<Rightarrow> undefined_behaviour + ('k, 'v) hash_map" where
  "hm_erase hash dflt m k =
     (case hm_find hash m k of
        Inl ub \<Rightarrow> Inl ub
      | Inr None \<Rightarrow> Inr m
      | Inr (Some it) \<Rightarrow> Inr (hm_erase_it hash dflt m it))"

definition hm_clear :: "('k, 'v) hash_map \<Rightarrow> ('k, 'v) hash_map" where
  "hm_clear m = m\<lparr>hm_values := [], hm_size := 0, hm_buckets := replicate (hm_num_buckets m) (None, None)\<rparr>"

definition calculate_hash_value_int :: "32 word \<Rightarrow> nat" where
  "calculate_hash_value_int i = unat (scast i :: 64 word)"

definition calculate_hash_value_ptr :: "64 word \<Rightarrow> nat" where
  "calculate_hash_value_ptr p = unat (p + drop_bit 3 p)"

section \<open>Iterators into a split list\<close>

fun hd_opt :: "'a list \<Rightarrow> 'a option" where
  "hd_opt [] = None"
| "hd_opt (x # xs) = Some x"

lemma hd_opt_append: "hd_opt (xs @ ys) = (if xs = [] then hd_opt ys else Some (hd xs))"
  by (cases xs) auto

lemma dropWhile_at: "x \<notin> set pre \<Longrightarrow> dropWhile (\<lambda>m. m \<noteq> x) (pre @ x # post) = x # post"
  by (induction pre) auto

lemma takeWhile_at: "x \<notin> set pre \<Longrightarrow> takeWhile (\<lambda>m. m \<noteq> x) (pre @ x # post) = pre"
  by (induction pre) auto

lemma it_next_at: "x \<notin> set pre \<Longrightarrow> it_next (pre @ x # post) x = hd_opt post"
  by (cases post) (simp_all add: it_next_def dropWhile_at)

lemma it_prev_at: "x \<notin> set post \<Longrightarrow> it_prev (pre @ x # post) x = hd_opt (rev pre)"
  using it_next_at [of x "rev post" "rev pre"] by (simp add: it_prev_def)

lemma insert_before_at: "distinct (xs @ ys) \<Longrightarrow> insert_before (xs @ ys) (hd_opt ys) n = xs @ n # ys"
  by (cases ys) (simp_all add: insert_before_def dropWhile_at takeWhile_at)

lemma scan_block:
  "distinct (g @ post) \<Longrightarrow> scan mem k (hd_opt post) (g @ post) = Inr (find (\<lambda>n. fst (mem n) = k) g)"
proof (induction g)
  case Nil
  then show ?case by (cases post) auto
next
  case (Cons n g)
  have "hd_opt post \<noteq> Some n" using Cons.prems by (cases post) auto
  then show ?case using Cons by simp
qed

section \<open>Blocks\<close>

text \<open>
  The list is a sequence of blocks, one for each class of nodes that occurs, and a bucket has the first and the last
  node of its block.
\<close>

definition blocks :: "(hm_node \<Rightarrow> nat) \<Rightarrow> (nat \<times> hm_node list) list \<Rightarrow> bool" where
  "blocks cls gs \<longleftrightarrow> (\<forall>(c, g) \<in> set gs. g \<noteq> [] \<and> (\<forall>n \<in> set g. cls n = c)) \<and> distinct (map fst gs)
     \<and> distinct (concat (map snd gs))"

definition entry_of :: "hm_node list option \<Rightarrow> bucket_type" where
  "entry_of g = (case g of None \<Rightarrow> (None, None) | Some ns \<Rightarrow> (Some (hd ns), Some (last ns)))"

definition grouped :: "(hm_node \<Rightarrow> nat) \<Rightarrow> nat \<Rightarrow> hm_node list \<Rightarrow> bucket_type list \<Rightarrow> bool" where
  "grouped cls nb vs bs \<longleftrightarrow>
     (\<exists>gs. vs = concat (map snd gs) \<and> blocks cls gs \<and> length bs = nb \<and> (\<forall>b < nb. bs ! b = entry_of (map_of gs b)))"

lemma grouped_empty: "grouped cls nb [] (replicate nb (None, None))"
  by (auto simp: grouped_def blocks_def entry_of_def intro!: exI [of _ "[]"])

lemma grouped_distinct: "grouped cls nb vs bs \<Longrightarrow> distinct vs"
  by (auto simp: grouped_def blocks_def)

lemma grouped_cong:
  assumes "grouped cls nb vs bs" and same: "\<And>n. n \<in> set vs \<Longrightarrow> cls' n = cls n"
  shows "grouped cls' nb vs bs"
proof -
  obtain gs where gs: "vs = concat (map snd gs)" "blocks cls gs" "length bs = nb" "\<forall>b < nb. bs ! b = entry_of (map_of gs b)"
    using assms(1) by (auto simp: grouped_def)
  have "g \<noteq> [] \<and> (\<forall>n \<in> set g. cls' n = c)" if cg: "(c, g) \<in> set gs" for c g
  proof -
    have "g \<noteq> []" "\<forall>n \<in> set g. cls n = c" using gs(2) cg by (auto simp: blocks_def)
    moreover have "n \<in> set vs" if "n \<in> set g" for n using that cg gs(1) by force
    ultimately show ?thesis using same by simp
  qed
  then have "blocks cls' gs" using gs(2) by (auto simp: blocks_def)
  then show ?thesis using gs by (auto simp: grouped_def)
qed

lemma blocks_class:
  assumes "blocks cls gs" and "n \<in> set (concat (map snd gs))"
  obtains g where "map_of gs (cls n) = Some g" "n \<in> set g"
proof -
  obtain c g where "(c, g) \<in> set gs" "n \<in> set g" using assms(2) by auto
  moreover have "cls n = c" using assms(1) calculation by (fastforce simp: blocks_def)
  ultimately show thesis using that assms(1) by (auto simp: blocks_def)
qed

lemma grouped_no_class:
  assumes "grouped cls nb vs bs" and "b < nb" and "bs ! b = (None, l)" and "n \<in> set vs"
  shows "cls n \<noteq> b"
proof
  assume "cls n = b"
  obtain gs where gs: "vs = concat (map snd gs)" "blocks cls gs" "bs ! b = entry_of (map_of gs b)"
    using assms(1,2) by (auto simp: grouped_def)
  obtain g where "map_of gs b = Some g" using blocks_class [OF gs(2), of n] assms(4) gs(1) \<open>cls n = b\<close> by auto
  then show False using gs(3) assms(3) by (simp add: entry_of_def)
qed

lemma grouped_new:
  assumes "grouped cls nb vs bs" and "cls n < nb" and none: "bs ! cls n = (None, l)" and n: "n \<notin> set vs"
  shows "grouped cls nb (vs @ [n]) (bs[cls n := (Some n, Some n)])"
proof -
  obtain gs where gs: "vs = concat (map snd gs)" "blocks cls gs" "length bs = nb" "\<forall>b < nb. bs ! b = entry_of (map_of gs b)"
    using assms(1) by (auto simp: grouped_def)
  have free: "map_of gs (cls n) = None" using gs(4) assms(2) none by (auto simp: entry_of_def split: option.splits)
  let ?gs = "gs @ [(cls n, [n])]"
  have "cls n \<notin> fst ` set gs" using free by (simp add: map_of_eq_None_iff)
  then have "blocks cls ?gs" using gs(1,2) n by (auto simp: blocks_def)
  moreover have "bs[cls n := (Some n, Some n)] ! b = entry_of (map_of ?gs b)" if "b < nb" for b
    using gs(3,4) that free by (cases "b = cls n") (auto simp: entry_of_def map_add_def split: option.splits)
  ultimately show ?thesis using gs by (auto simp: grouped_def intro!: exI [of _ ?gs])
qed

text \<open>The block of a bucket, and the list with the block replaced.\<close>

lemma grouped_blockE:
  assumes "grouped cls nb vs bs" and "b < nb" and e: "bs ! b = (Some f, l)"
  obtains pre g post where "vs = pre @ g @ post" "g \<noteq> []" "f = hd g" "l = Some (last g)"
    "\<And>n. n \<in> set vs \<Longrightarrow> cls n = b \<longleftrightarrow> n \<in> set g"
    "\<And>g' e'. distinct (pre @ g' @ post) \<Longrightarrow> (\<forall>n \<in> set g'. cls n = b) \<Longrightarrow>
       e' = entry_of (if g' = [] then None else Some g') \<Longrightarrow> grouped cls nb (pre @ g' @ post) (bs[b := e'])"
proof -
  obtain gs where gs: "vs = concat (map snd gs)" "blocks cls gs" "length bs = nb" "\<forall>b < nb. bs ! b = entry_of (map_of gs b)"
    using assms(1) by (auto simp: grouped_def)
  then obtain g where g: "map_of gs b = Some g" "f = hd g" "l = Some (last g)"
    using assms(2) e by (auto simp: entry_of_def split: option.splits)
  obtain gs1 gs2 where s: "gs = gs1 @ (b, g) # gs2" using g(1) by (meson map_of_SomeD split_list)
  have g_ok: "g \<noteq> []" "\<forall>n \<in> set g. cls n = b" using gs(2) s by (auto simp: blocks_def)
  have cls: "cls n = b \<longleftrightarrow> n \<in> set g" if n: "n \<in> set vs" for n
    using blocks_class [OF gs(2), of n] n gs(1) g(1) g_ok(2) by (metis option.inject)
  have repl: "grouped cls nb (concat (map snd gs1) @ g' @ concat (map snd gs2)) (bs[b := e'])"
    if g': "distinct (concat (map snd gs1) @ g' @ concat (map snd gs2))" "\<forall>n \<in> set g'. cls n = b"
      "e' = entry_of (if g' = [] then None else Some g')" for g' e'
  proof -
    let ?gs = "gs1 @ (if g' = [] then [] else [(b, g')]) @ gs2"
    have "blocks cls ?gs" using gs(2) g'(1,2) s by (auto simp: blocks_def)
    moreover have none: "map_of gs1 b = None" "map_of gs2 b = None" using gs(2) s by (auto simp: blocks_def map_of_eq_None_iff)
    have "bs[b := e'] ! c = entry_of (map_of ?gs c)" if "c < nb" for c
    proof (cases "c = b")
      case True
      then show ?thesis using that gs(3) g'(3) none by (simp add: map_add_def)
    next
      case False
      then have "map_of ?gs c = map_of gs c" by (simp add: s map_add_def split: option.splits)
      then show ?thesis using False that gs(4) by simp
    qed
    ultimately show ?thesis using gs(3) by (auto simp: grouped_def intro!: exI [of _ ?gs])
  qed
  show thesis by (rule that [of "concat (map snd gs1)" g "concat (map snd gs2)"]) (use gs(1) s g g_ok cls repl in auto)
qed

section \<open>The invariant and the operations\<close>

abbreviation class_of :: "('k \<Rightarrow> nat) \<Rightarrow> nat \<Rightarrow> (hm_node \<Rightarrow> 'k \<times> 'v) \<Rightarrow> hm_node \<Rightarrow> nat" where
  "class_of hash nb mem n \<equiv> hash (fst (mem n)) mod nb"

definition hm_ok :: "('k \<Rightarrow> nat) \<Rightarrow> ('k, 'v) hash_map \<Rightarrow> bool" where
  "hm_ok hash m \<longleftrightarrow>
     grouped (class_of hash (hm_num_buckets m) (hm_at m)) (hm_num_buckets m) (hm_values m) (hm_buckets m)
     \<and> distinct (map (\<lambda>n. fst (hm_at m n)) (hm_values m)) \<and> hm_size m = length (hm_values m)
     \<and> distinct (hm_spares m) \<and> set (hm_spares m) \<inter> set (hm_values m) = {}
     \<and> (\<forall>n \<in> set (hm_spares m) \<union> set (hm_values m). n < hm_brk m)
     \<and> (hm_num_buckets m = 0 \<longrightarrow> hm_values m = [])"

text \<open>The map that is implemented.\<close>

definition hm_map :: "('k, 'v) hash_map \<Rightarrow> 'k \<rightharpoonup> 'v" where
  "hm_map m = map_of (map (hm_at m) (hm_values m))"

lemma rehash_loop_grouped:
  assumes "0 < nb"
  shows "grouped (class_of hash nb mem) nb done bs \<Longrightarrow> distinct (done @ rest) \<Longrightarrow> rehash_loop hash nb mem done rest bs = (vs, bs') \<Longrightarrow>
   grouped (class_of hash nb mem) nb vs bs' \<and> set vs = set (done @ rest) \<and> length vs = length (done @ rest)"
proof (induction rest arbitrary: "done" bs)
  case (Cons iter rest)
  let ?cls = "class_of hash nb mem"
  let ?b = "?cls iter"
  have b: "?b < nb" using assms by simp
  have fresh: "iter \<notin> set done" using Cons.prems(2) by simp
  have d: "distinct (done' @ rest)" if "set done' = insert iter (set done)" "distinct done'" for done'
    using that Cons.prems(2) by auto
  obtain f l where e: "bs ! ?b = (f, l)" by fastforce
  show ?case
  proof (cases f)
    case None
    then have l: "l = None" using Cons.prems(1) b e by (auto simp: grouped_def entry_of_def split: option.splits)
    have "rehash_loop hash nb mem (done @ [iter]) rest (bs[?b := (Some iter, Some iter)]) = (vs, bs')"
      using Cons.prems(3) e l by simp
    from Cons.IH [OF grouped_new [OF Cons.prems(1) b _ fresh] _ this] show ?thesis using e None Cons.prems(2) by auto
  next
    case (Some f')
    show ?thesis
    proof (rule grouped_blockE [OF Cons.prems(1) b, of f' l], goal_cases)
      case 1
      then show ?case using e Some by simp
    next
      case (2 pre g post)
      have dd: "distinct done" by (rule grouped_distinct [OF Cons.prems(1)])
      let ?done = "pre @ (g @ [iter]) @ post"
      have dist: "distinct ?done" using dd fresh 2(1) by auto
      have new: "grouped ?cls nb ?done (bs[?b := (f, Some iter)])"
        using 2(1,2,3,5) Some by (intro 2(6) [OF dist]) (auto simp: entry_of_def)
      obtain g0 where g0: "g = g0 @ [last g]" using 2(2) by (metis append_butlast_last_id)
      have "it_next (done @ iter # rest) (last g) = hd_opt (post @ iter # rest)"
      proof -
        have "done @ iter # rest = (pre @ g0) @ last g # (post @ iter # rest)" using 2(1) g0 by (metis append.assoc append_Cons append_Nil)
        moreover have "last g \<notin> set (pre @ g0)" using dd 2(1) g0 by (metis append.assoc disjoint_insert(2) distinct_append list.simps(15) not_distinct_conv_prefix)
        ultimately show ?thesis using it_next_at by metis
      qed
      then have "rehash_loop hash nb mem ?done rest (bs[?b := (f, Some iter)]) = (vs, bs')"
      proof (cases "post = []")
        case True
        then show ?thesis using Cons.prems(3) e 2(1,4) \<open>it_next _ _ = _\<close> by (simp add: Let_def)
      next
        case False
        then have "insert_before done (hd_opt post) iter = ?done" "hd_opt (post @ iter # rest) = hd_opt post" "hd_opt post \<noteq> Some iter"
          using insert_before_at [of "pre @ g" post iter] dd fresh 2(1) by (auto simp: neq_Nil_conv)
        then show ?thesis using Cons.prems(3) e 2(4) \<open>it_next _ _ = _\<close> by (simp add: Let_def)
      qed
      moreover have "distinct (?done @ rest)" using dist 2(1) by (intro d) auto
      ultimately show ?case using Cons.IH [OF new] 2(1) by auto
    qed
  qed
qed simp

lemma hm_okD:
  assumes "hm_ok hash m"
  shows "grouped (class_of hash (hm_num_buckets m) (hm_at m)) (hm_num_buckets m) (hm_values m) (hm_buckets m)"
    "distinct (map (\<lambda>n. fst (hm_at m n)) (hm_values m))" "hm_size m = length (hm_values m)" "distinct (hm_spares m)"
    "set (hm_spares m) \<inter> set (hm_values m) = {}" "\<And>n. n \<in> set (hm_spares m) \<union> set (hm_values m) \<Longrightarrow> n < hm_brk m"
    "hm_num_buckets m = 0 \<Longrightarrow> hm_values m = []" "distinct (hm_values m)"
  using assms grouped_distinct by (auto simp: hm_ok_def)

lemma hm_map_Some:
  assumes "distinct (map (\<lambda>n. fst (hm_at m n)) (hm_values m))"
  shows "hm_map m k = Some v \<longleftrightarrow> (\<exists>n \<in> set (hm_values m). hm_at m n = (k, v))"
  using assms by (auto simp: hm_map_def o_def image_iff) metis

lemma hm_map_eqI:
  assumes "distinct (map (\<lambda>n. fst (hm_at m n)) (hm_values m))"
    and "\<And>k v. f k = Some v \<longleftrightarrow> (\<exists>n \<in> set (hm_values m). hm_at m n = (k, v))"
  shows "hm_map m = f"
  using hm_map_Some [OF assms(1)] assms(2) by (intro ext) (metis option.exhaust)

lemma rehash_ok:
  assumes "hm_ok hash m" and "0 < nb"
  defines "m' \<equiv> rehash hash nb m"
  shows "hm_ok hash m'" "hm_map m' = hm_map m" "hm_num_buckets m' = nb" "hm_size m' = hm_size m"
    "hm_spares m' = hm_spares m" "hm_at m' = hm_at m" "set (hm_values m') = set (hm_values m)"
proof -
  note ok = hm_okD [OF assms(1)]
  have "hm_ok hash m' \<and> hm_map m' = hm_map m \<and> hm_num_buckets m' = nb \<and> hm_size m' = hm_size m
    \<and> hm_spares m' = hm_spares m \<and> hm_at m' = hm_at m \<and> set (hm_values m') = set (hm_values m)"
  proof (cases "nb = hm_num_buckets m")
    case True
    then show ?thesis using assms(1) by (simp add: m'_def rehash_def)
  next
    case False
    obtain vs bs where l: "rehash_loop hash nb (hm_at m) [] (hm_values m) (replicate nb (None, None)) = (vs, bs)" by fastforce
    have g: "grouped (class_of hash nb (hm_at m)) nb vs bs" "set vs = set (hm_values m)" "length vs = length (hm_values m)"
      using rehash_loop_grouped [OF assms(2) grouped_empty _ l] ok(8) by auto
    have m': "m' = m\<lparr>hm_values := vs, hm_buckets := bs, hm_num_buckets := nb\<rparr>" using False l by (simp add: m'_def rehash_def)
    have d: "distinct (map (\<lambda>n. fst (hm_at m n)) vs)" using grouped_distinct [OF g(1)] ok(2) g(2) by (simp add: distinct_map)
    have "hm_ok hash m'" using g d ok(3-6) assms(2) by (simp add: hm_ok_def m')
    moreover have "hm_map m' = hm_map m"
      using d g(2) hm_map_Some [OF ok(2)] by (intro hm_map_eqI) (simp_all add: m')
    ultimately show ?thesis using g by (simp add: m')
  qed
  then show "hm_ok hash m'" "hm_map m' = hm_map m" "hm_num_buckets m' = nb" "hm_size m' = hm_size m"
    "hm_spares m' = hm_spares m" "hm_at m' = hm_at m" "set (hm_values m') = set (hm_values m)" by simp_all
qed

lemma find_append_other:
  "(\<And>n. n \<in> set xs \<Longrightarrow> \<not> P n) \<Longrightarrow> find P (xs @ ys) = find P ys"
  "(\<And>n. n \<in> set ys \<Longrightarrow> \<not> P n) \<Longrightarrow> find P (xs @ ys) = find P xs"
  by (induction xs) (auto simp: find_None_iff)

lemma find_empty: "(\<And>n. n \<in> set xs \<Longrightarrow> \<not> P n) \<Longrightarrow> find P xs = None"
  by (auto simp: find_None_iff)

lemma scan_bucket_ok:
  assumes "hm_ok hash m" and "hm_num_buckets m \<noteq> 0" and "hm_buckets m ! bucket_of hash m k = (Some it, Some lst)"
  shows "scan_bucket m k it lst = Inr (find (\<lambda>n. fst (hm_at m n) = k) (hm_values m))"
proof -
  note ok = hm_okD [OF assms(1)]
  have b: "bucket_of hash m k < hm_num_buckets m" using assms(2) by (simp add: bucket_of_def)
  show ?thesis
  proof (rule grouped_blockE [OF ok(1) b assms(3)], goal_cases)
    case (1 pre g post)
    have v: "hm_values m = pre @ g @ post" "distinct (pre @ g @ post)" using 1(1) ok(8) by auto
    have other: "fst (hm_at m n) \<noteq> k" if "n \<in> set pre \<union> set post" for n
      using 1(5) [of n] that v by (auto simp: bucket_of_def)
    obtain g0 g1 where g: "g = g0 @ [lst]" "g = it # g1" using 1(2,3,4) by (metis append_butlast_last_id list.collapse option.inject)
    have "it_next (hm_values m) lst = hd_opt post"
      using it_next_at [of lst "pre @ g0" post] v g(1) by (metis append.assoc append_Cons append_Nil distinct_append not_distinct_conv_prefix)
    moreover have "dropWhile (\<lambda>x. x \<noteq> it) (hm_values m) = g @ post"
      using dropWhile_at [of it pre "g1 @ post"] v g(2) by simp
    ultimately have "scan_bucket m k it lst = Inr (find (\<lambda>n. fst (hm_at m n) = k) g)"
      using v(2) by (simp add: scan_bucket_def scan_block)
    then show ?case using other by (simp add: v(1) find_append_other)
  qed
qed

lemma bucket_entry_cases:
  assumes "hm_ok hash m" and "hm_num_buckets m \<noteq> 0"
  obtains "hm_buckets m ! bucket_of hash m k = (None, None)" "find (\<lambda>n. fst (hm_at m n) = k) (hm_values m) = None"
  | it lst where "hm_buckets m ! bucket_of hash m k = (Some it, Some lst)"
proof -
  note ok = hm_okD [OF assms(1)]
  have b: "bucket_of hash m k < hm_num_buckets m" using assms(2) by (simp add: bucket_of_def)
  obtain f l where e: "hm_buckets m ! bucket_of hash m k = (f, l)" by fastforce
  show thesis
  proof (cases f)
    case None
    then have "l = None" using ok(1) b e by (auto simp: grouped_def entry_of_def split: option.splits)
    moreover have "find (\<lambda>n. fst (hm_at m n) = k) (hm_values m) = None"
      using grouped_no_class [OF ok(1) b] e None by (intro find_empty) (auto simp: bucket_of_def)
    ultimately show thesis using that(1) e None by simp
  next
    case (Some f')
    then obtain l' where "l = Some l'" using grouped_blockE [OF ok(1) b, of f' l] e by auto
    then show thesis using that(2) e Some by simp
  qed
qed

lemma hm_find_ok: "hm_ok hash m \<Longrightarrow> hm_find hash m k = Inr (find (\<lambda>n. fst (hm_at m n) = k) (hm_values m))"
proof (cases "hm_num_buckets m = 0")
  case True
  then show "hm_ok hash m \<Longrightarrow> ?thesis" using hm_okD(7) [of hash m] by (simp add: hm_find_def)
next
  case False
  assume ok: "hm_ok hash m"
  show ?thesis
    by (rule bucket_entry_cases [OF ok False, of k]) (use scan_bucket_ok [OF ok False] in \<open>simp_all add: hm_find_def False\<close>)
qed


lemma find_key:
  assumes "hm_ok hash m"
  shows "find (\<lambda>n. fst (hm_at m n) = k) (hm_values m) = None \<longleftrightarrow> hm_map m k = None"
    "find (\<lambda>n. fst (hm_at m n) = k) (hm_values m) = Some n \<Longrightarrow> n \<in> set (hm_values m) \<and> hm_at m n = (k, the (hm_map m k))"
proof -
  note some = hm_map_Some [OF hm_okD(2) [OF assms]]
  show "find (\<lambda>n. fst (hm_at m n) = k) (hm_values m) = None \<longleftrightarrow> hm_map m k = None"
    using some [of k] by (auto simp: find_None_iff) (metis option.exhaust fst_conv, metis prod.collapse)
  assume "find (\<lambda>n. fst (hm_at m n) = k) (hm_values m) = Some n"
  then have n: "n \<in> set (hm_values m)" "fst (hm_at m n) = k" by (auto simp: find_Some_iff)
  then have "hm_map m k = Some (snd (hm_at m n))" using some by (metis prod.collapse)
  then show "n \<in> set (hm_values m) \<and> hm_at m n = (k, the (hm_map m k))" using n by (simp add: prod_eq_iff)
qed

lemma values_insert_ok:
  assumes "hm_ok hash m" and "values_insert m it v = (n, m1)"
  shows "n \<notin> set (hm_values m)" "hm_values m1 = insert_before (hm_values m) it n" "hm_at m1 = (hm_at m)(n := v)"
    "hm_buckets m1 = hm_buckets m" "hm_num_buckets m1 = hm_num_buckets m" "hm_size m1 = hm_size m"
    "distinct (hm_spares m1)" "set (hm_spares m1) \<inter> insert n (set (hm_values m)) = {}"
    "\<And>x. x \<in> set (hm_spares m1) \<union> insert n (set (hm_values m)) \<Longrightarrow> x < hm_brk m1"
  using assms(2) hm_okD(4,5,6) [OF assms(1)]
  by (auto simp: values_insert_def split: list.splits) (blast | fastforce simp: less_Suc_eq)+

lemma insert_node_ok:
  assumes ok: "hm_ok hash m" and new: "hm_map m k = None" and ins: "values_insert m it (k, v) = (n, m1)"
    and nb: "hm_num_buckets m \<noteq> 0"
    and g: "grouped (class_of hash (hm_num_buckets m) ((hm_at m)(n := (k, v)))) (hm_num_buckets m) (hm_values m1) bs"
    and vs: "set (hm_values m1) = insert n (set (hm_values m))" "length (hm_values m1) = Suc (length (hm_values m))"
  defines "m' \<equiv> m1\<lparr>hm_buckets := bs, hm_size := hm_size m1 + 1\<rparr>"
  shows "hm_ok hash m' \<and> hm_map m' = (hm_map m)(k \<mapsto> v) \<and> n \<in> set (hm_values m') \<and> hm_at m' n = (k, v)"
proof -
  note ok' = hm_okD [OF ok] and i = values_insert_ok [OF ok ins] and some = hm_map_Some [OF hm_okD(2) [OF ok]]
  have other: "fst (hm_at m x) \<noteq> k" if "x \<in> set (hm_values m)" for x
    using some [of k] new that by (metis option.distinct(1) prod.collapse)
  have d: "distinct (map (\<lambda>x. fst (hm_at m' x)) (hm_values m'))"
    using grouped_distinct [OF g] ok'(2,8) other i(1,3) vs(1) by (auto simp: m'_def distinct_map inj_on_def)
  have "hm_ok hash m'" using g d i(3,5-9) vs ok'(3) nb by (auto simp: hm_ok_def m'_def)
  moreover have "hm_map m' = (hm_map m)(k \<mapsto> v)"
  proof (rule hm_map_eqI [OF d])
    fix k' v'
    show "((hm_map m)(k \<mapsto> v)) k' = Some v' \<longleftrightarrow> (\<exists>x \<in> set (hm_values m'). hm_at m' x = (k', v'))"
    proof (cases "k' = k")
      case True
      then show ?thesis using other i(1,3) vs(1) by (auto simp: m'_def; metis fst_conv)
    next
      case False
      have "hm_at m1 x = hm_at m x" if "x \<in> set (hm_values m)" for x using that i(1,3) by auto
      then show ?thesis using False some [of k' v'] i(3) vs(1) by (simp add: m'_def)
    qed
  qed
  ultimately show ?thesis using i(3) vs(1) by (simp add: m'_def)
qed

lemma hash_size_pos: "0 < hash_size n"
  by (simp add: hash_size_def hash_sizes_def)

lemma hm_grow_ok:
  assumes "hm_ok hash m0"
  defines "m \<equiv> (if hm_size m0 + 1 \<ge> hm_num_buckets m0 then rehash hash (hash_size (hm_size m0 + 1)) m0 else m0)"
  shows "hm_ok hash m" "hm_map m = hm_map m0" "hm_num_buckets m \<noteq> 0"
  using rehash_ok [OF assms(1) hash_size_pos] hash_size_pos [of "hm_size m0 + 1"] assms(1) by (auto simp: m_def)

lemma hm_insert_ok:
  assumes "hm_ok hash m0"
  shows "\<exists>n m'. hm_insert hash m0 (k, v) = Inr (n, hm_map m0 k = None, m') \<and> hm_ok hash m'
    \<and> hm_map m' = (if hm_map m0 k = None then (hm_map m0)(k \<mapsto> v) else hm_map m0)
    \<and> n \<in> set (hm_values m') \<and> hm_at m' n = (k, the (hm_map m' k))"
proof -
  define m where "m = (if hm_size m0 + 1 \<ge> hm_num_buckets m0 then rehash hash (hash_size (hm_size m0 + 1)) m0 else m0)"
  note ok = hm_grow_ok [OF assms, folded m_def] and ok' = hm_okD [OF hm_grow_ok(1) [OF assms, folded m_def]]
  let ?b = "bucket_of hash m k" and ?nb = "hm_num_buckets m"
  have b: "?b < ?nb" using ok(3) by (simp add: bucket_of_def)
  have ins: "hm_insert hash m0 (k, v) = (case hm_buckets m ! ?b of
           (None, _) \<Rightarrow>
             (case values_insert m None (k, v) of
                (n, m') \<Rightarrow> Inr (n, True, m'\<lparr>hm_buckets := (hm_buckets m')[?b := (Some n, Some n)], hm_size := hm_size m' + 1\<rparr>))
         | (Some it, None) \<Rightarrow> Inl Dangling_iterator
         | (Some it, Some lst) \<Rightarrow>
             (case scan_bucket m k it lst of
                Inl ub \<Rightarrow> Inl ub
              | Inr (Some n) \<Rightarrow> Inr (n, False, m)
              | Inr None \<Rightarrow>
                  (case values_insert m (it_next (hm_values m) lst) (k, v) of
                     (n, m') \<Rightarrow> Inr (n, True, m'\<lparr>hm_buckets := (hm_buckets m')[?b := (Some it, Some n)], hm_size := hm_size m' + 1\<rparr>))))"
    unfolding hm_insert_def Let_def m_def [symmetric] fst_conv by (rule refl)
  let ?cls = "\<lambda>n. class_of hash ?nb ((hm_at m)(n := (k, v)))"
  have g: "grouped (?cls n) ?nb (hm_values m) (hm_buckets m)" if "n \<notin> set (hm_values m)" for n
    using that by (intro grouped_cong [OF ok'(1)]) auto
  have cls_n: "?cls n n = ?b" for n by (simp add: bucket_of_def)
  show ?thesis
  proof (rule bucket_entry_cases [OF ok(1,3), of k])
    assume e: "hm_buckets m ! ?b = (None, None)" "find (\<lambda>n. fst (hm_at m n) = k) (hm_values m) = None"
    then have new: "hm_map m k = None" using find_key(1) [OF ok(1)] by simp
    obtain n m1 where i: "values_insert m None (k, v) = (n, m1)" by fastforce
    note i' = values_insert_ok [OF ok(1) i]
    have "grouped (?cls n) ?nb (hm_values m @ [n]) ((hm_buckets m)[?b := (Some n, Some n)])"
      using grouped_new [OF g [OF i'(1)] _ _ i'(1)] b e(1) cls_n [of n] by simp
    then have "grouped (?cls n) ?nb (hm_values m1) ((hm_buckets m1)[?b := (Some n, Some n)])"
      using i'(2,4) by (simp add: insert_before_def)
    from insert_node_ok [OF ok(1) new i ok(3) this] show ?thesis
      using i i'(2,4) e(1) new ok(2) by (simp add: ins insert_before_def)
  next
    fix it lst
    assume e: "hm_buckets m ! ?b = (Some it, Some lst)"
    note sc = scan_bucket_ok [OF ok(1,3) e]
    show ?thesis
    proof (cases "find (\<lambda>n. fst (hm_at m n) = k) (hm_values m)")
      case (Some n)
      moreover have "hm_map m k \<noteq> None" using Some find_key(1) [OF ok(1), of k] by simp
      ultimately show ?thesis using find_key(2) [OF ok(1), of k n] ok(1,2) e sc by (auto simp: ins)
    next
      case None
      then have new: "hm_map m k = None" using find_key(1) [OF ok(1)] by simp
      obtain n m1 where i: "values_insert m (it_next (hm_values m) lst) (k, v) = (n, m1)" by fastforce
      note i' = values_insert_ok [OF ok(1) i]
      show ?thesis
      proof (rule grouped_blockE [OF g [OF i'(1)] b e], goal_cases)
        case (1 pre h post)
        have d: "distinct (pre @ h @ post)" using 1(1) ok'(8) by simp
        obtain h0 where h0: "h = h0 @ [lst]" using 1(2,4) by (metis append_butlast_last_id option.inject)
        have "it_next (hm_values m) lst = hd_opt post"
          using it_next_at [of lst "pre @ h0" post] d 1(1) h0 by simp
        then have v: "hm_values m1 = pre @ (h @ [n]) @ post"
          using i'(2) insert_before_at [of "pre @ h" post n] d 1(1) by simp
        have "grouped (?cls n) ?nb (pre @ (h @ [n]) @ post) ((hm_buckets m)[?b := (Some it, Some n)])"
          using 1(1,2,3,5) d i'(1) cls_n [of n] by (intro 1(6)) (auto simp: entry_of_def)
        then have "grouped (?cls n) ?nb (hm_values m1) ((hm_buckets m1)[?b := (Some it, Some n)])" using v i'(4) by simp
        from insert_node_ok [OF ok(1) new i ok(3) this] show ?case
          using i i'(4) e new ok(2) sc None v 1(1) by (simp add: ins insert_absorb insert_commute)
      qed
    qed
  qed
qed


lemma hm_erase_it_ok:
  assumes ok: "hm_ok hash m" and n: "n \<in> set (hm_values m)" and k: "hm_at m n = (k, v)"
  shows "hm_ok hash (hm_erase_it hash dflt m n)" "hm_map (hm_erase_it hash dflt m n) = (hm_map m)(k := None)"
proof -
  note ok' = hm_okD [OF ok] and some = hm_map_Some [OF hm_okD(2) [OF ok]]
  let ?nb = "hm_num_buckets m" and ?b = "bucket_of hash m k" and ?vs = "remove1 n (hm_values m)"
  have nb: "?nb \<noteq> 0" using ok'(7) n by (metis empty_iff list.set(1))
  then have b: "?b < ?nb" by (simp add: bucket_of_def)
  obtain first lst where e: "hm_buckets m ! ?b = (first, lst)" by fastforce
  obtain f where f: "first = Some f"
    using grouped_no_class [OF ok'(1) b _ n] e k by (cases first) (auto simp: bucket_of_def)
  define entry where "entry = (if first = Some n \<and> lst = Some n then (None, None)
                   else if first = Some n then (it_next (hm_values m) n, lst)
                   else if lst = Some n then (first, it_prev (hm_values m) n)
                   else (first, lst))"
  have g: "grouped (class_of hash ?nb (hm_at m)) ?nb ?vs ((hm_buckets m)[?b := entry])"
  proof (rule grouped_blockE [OF ok'(1) b, of f lst], goal_cases)
    case 1
    then show ?case using e f by simp
  next
    case (2 pre h post)
    have "n \<in> set h" using 2(5) [OF n] k by (simp add: bucket_of_def)
    then obtain h1 h2 where h: "h = h1 @ n # h2" by (meson split_list)
    have d: "distinct (pre @ h @ post)" using 2(1) ok'(8) by simp
    have vs: "?vs = pre @ (h1 @ h2) @ post" using d 2(1) h by (simp add: remove1_append)
    have "it_next (hm_values m) n = hd_opt (h2 @ post)" using it_next_at [of n "pre @ h1" "h2 @ post"] d 2(1) h by simp
    moreover have "it_prev (hm_values m) n = hd_opt (rev h1 @ rev pre)" using it_prev_at [of n "h2 @ post" "pre @ h1"] d 2(1) h by simp
    moreover have "first = Some n \<longleftrightarrow> h1 = []" using 2(3) f h d by (cases h1) auto
    moreover have "lst = Some n \<longleftrightarrow> h2 = []" using 2(4) h d by (cases h2 rule: rev_cases) auto
    ultimately have "entry = entry_of (if h1 @ h2 = [] then None else Some (h1 @ h2))"
      using 2(3,4) f h by (auto simp: entry_def entry_of_def hd_opt_append hd_rev last_append)
    moreover have "distinct (pre @ (h1 @ h2) @ post)" "\<forall>x \<in> set (h1 @ h2). class_of hash ?nb (hm_at m) x = ?b"
      using 2(5) h d 2(1) by auto
    ultimately show ?case using 2(6) [of "h1 @ h2" entry] by (simp only: vs)
  qed
  have m': "hm_erase_it hash dflt m n = m\<lparr>hm_buckets := (hm_buckets m)[?b := entry], hm_at := (hm_at m)(n := dflt),
      hm_values := ?vs, hm_spares := n # hm_spares m, hm_size := hm_size m - 1\<rparr>"
    using e k by (simp add: hm_erase_it_def values_erase_def entry_def Let_def)
  have sub: "set ?vs = set (hm_values m) - {n}" using ok'(8) by simp
  have d: "distinct (map (\<lambda>x. fst (((hm_at m)(n := dflt)) x)) ?vs)"
    using ok'(2,8) sub by (auto simp: distinct_map inj_on_def)
  have "grouped (class_of hash ?nb ((hm_at m)(n := dflt))) ?nb ?vs ((hm_buckets m)[?b := entry])"
    using sub by (intro grouped_cong [OF g]) auto
  then show "hm_ok hash (hm_erase_it hash dflt m n)"
    using d n ok'(3-6) sub nb by (auto simp: hm_ok_def m' length_remove1)
  have key: "x = n" if "x \<in> set (hm_values m)" "fst (hm_at m x) = k" for x
    using that n k ok'(2) by (auto simp: distinct_map inj_on_def)
  show "hm_map (hm_erase_it hash dflt m n) = (hm_map m)(k := None)"
  proof (rule hm_map_eqI)
    show "distinct (map (\<lambda>x. fst (hm_at (hm_erase_it hash dflt m n) x)) (hm_values (hm_erase_it hash dflt m n)))"
      using d by (simp add: m')
    fix k' v'
    show "((hm_map m)(k := None)) k' = Some v' \<longleftrightarrow>
        (\<exists>x \<in> set (hm_values (hm_erase_it hash dflt m n)). hm_at (hm_erase_it hash dflt m n) x = (k', v'))"
    proof (cases "k' = k")
      case True
      then show ?thesis using key by (auto simp: m' sub)
    next
      case False
      then show ?thesis using some [of k' v'] k by (auto simp: m' sub)
    qed
  qed
qed

lemma hm_erase_ok:
  assumes "hm_ok hash m"
  shows "\<exists>m'. hm_erase hash dflt m k = Inr m' \<and> hm_ok hash m' \<and> hm_map m' = (hm_map m)(k := None)"
proof (cases "find (\<lambda>n. fst (hm_at m n) = k) (hm_values m)")
  case None
  then have "(hm_map m)(k := None) = hm_map m" using find_key(1) [OF assms, of k] by auto
  then show ?thesis using None assms by (simp add: hm_erase_def hm_find_ok)
next
  case (Some n)
  then show ?thesis using find_key(2) [OF assms Some] hm_erase_it_ok [OF assms, of n k] assms
    by (simp add: hm_erase_def hm_find_ok)
qed

lemma hm_clear_ok:
  assumes "hm_ok hash m"
  shows "hm_ok hash (hm_clear m)" "hm_map (hm_clear m) = Map.empty"
  using hm_okD(4,6) [OF assms] by (auto simp: hm_ok_def hm_clear_def hm_map_def grouped_empty)

lemma hash_map_init_ok: "hm_ok hash (hash_map_init mem)" "hm_map (hash_map_init mem) = Map.empty"
  using grouped_empty [of _ 0] by (auto simp: hm_ok_def hash_map_init_def hm_map_def)


section \<open>The map refines a partial function\<close>

datatype ('k, 'v) hm_call = Call_find 'k | Call_insert 'k 'v | Call_erase 'k | Call_clear
datatype 'v hm_result = Found "'v option" | Inserted bool | Finished

definition hm_call :: "('k \<Rightarrow> nat) \<Rightarrow> 'k \<times> 'v \<Rightarrow> ('k, 'v) hm_call \<Rightarrow> ('k, 'v) hash_map \<Rightarrow> undefined_behaviour + ('v hm_result \<times> ('k, 'v) hash_map)" where
  "hm_call hash dflt c m =
     (case c of
        Call_find k \<Rightarrow> map_sum id (\<lambda>it. (Found (map_option (\<lambda>n. snd (hm_at m n)) it), m)) (hm_find hash m k)
      | Call_insert k v \<Rightarrow> map_sum id (\<lambda>(n, b, m'). (Inserted b, m')) (hm_insert hash m (k, v))
      | Call_erase k \<Rightarrow> map_sum id (\<lambda>m'. (Finished, m')) (hm_erase hash dflt m k)
      | Call_clear \<Rightarrow> Inr (Finished, hm_clear m))"

definition map_call :: "('k, 'v) hm_call \<Rightarrow> ('k \<rightharpoonup> 'v) \<Rightarrow> 'v hm_result \<times> ('k \<rightharpoonup> 'v)" where
  "map_call c f =
     (case c of
        Call_find k \<Rightarrow> (Found (f k), f)
      | Call_insert k v \<Rightarrow> (Inserted (f k = None), if f k = None then f(k \<mapsto> v) else f)
      | Call_erase k \<Rightarrow> (Finished, f(k := None))
      | Call_clear \<Rightarrow> (Finished, Map.empty))"

fun hm_calls :: "('k \<Rightarrow> nat) \<Rightarrow> 'k \<times> 'v \<Rightarrow> ('k, 'v) hm_call list \<Rightarrow> ('k, 'v) hash_map \<Rightarrow> undefined_behaviour + ('v hm_result list \<times> ('k, 'v) hash_map)" where
  "hm_calls hash dflt [] m = Inr ([], m)"
| "hm_calls hash dflt (c # cs) m =
     (case hm_call hash dflt c m of
        Inl ub \<Rightarrow> Inl ub
      | Inr (r, m') \<Rightarrow> map_sum id (\<lambda>(rs, m''). (r # rs, m'')) (hm_calls hash dflt cs m'))"

fun map_calls :: "('k, 'v) hm_call list \<Rightarrow> ('k \<rightharpoonup> 'v) \<Rightarrow> 'v hm_result list \<times> ('k \<rightharpoonup> 'v)" where
  "map_calls [] f = ([], f)"
| "map_calls (c # cs) f = (case map_call c f of (r, f') \<Rightarrow> case map_calls cs f' of (rs, f'') \<Rightarrow> (r # rs, f''))"

lemma hm_call_refines:
  assumes "hm_ok hash m"
  obtains m' where "hm_call hash dflt c m = Inr (fst (map_call c (hm_map m)), m')" "hm_ok hash m'" "hm_map m' = snd (map_call c (hm_map m))"
proof (cases c)
  case (Call_find k)
  have "map_option (\<lambda>n. snd (hm_at m n)) (find (\<lambda>n. fst (hm_at m n) = k) (hm_values m)) = hm_map m k"
    using find_key [OF assms, of k] by (cases "find (\<lambda>n. fst (hm_at m n) = k) (hm_values m)") auto
  then show thesis using that [of m] assms Call_find by (simp add: hm_call_def map_call_def hm_find_ok)
next
  case (Call_insert k v)
  then show thesis using hm_insert_ok [OF assms, of k v] that by (fastforce simp: hm_call_def map_call_def)
next
  case (Call_erase k)
  then show thesis using hm_erase_ok [OF assms, of dflt k] that by (fastforce simp: hm_call_def map_call_def)
next
  case Call_clear
  then show thesis using hm_clear_ok [OF assms] that by (simp add: hm_call_def map_call_def)
qed

lemma hm_calls_refine:
  "hm_ok hash m \<Longrightarrow> \<exists>m'. hm_calls hash dflt cs m = Inr (fst (map_calls cs (hm_map m)), m') \<and> hm_ok hash m'
     \<and> hm_map m' = snd (map_calls cs (hm_map m))"
proof (induction cs arbitrary: m)
  case (Cons c cs)
  obtain m' where m': "hm_call hash dflt c m = Inr (fst (map_call c (hm_map m)), m')" "hm_ok hash m'" "hm_map m' = snd (map_call c (hm_map m))"
    by (rule hm_call_refines [OF Cons.prems])
  then show ?case using Cons.IH [OF m'(2)] by (auto simp: split_beta)
qed simp

text \<open>
  C38: Any sequence of finds, insertions, erasures and clears on a fresh hash map, for any hash function, runs without
  an invalid iterator being used, answers every call as a partial function from keys to values would, and ends with
  the entries of that partial function: the buckets, the order of the list, the rehashing and the reuse of erased nodes are not visible.
\<close>

theorem hash_map_refines:
  "\<exists>m. hm_calls hash dflt cs (hash_map_init mem) = Inr (fst (map_calls cs Map.empty), m) \<and> hm_ok hash m
     \<and> hm_map m = snd (map_calls cs Map.empty) \<and> (hm_empty m \<longleftrightarrow> snd (map_calls cs Map.empty) = Map.empty)"
proof -
  obtain m where m: "hm_calls hash dflt cs (hash_map_init mem) = Inr (fst (map_calls cs Map.empty), m)" "hm_ok hash m"
    "hm_map m = snd (map_calls cs Map.empty)"
    using hm_calls_refine [OF hash_map_init_ok(1), of hash dflt cs mem] by (auto simp: hash_map_init_ok(2))
  moreover have "hm_empty m \<longleftrightarrow> hm_map m = Map.empty" by (auto simp: hm_empty_def hm_map_def)
  ultimately show ?thesis by auto
qed

end
