(* ===== verification/Asio_Scheduler.thy ===== *)
theory Asio_Scheduler
  imports Prelude
begin

text \<open>
  The scheduler behind \<^verbatim>\<open>io_context\<close>: \<^verbatim>\<open>asio/detail/scheduler.hpp\<close>, \<^verbatim>\<open>impl/scheduler.ipp\<close> and
  the event of \<^verbatim>\<open>posix_event.hpp\<close> on which idle threads sleep, with the mutex enabled.  Any number of threads call the run functions and post
  operations.  A critical section of the mutex is one step; every access outside of it (the atomic count
  of outstanding work, \<^verbatim>\<open>pthread_cond_signal\<close> after the unlock, handlers and the task) is a step of its own.  Operations
  are numbers; the queue is a list, which is what \<^verbatim>\<open>op_queue\<close> implements.  The task (the reactor) and the handlers are parameters: they may return
  at any time, with any completed operations, and call any operation of the scheduler, except that a thread does not
  enter a run function again from within a handler.
\<close>

unbundle bit_operations_syntax

section \<open>The event\<close>

text \<open>Bit 0 of \<^verbatim>\<open>state_\<close> says that the event is signalled, the rest is twice the number of waiters.\<close>

definition signal_all :: "nat \<Rightarrow> nat" where
  "signal_all st = st OR 1"

definition unlock_and_signal_one :: "nat \<Rightarrow> nat \<times> bool" where
  "unlock_and_signal_one st = (let st' = st OR 1 in (st', st' > 1))"

definition maybe_unlock_and_signal_one :: "nat \<Rightarrow> nat \<times> bool" where
  "maybe_unlock_and_signal_one st = (let st' = st OR 1 in if st' > 1 then (st', True) else (st', False))"

definition event_clear :: "nat \<Rightarrow> nat" where
  "event_clear st = unset_bit 0 st"

definition event_signalled :: "nat \<Rightarrow> bool" where
  "event_signalled st \<longleftrightarrow> st AND 1 \<noteq> 0"

definition event_begin_wait :: "nat \<Rightarrow> nat" where
  "event_begin_wait st = st + 2"

definition event_end_wait :: "nat \<Rightarrow> nat" where
  "event_end_wait st = st - 2"

section \<open>State\<close>

datatype sched_op = Task_op | Op nat

record Scheduler =
  one_thread :: bool
  event_state :: nat
  has_task :: bool
  task_interrupted :: bool
  outstanding_work :: int
  sched_queue :: "sched_op list"
  sched_stopped :: bool
  sched_shutdown :: bool

definition Scheduler_init :: "bool \<Rightarrow> Scheduler" where
  "Scheduler_init one =
     \<lparr>one_thread = one, event_state = 0, has_task = False, task_interrupted = True, outstanding_work = 0,
      sched_queue = [], sched_stopped = False, sched_shutdown = False\<rparr>"

text \<open>
  What a thread has still to do of a call before it goes on: a locked push of operations, a \<^verbatim>\<open>pthread_cond_signal\<close>
  after the unlock, a call of \<^verbatim>\<open>stop\<close>.
\<close>

datatype action = Push "nat list" | Signal | Stop

datatype run_mode = Run | Run_one | Wait_one int | Poll | Poll_one

text \<open>
  \<open>At_loop\<close>: about to lock the mutex for the next \<^verbatim>\<open>do_run_one\<close>.  \<open>Cond_wait\<close>: blocked in \<^verbatim>\<open>pthread_cond_wait\<close>.
  \<open>Cond_woken\<close>: woken, about to have the mutex again.  \<open>In_task\<close>: in \<^verbatim>\<open>task_->run\<close> with that timeout.  \<open>Task_done\<close> and
  \<open>Handler_done\<close>: in the destructor of \<^verbatim>\<open>task_cleanup\<close> or \<^verbatim>\<open>work_cleanup\<close>, the work counted, about to lock the mutex; the
  flag says that an exception is on its way.
\<close>

datatype phase = Outside | At_loop | Cond_wait | Cond_woken | In_task int | Task_done bool | In_handler nat | Handler_done bool

record Thread =
  th_mode :: run_mode
  th_phase :: phase
  th_todo :: "action list"
  private_op_queue :: "nat list"
  private_outstanding_work :: int
  th_count :: uint64_t

definition Thread_init :: Thread where
  "Thread_init = \<lparr>th_mode = Run, th_phase = Outside, th_todo = [], private_op_queue = [], private_outstanding_work = 0, th_count = 0\<rparr>"

text \<open>\<^verbatim>\<open>thread_call_stack::contains(this)\<close>.\<close>

definition inside :: "Thread \<Rightarrow> bool" where
  "inside t \<longleftrightarrow> th_phase t \<noteq> Outside"

section \<open>Waking and stopping\<close>

definition push_ops :: "nat list \<Rightarrow> Scheduler \<Rightarrow> Scheduler" where
  "push_ops ops s = s\<lparr>sched_queue := sched_queue s @ map Op ops\<rparr>"

definition interrupt_task :: "Scheduler \<Rightarrow> Scheduler" where
  "interrupt_task s = (if \<not> task_interrupted s \<and> has_task s then s\<lparr>task_interrupted := True\<rparr> else s)"

definition wake_one_thread_and_unlock :: "Scheduler \<Rightarrow> Scheduler \<times> action list" where
  "wake_one_thread_and_unlock s =
     (case maybe_unlock_and_signal_one (event_state s) of
        (st, True) \<Rightarrow> (s\<lparr>event_state := st\<rparr>, [Signal])
      | (st, False) \<Rightarrow> (interrupt_task (s\<lparr>event_state := st\<rparr>), []))"

definition cond_broadcast :: "Thread \<Rightarrow> Thread" where
  "cond_broadcast t = (if th_phase t = Cond_wait then t\<lparr>th_phase := Cond_woken\<rparr> else t)"

definition stop_all_threads :: "Scheduler \<Rightarrow> Scheduler" where
  "stop_all_threads s = interrupt_task (s\<lparr>sched_stopped := True, event_state := signal_all (event_state s)\<rparr>)"

definition init_task :: "Scheduler \<Rightarrow> Scheduler \<times> action list" where
  "init_task s =
     (if \<not> sched_shutdown s \<and> \<not> has_task s
      then wake_one_thread_and_unlock (s\<lparr>has_task := True, sched_queue := sched_queue s @ [Task_op]\<rparr>)
      else (s, []))"

definition restart :: "Scheduler \<Rightarrow> Scheduler" where
  "restart s = s\<lparr>sched_stopped := False\<rparr>"

section \<open>Work and posting\<close>

text \<open>The calls of a thread: the new state of the scheduler and of the calling thread.\<close>

definition work_started :: "Scheduler \<Rightarrow> Scheduler" where
  "work_started s = s\<lparr>outstanding_work := outstanding_work s + 1\<rparr>"

definition work_finished :: "Scheduler \<Rightarrow> Scheduler \<times> action list" where
  "work_finished s =
     (let s' = s\<lparr>outstanding_work := outstanding_work s - 1\<rparr> in (s', if outstanding_work s' = 0 then [Stop] else []))"

definition compensating_work_started :: "Thread \<Rightarrow> Thread" where
  "compensating_work_started t = t\<lparr>private_outstanding_work := private_outstanding_work t + 1\<rparr>"

definition post_immediate_completion :: "nat \<Rightarrow> bool \<Rightarrow> Scheduler \<Rightarrow> Thread \<Rightarrow> Scheduler \<times> Thread" where
  "post_immediate_completion op is_continuation s t =
     (if (one_thread s \<or> is_continuation) \<and> inside t
      then (s, t\<lparr>private_outstanding_work := private_outstanding_work t + 1, private_op_queue := private_op_queue t @ [op]\<rparr>)
      else (work_started s, t\<lparr>th_todo := [Push [op]]\<rparr>))"

definition post_immediate_completions :: "nat \<Rightarrow> nat list \<Rightarrow> bool \<Rightarrow> Scheduler \<Rightarrow> Thread \<Rightarrow> Scheduler \<times> Thread" where
  "post_immediate_completions n ops is_continuation s t =
     (if (one_thread s \<or> is_continuation) \<and> inside t
      then (s, t\<lparr>private_outstanding_work := private_outstanding_work t + int n, private_op_queue := private_op_queue t @ ops\<rparr>)
      else (s\<lparr>outstanding_work := outstanding_work s + int n\<rparr>, t\<lparr>th_todo := [Push ops]\<rparr>))"

definition post_deferred_completion :: "nat \<Rightarrow> Scheduler \<Rightarrow> Thread \<Rightarrow> Thread" where
  "post_deferred_completion op s t =
     (if one_thread s \<and> inside t then t\<lparr>private_op_queue := private_op_queue t @ [op]\<rparr> else t\<lparr>th_todo := [Push [op]]\<rparr>)"

definition post_deferred_completions :: "nat list \<Rightarrow> Scheduler \<Rightarrow> Thread \<Rightarrow> Thread" where
  "post_deferred_completions ops s t =
     (if ops \<noteq> []
      then if one_thread s \<and> inside t then t\<lparr>private_op_queue := private_op_queue t @ ops\<rparr> else t\<lparr>th_todo := [Push ops]\<rparr>
      else t)"

definition do_dispatch :: "nat \<Rightarrow> Scheduler \<Rightarrow> Thread \<Rightarrow> Scheduler \<times> Thread" where
  "do_dispatch op s t = (work_started s, t\<lparr>th_todo := [Push [op]]\<rparr>)"

datatype sched_call =
    Post_immediate nat bool
  | Post_immediates "nat list" bool
  | Post_deferred nat
  | Post_deferreds "nat list"
  | Dispatch nat
  | Work_started
  | Work_finished
  | Compensate
  | Call_stop
  | Restart
  | Init_task

fun perform_call :: "sched_call \<Rightarrow> Scheduler \<Rightarrow> Thread \<Rightarrow> Scheduler \<times> Thread" where
  "perform_call (Post_immediate op c) s t = post_immediate_completion op c s t"
| "perform_call (Post_immediates ops c) s t = post_immediate_completions (length ops) ops c s t"
| "perform_call (Post_deferred op) s t = (s, post_deferred_completion op s t)"
| "perform_call (Post_deferreds ops) s t = (s, post_deferred_completions ops s t)"
| "perform_call (Dispatch op) s t = do_dispatch op s t"
| "perform_call Work_started s t = (work_started s, t)"
| "perform_call Work_finished s t = (case work_finished s of (s', acts) \<Rightarrow> (s', t\<lparr>th_todo := acts\<rparr>))"
| "perform_call Compensate s t = (s, if inside t then compensating_work_started t else t)"
| "perform_call Call_stop s t = (s, t\<lparr>th_todo := [Stop]\<rparr>)"
| "perform_call Restart s t = (restart s, t)"
| "perform_call Init_task s t = (case init_task s of (s', acts) \<Rightarrow> (s', t\<lparr>th_todo := acts\<rparr>))"

section \<open>The run functions\<close>

text \<open>How a critical section of \<^verbatim>\<open>do_run_one\<close>, \<^verbatim>\<open>do_wait_one\<close> or \<^verbatim>\<open>do_poll_one\<close> ends.\<close>

datatype outcome = Leaves | Sleeps | Runs_task int | Runs_op nat

definition start_task :: "int \<Rightarrow> sched_op list \<Rightarrow> Scheduler \<Rightarrow> Scheduler \<times> action list \<times> outcome" where
  "start_task usec q s =
     (let more_handlers = (q \<noteq> []); s1 = s\<lparr>sched_queue := q, task_interrupted := more_handlers\<rparr>; u = (if more_handlers then 0 else usec) in
      if more_handlers \<and> \<not> one_thread s
      then case unlock_and_signal_one (event_state s1) of
             (st, have_waiters) \<Rightarrow> (s1\<lparr>event_state := st\<rparr>, if have_waiters then [Signal] else [], Runs_task u)
      else (s1, [], Runs_task u))"

definition start_op :: "nat \<Rightarrow> sched_op list \<Rightarrow> Scheduler \<Rightarrow> Scheduler \<times> action list \<times> outcome" where
  "start_op op q s =
     (let s1 = s\<lparr>sched_queue := q\<rparr> in
      if q \<noteq> [] \<and> \<not> one_thread s
      then case wake_one_thread_and_unlock s1 of (s2, acts) \<Rightarrow> (s2, acts, Runs_op op)
      else (s1, [], Runs_op op))"

definition go_to_sleep :: "Scheduler \<Rightarrow> Scheduler \<times> action list \<times> outcome" where
  "go_to_sleep s = (s\<lparr>event_state := event_begin_wait (event_clear (event_state s))\<rparr>, [], Sleeps)"

definition do_run_one :: "Scheduler \<Rightarrow> Scheduler \<times> action list \<times> outcome" where
  "do_run_one s =
     (if sched_stopped s then (s, [], Leaves)
      else case sched_queue s of
             [] \<Rightarrow> go_to_sleep s
           | Task_op # q \<Rightarrow> start_task (-1) q s
           | Op op # q \<Rightarrow> start_op op q s)"

text \<open>The loop of \<^verbatim>\<open>posix_event::wait\<close> after a wake-up, and \<^verbatim>\<open>do_run_one\<close> from there.\<close>

definition woken_run_one :: "Scheduler \<Rightarrow> Scheduler \<times> action list \<times> outcome" where
  "woken_run_one s =
     (let s1 = s\<lparr>event_state := event_end_wait (event_state s)\<rparr> in
      if event_signalled (event_state s1) then do_run_one s1
      else (s1\<lparr>event_state := event_begin_wait (event_state s1)\<rparr>, [], Sleeps))"

definition wait_front :: "int \<Rightarrow> Scheduler \<Rightarrow> Scheduler \<times> action list \<times> outcome" where
  "wait_front usec s =
     (case sched_queue s of
        [] \<Rightarrow> (s, [], Leaves)
      | Task_op # q \<Rightarrow> start_task usec q s
      | Op op # q \<Rightarrow> start_op op q s)"

definition do_wait_one :: "int \<Rightarrow> Scheduler \<Rightarrow> Scheduler \<times> action list \<times> outcome" where
  "do_wait_one usec s =
     (if sched_stopped s then (s, [], Leaves)
      else if sched_queue s = [] then go_to_sleep s
      else wait_front usec s)"

text \<open>After the timed wait, and after the task: the task found at the front again means that nothing was completed.\<close>

definition woken_wait_one :: "Scheduler \<Rightarrow> Scheduler \<times> action list \<times> outcome" where
  "woken_wait_one s = wait_front 0 (s\<lparr>event_state := event_end_wait (event_state s)\<rparr>)"

definition signal_and_leave :: "Scheduler \<Rightarrow> Scheduler \<times> action list \<times> outcome" where
  "signal_and_leave s =
     (case maybe_unlock_and_signal_one (event_state s) of
        (st, signalled) \<Rightarrow> (s\<lparr>event_state := st\<rparr>, if signalled then [Signal] else [], Leaves))"

definition wait_after_task :: "Scheduler \<Rightarrow> Scheduler \<times> action list \<times> outcome" where
  "wait_after_task s =
     (case sched_queue s of
        [] \<Rightarrow> (s, [], Leaves)
      | Task_op # q \<Rightarrow> (if \<not> one_thread s then signal_and_leave s else (s, [], Leaves))
      | Op op # q \<Rightarrow> start_op op q s)"

definition do_poll_one :: "Scheduler \<Rightarrow> Scheduler \<times> action list \<times> outcome" where
  "do_poll_one s =
     (if sched_stopped s then (s, [], Leaves)
      else case sched_queue s of
             [] \<Rightarrow> (s, [], Leaves)
           | Task_op # q \<Rightarrow> (s\<lparr>sched_queue := q\<rparr>, [], Runs_task 0)
           | Op op # q \<Rightarrow> start_op op q s)"

definition poll_after_task :: "Scheduler \<Rightarrow> Scheduler \<times> action list \<times> outcome" where
  "poll_after_task s =
     (case sched_queue s of
        [] \<Rightarrow> (s, [], Leaves)
      | Task_op # q \<Rightarrow> signal_and_leave s
      | Op op # q \<Rightarrow> start_op op q s)"

definition do_one :: "run_mode \<Rightarrow> Scheduler \<Rightarrow> Scheduler \<times> action list \<times> outcome" where
  "do_one m s =
     (case m of Run \<Rightarrow> do_run_one s | Run_one \<Rightarrow> do_run_one s | Wait_one usec \<Rightarrow> do_wait_one usec s
      | Poll \<Rightarrow> do_poll_one s | Poll_one \<Rightarrow> do_poll_one s)"

definition woken_one :: "run_mode \<Rightarrow> Scheduler \<Rightarrow> Scheduler \<times> action list \<times> outcome" where
  "woken_one m s = (case m of Wait_one usec \<Rightarrow> woken_wait_one s | _ \<Rightarrow> woken_run_one s)"

definition after_task :: "run_mode \<Rightarrow> Scheduler \<Rightarrow> Scheduler \<times> action list \<times> outcome" where
  "after_task m s =
     (case m of Run \<Rightarrow> do_run_one s | Run_one \<Rightarrow> do_run_one s | Wait_one usec \<Rightarrow> wait_after_task s
      | Poll \<Rightarrow> poll_after_task s | Poll_one \<Rightarrow> poll_after_task s)"

text \<open>\<^verbatim>\<open>run\<close> and \<^verbatim>\<open>poll\<close> go on after an operation, the others return.\<close>

definition loops :: "run_mode \<Rightarrow> bool" where
  "loops m \<longleftrightarrow> m = Run \<or> m = Poll"

definition enter_run :: "run_mode \<Rightarrow> Scheduler \<Rightarrow> Thread \<Rightarrow> Thread" where
  "enter_run m s t =
     (if outstanding_work s = 0 then t\<lparr>th_todo := [Stop], th_count := 0\<rparr>
      else t\<lparr>th_mode := m, th_phase := At_loop, private_op_queue := [], private_outstanding_work := 0, th_count := 0\<rparr>)"

definition apply_outcome :: "Thread \<Rightarrow> Scheduler \<times> action list \<times> outcome \<Rightarrow> Scheduler \<times> Thread" where
  "apply_outcome t r =
     (case r of (s, acts, oc) \<Rightarrow>
        (s, t\<lparr>th_todo := acts,
              th_phase := (case oc of Leaves \<Rightarrow> Outside | Sleeps \<Rightarrow> Cond_wait | Runs_task u \<Rightarrow> In_task u | Runs_op op \<Rightarrow> In_handler op)\<rparr>))"

text \<open>The destructors of \<^verbatim>\<open>task_cleanup\<close> and \<^verbatim>\<open>work_cleanup\<close>, first what they do without the mutex, then what with it.\<close>

definition task_cleanup_count :: "Scheduler \<Rightarrow> Thread \<Rightarrow> Scheduler" where
  "task_cleanup_count s t =
     (if private_outstanding_work t > 0
      then s\<lparr>outstanding_work := outstanding_work s + private_outstanding_work t\<rparr> else s)"

definition task_cleanup :: "Scheduler \<Rightarrow> Thread \<Rightarrow> Scheduler" where
  "task_cleanup s t =
     s\<lparr>task_interrupted := True, sched_queue := sched_queue s @ map Op (private_op_queue t) @ [Task_op]\<rparr>"

definition work_cleanup_count :: "Scheduler \<Rightarrow> Thread \<Rightarrow> Scheduler \<times> action list" where
  "work_cleanup_count s t =
     (if private_outstanding_work t > 1
      then (s\<lparr>outstanding_work := outstanding_work s + (private_outstanding_work t - 1)\<rparr>, [])
      else if private_outstanding_work t < 1 then work_finished s
      else (s, []))"

definition work_cleanup :: "Scheduler \<Rightarrow> Thread \<Rightarrow> Scheduler" where
  "work_cleanup s t = (if private_op_queue t \<noteq> [] then push_ops (private_op_queue t) s else s)"

text \<open>\<^verbatim>\<open>run\<close> and \<^verbatim>\<open>poll\<close> count the operations they ran, up to the largest number.\<close>

definition count_op :: "run_mode \<Rightarrow> uint64_t \<Rightarrow> uint64_t" where
  "count_op m n = (if loops m then (if n \<noteq> - 1 then n + 1 else n) else 1)"

definition task_returns :: "bool \<Rightarrow> nat list \<Rightarrow> Scheduler \<Rightarrow> Thread \<Rightarrow> Scheduler \<times> Thread" where
  "task_returns threw ops s t =
     (task_cleanup_count s t,
      t\<lparr>th_phase := Task_done threw, private_op_queue := private_op_queue t @ ops, private_outstanding_work := 0\<rparr>)"

definition handler_returns :: "bool \<Rightarrow> Scheduler \<Rightarrow> Thread \<Rightarrow> Scheduler \<times> Thread" where
  "handler_returns threw s t =
     (case work_cleanup_count s t of
        (s', acts) \<Rightarrow> (s', t\<lparr>th_phase := Handler_done threw, th_todo := acts, private_outstanding_work := 0,
                            th_count := (if threw then th_count t else count_op (th_mode t) (th_count t))\<rparr>))"

text \<open>The critical sections of a thread in a run function.\<close>

definition critical_section :: "Scheduler \<Rightarrow> Thread \<Rightarrow> Scheduler \<times> Thread" where
  "critical_section s t =
     (let m = th_mode t; t' = t\<lparr>private_op_queue := []\<rparr> in
      case th_phase t of
        At_loop \<Rightarrow> apply_outcome t (do_one m s)
      | Cond_woken \<Rightarrow> apply_outcome t (woken_one m s)
      | Task_done threw \<Rightarrow>
          apply_outcome t' (if threw then (task_cleanup s t, [], Leaves) else after_task m (task_cleanup s t))
      | Handler_done threw \<Rightarrow>
          apply_outcome t' (if threw \<or> \<not> loops m then (work_cleanup s t, [], Leaves) else do_one m (work_cleanup s t))
      | _ \<Rightarrow> (s, t))"

section \<open>Runs of several threads\<close>

text \<open>
  The trace of a run: entered run functions, operations posted with their work counted now or counted before (those of
  the task included), operations put into the queue, started handlers, exceptions, and other changes of the work count.
\<close>

datatype sched_event =
  Entered run_mode | Posted "nat list" | Completed "nat list" | Queued "nat list" | Started nat | Threw | Work int

fun call_events :: "sched_call \<Rightarrow> sched_event list" where
  "call_events (Post_immediate op c) = [Posted [op]]"
| "call_events (Post_immediates ops c) = [Posted ops]"
| "call_events (Post_deferred op) = [Completed [op]]"
| "call_events (Post_deferreds ops) = [Completed ops]"
| "call_events (Dispatch op) = [Posted [op]]"
| "call_events Work_started = [Work 1]"
| "call_events Work_finished = [Work (-1)]"
| "call_events Compensate = [Work 1]"
| "call_events Call_stop = []"
| "call_events Restart = []"
| "call_events Init_task = []"

definition section_events :: "Thread \<Rightarrow> Thread \<Rightarrow> sched_event list" where
  "section_events t t' =
     (case th_phase t of Task_done threw \<Rightarrow> [Queued (private_op_queue t)] | Handler_done threw \<Rightarrow> [Queued (private_op_queue t)] | _ \<Rightarrow> []) @
     (case th_phase t' of In_handler op \<Rightarrow> [Started op] | _ \<Rightarrow> [])"

definition may_call :: "Thread \<Rightarrow> bool" where
  "may_call t \<longleftrightarrow> (case th_phase t of Outside \<Rightarrow> True | In_handler op \<Rightarrow> True | In_task u \<Rightarrow> True | _ \<Rightarrow> False)"

definition wants_mutex :: "Thread \<Rightarrow> bool" where
  "wants_mutex t \<longleftrightarrow>
     (case th_phase t of At_loop \<Rightarrow> True | Cond_woken \<Rightarrow> True | Task_done threw \<Rightarrow> True | Handler_done threw \<Rightarrow> True | _ \<Rightarrow> False)"

definition wake :: "Thread \<Rightarrow> Thread" where
  "wake t = t\<lparr>th_phase := Cond_woken\<rparr>"

text \<open>
  With \<^verbatim>\<open>one_thread_\<close> only one thread at a time may be in a run function.  A signal wakes one of the waiting threads, if there is one; threads also
  wake up by themselves, at the end of a timed wait for example.
\<close>

inductive sched_step :: "Scheduler \<Rightarrow> Thread list \<Rightarrow> sched_event list \<Rightarrow> Scheduler \<Rightarrow> Thread list \<Rightarrow> bool" where
  enters: "\<lbrakk>i < length ths; th_phase (ths ! i) = Outside; th_todo (ths ! i) = []; one_thread s \<longrightarrow> (\<forall>t\<in>set ths. \<not> inside t)\<rbrakk> \<Longrightarrow>
    sched_step s ths [Entered m] s (ths[i := enter_run m s (ths ! i)])"
| calls: "\<lbrakk>i < length ths; may_call (ths ! i); th_todo (ths ! i) = []; c = Compensate \<longrightarrow> inside (ths ! i);
    perform_call c s (ths ! i) = (s', t')\<rbrakk> \<Longrightarrow> sched_step s ths (call_events c) s' (ths[i := t'])"
| pushes: "\<lbrakk>i < length ths; th_todo (ths ! i) = Push ops # acts; wake_one_thread_and_unlock (push_ops ops s) = (s', acts')\<rbrakk> \<Longrightarrow>
    sched_step s ths [Queued ops] s' (ths[i := (ths ! i)\<lparr>th_todo := acts' @ acts\<rparr>])"
| signals: "\<lbrakk>i < length ths; th_todo (ths ! i) = Signal # acts; ths' = ths[i := (ths ! i)\<lparr>th_todo := acts\<rparr>];
    j < length ths; th_phase (ths' ! j) = Cond_wait\<rbrakk> \<Longrightarrow> sched_step s ths [] s (ths'[j := wake (ths' ! j)])"
| signals_nobody: "\<lbrakk>i < length ths; th_todo (ths ! i) = Signal # acts; \<forall>t\<in>set ths. th_phase t \<noteq> Cond_wait\<rbrakk> \<Longrightarrow>
    sched_step s ths [] s (ths[i := (ths ! i)\<lparr>th_todo := acts\<rparr>])"
| stops: "\<lbrakk>i < length ths; th_todo (ths ! i) = Stop # acts\<rbrakk> \<Longrightarrow>
    sched_step s ths [] (stop_all_threads s) (map cond_broadcast (ths[i := (ths ! i)\<lparr>th_todo := acts\<rparr>]))"
| wakes: "\<lbrakk>j < length ths; th_phase (ths ! j) = Cond_wait\<rbrakk> \<Longrightarrow> sched_step s ths [] s (ths[j := wake (ths ! j)])"
| sections: "\<lbrakk>i < length ths; wants_mutex (ths ! i); th_todo (ths ! i) = []; critical_section s (ths ! i) = (s', t')\<rbrakk> \<Longrightarrow>
    sched_step s ths (section_events (ths ! i) t') s' (ths[i := t'])"
| tasks: "\<lbrakk>i < length ths; th_phase (ths ! i) = In_task u; th_todo (ths ! i) = []; task_returns threw ops s (ths ! i) = (s', t')\<rbrakk> \<Longrightarrow>
    sched_step s ths (Completed ops # (if threw then [Threw] else [])) s' (ths[i := t'])"
| handlers: "\<lbrakk>i < length ths; th_phase (ths ! i) = In_handler op; th_todo (ths ! i) = []; handler_returns threw s (ths ! i) = (s', t')\<rbrakk> \<Longrightarrow>
    sched_step s ths (if threw then [Threw] else []) s' (ths[i := t'])"

inductive sched_run :: "bool \<Rightarrow> nat \<Rightarrow> sched_event list \<Rightarrow> Scheduler \<Rightarrow> Thread list \<Rightarrow> bool" for one :: bool and n :: nat where
  start: "sched_run one n [] (Scheduler_init one) (replicate n Thread_init)"
| step: "\<lbrakk>sched_run one n tr s ths; sched_step s ths es s' ths'\<rbrakk> \<Longrightarrow> sched_run one n (tr @ es) s' ths'"

section \<open>What a state holds\<close>

definition ops_of :: "sched_op list \<Rightarrow> nat list" where
  "ops_of q = concat (map (\<lambda>x. case x of Task_op \<Rightarrow> [] | Op op \<Rightarrow> [op]) q)"

definition tasks_in :: "sched_op list \<Rightarrow> nat" where
  "tasks_in q = length (filter (\<lambda>x. x = Task_op) q)"

definition total_of :: "(Thread \<Rightarrow> 'a::comm_monoid_add) \<Rightarrow> Thread list \<Rightarrow> 'a" where
  "total_of f ths = sum_list (map f ths)"

definition waiting :: "Thread \<Rightarrow> nat" where
  "waiting t = (if th_phase t = Cond_wait \<or> th_phase t = Cond_woken then 1 else 0)"

definition with_task :: "Thread \<Rightarrow> nat" where
  "with_task t = (case th_phase t of In_task u \<Rightarrow> 1 | Task_done threw \<Rightarrow> 1 | _ \<Rightarrow> 0)"

definition in_handler :: "Thread \<Rightarrow> nat" where
  "in_handler t = (case th_phase t of In_handler op \<Rightarrow> 1 | _ \<Rightarrow> 0)"

definition held :: "Thread \<Rightarrow> nat list" where
  "held t = private_op_queue t @ concat (map (\<lambda>a. case a of Push ops \<Rightarrow> ops | _ \<Rightarrow> []) (th_todo t))"

definition inside_count :: "Thread \<Rightarrow> nat" where
  "inside_count t = (if inside t then 1 else 0)"

definition posted_in :: "sched_event list \<Rightarrow> nat list" where
  "posted_in tr = concat (map (\<lambda>e. case e of Posted ops \<Rightarrow> ops | Completed ops \<Rightarrow> ops | _ \<Rightarrow> []) tr)"

definition queued_ops :: "sched_event list \<Rightarrow> nat list" where
  "queued_ops tr = concat (map (\<lambda>e. case e of Queued ops \<Rightarrow> ops | _ \<Rightarrow> []) tr)"

definition started_ops :: "sched_event list \<Rightarrow> nat list" where
  "started_ops tr = concat (map (\<lambda>e. case e of Started op \<Rightarrow> [op] | _ \<Rightarrow> []) tr)"

text \<open>Work that no operation represents yet: counted by \<^verbatim>\<open>work_started\<close>, its operation not completed.\<close>

definition open_work :: "sched_event list \<Rightarrow> int" where
  "open_work tr = (\<Sum>e\<leftarrow>tr. case e of Work k \<Rightarrow> k | Completed ops \<Rightarrow> - int (length ops) | _ \<Rightarrow> 0)"

lemma total_of_update:
  "i < length ths \<Longrightarrow> total_of f (ths[i := t]) + f (ths ! i) = total_of f ths + f t"
  by (induction ths arbitrary: i) (auto simp: total_of_def nth_Cons' Suc_diff_1 ac_simps split: nat.split)

lemma sched_trace_append:
  "posted_in (tr @ es) = posted_in tr @ posted_in es" "queued_ops (tr @ es) = queued_ops tr @ queued_ops es"
  "started_ops (tr @ es) = started_ops tr @ started_ops es" "open_work (tr @ es) = open_work tr + open_work es"
  by (simp_all add: posted_in_def queued_ops_def started_ops_def open_work_def)

lemma ops_of_simps [simp]:
  "ops_of [] = []" "ops_of (Task_op # q) = ops_of q" "ops_of (Op op # q) = op # ops_of q" "ops_of (q @ r) = ops_of q @ ops_of r"
  "ops_of (map Op ops) = ops"
  by (auto simp: ops_of_def comp_def)

lemma tasks_in_simps [simp]:
  "tasks_in [] = 0" "tasks_in (Task_op # q) = Suc (tasks_in q)" "tasks_in (Op op # q) = tasks_in q"
  "tasks_in (q @ r) = tasks_in q + tasks_in r" "tasks_in (map Op ops) = 0"
  by (auto simp: tasks_in_def filter_map comp_def)

section \<open>The critical sections\<close>

lemma event_or [simp]:
  "(st OR Suc 0) div 2 = st div 2" "odd (st OR Suc 0)" "Suc 0 < st OR Suc 0 \<longleftrightarrow> 0 < st div 2"
  using or_one_eq [of st] by (auto simp: of_bool_def split: if_splits elim!: evenE oddE)

lemma event_clear [simp]: "event_clear st div 2 = st div 2" "even (event_clear st)"
  by (simp_all add: event_clear_def unset_bit_0)

lemma event_wait [simp]:
  "event_begin_wait st div 2 = Suc (st div 2)" "even (event_begin_wait st) \<longleftrightarrow> even st"
  "event_end_wait st div 2 = st div 2 - 1" "0 < st div 2 \<Longrightarrow> even (event_end_wait st) \<longleftrightarrow> even st"
  by (auto simp: event_begin_wait_def event_end_wait_def)

lemma event_signalled [simp]: "event_signalled st \<longleftrightarrow> odd st"
  by (simp add: event_signalled_def and_one_eq odd_iff_mod_2_eq_one)

lemma maybe_signal_eq: "maybe_unlock_and_signal_one st = (st OR 1, 0 < st div 2)"
  by (auto simp: maybe_unlock_and_signal_one_def Let_def)

lemma unlock_signal_eq: "unlock_and_signal_one st = (st OR 1, 0 < st div 2)"
  by (auto simp: unlock_and_signal_one_def Let_def)

text \<open>What every critical section does: it moves at most one operation out of the queue, counts a new waiter, and lets nobody sleep when stopped.\<close>

definition section_ok :: "Scheduler \<Rightarrow> Scheduler \<times> action list \<times> outcome \<Rightarrow> bool" where
  "section_ok s r \<longleftrightarrow>
     (case r of (s', acts, oc) \<Rightarrow>
        event_state s' div 2 = event_state s div 2 + (if oc = Sleeps then 1 else 0) \<and>
        one_thread s' = one_thread s \<and> has_task s' = has_task s \<and> outstanding_work s' = outstanding_work s \<and>
        sched_stopped s' = sched_stopped s \<and>
        ops_of (sched_queue s) = (case oc of Runs_op op \<Rightarrow> [op] | _ \<Rightarrow> []) @ ops_of (sched_queue s') \<and>
        tasks_in (sched_queue s) = tasks_in (sched_queue s') + (case oc of Runs_task u \<Rightarrow> 1 | _ \<Rightarrow> 0) \<and>
        (acts = [] \<or> acts = [Signal]) \<and>
        (sched_stopped s \<and> odd (event_state s) \<longrightarrow>
           odd (event_state s') \<and> oc \<noteq> Sleeps \<and> (\<forall>u. oc = Runs_task u \<longrightarrow> u = 0 \<or> task_interrupted s')) \<and>
        (task_interrupted s \<longrightarrow> task_interrupted s' \<or> (\<exists>u. oc = Runs_task u)))"

lemma interrupt_task_simps [simp]:
  "event_state (interrupt_task s) = event_state s" "one_thread (interrupt_task s) = one_thread s"
  "has_task (interrupt_task s) = has_task s" "outstanding_work (interrupt_task s) = outstanding_work s"
  "sched_queue (interrupt_task s) = sched_queue s" "sched_stopped (interrupt_task s) = sched_stopped s"
  "task_interrupted (interrupt_task s) = (task_interrupted s \<or> has_task s)"
  by (auto simp: interrupt_task_def)

lemma wake_one_simps:
  "wake_one_thread_and_unlock s =
     (if 0 < event_state s div 2 then (s\<lparr>event_state := event_state s OR 1\<rparr>, [Signal])
      else (interrupt_task (s\<lparr>event_state := event_state s OR 1\<rparr>), []))"
  by (auto simp: wake_one_thread_and_unlock_def maybe_signal_eq)

lemma start_task_ok:
  assumes "sched_queue s = Task_op # q" "sched_stopped s \<longrightarrow> usec = 0"
  shows "section_ok s (start_task usec q s)"
  using assms by (auto simp: section_ok_def start_task_def Let_def unlock_signal_eq)

lemma start_op_ok:
  assumes "sched_queue s = Op op # q"
  shows "section_ok s (start_op op q s)"
  using assms by (auto simp: section_ok_def start_op_def Let_def wake_one_simps)

lemma leaves_ok [simp]: "section_ok s (s, [], Leaves)"
  by (simp add: section_ok_def)

lemma signal_and_leave_ok [simp]: "section_ok s (signal_and_leave s)"
  by (auto simp: section_ok_def signal_and_leave_def maybe_signal_eq)

lemma go_to_sleep_ok: "\<not> sched_stopped s \<Longrightarrow> section_ok s (go_to_sleep s)"
  by (simp add: section_ok_def go_to_sleep_def)

lemmas section_parts = start_task_ok start_op_ok go_to_sleep_ok

lemma do_run_one_ok: "section_ok s (do_run_one s)"
  by (auto simp: do_run_one_def section_parts split: list.split sched_op.split)

lemma wait_front_ok: "sched_stopped s \<longrightarrow> usec = 0 \<Longrightarrow> section_ok s (wait_front usec s)"
  by (auto simp: wait_front_def section_parts split: list.split sched_op.split)

lemma do_one_ok: "section_ok s (do_one m s)"
  by (auto simp: do_one_def do_run_one_ok do_wait_one_def do_poll_one_def wait_front_ok section_parts section_ok_def [of _ "(_, [], Runs_task _)"]
      split: run_mode.split list.split sched_op.split)

lemma after_task_ok: "section_ok s (after_task m s)"
  by (auto simp: after_task_def do_run_one_ok wait_after_task_def poll_after_task_def section_parts
      split: run_mode.split list.split sched_op.split)

lemma woken_one_ok:
  assumes "0 < event_state s div 2"
  shows "section_ok (s\<lparr>event_state := event_end_wait (event_state s)\<rparr>) (woken_one m s)"
  using assms do_run_one_ok wait_front_ok [where usec = 0]
  by (auto simp: woken_one_def woken_wait_one_def woken_run_one_def Let_def section_ok_def [of _ "(_, [], Sleeps)"] split: run_mode.split)

end
