(* ===== verification/Scheduler_Runs.thy ===== *)
theory Scheduler_Runs
  imports Asio_Scheduler
begin

text \<open>
  Runs of the scheduler: how many wait on the event, where the task is, that every posted operation is started once and
  in the order of the queue, what the count of outstanding work counts, and that no wake-up is lost.
\<close>

section \<open>Invariants of a thread\<close>

definition thread_ok :: "Thread \<Rightarrow> bool" where
  "thread_ok t \<longleftrightarrow>
     0 \<le> private_outstanding_work t \<and>
     (case th_phase t of
        In_handler op \<Rightarrow> True
      | In_task u \<Rightarrow> True
      | Task_done threw \<Rightarrow> private_outstanding_work t = 0
      | Handler_done threw \<Rightarrow> private_outstanding_work t = 0
      | _ \<Rightarrow> private_outstanding_work t = 0 \<and> private_op_queue t = [])"

abbreviation task_made :: "Scheduler \<Rightarrow> nat" where
  "task_made s \<equiv> of_bool (has_task s)"

text \<open>What a step of one thread changes, in the scheduler and in the thread.\<close>

definition accounted :: "Scheduler \<Rightarrow> Thread \<Rightarrow> sched_event list \<Rightarrow> Scheduler \<Rightarrow> Thread \<Rightarrow> bool" where
  "accounted s t es s' t' \<longleftrightarrow>
     thread_ok t' \<and>
     event_state s' div 2 + waiting t = event_state s div 2 + waiting t' \<and>
     tasks_in (sched_queue s') + with_task t' + task_made s = tasks_in (sched_queue s) + with_task t + task_made s' \<and>
     ops_of (sched_queue s) @ queued_ops es = started_ops es @ ops_of (sched_queue s') \<and>
     mset (held t) + mset (posted_in es) = mset (held t') + mset (queued_ops es) \<and>
     outstanding_work s' + private_outstanding_work t' + int (in_handler t) =
       outstanding_work s + private_outstanding_work t + int (in_handler t') + int (length (posted_in es)) - int (length (started_ops es)) + open_work es"

lemma event_simps [simp]:
  "posted_in [] = []" "queued_ops [] = []" "started_ops [] = []" "open_work [] = 0"
  "posted_in (e # es) = (case e of Posted ops \<Rightarrow> ops | Completed ops \<Rightarrow> ops | _ \<Rightarrow> []) @ posted_in es"
  "queued_ops (e # es) = (case e of Queued ops \<Rightarrow> ops | _ \<Rightarrow> []) @ queued_ops es"
  "started_ops (e # es) = (case e of Started op \<Rightarrow> [op] | _ \<Rightarrow> []) @ started_ops es"
  "open_work (e # es) = (case e of Work k \<Rightarrow> k | Completed ops \<Rightarrow> - int (length ops) | _ \<Rightarrow> 0) + open_work es"
  by (simp_all add: posted_in_def queued_ops_def started_ops_def open_work_def)

lemma thread_ok_todo [simp]: "thread_ok (t\<lparr>th_todo := acts\<rparr>) = thread_ok t"
  by (simp add: thread_ok_def split: phase.split)

lemma thread_updates [simp]:
  "waiting (t\<lparr>th_todo := acts\<rparr>) = waiting t" "with_task (t\<lparr>th_todo := acts\<rparr>) = with_task t" "in_handler (t\<lparr>th_todo := acts\<rparr>) = in_handler t"
  "waiting (t\<lparr>private_op_queue := q\<rparr>) = waiting t" "with_task (t\<lparr>private_op_queue := q\<rparr>) = with_task t"
  "in_handler (t\<lparr>private_op_queue := q\<rparr>) = in_handler t"
  "waiting (t\<lparr>private_outstanding_work := k\<rparr>) = waiting t" "with_task (t\<lparr>private_outstanding_work := k\<rparr>) = with_task t"
  "in_handler (t\<lparr>private_outstanding_work := k\<rparr>) = in_handler t"
  by (simp_all add: waiting_def with_task_def in_handler_def)

lemma caller_ok:
  assumes "may_call t" "inside t" "thread_ok t"
  shows "thread_ok (t\<lparr>private_op_queue := q\<rparr>)" "0 \<le> k \<Longrightarrow> thread_ok (t\<lparr>private_outstanding_work := private_outstanding_work t + k\<rparr>)"
    "0 \<le> k \<Longrightarrow> thread_ok (t\<lparr>private_outstanding_work := private_outstanding_work t + k, private_op_queue := q\<rparr>)"
  using assms by (auto simp: may_call_def inside_def thread_ok_def split: phase.splits)

lemmas thread_simps = waiting_def with_task_def in_handler_def held_def inside_def

lemma enter_accounted:
  assumes "th_phase t = Outside" "th_todo t = []" "thread_ok t"
  shows "accounted s t [Entered m] s (enter_run m s t)"
  using assms by (auto simp: accounted_def thread_ok_def enter_run_def thread_simps)

lemma wake_one_accounted:
  assumes "wake_one_thread_and_unlock s = (s', acts)"
  shows "event_state s' div 2 = event_state s div 2" "sched_queue s' = sched_queue s" "outstanding_work s' = outstanding_work s"
    "has_task s' = has_task s" "one_thread s' = one_thread s" "sched_stopped s' = sched_stopped s" "acts = [] \<or> acts = [Signal]"
    "odd (event_state s')" "task_interrupted s \<longrightarrow> task_interrupted s'"
  using assms by (auto simp: wake_one_simps split: if_splits)

lemma call_accounted:
  assumes "may_call t" "th_todo t = []" "c = Compensate \<longrightarrow> inside t" "thread_ok t" "perform_call c s t = (s', t')"
  shows "accounted s t (call_events c) s' t'"
proof (cases c)
  case Init_task
  obtain s1 acts where w: "init_task s = (s1, acts)" by fastforce
  have "tasks_in (sched_queue s1) + task_made s = tasks_in (sched_queue s) + task_made s1"
    "event_state s1 div 2 = event_state s div 2" "ops_of (sched_queue s1) = ops_of (sched_queue s)"
    "outstanding_work s1 = outstanding_work s" "acts = [] \<or> acts = [Signal]"
    using w by (auto simp: init_task_def wake_one_simps split: if_splits)
  moreover have "s' = s1" "t' = t\<lparr>th_todo := acts\<rparr>" "call_events c = []" using assms(5) w by (simp_all add: Init_task)
  ultimately show ?thesis using assms(2,4) by (elim disjE) (simp_all add: accounted_def thread_simps)
qed (use assms caller_ok [OF assms(1) _ assms(4)] in \<open>auto simp: accounted_def held_def post_immediate_completion_def
    post_immediate_completions_def post_deferred_completion_def post_deferred_completions_def do_dispatch_def
    work_started_def work_finished_def compensating_work_started_def restart_def Let_def split: if_splits\<close>)

lemma push_accounted:
  assumes "th_todo t = Push ops # acts" "thread_ok t" "wake_one_thread_and_unlock (push_ops ops s) = (s', acts')"
  shows "accounted s t [Queued ops] s' (t\<lparr>th_todo := acts' @ acts\<rparr>)"
  using assms wake_one_accounted [OF assms(3)]
  by (auto simp: accounted_def thread_ok_def thread_simps push_ops_def split: phase.splits)

lemma task_accounted:
  assumes "th_phase t = In_task u" "th_todo t = []" "thread_ok t" "task_returns threw ops s t = (s', t')"
  shows "accounted s t (Completed ops # (if threw then [Threw] else [])) s' t'"
  using assms
  by (cases "0 < private_outstanding_work t") (auto simp: accounted_def thread_ok_def thread_simps task_returns_def task_cleanup_count_def)

lemma handler_accounted:
  assumes "th_phase t = In_handler op" "th_todo t = []" "thread_ok t" "handler_returns threw s t = (s', t')"
  shows "accounted s t (if threw then [Threw] else []) s' t'"
proof -
  obtain s1 acts where w: "work_cleanup_count s t = (s1, acts)" by fastforce
  then have "outstanding_work s1 = outstanding_work s + private_outstanding_work t - 1" "event_state s1 = event_state s"
    "task_made s1 = task_made s" "sched_queue s1 = sched_queue s" "acts = [] \<or> acts = [Stop]"
    using assms(3) by (auto simp: thread_ok_def work_cleanup_count_def work_finished_def Let_def split: if_splits)
  then show ?thesis using assms w by (auto simp: accounted_def handler_returns_def thread_ok_def thread_simps)
qed

definition started_by :: "Thread \<Rightarrow> nat list" where
  "started_by t = (case th_phase t of In_handler op \<Rightarrow> [op] | _ \<Rightarrow> [])"

lemma outcome_effects:
  assumes "section_ok s r" "apply_outcome t r = (s', t')" "private_op_queue t = []" "private_outstanding_work t = 0"
  shows "thread_ok t'" "event_state s' div 2 = event_state s div 2 + waiting t'"
    "tasks_in (sched_queue s) = tasks_in (sched_queue s') + with_task t'" "task_made s' = task_made s" "one_thread s' = one_thread s"
    "ops_of (sched_queue s) = started_by t' @ ops_of (sched_queue s')" "held t' = []" "outstanding_work s' = outstanding_work s"
    "private_outstanding_work t' = 0" "in_handler t' = length (started_by t')" "sched_stopped s' = sched_stopped s"
proof -
  obtain acts oc where r: "r = (s', acts, oc)" "acts = [] \<or> acts = [Signal]"
    using assms(1,2) by (cases r) (auto simp: apply_outcome_def section_ok_def)
  have t': "t' = t\<lparr>th_todo := acts, th_phase := (case oc of Leaves \<Rightarrow> Outside | Sleeps \<Rightarrow> Cond_wait | Runs_task u \<Rightarrow> In_task u | Runs_op op \<Rightarrow> In_handler op)\<rparr>"
    using assms(2) by (simp add: r apply_outcome_def)
  have ok: "section_ok s (s', acts, oc)" using assms(1) by (simp add: r)
  show "thread_ok t'" "held t' = []" "private_outstanding_work t' = 0" "in_handler t' = length (started_by t')"
    using assms(3,4) r(2) by (auto simp: t' thread_ok_def held_def in_handler_def started_by_def split: outcome.splits)
  show "event_state s' div 2 = event_state s div 2 + waiting t'" "tasks_in (sched_queue s) = tasks_in (sched_queue s') + with_task t'"
    "ops_of (sched_queue s) = started_by t' @ ops_of (sched_queue s')"
    using ok by (cases oc; simp add: t' section_ok_def waiting_def with_task_def started_by_def)+
  show "task_made s' = task_made s" "one_thread s' = one_thread s" "outstanding_work s' = outstanding_work s" "sched_stopped s' = sched_stopped s"
    using ok by (simp_all add: section_ok_def)
qed

text \<open>The state in which a critical section starts to look at the queue.\<close>

definition section_state :: "Scheduler \<Rightarrow> Thread \<Rightarrow> Scheduler" where
  "section_state s t =
     (case th_phase t of
        Cond_woken \<Rightarrow> s\<lparr>event_state := event_end_wait (event_state s)\<rparr>
      | Task_done threw \<Rightarrow> task_cleanup s t
      | Handler_done threw \<Rightarrow> work_cleanup s t
      | _ \<Rightarrow> s)"

lemma section_outcome:
  assumes "wants_mutex t" "thread_ok t" "waiting t \<le> event_state s div 2"
  shows "\<exists>r. section_ok (section_state s t) r \<and> critical_section s t = apply_outcome (t\<lparr>private_op_queue := []\<rparr>) r"
proof -
  have [simp]: "t\<lparr>private_op_queue := []\<rparr> = t" if "private_op_queue t = []" using that by simp
  show ?thesis
  proof (cases "th_phase t")
    case At_loop
    then show ?thesis using assms(2) do_one_ok
      by (intro exI [of _ "do_one (th_mode t) s"]) (simp add: critical_section_def section_state_def Let_def thread_ok_def)
  next
    case Cond_woken
    then show ?thesis using assms(2,3) woken_one_ok
      by (intro exI [of _ "woken_one (th_mode t) s"]) (simp add: critical_section_def section_state_def Let_def thread_ok_def waiting_def)
  next
    case (Task_done threw)
    then show ?thesis using after_task_ok
      by (intro exI [of _ "if threw then (task_cleanup s t, [], Leaves) else after_task (th_mode t) (task_cleanup s t)"])
        (simp add: critical_section_def section_state_def Let_def)
  next
    case (Handler_done threw)
    then show ?thesis using do_one_ok
      by (intro exI [of _ "if threw \<or> \<not> loops (th_mode t) then (work_cleanup s t, [], Leaves) else do_one (th_mode t) (work_cleanup s t)"])
        (simp add: critical_section_def section_state_def Let_def)
  qed (use assms(1) in \<open>simp_all add: wants_mutex_def\<close>)
qed

lemma section_state_effects:
  assumes "wants_mutex t" "th_todo t = []" "thread_ok t" "waiting t \<le> event_state s div 2"
  shows "event_state (section_state s t) div 2 + waiting t = event_state s div 2"
    "tasks_in (sched_queue (section_state s t)) = tasks_in (sched_queue s) + with_task t"
    "ops_of (sched_queue (section_state s t)) = ops_of (sched_queue s) @ held t"
    "outstanding_work (section_state s t) = outstanding_work s" "has_task (section_state s t) = has_task s"
    "one_thread (section_state s t) = one_thread s" "sched_stopped (section_state s t) = sched_stopped s"
    "in_handler t = 0" "private_outstanding_work t = 0"
  using assms
  by (auto simp: wants_mutex_def section_state_def thread_ok_def thread_simps task_cleanup_def work_cleanup_def push_ops_def split: phase.splits)

lemma section_events_parts:
  assumes "wants_mutex t" "th_todo t = []" "thread_ok t"
  shows "queued_ops (section_events t t') = held t" "started_ops (section_events t t') = started_by t'"
    "posted_in (section_events t t') = []" "open_work (section_events t t') = 0"
  using assms by (auto simp: wants_mutex_def thread_ok_def held_def section_events_def started_by_def split: phase.splits)

lemma section_accounted:
  assumes "wants_mutex t" "th_todo t = []" "thread_ok t" "critical_section s t = (s', t')" "waiting t \<le> event_state s div 2"
  shows "accounted s t (section_events t t') s' t'"
proof -
  note st = section_state_effects [OF assms(1-3,5)]
  obtain r where r: "section_ok (section_state s t) r" "apply_outcome (t\<lparr>private_op_queue := []\<rparr>) r = (s', t')"
    using section_outcome [OF assms(1,3,5)] assms(4) by auto
  note e = outcome_effects [OF r]
  show ?thesis using st e by (simp add: accounted_def section_events_parts [OF assms(1-3)])
qed

section \<open>Invariants of a run\<close>

definition sched_inv :: "Scheduler \<Rightarrow> Thread list \<Rightarrow> sched_event list \<Rightarrow> bool" where
  "sched_inv s ths tr \<longleftrightarrow>
     (\<forall>t\<in>set ths. thread_ok t) \<and>
     event_state s div 2 = total_of waiting ths \<and>
     tasks_in (sched_queue s) + total_of with_task ths = task_made s \<and>
     queued_ops tr = started_ops tr @ ops_of (sched_queue s) \<and>
     mset (posted_in tr) = mset (queued_ops tr) + total_of (\<lambda>t. mset (held t)) ths \<and>
     outstanding_work s + total_of private_outstanding_work ths =
       total_of (\<lambda>t. int (in_handler t)) ths + int (length (posted_in tr)) - int (length (started_ops tr)) + open_work tr"

lemma sched_invD:
  assumes "sched_inv s ths tr"
  shows "\<And>t. t \<in> set ths \<Longrightarrow> thread_ok t" "event_state s div 2 = total_of waiting ths"
    "tasks_in (sched_queue s) + total_of with_task ths = task_made s" "queued_ops tr = started_ops tr @ ops_of (sched_queue s)"
    "mset (posted_in tr) = mset (queued_ops tr) + total_of (\<lambda>t. mset (held t)) ths"
    "outstanding_work s + total_of private_outstanding_work ths =
       total_of (\<lambda>t. int (in_handler t)) ths + int (length (posted_in tr)) - int (length (started_ops tr)) + open_work tr"
  using assms by (auto simp: sched_inv_def)

lemma accounted_step:
  assumes inv: "sched_inv s ths tr" and i: "i < length ths" and ac: "accounted s (ths ! i) es s' t'"
  shows "sched_inv s' (ths[i := t']) (tr @ es)"
proof -
  note d = sched_invD [OF inv] and up = total_of_update [OF i, where t = t']
  have a: "thread_ok t'" "event_state s' div 2 + waiting (ths ! i) = event_state s div 2 + waiting t'"
    "tasks_in (sched_queue s') + with_task t' + task_made s = tasks_in (sched_queue s) + with_task (ths ! i) + task_made s'"
    "ops_of (sched_queue s) @ queued_ops es = started_ops es @ ops_of (sched_queue s')"
    "mset (held (ths ! i)) + mset (posted_in es) = mset (held t') + mset (queued_ops es)"
    "outstanding_work s' + private_outstanding_work t' + int (in_handler (ths ! i)) = outstanding_work s +
       private_outstanding_work (ths ! i) + int (in_handler t') + int (length (posted_in es)) - int (length (started_ops es)) + open_work es"
    using ac by (simp_all add: accounted_def)
  have "\<forall>t\<in>set (ths[i := t']). thread_ok t" using d(1) a(1) set_update_subset_insert [of ths i t'] by blast
  moreover have "event_state s' div 2 = total_of waiting (ths[i := t'])" using d(2) a(2) up [of waiting] by simp
  moreover have "tasks_in (sched_queue s') + total_of with_task (ths[i := t']) = task_made s'" using d(3) a(3) up [of with_task] by simp
  moreover have "queued_ops (tr @ es) = started_ops (tr @ es) @ ops_of (sched_queue s')" using d(4) a(4) by (simp add: sched_trace_append)
  moreover have "mset (posted_in (tr @ es)) = mset (queued_ops (tr @ es)) + total_of (\<lambda>t. mset (held t)) (ths[i := t'])"
  proof -
    have "total_of (\<lambda>t. mset (held t)) (ths[i := t']) + mset (queued_ops es) + mset (held (ths ! i)) =
        total_of (\<lambda>t. mset (held t)) ths + mset (posted_in es) + mset (held (ths ! i))"
      using up [of "\<lambda>t. mset (held t)"] a(5) by (metis add.assoc add.commute)
    then show ?thesis using d(5) by (simp add: sched_trace_append ac_simps)
  qed
  moreover have "outstanding_work s' + total_of private_outstanding_work (ths[i := t']) = total_of (\<lambda>t. int (in_handler t)) (ths[i := t']) +
      int (length (posted_in (tr @ es))) - int (length (started_ops (tr @ es))) + open_work (tr @ es)"
    using d(6) a(6) up [of private_outstanding_work] up [of "\<lambda>t. int (in_handler t)"] by (simp add: sched_trace_append)
  ultimately show ?thesis by (simp only: sched_inv_def)
qed

lemmas accounted_quiet = accounted_step [where es = "[]", unfolded append_Nil2]

lemma wake_accounted: "thread_ok t \<Longrightarrow> th_phase t = Cond_wait \<Longrightarrow> accounted s t [] s (wake t)"
  by (simp add: accounted_def thread_ok_def wake_def thread_simps)

lemma signal_accounted: "th_todo t = Signal # acts \<Longrightarrow> thread_ok t \<Longrightarrow> accounted s t [] s (t\<lparr>th_todo := acts\<rparr>)"
  by (simp add: accounted_def held_def)

lemma stop_accounted: "th_todo t = Stop # acts \<Longrightarrow> thread_ok t \<Longrightarrow> accounted s t [] (stop_all_threads s) (t\<lparr>th_todo := acts\<rparr>)"
  by (simp add: accounted_def held_def stop_all_threads_def signal_all_def)

lemma cond_broadcast_parts [simp]:
  "waiting (cond_broadcast t) = waiting t" "with_task (cond_broadcast t) = with_task t" "held (cond_broadcast t) = held t" "in_handler (cond_broadcast t) = in_handler t"
  "private_outstanding_work (cond_broadcast t) = private_outstanding_work t" "thread_ok (cond_broadcast t) = thread_ok t" "inside (cond_broadcast t) = inside t"
  by (simp_all add: cond_broadcast_def thread_simps thread_ok_def)

lemma sched_step_inv:
  assumes "sched_step s ths es s' ths'" "sched_inv s ths tr"
  shows "sched_inv s' ths' (tr @ es)"
  using assms
proof cases
  case (enters i m)
  then show ?thesis using accounted_step [OF assms(2)] enter_accounted sched_invD(1) [OF assms(2)] by simp
next
  case (calls i c t')
  then show ?thesis using accounted_step [OF assms(2)] call_accounted sched_invD(1) [OF assms(2)] by simp
next
  case (pushes i ops acts acts')
  then show ?thesis using accounted_step [OF assms(2)] push_accounted sched_invD(1) [OF assms(2)] by simp
next
  case (signals i acts th1 j)
  then have "sched_inv s th1 tr" using accounted_quiet [OF assms(2)] signal_accounted sched_invD(1) [OF assms(2)] by simp
  from accounted_quiet [OF this] sched_invD(1) [OF this] show ?thesis using signals wake_accounted by simp
next
  case (signals_nobody i acts)
  then show ?thesis using accounted_quiet [OF assms(2)] signal_accounted sched_invD(1) [OF assms(2)] by simp
next
  case (stops i acts)
  then have "sched_inv s' (ths[i := (ths ! i)\<lparr>th_todo := acts\<rparr>]) tr"
    using accounted_quiet [OF assms(2)] stop_accounted sched_invD(1) [OF assms(2)] by simp
  then show ?thesis using stops by (simp add: sched_inv_def total_of_def comp_def)
next
  case (wakes j)
  then show ?thesis using accounted_quiet [OF assms(2)] wake_accounted sched_invD(1) [OF assms(2)] by simp
next
  case (sections i t')
  have "waiting (ths ! i) \<le> event_state s div 2"
    using sched_invD(2) [OF assms(2)] sections(3) by (simp add: total_of_def member_le_sum_list)
  then show ?thesis using sections accounted_step [OF assms(2)] section_accounted sched_invD(1) [OF assms(2)] by simp
next
  case (tasks i u threw ops t')
  then show ?thesis using accounted_step [OF assms(2) _ task_accounted] sched_invD(1) [OF assms(2)] by simp
next
  case (handlers i op threw t')
  then show ?thesis using accounted_step [OF assms(2) _ handler_accounted] sched_invD(1) [OF assms(2)] by simp
qed

lemma total_of_start: "f Thread_init = 0 \<Longrightarrow> total_of f (replicate n Thread_init) = 0"
  by (induction n) (simp_all add: total_of_def)

lemma Thread_init_parts [simp]:
  "thread_ok Thread_init" "waiting Thread_init = 0" "with_task Thread_init = 0" "held Thread_init = []" "in_handler Thread_init = 0"
  "private_outstanding_work Thread_init = 0" "inside_count Thread_init = 0" "th_phase Thread_init = Outside"
  by (simp_all add: Thread_init_def thread_ok_def thread_simps inside_count_def)

lemma sched_run_inv: "sched_run one n tr s ths \<Longrightarrow> sched_inv s ths tr"
  by (induction rule: sched_run.induct) (simp add: sched_inv_def Scheduler_init_def total_of_start, rule sched_step_inv)

end
