(* ===== verification/Scheduler_Wakeups.thy ===== *)
theory Scheduler_Wakeups
  imports Scheduler_Runs
begin

text \<open>
  No wake-up is lost: as long as threads only call \<^verbatim>\<open>run\<close> and \<^verbatim>\<open>poll\<close> and handlers throw no exceptions, no thread stays
  asleep beside a non-empty queue unless another one is about to look at it.
\<close>

section \<open>Sleeping and waking\<close>

text \<open>
  A thread is asleep that waits for a signal, or was woken without the event being signalled and will wait again, or is in the task with
  a timeout and not interrupted.  A thread is alert that will look at the queue without anybody's help.
\<close>

definition asleep :: "Scheduler \<Rightarrow> Thread \<Rightarrow> bool" where
  "asleep s t \<longleftrightarrow>
     (case th_phase t of
        Cond_wait \<Rightarrow> True
      | Cond_woken \<Rightarrow> \<not> event_signalled (event_state s)
      | In_task u \<Rightarrow> u \<noteq> 0 \<and> \<not> task_interrupted s
      | _ \<Rightarrow> False)"

definition looks :: "Scheduler \<Rightarrow> Thread \<Rightarrow> bool" where
  "looks s t \<longleftrightarrow>
     (case th_phase t of
        At_loop \<Rightarrow> True
      | Cond_woken \<Rightarrow> event_signalled (event_state s)
      | In_task u \<Rightarrow> u = 0 \<or> task_interrupted s
      | Task_done threw \<Rightarrow> \<not> threw
      | Handler_done threw \<Rightarrow> \<not> threw
      | _ \<Rightarrow> False)"

definition alert :: "Scheduler \<Rightarrow> Thread list \<Rightarrow> Thread \<Rightarrow> bool" where
  "alert s ths t \<longleftrightarrow>
     looks s t \<or> Signal \<in> set (th_todo t) \<and> event_signalled (event_state s) \<and> (\<exists>t'\<in>set ths. th_phase t' = Cond_wait)"

definition stop_inv :: "Scheduler \<Rightarrow> Thread list \<Rightarrow> bool" where
  "stop_inv s ths \<longleftrightarrow>
     (\<not> has_task s \<longrightarrow> task_interrupted s) \<and>
     (sched_stopped s \<longrightarrow> odd (event_state s) \<and> (\<forall>t\<in>set ths. \<not> asleep s t)) \<and>
     (one_thread s \<longrightarrow> total_of inside_count ths \<le> 1)"

lemma ex_update:
  assumes "i < length ths"
  shows "(\<exists>t\<in>set (ths[i := v]). P t) \<longleftrightarrow> P v \<or> (\<exists>j<length ths. j \<noteq> i \<and> P (ths ! j))"
  using assms by (simp add: Bex_def in_set_conv_nth) (metis nth_list_update)

lemma all_update:
  assumes "i < length ths"
  shows "(\<forall>t\<in>set (ths[i := v]). P t) \<longleftrightarrow> P v \<and> (\<forall>j<length ths. j \<noteq> i \<longrightarrow> P (ths ! j))"
  using ex_update [OF assms, of v "\<lambda>t. \<not> P t"] by blast

text \<open>Steps that change only one thread and nothing the others sleep on.\<close>

lemma stop_inv_update:
  assumes "stop_inv s ths" "i < length ths"
    and "has_task s \<longrightarrow> has_task s'" "task_interrupted s \<longrightarrow> task_interrupted s'" "odd (event_state s) \<longrightarrow> odd (event_state s')"
    and "sched_stopped s' \<longrightarrow> sched_stopped s" "one_thread s' = one_thread s"
    and "asleep s' t' \<longrightarrow> asleep s (ths ! i)" "inside_count t' = inside_count (ths ! i)"
  shows "stop_inv s' (ths[i := t'])"
proof -
  have "\<not> asleep s' (ths ! j)" if "\<not> asleep s (ths ! j)" for j
    using that assms(4,5) by (auto simp: asleep_def split: phase.splits)
  then have "sched_stopped s' \<longrightarrow> odd (event_state s') \<and> (\<forall>t\<in>set (ths[i := t']). \<not> asleep s' t)"
    unfolding all_update [OF assms(2)] using assms(1,2,5,6,8) nth_mem by (simp add: stop_inv_def) blast
  moreover have "\<not> has_task s' \<longrightarrow> task_interrupted s'" using assms(1,3,4) by (auto simp: stop_inv_def)
  moreover have "total_of inside_count (ths[i := t']) = total_of inside_count ths"
    using total_of_update [OF assms(2), of inside_count t'] assms(9) by simp
  ultimately show ?thesis using assms(1,7) by (simp add: stop_inv_def)
qed

lemma total_of_two:
  fixes f :: "Thread \<Rightarrow> nat"
  assumes "i < length ths" "j < length ths" "j \<noteq> i" "f Thread_init = 0"
  shows "f (ths ! i) + f (ths ! j) \<le> total_of f ths"
proof -
  have "f (ths ! j) = map f (ths[i := Thread_init]) ! j" using assms by simp
  also have "\<dots> \<le> total_of f (ths[i := Thread_init])" unfolding total_of_def by (rule elem_le_sum_list) (simp add: assms(2))
  finally show ?thesis using total_of_update [OF assms(1), of f Thread_init] assms(4) by simp
qed

lemma others_without_task:
  assumes "sched_inv s ths tr" "i < length ths" "j < length ths" "j \<noteq> i" "0 < tasks_in (sched_queue s) + with_task (ths ! i)"
  shows "with_task (ths ! j) = 0"
proof -
  have "tasks_in (sched_queue s) + total_of with_task ths \<le> 1" using sched_invD(3) [OF assms(1)] by simp
  then show ?thesis using total_of_two [where f = with_task, OF assms(2-4) Thread_init_parts(3)] assms(5) by linarith
qed

lemma others_outside:
  assumes "total_of inside_count ths \<le> 1" "i < length ths" "j < length ths" "j \<noteq> i" "inside (ths ! i)"
  shows "\<not> inside (ths ! j)"
  using total_of_two [OF assms(2-4), of inside_count] assms(1,5) Thread_init_parts(7) by (auto simp: inside_count_def [of "_ ! _"] split: if_splits)

section \<open>Stopping\<close>

lemma section_okD:
  assumes "section_ok s (s', acts, oc)"
  shows "one_thread s' = one_thread s" "has_task s' = has_task s" "sched_stopped s' = sched_stopped s"
    "tasks_in (sched_queue s) = tasks_in (sched_queue s') + (case oc of Runs_task u \<Rightarrow> 1 | _ \<Rightarrow> 0)"
    "sched_stopped s \<Longrightarrow> odd (event_state s) \<Longrightarrow> odd (event_state s')" "sched_stopped s \<Longrightarrow> odd (event_state s) \<Longrightarrow> oc \<noteq> Sleeps"
    "sched_stopped s \<Longrightarrow> odd (event_state s) \<Longrightarrow> oc = Runs_task u \<Longrightarrow> u = 0 \<or> task_interrupted s'"
    "task_interrupted s \<Longrightarrow> task_interrupted s' \<or> (\<exists>u. oc = Runs_task u)"
  using assms by (simp_all add: section_ok_def)

lemma section_state_stop:
  assumes "wants_mutex t" "waiting t \<le> event_state s div 2"
  shows "odd (event_state (section_state s t)) = odd (event_state s)" "task_interrupted s \<longrightarrow> task_interrupted (section_state s t)"
  using assms by (auto simp: wants_mutex_def section_state_def task_cleanup_def work_cleanup_def push_ops_def waiting_def split: phase.splits)

lemma section_stop_inv:
  assumes inv: "sched_inv s ths tr" "stop_inv s ths" and i: "i < length ths" "wants_mutex (ths ! i)" "th_todo (ths ! i) = []"
    and eq: "critical_section s (ths ! i) = (s', t')"
  shows "stop_inv s' (ths[i := t'])"
proof -
  let ?t = "ths ! i"
  have t: "thread_ok ?t" "waiting ?t \<le> event_state s div 2"
    using sched_invD(1,2) [OF inv(1)] i(1) elem_le_sum_list [of i "map waiting ths"] by (simp_all add: total_of_def)
  obtain s1 acts oc where r: "section_ok (section_state s ?t) (s1, acts, oc)"
      "critical_section s ?t = apply_outcome (?t\<lparr>private_op_queue := []\<rparr>) (s1, acts, oc)"
    using section_outcome [OF i(2) t] by (metis prod_cases3)
  note st = section_state_effects [OF i(2,3) t] and st' = section_state_stop [OF i(2) t(2)]
  have s': "s1 = s'" "th_phase t' = (case oc of Leaves \<Rightarrow> Outside | Sleeps \<Rightarrow> Cond_wait | Runs_task u \<Rightarrow> In_task u | Runs_op op \<Rightarrow> In_handler op)"
    using r(2) eq by (auto simp: apply_outcome_def)
  note d = section_okD [OF r(1) [unfolded s'(1)]]
  have ok: "one_thread s' = one_thread s" "has_task s' = has_task s" "sched_stopped s' = sched_stopped s"
    "tasks_in (sched_queue s) + with_task ?t = tasks_in (sched_queue s') + (case oc of Runs_task u \<Rightarrow> 1 | _ \<Rightarrow> 0)"
    using d(1-4) st by simp_all
  have stopped: "odd (event_state s)" "odd (event_state s')" "oc \<noteq> Sleeps" "\<And>u. oc = Runs_task u \<Longrightarrow> u = 0 \<or> task_interrupted s'"
    if "sched_stopped s'" using that d(5-7) st(7) st'(1) ok(3) inv(2) by (auto simp: stop_inv_def)
  have ti: "task_interrupted s \<longrightarrow> task_interrupted s' \<or> (\<exists>u. oc = Runs_task u)" using d(8) st'(2) by blast
  have "\<not> has_task s' \<longrightarrow> task_interrupted s'"
  proof
    assume n: "\<not> has_task s'"
    then have "total_of with_task ths = 0" "tasks_in (sched_queue s) = 0" using sched_invD(3) [OF inv(1)] ok(2) by simp_all
    then have "with_task ?t = 0" using elem_le_sum_list [of i "map with_task ths"] i(1) by (simp add: total_of_def)
    then have "\<not> (\<exists>u. oc = Runs_task u)" using ok(4) \<open>tasks_in (sched_queue s) = 0\<close> by auto
    then show "task_interrupted s'" using n ok(2) ti inv(2) by (auto simp: stop_inv_def)
  qed
  moreover have "\<not> asleep s' t'" if "sched_stopped s'"
    using stopped [OF that] by (auto simp: asleep_def s'(2) split: outcome.split)
  moreover have "\<not> asleep s' (ths ! j)" if "sched_stopped s'" "j < length ths" "j \<noteq> i" for j
  proof -
    have "\<not> asleep s (ths ! j)" using that inv(2) ok(3) by (simp add: stop_inv_def)
    moreover have "task_interrupted s \<longrightarrow> task_interrupted s' \<or> with_task (ths ! j) = 0"
      using ok(4) ti others_without_task [OF inv(1) i(1) that(2,3)] by auto
    ultimately show ?thesis using stopped(2) [OF that(1)] by (auto simp: asleep_def with_task_def split: phase.splits)
  qed
  moreover have "total_of inside_count (ths[i := t']) \<le> 1" if "one_thread s'"
    using that inv(2) ok(1) total_of_update [OF i(1), of inside_count t'] i(2)
    by (auto simp: stop_inv_def inside_count_def inside_def wants_mutex_def split: if_splits phase.splits)
  ultimately show ?thesis using stopped(2) by (simp add: stop_inv_def all_update [OF i(1)])
qed

lemma call_effects:
  assumes "perform_call c s t = (s', t')"
  shows "th_phase t' = th_phase t" "th_mode t' = th_mode t" "has_task s \<longrightarrow> has_task s'" "task_interrupted s \<longrightarrow> task_interrupted s'"
    "odd (event_state s) \<longrightarrow> odd (event_state s')" "sched_stopped s' \<longrightarrow> sched_stopped s" "one_thread s' = one_thread s"
  using assms
  by (cases c; force simp: post_immediate_completion_def post_immediate_completions_def post_deferred_completion_def
      post_deferred_completions_def do_dispatch_def work_started_def work_finished_def compensating_work_started_def restart_def
      init_task_def wake_one_simps Let_def split: if_splits)+

lemma asleep_phase: "th_phase t = th_phase t' \<Longrightarrow> asleep s t = asleep s t'"
  by (simp add: asleep_def)

lemma enter_stop_inv:
  assumes "stop_inv s ths" "i < length ths" "th_phase (ths ! i) = Outside" "one_thread s \<longrightarrow> (\<forall>t\<in>set ths. \<not> inside t)"
  shows "stop_inv s (ths[i := enter_run m s (ths ! i)])"
proof -
  have "total_of inside_count ths = 0" if "one_thread s"
    using that assms(4) by (simp add: total_of_def inside_count_def)
  then have "one_thread s \<longrightarrow> total_of inside_count (ths[i := enter_run m s (ths ! i)]) \<le> 1"
    using total_of_update [OF assms(2), of inside_count "enter_run m s (ths ! i)"] by (auto simp: inside_count_def split: if_splits)
  moreover have "\<not> asleep s (enter_run m s (ths ! i))" using assms(3) by (simp add: enter_run_def asleep_def)
  ultimately show ?thesis using assms(1,2) by (simp add: stop_inv_def all_update)
qed

lemma cond_broadcast_stop_inv:
  assumes "stop_inv s ths"
  shows "stop_inv (stop_all_threads s) (map cond_broadcast ths)"
proof -
  have "\<not> asleep (stop_all_threads s) (cond_broadcast t)" for t
    using assms by (auto simp: stop_inv_def asleep_def cond_broadcast_def stop_all_threads_def signal_all_def split: phase.split)
  moreover have "inside_count (cond_broadcast t) = inside_count t" for t by (simp add: inside_count_def)
  ultimately show ?thesis using assms by (auto simp: stop_inv_def stop_all_threads_def signal_all_def total_of_def comp_def)
qed

lemma sched_step_stop_inv:
  assumes "sched_step s ths es s' ths'" "sched_inv s ths tr" "stop_inv s ths"
  shows "stop_inv s' ths'"
  using assms(1)
proof cases
  case (enters i m)
  then show ?thesis using enter_stop_inv [OF assms(3)] by simp
next
  case (calls i c t')
  note e = call_effects [OF calls(7)]
  show ?thesis unfolding calls(2)
    by (rule stop_inv_update [OF assms(3) calls(3) e(3-7)])
      (use e in \<open>auto simp: asleep_def inside_count_def inside_def split: phase.splits\<close>)
next
  case (pushes i ops acts acts')
  note e = wake_one_accounted [OF pushes(5)]
  show ?thesis unfolding pushes(2)
    by (rule stop_inv_update [OF assms(3) pushes(3)])
      (use e in \<open>auto simp: asleep_def inside_count_def inside_def push_ops_def split: phase.splits\<close>)
next
  case (signals i acts th1 j)
  have "stop_inv s th1" unfolding signals(6)
    by (rule stop_inv_update [OF assms(3) signals(4)]) (auto simp: asleep_def inside_count_def inside_def)
  then show ?thesis unfolding signals(3)
    by (rule stop_inv_update) (use signals in \<open>auto simp: asleep_def inside_count_def inside_def wake_def\<close>)
next
  case (signals_nobody i acts)
  show ?thesis unfolding signals_nobody(2,3)
    by (rule stop_inv_update [OF assms(3) signals_nobody(4)]) (auto simp: asleep_def inside_count_def inside_def)
next
  case (stops i acts)
  have "stop_inv s (ths[i := (ths ! i)\<lparr>th_todo := acts\<rparr>])"
    by (rule stop_inv_update [OF assms(3) stops(4)]) (auto simp: asleep_def inside_count_def inside_def)
  from cond_broadcast_stop_inv [OF this] show ?thesis using stops by simp
next
  case (wakes j)
  show ?thesis unfolding wakes(2,3)
    by (rule stop_inv_update [OF assms(3) wakes(4)]) (use wakes(5) in \<open>auto simp: asleep_def inside_count_def inside_def wake_def\<close>)
next
  case (sections i t')
  then show ?thesis using section_stop_inv [OF assms(2,3)] by simp
next
  case (tasks i u threw ops t')
  have t': "t' = (ths ! i)\<lparr>th_phase := Task_done threw, private_op_queue := private_op_queue (ths ! i) @ ops, private_outstanding_work := 0\<rparr>"
    "s' = task_cleanup_count s (ths ! i)" using tasks(6) by (simp_all add: task_returns_def)
  show ?thesis unfolding tasks(2) t'
    by (rule stop_inv_update [OF assms(3) tasks(3)]) (use tasks(4) in \<open>auto simp: task_cleanup_count_def asleep_def inside_count_def inside_def\<close>)
next
  case (handlers i op threw t')
  show ?thesis unfolding handlers(2)
    by (rule stop_inv_update [OF assms(3) handlers(3)])
      (use handlers(4,6) in \<open>auto simp: handler_returns_def work_cleanup_count_def work_finished_def Let_def asleep_def inside_count_def inside_def
        split: if_splits\<close>)
qed

section \<open>Waking\<close>

definition wake_inv :: "Scheduler \<Rightarrow> Thread list \<Rightarrow> bool" where
  "wake_inv s ths \<longleftrightarrow>
     (\<not> sched_stopped s \<and> sched_queue s \<noteq> [] \<and> (\<exists>t\<in>set ths. asleep s t) \<longrightarrow> (\<exists>t\<in>set ths. alert s ths t))"

lemma asleep_mono:
  assumes "task_interrupted s \<longrightarrow> task_interrupted s'" "odd (event_state s) \<longrightarrow> odd (event_state s')"
  shows "asleep s' t \<Longrightarrow> asleep s t" "looks s t \<Longrightarrow> looks s' t"
  using assms by (auto simp: asleep_def looks_def split: phase.splits)

lemma wake_inv_update:
  assumes inv: "wake_inv s ths" and i: "i < length ths"
    and ti: "task_interrupted s \<longrightarrow> task_interrupted s'" and ev: "odd (event_state s) \<longrightarrow> odd (event_state s')"
    and s': "sched_stopped s' = sched_stopped s" "sched_queue s' \<noteq> [] \<longrightarrow> sched_queue s \<noteq> []"
    and t': "asleep s' t' \<longrightarrow> asleep s (ths ! i)" "looks s (ths ! i) \<longrightarrow> looks s' t'"
      "Signal \<in> set (th_todo (ths ! i)) \<longrightarrow> Signal \<in> set (th_todo t') \<or> (\<forall>t\<in>set ths. th_phase t \<noteq> Cond_wait)"
      "th_phase (ths ! i) = Cond_wait \<longrightarrow> th_phase t' = Cond_wait \<or> th_phase t' = Cond_woken"
  shows "wake_inv s' (ths[i := t'])"
proof -
  have "\<exists>t\<in>set (ths[i := t']). alert s' (ths[i := t']) t"
    if a: "\<not> sched_stopped s'" "sched_queue s' \<noteq> []" "\<exists>t\<in>set (ths[i := t']). asleep s' t"
  proof -
    have "\<exists>t\<in>set ths. asleep s t"
      using a(3) t'(1) asleep_mono(1) [OF ti ev] i nth_mem unfolding ex_update [OF i] by blast
    then obtain j where j: "j < length ths" "alert s ths (ths ! j)"
      using inv a(1,2) s' by (auto simp: wake_inv_def in_set_conv_nth)
    define u where "u = ths[i := t'] ! j"
    have u1: "u \<in> set (ths[i := t'])" using j(1) nth_mem [of j "ths[i := t']"] by (simp add: u_def)
    have u2: "looks s (ths ! j) \<longrightarrow> looks s' u"
      "Signal \<in> set (th_todo (ths ! j)) \<longrightarrow> Signal \<in> set (th_todo u) \<or> (\<forall>t\<in>set ths. th_phase t \<noteq> Cond_wait)"
      using i t'(2,3) asleep_mono(2) [OF ti ev] by (cases "j = i"; simp add: u_def)+
    note u = u1 u2
    show ?thesis
    proof (cases "looks s (ths ! j)")
      case True
      then show ?thesis using u by (auto simp: alert_def)
    next
      case False
      then obtain w where "Signal \<in> set (th_todo u)" "odd (event_state s)" "w \<in> set ths" "th_phase w = Cond_wait"
        using j(2) u(3) by (auto simp: alert_def)
      then obtain k where k: "Signal \<in> set (th_todo u)" "odd (event_state s)" "k < length ths" "th_phase (ths ! k) = Cond_wait"
        by (auto simp: in_set_conv_nth [of w])
      show ?thesis
      proof (cases "th_phase (ths[i := t'] ! k) = Cond_wait")
        case True
        then have "\<exists>t\<in>set (ths[i := t']). th_phase t = Cond_wait" using k(3) nth_mem [of k "ths[i := t']"] by auto
        then show ?thesis using u(1) k(1,2) ev by (auto simp: alert_def)
      next
        case woken: False
        then have "k = i" using k(4) by (metis nth_list_update_neq)
        then have "looks s' t'" using woken i k(2,4) t'(4) ev by (simp add: looks_def)
        then show ?thesis unfolding ex_update [OF i] by (simp add: alert_def)
      qed
    qed
  qed
  then show ?thesis by (auto simp: wake_inv_def)
qed

text \<open>What \<^verbatim>\<open>wake_one_thread_and_unlock\<close> achieves.\<close>

definition roused :: "Scheduler \<Rightarrow> action list \<Rightarrow> bool" where
  "roused s acts \<longleftrightarrow>
     0 < event_state s div 2 \<and> odd (event_state s) \<and> acts = [Signal] \<or> event_state s div 2 = 0 \<and> task_interrupted s"

lemma wake_one_rouses:
  "\<not> has_task s \<longrightarrow> task_interrupted s \<Longrightarrow> wake_one_thread_and_unlock s = (s', acts) \<Longrightarrow> roused s' acts"
  by (auto simp: roused_def wake_one_simps split: if_splits)

lemma roused_wake_inv:
  assumes "roused s acts" "event_state s div 2 = total_of waiting ths" "t \<in> set ths" "set acts \<subseteq> set (th_todo t)"
  shows "wake_inv s ths"
proof (cases "0 < event_state s div 2")
  case True
  have "\<exists>u\<in>set ths. waiting u \<noteq> 0"
  proof (rule ccontr)
    assume "\<not> (\<exists>u\<in>set ths. waiting u \<noteq> 0)"
    then have "total_of waiting ths = 0" by (simp add: total_of_def)
    then show False using True assms(2) by simp
  qed
  then obtain u where u: "u \<in> set ths" "th_phase u = Cond_wait \<or> th_phase u = Cond_woken"
    by (auto simp: waiting_def split: if_splits)
  have "Signal \<in> set (th_todo t)" "odd (event_state s)" using assms(1,4) True by (auto simp: roused_def)
  then have "alert s ths t \<or> alert s ths u" using u by (auto simp: alert_def looks_def)
  then show ?thesis using assms(3) u(1) by (auto simp: wake_inv_def)
next
  case False
  have "\<not> asleep s u" if "u \<in> set ths" for u
  proof -
    have "waiting u = 0" using False assms(2) that by (simp add: total_of_def)
    then show ?thesis using False assms(1) by (auto simp: asleep_def waiting_def roused_def split: phase.splits if_splits)
  qed
  then show ?thesis by (auto simp: wake_inv_def)
qed

text \<open>Every critical section of \<^verbatim>\<open>run\<close> and \<^verbatim>\<open>poll\<close> that leaves operations in the queue sees to it that somebody looks.\<close>

definition section_wakes :: "Scheduler \<times> action list \<times> outcome \<Rightarrow> bool" where
  "section_wakes r \<longleftrightarrow>
     (case r of (s', acts, oc) \<Rightarrow> \<not> sched_stopped s' \<and> sched_queue s' \<noteq> [] \<longrightarrow>
        oc \<noteq> Sleeps \<and> (roused s' acts \<or> oc = Runs_task 0 \<or> one_thread s' \<and> (\<forall>u. oc \<noteq> Runs_task u)))"

lemma start_op_wakes:
  assumes "\<not> has_task s \<longrightarrow> task_interrupted s"
  shows "section_wakes (start_op op q s)"
  using assms wake_one_rouses [of "s\<lparr>sched_queue := q\<rparr>"]
  by (auto simp: section_wakes_def start_op_def Let_def wake_one_simps split: prod.split if_splits)

lemma start_task_wakes: "section_wakes (start_task usec q s)"
  by (auto simp: section_wakes_def start_task_def Let_def unlock_signal_eq)

lemma do_run_one_wakes:
  assumes "\<not> has_task s \<longrightarrow> task_interrupted s"
  shows "section_wakes (do_run_one s)"
  using start_op_wakes [OF assms] start_task_wakes
  by (auto simp: do_run_one_def section_wakes_def [of "(_, [], Leaves)"] section_wakes_def [of "(_, [], Sleeps)"] go_to_sleep_def
      split: list.split sched_op.split)

lemma do_one_wakes:
  assumes "\<not> has_task s \<longrightarrow> task_interrupted s" "loops m"
  shows "section_wakes (do_one m s)"
  using assms do_run_one_wakes [OF assms(1)] start_op_wakes [OF assms(1)]
  by (auto simp: do_one_def loops_def do_poll_one_def section_wakes_def [of "(_, [], _)"] split: run_mode.split list.split sched_op.split)

lemma after_task_wakes:
  assumes "task_interrupted s" "loops m"
  shows "section_wakes (after_task m s)"
proof -
  have "section_wakes (signal_and_leave s)"
    using assms(1) by (auto simp: section_wakes_def signal_and_leave_def maybe_signal_eq roused_def)
  then show ?thesis using assms(2) do_run_one_wakes [of s] start_op_wakes [of s] assms(1)
    by (auto simp: after_task_def loops_def poll_after_task_def section_wakes_def [of "(_, [], _)"] split: run_mode.split list.split sched_op.split)
qed

text \<open>A thread that obeys the restriction.\<close>

definition obeys :: "Thread \<Rightarrow> bool" where
  "obeys t \<longleftrightarrow> (inside t \<longrightarrow> loops (th_mode t)) \<and> (\<forall>threw. th_phase t = Task_done threw \<or> th_phase t = Handler_done threw \<longrightarrow> \<not> threw)"

lemma critical_section_wakes:
  assumes "wants_mutex t" "obeys t" "\<not> has_task s \<longrightarrow> task_interrupted s" "thread_ok t"
    and "th_phase t = Cond_woken \<longrightarrow> odd (event_state s) \<and> 0 < event_state s div 2"
  shows "\<exists>r. section_wakes r \<and> critical_section s t = apply_outcome (t\<lparr>private_op_queue := []\<rparr>) r"
proof -
  have [simp]: "t\<lparr>private_op_queue := []\<rparr> = t" if "private_op_queue t = []" using that by simp
  have m: "loops (th_mode t)" using assms(1,2) by (auto simp: obeys_def inside_def wants_mutex_def)
  show ?thesis
  proof (cases "th_phase t")
    case At_loop
    then show ?thesis using assms(4) do_one_wakes [OF assms(3) m]
      by (intro exI [of _ "do_one (th_mode t) s"]) (simp add: critical_section_def Let_def thread_ok_def)
  next
    case Cond_woken
    have "section_wakes (woken_one (th_mode t) s)"
      using do_run_one_wakes [of "s\<lparr>event_state := event_end_wait (event_state s)\<rparr>"] assms(3,5) Cond_woken m
      by (auto simp: woken_one_def woken_run_one_def Let_def loops_def)
    then show ?thesis using Cond_woken assms(4)
      by (intro exI [of _ "woken_one (th_mode t) s"]) (simp add: critical_section_def Let_def thread_ok_def)
  next
    case (Task_done threw)
    then have "\<not> threw" using assms(2) by (simp add: obeys_def)
    then show ?thesis using after_task_wakes [OF _ m, of "task_cleanup s t"] Task_done
      by (intro exI [of _ "after_task (th_mode t) (task_cleanup s t)"]) (simp add: critical_section_def Let_def task_cleanup_def)
  next
    case (Handler_done threw)
    then have "\<not> threw" using assms(2) by (simp add: obeys_def)
    then show ?thesis using do_one_wakes [OF _ m, of "work_cleanup s t"] Handler_done m assms(3)
      by (intro exI [of _ "do_one (th_mode t) (work_cleanup s t)"])
        (simp add: critical_section_def Let_def work_cleanup_def push_ops_def)
  qed (use assms(1) in \<open>simp_all add: wants_mutex_def\<close>)
qed

lemma section_one_thread:
  assumes "wants_mutex t" "th_todo t = []" "thread_ok t" "waiting t \<le> event_state s div 2" "critical_section s t = (s', t')"
  shows "one_thread s' = one_thread s"
proof -
  obtain r where "section_ok (section_state s t) r" "apply_outcome (t\<lparr>private_op_queue := []\<rparr>) r = (s', t')"
    using section_outcome [OF assms(1,3,4)] assms(5) by auto
  from outcome_effects(5) [OF this] section_state_effects(6,9) [OF assms(1-4)] show ?thesis by simp
qed

lemma section_wake_inv:
  assumes inv: "sched_inv s ths tr" "stop_inv s ths" "wake_inv s ths" "obeys (ths ! i)"
    and i: "i < length ths" "wants_mutex (ths ! i)" "th_todo (ths ! i) = []" and eq: "critical_section s (ths ! i) = (s', t')"
  shows "wake_inv s' (ths[i := t'])"
proof (cases "th_phase (ths ! i) = Cond_woken \<and> even (event_state s)")
  case True
  have w: "0 < event_state s div 2"
    using sched_invD(2) [OF inv(1)] i(1) True elem_le_sum_list [of i "map waiting ths"] by (simp add: total_of_def waiting_def)
  then have "event_begin_wait (event_end_wait (event_state s)) = event_state s"
    by (auto simp: event_begin_wait_def event_end_wait_def)
  then have "s' = s" "t' = (ths ! i)\<lparr>th_todo := [], th_phase := Cond_wait\<rparr>"
    using True w eq inv(4)
    by (auto simp: critical_section_def woken_one_def woken_run_one_def Let_def apply_outcome_def obeys_def inside_def loops_def split: run_mode.splits)
  then show ?thesis using True i by (auto intro!: wake_inv_update [OF inv(3)] simp: asleep_def looks_def)
next
  case False
  let ?ths = "ths[i := t']"
  have t: "thread_ok (ths ! i)" "waiting (ths ! i) \<le> event_state s div 2"
    using sched_invD(1,2) [OF inv(1)] i(1) elem_le_sum_list [of i "map waiting ths"] by (simp_all add: total_of_def)
  have "\<not> has_task s \<longrightarrow> task_interrupted s" "th_phase (ths ! i) = Cond_woken \<longrightarrow> odd (event_state s) \<and> 0 < event_state s div 2"
    using inv(2) False t(2) by (auto simp: stop_inv_def waiting_def)
  then obtain s1 acts oc where r: "section_wakes (s1, acts, oc)" "(s', t') = apply_outcome ((ths ! i)\<lparr>private_op_queue := []\<rparr>) (s1, acts, oc)"
    using critical_section_wakes [OF i(2) inv(4) _ t(1), of s] unfolding eq by (metis prod_cases3)
  then have s1: "s1 = s'" and t': "th_todo t' = acts"
      "th_phase t' = (case oc of Leaves \<Rightarrow> Outside | Sleeps \<Rightarrow> Cond_wait | Runs_task u \<Rightarrow> In_task u | Runs_op op \<Rightarrow> In_handler op)"
    by (auto simp: apply_outcome_def)
  have mem: "t' \<in> set ?ths" using i(1) by (rule set_update_memI)
  consider "sched_stopped s' \<or> sched_queue s' = []" | "oc \<noteq> Sleeps" "roused s' acts" | "oc = Runs_task 0"
    | "oc \<noteq> Sleeps" "one_thread s'" "\<forall>u. oc \<noteq> Runs_task u"
    using r(1) by (auto simp: section_wakes_def s1)
  then show ?thesis
  proof cases
    case 2
    have "event_state s' div 2 = total_of waiting ?ths"
      using sched_invD(2) [OF accounted_step [OF inv(1) i(1) section_accounted [OF i(2,3) t(1) eq t(2)]]] .
    from roused_wake_inv [OF 2(2) this mem] show ?thesis by (simp add: t'(1))
  next
    case 3
    then have "alert s' ?ths t'" using t'(2) by (simp add: alert_def looks_def)
    then show ?thesis using mem by (auto simp: wake_inv_def)
  next
    case 4
    have "inside (ths ! i)" using i(2) by (auto simp: wants_mutex_def inside_def)
    moreover have "total_of inside_count ths \<le> 1"
      using inv(2) 4(2) section_one_thread [OF i(2,3) t eq] by (simp add: stop_inv_def)
    ultimately have "\<not> asleep s' (ths ! j)" if "j < length ths" "j \<noteq> i" for j
      using others_outside [OF _ i(1) that] by (auto simp: asleep_def inside_def split: phase.splits)
    moreover have "\<not> asleep s' t'" using 4 t'(2) by (auto simp: asleep_def split: outcome.split)
    ultimately have "\<not> (\<exists>t\<in>set ?ths. asleep s' t)" unfolding ex_update [OF i(1)] by blast
    then show ?thesis by (simp add: wake_inv_def)
  qed (auto simp: wake_inv_def)
qed

section \<open>Runs without exceptions and single-operation calls\<close>

definition allowed :: "sched_event \<Rightarrow> bool" where
  "allowed e \<longleftrightarrow> (case e of Entered m \<Rightarrow> loops m | Threw \<Rightarrow> False | _ \<Rightarrow> True)"

lemma obeys_parts [simp]:
  "obeys (t\<lparr>th_todo := acts\<rparr>) = obeys t" "obeys (cond_broadcast t) = obeys t" "th_phase t = Cond_wait \<Longrightarrow> obeys (wake t) = obeys t"
  by (auto simp: obeys_def inside_def cond_broadcast_def wake_def)

lemma section_obeys:
  assumes "critical_section s t = (s', t')" "wants_mutex t" "obeys t"
  shows "obeys t'"
  using assms
  by (auto simp: critical_section_def Let_def wants_mutex_def apply_outcome_def obeys_def inside_def split: phase.splits prod.splits outcome.splits)

lemma sched_step_obeys:
  assumes "sched_step s ths es s' ths'" "\<forall>t\<in>set ths. obeys t" "\<forall>e\<in>set es. allowed e"
  shows "\<forall>t\<in>set ths'. obeys t"
proof -
  have o: "\<forall>t\<in>set (ths[i := t']). obeys t" if "obeys t'" for i t'
    using that assms(2) set_update_subset_insert [of ths i t'] by blast
  from assms(1) show ?thesis
  proof cases
    case (enters i m)
    have "obeys (enter_run m s (ths ! i))" using enters assms(3) by (auto simp: obeys_def enter_run_def inside_def allowed_def)
    then show ?thesis using o enters by simp
  next
    case (calls i c t')
    have "obeys (ths ! i)" using calls(3) assms(2) by simp
    then have "obeys t'" using call_effects(1,2) [OF calls(7)] by (auto simp: obeys_def inside_def)
    then show ?thesis using o calls by simp
  next
    case (signals i acts th1 j)
    have th1: "\<forall>t\<in>set th1. obeys t" using o [of "(ths ! i)\<lparr>th_todo := acts\<rparr>" i] signals assms(2) by simp
    then have "obeys (wake (th1 ! j))" using signals by simp
    then show ?thesis using th1 signals(3) set_update_subset_insert [of th1 j "wake (th1 ! j)"] by blast
  next
    case (stops i acts)
    have "\<forall>t\<in>set (ths[i := (ths ! i)\<lparr>th_todo := acts\<rparr>]). obeys t" using o [of "(ths ! i)\<lparr>th_todo := acts\<rparr>" i] stops assms(2) by simp
    then show ?thesis using stops(3) by simp
  next
    case (wakes j)
    then show ?thesis using o [of "wake (ths ! j)" j] assms(2) by simp
  next
    case (sections i t')
    then show ?thesis using o [of t' i] section_obeys [OF sections(6)] assms(2) by simp
  next
    case (tasks i u threw ops t')
    have "obeys t'" using tasks assms(2,3) nth_mem [OF tasks(3)] by (auto simp: task_returns_def obeys_def inside_def allowed_def split: if_splits)
    then show ?thesis using o tasks by simp
  next
    case (handlers i op threw t')
    have "obeys t'" using handlers assms(2,3) nth_mem [OF handlers(3)]
      by (auto simp: handler_returns_def obeys_def inside_def allowed_def split: if_splits prod.splits)
    then show ?thesis using o handlers by simp
  next
    case (pushes i ops acts acts')
    then show ?thesis using o [of "(ths ! i)\<lparr>th_todo := acts' @ acts\<rparr>" i] assms(2) by simp
  next
    case (signals_nobody i acts)
    then show ?thesis using o [of "(ths ! i)\<lparr>th_todo := acts\<rparr>" i] assms(2) by simp
  qed
qed

lemma call_keeps:
  assumes "perform_call c s t = (s', t')" "c \<noteq> Init_task" "c \<noteq> Restart"
  shows "sched_stopped s' = sched_stopped s" "sched_queue s' = sched_queue s"
  using assms
  by (cases c; force simp: post_immediate_completion_def post_immediate_completions_def do_dispatch_def work_started_def work_finished_def Let_def
      split: if_splits)+

lemma call_wake_inv:
  assumes inv: "sched_inv s ths tr" "stop_inv s ths" "wake_inv s ths" and i: "i < length ths" "may_call (ths ! i)" "th_todo (ths ! i) = []"
    and c: "c = Compensate \<longrightarrow> inside (ths ! i)" "perform_call c s (ths ! i) = (s', t')"
  shows "wake_inv s' (ths[i := t'])"
proof -
  note e = call_effects [OF c(2)]
  have t': "asleep s' t' \<longrightarrow> asleep s (ths ! i)" "looks s (ths ! i) \<longrightarrow> looks s' t'"
    using e(1,4,5) by (auto simp: asleep_def looks_def split: phase.splits)
  consider (roused) acts where "roused s' acts" "th_todo t' = acts"
    | (restart) "sched_stopped s" "s' = restart s" "t' = ths ! i"
    | (same) "sched_stopped s' = sched_stopped s" "sched_queue s' = sched_queue s"
  proof (cases c)
    case Init_task
    show thesis
    proof (cases "\<not> sched_shutdown s \<and> \<not> has_task s")
      case True
      let ?s = "s\<lparr>has_task := True, sched_queue := sched_queue s @ [Task_op]\<rparr>"
      obtain acts where "wake_one_thread_and_unlock ?s = (s', acts)" "th_todo t' = acts"
        using c(2) True by (auto simp: Init_task init_task_def split: prod.splits)
      then show thesis using wake_one_rouses [of ?s s' acts] roused by simp
    next
      case False
      then have "s' = s" using c(2) by (auto simp: Init_task init_task_def split: if_splits)
      then show thesis using same by simp
    qed
  next
    case Restart
    then show thesis using c(2) restart same by (cases "sched_stopped s") (auto simp: restart_def)
  qed (rule same; use call_keeps [OF c(2)] in simp)+
  then show ?thesis
  proof cases
    case roused
    have "event_state s' div 2 = total_of waiting (ths[i := t'])"
      using sched_invD(2) [OF accounted_step [OF inv(1) i(1) call_accounted [OF i(2,3) c(1) _ c(2)]]] sched_invD(1) [OF inv(1)] i(1) by simp
    from roused_wake_inv [OF roused(1) this set_update_memI [OF i(1)]] roused(2) show ?thesis by simp
  next
    case restart
    then have "asleep s' t \<longleftrightarrow> asleep s t" for t by (simp add: restart_def asleep_def split: phase.split)
    then show ?thesis using inv(2) i(1) restart by (simp add: stop_inv_def wake_inv_def)
  next
    case same
    show ?thesis by (rule wake_inv_update [OF inv(3) i(1) e(4,5) same(1) _ t']) (use same i(3) e(1) in auto)
  qed
qed

lemma signal_wake_inv:
  assumes inv: "wake_inv s ths" and i: "i < length ths" "ths1 = ths[i := (ths ! i)\<lparr>th_todo := acts\<rparr>]"
    and j: "j < length ths" "th_phase (ths1 ! j) = Cond_wait"
  shows "wake_inv s (ths1[j := wake (ths1 ! j)])"
proof (cases "odd (event_state s)")
  case True
  then have "alert s ths2 (wake (ths1 ! j))" for ths2 by (simp add: alert_def looks_def wake_def)
  then show ?thesis using set_update_memI [of j ths1] i(2) j(1) by (auto simp: wake_inv_def)
next
  case False
  let ?ths = "ths1[j := wake (ths1 ! j)]"
  have ph: "th_phase (?ths ! k) = (if k = j then Cond_woken else th_phase (ths ! k))" "th_phase (ths1 ! k) = th_phase (ths ! k)"
    if "k < length ths" for k using that i j by (auto simp: nth_list_update wake_def)
  have "\<exists>t\<in>set ?ths. alert s ?ths t" if a: "\<not> sched_stopped s" "sched_queue s \<noteq> []" 
  proof -
    have "asleep s (ths ! j)" using ph(2) [OF j(1)] j(2) by (simp add: asleep_def)
    then have "\<exists>t\<in>set ths. looks s t" using inv a False j(1) nth_mem [OF j(1)] by (auto simp: wake_inv_def alert_def)
    then obtain k where k: "k < length ths" "looks s (ths ! k)" by (metis in_set_conv_nth)
    then have "k \<noteq> j" using ph(2) [OF j(1)] j(2) by (auto simp: looks_def)
    then have "looks s (?ths ! k)" using k ph(1) [OF k(1)] by (simp add: looks_def)
    then show ?thesis using k(1) i(2) nth_mem [of k ?ths] by (auto simp: alert_def)
  qed
  then show ?thesis by (auto simp: wake_inv_def)
qed

lemma sched_step_wake_inv:
  assumes "sched_step s ths es s' ths'" "sched_inv s ths tr" "stop_inv s ths" "wake_inv s ths" "\<forall>t\<in>set ths. obeys t" "\<forall>e\<in>set es. allowed e"
  shows "wake_inv s' ths'"
  using assms(1)
proof cases
  case (enters i m)
  show ?thesis unfolding enters(2,3)
    by (rule wake_inv_update [OF assms(4) enters(4)]) (use enters in \<open>auto simp: enter_run_def asleep_def looks_def\<close>)
next
  case (calls i c t')
  then show ?thesis using call_wake_inv [OF assms(2-4)] by simp
next
  case (pushes i ops acts acts')
  have "\<not> has_task (push_ops ops s) \<longrightarrow> task_interrupted (push_ops ops s)" using assms(3) by (simp add: stop_inv_def push_ops_def)
  note r = wake_one_rouses [OF this pushes(5)]
  have "event_state s' div 2 = total_of waiting ths'"
    using sched_invD(2) [OF sched_step_inv [OF assms(1,2)]] .
  from roused_wake_inv [OF r this] set_update_memI [OF pushes(3)] show ?thesis unfolding pushes(2) by fastforce
next
  case (signals i acts th1 j)
  then show ?thesis using signal_wake_inv [OF assms(4) signals(4,6,7,8)] by simp
next
  case (signals_nobody i acts)
  show ?thesis unfolding signals_nobody(2,3)
    by (rule wake_inv_update [OF assms(4) signals_nobody(4)]) (use signals_nobody(6) in \<open>auto simp: asleep_def looks_def\<close>)
next
  case (stops i acts)
  then show ?thesis by (simp add: wake_inv_def stop_all_threads_def)
next
  case (wakes j)
  show ?thesis unfolding wakes(2,3)
    by (rule wake_inv_update [OF assms(4) wakes(4)]) (use wakes(5) in \<open>auto simp: asleep_def looks_def wake_def\<close>)
next
  case (sections i t')
  then show ?thesis using section_wake_inv [OF assms(2-4)] assms(5) by simp
next
  case (tasks i u threw ops t')
  have "\<not> threw" using tasks(1) assms(6) by (auto simp: allowed_def)
  moreover have "t' = (ths ! i)\<lparr>th_phase := Task_done threw, private_op_queue := private_op_queue (ths ! i) @ ops, private_outstanding_work := 0\<rparr>"
    "s' = task_cleanup_count s (ths ! i)" using tasks(6) by (simp_all add: task_returns_def)
  ultimately show ?thesis unfolding tasks(2)
    by (intro wake_inv_update [OF assms(4) tasks(3)]) (use tasks(4) in \<open>auto simp: task_cleanup_count_def asleep_def looks_def\<close>)
next
  case (handlers i op threw t')
  show ?thesis unfolding handlers(2)
    by (rule wake_inv_update [OF assms(4) handlers(3)])
      (use handlers(4,5,6) in \<open>auto simp: handler_returns_def work_cleanup_count_def work_finished_def Let_def asleep_def looks_def split: if_splits\<close>)
qed

lemma sched_run_stop_inv: "sched_run one n tr s ths \<Longrightarrow> stop_inv s ths"
proof (induction rule: sched_run.induct)
  case start
  then show ?case by (auto simp: stop_inv_def Scheduler_init_def total_of_start)
next
  case (step tr s ths es s' ths')
  then show ?case using sched_step_stop_inv sched_run_inv by blast
qed

lemma sched_run_wake_inv:
  "sched_run one n tr s ths \<Longrightarrow> \<forall>e\<in>set tr. allowed e \<Longrightarrow> wake_inv s ths \<and> (\<forall>t\<in>set ths. obeys t)"
proof (induction rule: sched_run.induct)
  case start
  then show ?case by (auto simp: wake_inv_def Scheduler_init_def obeys_def inside_def)
next
  case (step tr s ths es s' ths')
  then have "wake_inv s ths \<and> (\<forall>t\<in>set ths. obeys t)" "\<forall>e\<in>set es. allowed e" by auto
  then show ?case
    using sched_step_wake_inv [OF step(2) sched_run_inv [OF step(1)] sched_run_stop_inv [OF step(1)]] sched_step_obeys [OF step(2)] by blast
qed

section \<open>Examples\<close>

text \<open>Two threads: one in \<^verbatim>\<open>run\<close>, one that posts operations and calls \<^verbatim>\<open>run_one\<close>.\<close>

definition ex_sched :: "nat \<Rightarrow> int \<Rightarrow> sched_op list \<Rightarrow> Scheduler" where
  "ex_sched st w q = (Scheduler_init False)\<lparr>event_state := st, outstanding_work := w, sched_queue := q\<rparr>"

definition ex_thread :: "run_mode \<Rightarrow> phase \<Rightarrow> action list \<Rightarrow> Thread" where
  "ex_thread m p acts = Thread_init\<lparr>th_mode := m, th_phase := p, th_todo := acts\<rparr>"

lemmas ex_simps = ex_sched_def ex_thread_def Scheduler_init_def Thread_init_def inside_def may_call_def wants_mutex_def enter_run_def
  critical_section_def apply_outcome_def do_one_def do_run_one_def go_to_sleep_def event_clear_def event_begin_wait_def unset_bit_0
  start_op_def work_cleanup_def push_ops_def wake_one_simps interrupt_task_def Let_def section_events_def loops_def
  post_immediate_completion_def work_started_def handler_returns_def work_cleanup_count_def count_op_def

abbreviation idle :: Thread where
  "idle \<equiv> ex_thread Run Outside []"

lemma ex_start: "sched_run False 2 [] (ex_sched 0 0 []) [idle, idle]"
proof -
  have "Scheduler_init False = ex_sched 0 0 []" "replicate 2 Thread_init = [idle, idle]"
    by (simp_all add: ex_sched_def ex_thread_def Scheduler_init_def Thread_init_def numeral_2_eq_2)
  then show ?thesis using sched_run.start [of False 2] by simp
qed

lemma ex_sleeping_run:
  "sched_run False 2 [Work 1, Entered Run, Posted [7], Queued [7]] (ex_sched 3 2 [Op 7])
     [ex_thread Run Cond_wait [], ex_thread Run Outside [Signal]]"
proof -
  have "sched_step (ex_sched 0 0 []) [idle, idle] [Work 1] (ex_sched 0 1 []) [idle, idle]"
    using sched_step.calls [of 1 "[idle, idle]" Work_started "ex_sched 0 0 []"] by (simp add: ex_simps)
  from sched_run.step [OF ex_start this] have 1: "sched_run False 2 [Work 1] (ex_sched 0 1 []) [idle, idle]" by simp
  have "sched_step (ex_sched 0 1 []) [idle, idle] [Entered Run] (ex_sched 0 1 []) [ex_thread Run At_loop [], idle]"
    using sched_step.enters [of 0 "[idle, idle]" "ex_sched 0 1 []" Run] by (simp add: ex_simps)
  from sched_run.step [OF 1 this] have 2: "sched_run False 2 [Work 1, Entered Run] (ex_sched 0 1 []) [ex_thread Run At_loop [], idle]" by simp
  have "sched_step (ex_sched 0 1 []) [ex_thread Run At_loop [], idle] [] (ex_sched 2 1 []) [ex_thread Run Cond_wait [], idle]"
    using sched_step.sections [of 0 "[ex_thread Run At_loop [], idle]" "ex_sched 0 1 []"] by (simp add: ex_simps numeral_2_eq_2)
  from sched_run.step [OF 2 this] have 3: "sched_run False 2 [Work 1, Entered Run] (ex_sched 2 1 []) [ex_thread Run Cond_wait [], idle]" by simp
  have "sched_step (ex_sched 2 1 []) [ex_thread Run Cond_wait [], idle] [Posted [7]]
      (ex_sched 2 2 []) [ex_thread Run Cond_wait [], ex_thread Run Outside [Push [7]]]"
    using sched_step.calls [of 1 "[ex_thread Run Cond_wait [], idle]" "Post_immediate 7 False" "ex_sched 2 1 []"] by (simp add: ex_simps)
  from sched_run.step [OF 3 this] have 4: "sched_run False 2 [Work 1, Entered Run, Posted [7]]
      (ex_sched 2 2 []) [ex_thread Run Cond_wait [], ex_thread Run Outside [Push [7]]]" by simp
  have "sched_step (ex_sched 2 2 []) [ex_thread Run Cond_wait [], ex_thread Run Outside [Push [7]]] [Queued [7]]
      (ex_sched 3 2 [Op 7]) [ex_thread Run Cond_wait [], ex_thread Run Outside [Signal]]"
    using sched_step.pushes [of 1 "[ex_thread Run Cond_wait [], ex_thread Run Outside [Push [7]]]" "[7]" "[]" "ex_sched 2 2 []"]
    by (simp add: ex_simps)
  from sched_run.step [OF 4 this] show ?thesis by simp
qed

lemma ex_handler_run:
  "sched_run False 2 [Posted [a], Queued [a], Entered Run_one, Started a] (ex_sched 1 1 []) [idle, ex_thread Run_one (In_handler a) []]"
proof -
  have "sched_step (ex_sched 0 0 []) [idle, idle] [Posted [a]] (ex_sched 0 1 []) [idle, ex_thread Run Outside [Push [a]]]"
    using sched_step.calls [of 1 "[idle, idle]" "Post_immediate a False" "ex_sched 0 0 []"] by (simp add: ex_simps)
  from sched_run.step [OF ex_start this] have 1: "sched_run False 2 [Posted [a]] (ex_sched 0 1 []) [idle, ex_thread Run Outside [Push [a]]]" by simp
  have "sched_step (ex_sched 0 1 []) [idle, ex_thread Run Outside [Push [a]]] [Queued [a]] (ex_sched 1 1 [Op a]) [idle, idle]"
    using sched_step.pushes [of 1 "[idle, ex_thread Run Outside [Push [a]]]" "[a]" "[]" "ex_sched 0 1 []"] by (simp add: ex_simps)
  from sched_run.step [OF 1 this] have 2: "sched_run False 2 [Posted [a], Queued [a]] (ex_sched 1 1 [Op a]) [idle, idle]" by simp
  have "sched_step (ex_sched 1 1 [Op a]) [idle, idle] [Entered Run_one] (ex_sched 1 1 [Op a]) [idle, ex_thread Run_one At_loop []]"
    using sched_step.enters [of 1 "[idle, idle]" "ex_sched 1 1 [Op a]" Run_one] by (simp add: ex_simps)
  from sched_run.step [OF 2 this] have 3: "sched_run False 2 [Posted [a], Queued [a], Entered Run_one] (ex_sched 1 1 [Op a])
      [idle, ex_thread Run_one At_loop []]" by simp
  have "sched_step (ex_sched 1 1 [Op a]) [idle, ex_thread Run_one At_loop []] [Started a] (ex_sched 1 1 []) [idle, ex_thread Run_one (In_handler a) []]"
    using sched_step.sections [of 1 "[idle, ex_thread Run_one At_loop []]" "ex_sched 1 1 [Op a]"] by (simp add: ex_simps)
  from sched_run.step [OF 3 this] show ?thesis by simp
qed

lemma ex_handler_beside_sleeper:
  "sched_run False 2 [Posted [a], Queued [a], Entered Run_one, Started a, Entered Run] (ex_sched 2 1 [])
     [ex_thread Run Cond_wait [], ex_thread Run_one (In_handler a) []]"
proof -
  have "sched_step (ex_sched 1 1 []) [idle, ex_thread Run_one (In_handler a) []] [Entered Run] (ex_sched 1 1 [])
      [ex_thread Run At_loop [], ex_thread Run_one (In_handler a) []]"
    using sched_step.enters [of 0 "[idle, ex_thread Run_one (In_handler a) []]" "ex_sched 1 1 []" Run] by (simp add: ex_simps)
  from sched_run.step [OF ex_handler_run this] have 5: "sched_run False 2 [Posted [a], Queued [a], Entered Run_one, Started a, Entered Run] (ex_sched 1 1 [])
      [ex_thread Run At_loop [], ex_thread Run_one (In_handler a) []]" by simp
  have "sched_step (ex_sched 1 1 []) [ex_thread Run At_loop [], ex_thread Run_one (In_handler a) []] [] (ex_sched 2 1 [])
      [ex_thread Run Cond_wait [], ex_thread Run_one (In_handler a) []]"
    using sched_step.sections [of 0 "[ex_thread Run At_loop [], ex_thread Run_one (In_handler a) []]" "ex_sched 1 1 []"]
    by (simp add: ex_simps numeral_2_eq_2)
  from sched_run.step [OF 5 this] show ?thesis by simp
qed

section \<open>Properties\<close>

text \<open>
  C33: No wake-up is lost: in every run of any number of threads in which they call only \<^verbatim>\<open>run\<close> and \<^verbatim>\<open>poll\<close> and nothing throws an exception, a thread is asleep only
  while the scheduler is not stopped, and then either no operation is queued or some thread is about to look at the
  queue without being woken by anybody else, or about to wake a sleeping one.
\<close>

theorem scheduler_no_lost_wakeup:
  assumes "sched_run one n tr s ths" "\<forall>e\<in>set tr. allowed e" "t \<in> set ths" "asleep s t"
  shows "\<not> sched_stopped s \<and> (sched_queue s = [] \<or> (\<exists>u\<in>set ths. alert s ths u))"
  using sched_run_stop_inv [OF assms(1)] sched_run_wake_inv [OF assms(1,2)] assms(3,4) by (auto simp: stop_inv_def wake_inv_def)

theorem scheduler_no_lost_wakeup_witness:
  "\<exists>tr s ths t. sched_run False 2 tr s ths \<and> t \<in> set ths \<and> asleep s t \<and> sched_queue s = [Op 7] \<and> (\<exists>u\<in>set ths. alert s ths u)"
proof -
  have "\<forall>e\<in>set [Work 1, Entered Run, Posted [7], Queued [7]]. allowed e" by (simp add: allowed_def loops_def)
  moreover have "asleep (ex_sched 3 2 [Op 7]) (ex_thread Run Cond_wait [])" by (simp add: asleep_def ex_thread_def)
  ultimately show ?thesis
    using scheduler_no_lost_wakeup [OF ex_sleeping_run, of "ex_thread Run Cond_wait []"] ex_sleeping_run by (fastforce simp: ex_sched_def)
qed

text \<open>
  C34: Every operation is run once and in order: in every run, whatever the run functions and exceptions, the
  operations started so far followed by those queued are the operations put into the queue, in that order; each posted or completed
  operation has been put into the queue once or is still held by one thread; and the task is in the queue or with one thread, never with two.
\<close>

theorem scheduler_runs_each_once:
  assumes "sched_run one n tr s ths"
  shows "queued_ops tr = started_ops tr @ ops_of (sched_queue s) \<and>
    mset (posted_in tr) = mset (queued_ops tr) + (\<Sum>t\<leftarrow>ths. mset (held t)) \<and>
    tasks_in (sched_queue s) + (\<Sum>t\<leftarrow>ths. with_task t) = (if has_task s then 1 else 0)"
  using sched_invD(3-5) [OF sched_run_inv [OF assms]] by (simp add: total_of_def)

theorem scheduler_runs_each_once_witness:
  "\<exists>tr s ths. sched_run False 2 tr s ths \<and> queued_ops tr = started_ops tr @ [7] \<and> mset (posted_in tr) = mset (queued_ops tr)"
  using scheduler_runs_each_once [OF ex_sleeping_run] ex_sleeping_run
  by (fastforce simp: ex_sched_def ex_thread_def Thread_init_def held_def)

lemma sum_list_of_nat_lengths: "int (\<Sum>t\<leftarrow>ts. length (held t)) = (\<Sum>t\<leftarrow>ts. int (length (held t)))"
  by (induction ts) simp_all

text \<open>
  C36: The count of outstanding work is exact: in every run \<^verbatim>\<open>outstanding_work_\<close> and the work the threads have not yet
  added to it are the operations queued, held and running, and the work started whose operation is not completed.
\<close>

theorem scheduler_counts_work:
  assumes "sched_run one n tr s ths"
  shows "outstanding_work s + (\<Sum>t\<leftarrow>ths. private_outstanding_work t) =
    int (length (ops_of (sched_queue s))) + (\<Sum>t\<leftarrow>ths. int (length (held t)) + int (in_handler t)) + open_work tr"
proof -
  note d = sched_invD [OF sched_run_inv [OF assms]]
  have "size (\<Sum>t\<leftarrow>xs. mset (held t)) = (\<Sum>t\<leftarrow>xs. length (held t))" for xs by (induction xs) simp_all
  then have "length (posted_in tr) = length (started_ops tr) + length (ops_of (sched_queue s)) + (\<Sum>t\<leftarrow>ths. length (held t))"
    using arg_cong [OF d(5), of size] d(4) by (simp add: total_of_def)
  then have p: "int (length (posted_in tr)) = int (length (started_ops tr)) + int (length (ops_of (sched_queue s))) + (\<Sum>t\<leftarrow>ths. int (length (held t)))"
    using sum_list_of_nat_lengths [of ths] by simp
  have "(\<Sum>t\<leftarrow>ths. int (length (held t)) + int (in_handler t)) = (\<Sum>t\<leftarrow>ths. int (length (held t))) + (\<Sum>t\<leftarrow>ths. int (in_handler t))"
    by (rule sum_list_addf)
  then show ?thesis using d(6) p by (simp add: total_of_def)
qed

theorem scheduler_counts_work_witness:
  "\<exists>tr s ths. sched_run False 2 tr s ths \<and> ops_of (sched_queue s) = [7] \<and> open_work tr = 1 \<and> outstanding_work s = 2"
  using scheduler_counts_work [OF ex_sleeping_run] ex_sleeping_run
  by (intro exI conjI) (assumption, simp_all add: ex_sched_def ex_thread_def Thread_init_def held_def in_handler_def open_work_def)

lemma run_one_continuation:
  assumes "i < length ths" "th_mode (ths ! i) = Run_one" "th_phase (ths ! i) = In_handler a" "th_todo (ths ! i) = []"
    and "private_op_queue (ths ! i) = []" "private_outstanding_work (ths ! i) = 0" and "sched_queue s = []" "\<not> sched_stopped s"
    and "sched_run one n tr s ths"
  shows "\<exists>t1 s2 t2 s3 t3. post_immediate_completion b True s (ths ! i) = (s, t1) \<and> handler_returns False s t1 = (s2, t2) \<and>
    critical_section s2 t2 = (s3, t3) \<and> sched_run one n (tr @ [Posted [b], Queued [b]]) s3 (ths[i := t3]) \<and>
    sched_queue s3 = [Op b] \<and> \<not> sched_stopped s3 \<and> event_state s3 = event_state s \<and>
    th_mode t3 = Run_one \<and> th_phase t3 = Outside \<and> th_todo t3 = []"
proof -
  let ?t = "ths ! i"
  let ?t1 = "?t\<lparr>private_outstanding_work := 1, private_op_queue := [b]\<rparr>"
  let ?t2 = "?t1\<lparr>th_phase := Handler_done False, private_outstanding_work := 0, th_count := count_op Run_one (th_count ?t)\<rparr>"
  let ?t3 = "?t2\<lparr>private_op_queue := [], th_phase := Outside\<rparr>" and ?s3 = "push_ops [b] s"
  have p: "post_immediate_completion b True s ?t = (s, ?t1)" using assms(3,5,6) by (simp add: post_immediate_completion_def inside_def)
  have h: "handler_returns False s ?t1 = (s, ?t2)" using assms(2,4) by (simp add: handler_returns_def work_cleanup_count_def)
  have c: "critical_section s ?t2 = (?s3, ?t3)"
    using assms(2,4) by (simp add: critical_section_def loops_def work_cleanup_def apply_outcome_def Let_def)
  have "sched_step s ths [Posted [b]] s (ths[i := ?t1])"
    using sched_step.calls [of i ths "Post_immediate b True" s] assms(1,3,4) p by (simp add: may_call_def)
  from sched_run.step [OF assms(9) this] have 1: "sched_run one n (tr @ [Posted [b]]) s (ths[i := ?t1])" .
  have "sched_step s (ths[i := ?t1]) [] s (ths[i := ?t2])"
    using sched_step.handlers [of i "ths[i := ?t1]" a False s] assms(1,3,4) h by simp
  from sched_run.step [OF 1 this] have 2: "sched_run one n (tr @ [Posted [b]]) s (ths[i := ?t2])" by simp
  have "sched_step s (ths[i := ?t2]) [Queued [b]] ?s3 (ths[i := ?t3])"
    using sched_step.sections [of i "ths[i := ?t2]" s] assms(1,4) c by (simp add: wants_mutex_def section_events_def)
  from sched_run.step [OF 2 this] have "sched_run one n (tr @ [Posted [b], Queued [b]]) ?s3 (ths[i := ?t3])" by simp
  then show ?thesis using p h c assms(2,4,7,8) by (intro exI conjI) (assumption | simp add: push_ops_def)+
qed

text \<open>
  C35: \<^verbatim>\<open>run_one\<close> loses a wake-up.  In any reachable state in which a thread is in \<^verbatim>\<open>run_one\<close> with its handler running, the
  queue is empty, another thread sleeps in \<^verbatim>\<open>run\<close> and the remaining ones sleep or are outside of the run functions: when the handler posts a
  continuation and returns, \<^verbatim>\<open>run_one\<close> puts the continuation into the shared queue and returns without waking anybody.  The
  operation is queued, the scheduler is not stopped, the thread in \<^verbatim>\<open>run\<close> still sleeps, and no thread is about to look at
  the queue or to wake another one.
\<close>

theorem run_one_loses_wakeup:
  assumes "sched_run False n tr s ths" and "\<not> sched_stopped s" "sched_queue s = []"
    and "i < length ths" "th_mode (ths ! i) = Run_one" "th_phase (ths ! i) = In_handler a" "th_todo (ths ! i) = []"
      "private_op_queue (ths ! i) = []" "private_outstanding_work (ths ! i) = 0"
    and "j < length ths" "th_mode (ths ! j) = Run" "th_phase (ths ! j) = Cond_wait"
    and "\<And>k. k < length ths \<Longrightarrow> k \<noteq> i \<Longrightarrow> th_todo (ths ! k) = [] \<and> (th_phase (ths ! k) = Outside \<or> th_phase (ths ! k) = Cond_wait)"
  shows "\<exists>t1 s2 t2 s3 t3. post_immediate_completion b True s (ths ! i) = (s, t1) \<and> handler_returns False s t1 = (s2, t2) \<and>
    critical_section s2 t2 = (s3, t3) \<and> sched_run False n (tr @ [Posted [b], Queued [b]]) s3 (ths[i := t3]) \<and>
    sched_queue s3 = [Op b] \<and> \<not> sched_stopped s3 \<and> th_mode t3 = Run_one \<and> th_phase t3 = Outside \<and> th_todo t3 = [] \<and>
    th_mode (ths[i := t3] ! j) = Run \<and> asleep s3 (ths[i := t3] ! j) \<and> filter (alert s3 (ths[i := t3])) (ths[i := t3]) = []"
proof -
  obtain t1 s2 t2 s3 t3 where c: "post_immediate_completion b True s (ths ! i) = (s, t1)" "handler_returns False s t1 = (s2, t2)"
    "critical_section s2 t2 = (s3, t3)" "sched_run False n (tr @ [Posted [b], Queued [b]]) s3 (ths[i := t3])"
    "sched_queue s3 = [Op b]" "\<not> sched_stopped s3" "th_mode t3 = Run_one" "th_phase t3 = Outside" "th_todo t3 = []"
    using run_one_continuation [OF assms(4-9,3,2,1)] by blast
  have "i \<noteq> j" using assms(6,12) by auto
  moreover have "\<forall>t \<in> set (ths[i := t3]). th_todo t = [] \<and> (th_phase t = Outside \<or> th_phase t = Cond_wait)"
    unfolding all_update [OF assms(4)] using c(8,9) assms(13) by blast
  then have "\<forall>t \<in> set (ths[i := t3]). \<not> alert s3 (ths[i := t3]) t" by (auto simp: alert_def looks_def)
  then have "filter (alert s3 (ths[i := t3])) (ths[i := t3]) = []" by (simp add: filter_empty_conv)
  ultimately show ?thesis using c assms(11,12) by (intro exI conjI) (assumption | simp add: asleep_def)+
qed

theorem run_one_loses_wakeup_witness:
  "\<exists>tr s ths. sched_run False 2 tr s ths \<and> Entered Run_one \<in> set tr \<and> sched_queue s = [Op 8] \<and> \<not> sched_stopped s \<and>
     th_mode (ths ! 0) = Run \<and> asleep s (ths ! 0) \<and> filter (alert s ths) ths = []"
proof -
  let ?tr = "[Posted [7], Queued [7], Entered Run_one, Started 7, Entered Run]"
  let ?ths = "[ex_thread Run Cond_wait [], ex_thread Run_one (In_handler 7) []]"
  have "th_todo (?ths ! k) = [] \<and> (th_phase (?ths ! k) = Outside \<or> th_phase (?ths ! k) = Cond_wait)" if "k < length ?ths" "k \<noteq> 1" for k
    using that by (cases k) (simp_all add: ex_thread_def Thread_init_def)
  then obtain s3 t3 where w: "sched_run False 2 (?tr @ [Posted [8], Queued [8]]) s3 (?ths[1 := t3])" "sched_queue s3 = [Op 8]" "\<not> sched_stopped s3"
    "th_mode (?ths[1 := t3] ! 0) = Run" "asleep s3 (?ths[1 := t3] ! 0)" "filter (alert s3 (?ths[1 := t3])) (?ths[1 := t3]) = []"
    using run_one_loses_wakeup [OF ex_handler_beside_sleeper, where i = 1 and a = 7 and j = 0 and b = 8]
    by (auto simp: ex_sched_def Scheduler_init_def ex_thread_def Thread_init_def)
  have "Entered Run_one \<in> set (?tr @ [Posted [8], Queued [8]])" by simp
  with w show ?thesis by blast
qed

end
