(* ===== verification/Worker_Pool.thy ===== *)
theory Worker_Pool
  imports Replay_Engine "HOL-Library.Multiset"
begin

text \<open>
  The pool with any number of workers.  A worker's handling of a task (\<open>process_task\<close>, the body of \<^verbatim>\<open>worker_loop\<close> in
  \<^verbatim>\<open>thread_pool.cpp\<close>) is cut where other threads can come between: taking the task, looking up its book, entering the
  book's mutex and logging the request, the operation itself up to the release of the mutex, and each entry put into the
  queues of the log and the pipeline.  The flush thread, the dispatch thread and the threads that submit tasks
  or close the pool run beside the workers.  The books that come out are those of one worker that handles the
  requests in the order of the log, and the log rebuilds them.
\<close>

section \<open>Workers\<close>

text \<open>
  \<open>After_book\<close> has the fills still to be logged, the reports to be published, and the fills whose trades are to be
  published.
\<close>

datatype worker =
    Dequeuing
  | Has_task Task
  | Has_book Task
  | In_book Task
  | After_book "Fill list" "ExecutionReport list" "Fill list"
  | Exited

record Workers =
  wk_exchange :: Exchange
  wk_queue :: "Task SafeQueue"
  wk_workers :: "worker list"

definition set_worker :: "nat \<Rightarrow> worker \<Rightarrow> Workers \<Rightarrow> Workers" where
  "set_worker i w s = s\<lparr>wk_workers := (wk_workers s)[i := w]\<rparr>"

text \<open>The books whose mutex is held.\<close>

definition locked_by :: "worker \<Rightarrow> Symbol list" where
  "locked_by w = (case w of In_book task \<Rightarrow> [task_symbol task] | _ \<Rightarrow> [])"

abbreviation locked :: "worker list \<Rightarrow> Symbol list" where
  "locked ws \<equiv> concat (map locked_by ws)"

definition worker_dequeue :: "nat \<Rightarrow> Workers \<Rightarrow> Workers run" where
  "worker_dequeue i s =
     (case sq_dequeue (wk_queue s) of
        Waits \<Rightarrow> None
      | Returns (None, q) \<Rightarrow> done_with (set_worker i Exited (s\<lparr>wk_queue := q\<rparr>))
      | Returns (Some task, q) \<Rightarrow> done_with (set_worker i (Has_task task) (s\<lparr>wk_queue := q\<rparr>)))"

definition worker_lookup :: "nat \<Rightarrow> Task \<Rightarrow> Workers \<Rightarrow> Workers run" where
  "worker_lookup i task s =
     (let x = wk_exchange s in
      case get_order_book (task_symbol task) (registry x) of
        (book, reg) \<Rightarrow> done_with (set_worker i (Has_book task) (s\<lparr>wk_exchange := x\<lparr>registry := reg\<rparr>\<rparr>)))"

text \<open>\<^verbatim>\<open>std::get\<close> throws when the request does not fit the type; the exception is caught and the loop goes on.\<close>

definition worker_lock :: "(nat \<Rightarrow> uninit) \<Rightarrow> nat \<Rightarrow> Task \<Rightarrow> Workers \<Rightarrow> Workers run" where
  "worker_lock mem i task s =
     (let x = wk_exchange s in
      if op_of_task task = None then done_with (set_worker i Dequeuing s)
      else if task_symbol task \<in> set (locked (wk_workers s)) then None
      else run_bind (log_action mem task (wal x))
             (\<lambda>w. done_with (set_worker i (In_book task) (s\<lparr>wk_exchange := x\<lparr>wal := w\<rparr>\<rparr>))))"

definition worker_match :: "clock \<Rightarrow> nat \<Rightarrow> Task \<Rightarrow> Workers \<Rightarrow> Workers run" where
  "worker_match clk i task s =
     (let x = wk_exchange s in
      case op_of_task task of
        None \<Rightarrow> None
      | Some op \<Rightarrow>
          (case get_order_book (task_symbol task) (registry x) of
             (book, reg) \<Rightarrow>
               (case book_apply clk op book (env x) of
                  Inl ub \<Rightarrow> Some (Inl ub)
                | Inr (book', result, e) \<Rightarrow>
                    done_with (set_worker i (After_book (fills result) (execution_reports result) (fills result))
                      (s\<lparr>wk_exchange := x\<lparr>registry := store_book (task_symbol task) book' reg, env := e\<rparr>\<rparr>)))))"

fun worker_publish :: "(nat \<Rightarrow> uninit) \<Rightarrow> nat \<Rightarrow> Fill list \<Rightarrow> ExecutionReport list \<Rightarrow> Fill list \<Rightarrow> Workers \<Rightarrow> Workers run" where
  "worker_publish mem i (f # fs) rs ts s =
     (let x = wk_exchange s in
      run_bind (log_fills mem [f] (wal x))
        (\<lambda>w. done_with (set_worker i (After_book fs rs ts) (s\<lparr>wk_exchange := x\<lparr>wal := w\<rparr>\<rparr>))))"
| "worker_publish mem i [] (r # rs) ts s =
     (let x = wk_exchange s in
      run_bind (publish_result (MatchResult_init\<lparr>execution_reports := [r]\<rparr>) (pipeline x))
        (\<lambda>p. done_with (set_worker i (After_book [] rs ts) (s\<lparr>wk_exchange := x\<lparr>pipeline := p\<rparr>\<rparr>))))"
| "worker_publish mem i [] [] (f # ts) s =
     (let x = wk_exchange s in
      run_bind (publish_result (MatchResult_init\<lparr>fills := [f]\<rparr>) (pipeline x))
        (\<lambda>p. done_with (set_worker i (After_book [] [] ts) (s\<lparr>wk_exchange := x\<lparr>pipeline := p\<rparr>\<rparr>))))"
| "worker_publish mem i [] [] [] s = done_with (set_worker i Dequeuing s)"

text \<open>One step of worker \<open>i\<close>; \<open>None\<close> when it waits for another thread or has ended.\<close>

definition worker_step :: "clock \<Rightarrow> (nat \<Rightarrow> uninit) \<Rightarrow> nat \<Rightarrow> Workers \<Rightarrow> Workers run" where
  "worker_step clk mem i s =
     (case wk_workers s ! i of
        Dequeuing \<Rightarrow> worker_dequeue i s
      | Has_task task \<Rightarrow> worker_lookup i task s
      | Has_book task \<Rightarrow> worker_lock mem i task s
      | In_book task \<Rightarrow> worker_match clk i task s
      | After_book fs rs ts \<Rightarrow> worker_publish mem i fs rs ts s
      | Exited \<Rightarrow> None)"

section \<open>Runs\<close>

text \<open>The request that a step of worker \<open>i\<close> logs.\<close>

definition logged_by :: "nat \<Rightarrow> Workers \<Rightarrow> Task list" where
  "logged_by i s = (case wk_workers s ! i of Has_book task \<Rightarrow> (if op_of_task task = None then [] else [task]) | _ \<Rightarrow> [])"

text \<open>A step is labelled with the tasks it submits to the pool and the tasks whose requests it logs.\<close>

inductive pool_step :: "clock \<Rightarrow> (nat \<Rightarrow> uninit) \<Rightarrow> Workers \<Rightarrow> Task list \<Rightarrow> Task list \<Rightarrow> Workers \<Rightarrow> bool" for clk mem where
  works: "i < length (wk_workers s) \<Longrightarrow> worker_step clk mem i s = done_with s' \<Longrightarrow> pool_step clk mem s [] (logged_by i s) s'"
| submits: "gateway_task task \<Longrightarrow> sq_enqueue task (wk_queue s) = Returns (True, q) \<Longrightarrow>
     pool_step clk mem s [task] [] (s\<lparr>wk_queue := q\<rparr>)"
| closes: "pool_step clk mem s [] [] (s\<lparr>wk_queue := snd (sq_close (wk_queue s))\<rparr>)"
| flushes: "wal (wk_exchange s) = Some w \<Longrightarrow> flush_once w = Inr w' \<Longrightarrow>
     pool_step clk mem s [] [] (s\<lparr>wk_exchange := (wk_exchange s)\<lparr>wal := Some w'\<rparr>\<rparr>)"
| dispatches: "pipeline (wk_exchange s) = Some p \<Longrightarrow> dispatch_once cm p = Inr (out, p') \<Longrightarrow>
     pool_step clk mem s [] [] (s\<lparr>wk_exchange := (wk_exchange s)\<lparr>pipeline := Some p'\<rparr>\<rparr>)"

inductive pool_run :: "clock \<Rightarrow> (nat \<Rightarrow> uninit) \<Rightarrow> Workers \<Rightarrow> Task list \<Rightarrow> Task list \<Rightarrow> Workers \<Rightarrow> bool" for clk mem s0 where
  pool_begin: "pool_run clk mem s0 [] [] s0"
| pool_next: "pool_run clk mem s0 subs logd s \<Longrightarrow> pool_step clk mem s a b s' \<Longrightarrow> pool_run clk mem s0 (subs @ a) (logd @ b) s'"

definition fresh_workers :: "nat \<Rightarrow> string \<Rightarrow> Workers" where
  "fresh_workers n path =
     \<lparr>wk_exchange = fresh_exchange path, wk_queue = SafeQueue_init MAX_QUEUE_CAPACITY, wk_workers = replicate n Dequeuing\<rparr>"

section \<open>One worker at a time\<close>

text \<open>The effect of tasks on the books alone, in a given order.\<close>

fun apply_tasks :: "clock \<Rightarrow> Task list \<Rightarrow> BookRegistry \<Rightarrow> Env \<Rightarrow> undefined_behaviour + (BookRegistry \<times> Env)" where
  "apply_tasks clk [] reg e = Inr (reg, e)"
| "apply_tasks clk (task # tasks) reg e =
     (case op_of_task task of
        None \<Rightarrow> apply_tasks clk tasks reg e
      | Some op \<Rightarrow>
          (case get_order_book (task_symbol task) reg of
             (b, reg1) \<Rightarrow>
               (case book_apply clk op b e of
                  Inl ub \<Rightarrow> Inl ub
                | Inr (b', res, e') \<Rightarrow> apply_tasks clk tasks (store_book (task_symbol task) b' reg1) e')))"

lemma apply_tasks_append:
  "apply_tasks clk (ts @ us) reg e = (case apply_tasks clk ts reg e of Inl ub \<Rightarrow> Inl ub | Inr (reg', e') \<Rightarrow> apply_tasks clk us reg' e')"
  by (induction ts arbitrary: reg e) (auto split: option.splits sum.splits prod.splits)

lemma process_tasks_books:
  assumes "exchange_ok x es rs ts" and "mem_ok mem" and "\<forall>task \<in> set tasks. op_of_task task \<noteq> None"
  shows "\<exists>x'. process_tasks clk mem tasks x = done_with x' \<and> apply_tasks clk tasks (registry x) (env x) = Inr (registry x', env x')"
  using assms(1,3)
proof (induction tasks arbitrary: x es rs ts)
  case (Cons task tasks)
  then obtain op where op: "op_of_task task = Some op" by auto
  obtain b reg where get: "get_order_book (task_symbol task) (registry x) = (b, reg)" by fastforce
  obtain b' res e' x' k where P: "book_apply clk op b (env x) = Inr (b', res, e')"
    "process_task clk mem task x = done_with x'" "registry x' = store_book (task_symbol task) b' reg" "env x' = e'"
    "exchange_ok x' (es @ request_entry (mem k) (request task) # fill_entries mem (Suc k) (fills res))
       (rs @ execution_reports res) (ts @ map trade_of_fill (fills res))"
    using Cons.prems(1) assms(2) op get by (rule process_task_ok [of x es rs ts mem task op b reg clk]) blast
  from Cons.IH [OF P(5)] Cons.prems(2) show ?case using op get P(1-4) by auto
qed simp

text \<open>Evaluating the book operations.\<close>

lemmas book_eval = op_of_task_def get_order_book_def BookRegistry_init_def OrderBook_init_def OrderIndex_init_def store_book_def
  submitOrder_def submitOrderInternal_def rest_or_expire_def rest_buy_def rest_sell_def index_insert_def run_log_def
  push_report_def MatchResult_init_def match_queue.simps match_incoming_def matchOrders_def beyond_limit_def next_id_def
  get_current_time_ns_def index_remove_def index_get_def cancelOrder_def modifyOrder_def deref_def nodes_of_def erase_entry_def
  erase_node_def map_erase_def map_adjust_def Let_def exec_price_of_def Env_init_def

text \<open>The replay of logged requests.\<close>

fun replay_logged :: "clock \<Rightarrow> Task list \<Rightarrow> replay_state \<Rightarrow> undefined_behaviour + replay_state" where
  "replay_logged clk [] s = Inr s"
| "replay_logged clk (task # tasks) s =
     (case replay_op clk (task_symbol task) (anon_op (the (op_of_task task))) s of
        Inl ub \<Rightarrow> Inl ub
      | Inr s' \<Rightarrow> replay_logged clk tasks s')"

lemma replay_logged_append:
  "replay_logged clk (ts @ us) s = (case replay_logged clk ts s of Inl ub \<Rightarrow> Inl ub | Inr s' \<Rightarrow> replay_logged clk us s')"
  by (induction ts arbitrary: s) (auto split: sum.splits)

lemma replay_logged_follows:
  assumes "apply_tasks clk ts reg e = Inr (reg', e')" "\<forall>t \<in> set ts. op_of_task t \<noteq> None" "same_books reg r" "counter f = counter e"
  shows "\<exists>r' f' n'. replay_logged clk1 ts (r, f, n) = Inr (r', f', n') \<and> same_books reg' r' \<and> counter f' = counter e'"
  using assms
proof (induction ts arbitrary: reg e r f n)
  case (Cons t ts)
  then obtain op where op: "op_of_task t = Some op" by auto
  obtain b reg1 where get: "get_order_book (task_symbol t) reg = (b, reg1)" by fastforce
  obtain b' res e1 where ap: "book_apply clk op b e = Inr (b', res, e1)"
    "apply_tasks clk ts (store_book (task_symbol t) b' reg1) e1 = Inr (reg', e')"
    using Cons.prems(1) op get by (auto split: sum.splits)
  obtain r1 where r1: "get_order_book (task_symbol t) r = (anon_book b, r1)" "same_books reg1 r1"
    using same_books_get [OF Cons.prems(3) get] by blast
  obtain res1 f1 where f1: "book_apply clk1 (anon_op op) (anon_book b) f = Inr (anon_book b', res1, f1)" "counter f1 = counter e1"
    using book_apply_relabel [OF ap(1), of clk1 "\<lambda>_. 0" f] Cons.prems(4) by auto
  have "replay_op clk1 (task_symbol t) (anon_op op) (r, f, n) = Inr (store_book (task_symbol t) (anon_book b') r1, f1, Suc n)"
    using r1(1) f1(1) by (simp add: replay_op_def)
  then show ?case
    using Cons.IH [OF ap(2) _ same_books_store [OF r1(2)] f1(2), of "Suc n"] Cons.prems(2) op by simp
qed simp


section \<open>The books and the requests under way\<close>

definition book_at :: "Symbol \<Rightarrow> BookRegistry \<Rightarrow> OrderBook" where
  "book_at sy reg = fst (get_order_book sy reg)"

lemma book_at_get:
  assumes "get_order_book sy reg = (b, reg')"
  shows "b = book_at sy reg" "book_at sy' reg' = book_at sy' reg" "books reg' sy' \<noteq> None \<longleftrightarrow> books reg sy' \<noteq> None \<or> sy' = sy"
  using assms by (auto simp: book_at_def get_order_book_def split: option.splits if_splits)

lemma book_at_store: "book_at sy' (store_book sy b reg) = (if sy' = sy then b else book_at sy' reg)"
  by (simp add: book_at_def get_order_book_def store_book_def split: option.splits)

text \<open>What an operation does to a book and how many trade ids it takes depend on the operation and the book only.\<close>

definition book_after :: "clock \<Rightarrow> book_op \<Rightarrow> OrderBook \<Rightarrow> OrderBook" where
  "book_after clk op b = (case book_apply clk op b Env_init of Inl ub \<Rightarrow> b | Inr (b', res, e) \<Rightarrow> b')"

definition ids_used :: "clock \<Rightarrow> book_op \<Rightarrow> OrderBook \<Rightarrow> uint64_t" where
  "ids_used clk op b = (case book_apply clk op b Env_init of Inl ub \<Rightarrow> 0 | Inr (b', res, e) \<Rightarrow> counter e - counter Env_init)"

lemma book_apply_after:
  assumes "book_apply clk op b e = Inr (b', res, e')"
  shows "book_after clk op b = b'" "counter e' = counter e + ids_used clk op b"
proof -
  obtain res1 f where f: "book_apply clk op b Env_init = Inr (b', res1, f)" "counter f - counter Env_init = counter e' - counter e"
    using book_apply_relabel [OF assms, of clk "\<lambda>c. c" Env_init] by auto
  then show "book_after clk op b = b'" "counter e' = counter e + ids_used clk op b"
    by (simp_all add: book_after_def ids_used_def algebra_simps)
qed

text \<open>The book as it will be when the operation that holds its mutex is through, and the trade ids that operation will take.\<close>

definition settle :: "clock \<Rightarrow> Symbol \<Rightarrow> worker \<Rightarrow> OrderBook \<Rightarrow> OrderBook" where
  "settle clk sy w b =
     (case w of In_book task \<Rightarrow> if task_symbol task = sy then book_after clk (the (op_of_task task)) b else b | _ \<Rightarrow> b)"

definition ids_due :: "clock \<Rightarrow> BookRegistry \<Rightarrow> worker \<Rightarrow> uint64_t" where
  "ids_due clk reg w =
     (case w of In_book task \<Rightarrow> ids_used clk (the (op_of_task task)) (book_at (task_symbol task) reg) | _ \<Rightarrow> 0)"

definition looked_up :: "worker \<Rightarrow> Symbol list" where
  "looked_up w = (case w of Has_book task \<Rightarrow> [task_symbol task] | _ \<Rightarrow> [])"

lemmas worker_defs = settle_def ids_due_def looked_up_def locked_by_def

lemma settle_unlocked: "sy \<notin> set (locked ws) \<Longrightarrow> fold (settle clk sy) ws b = b"
  by (induction ws arbitrary: b) (auto simp: settle_def locked_by_def split: worker.splits)

text \<open>
  The invariant of the books: handling the logged requests one after another gives the books as they will be, the same
  books exist but for those that are only looked up, and the trade-id counter lacks the ids of the operations under way.
\<close>

definition books_follow :: "clock \<Rightarrow> worker list \<Rightarrow> BookRegistry \<Rightarrow> Env \<Rightarrow> Task list \<Rightarrow> bool" where
  "books_follow clk ws reg e logd \<longleftrightarrow>
     (\<exists>reg' e'. apply_tasks clk logd BookRegistry_init Env_init = Inr (reg', e') \<and>
        (\<forall>sy. book_at sy reg' = fold (settle clk sy) ws (book_at sy reg)) \<and>
        (\<forall>sy. books reg sy \<noteq> None \<longleftrightarrow> books reg' sy \<noteq> None \<or> sy \<in> set (concat (map looked_up ws))) \<and>
        counter e' = counter e + sum_list (map (ids_due clk reg) ws)) \<and>
     (\<forall>sy \<in> set (locked ws). books reg sy \<noteq> None)"

lemma books_follow_other:
  assumes "books_follow clk (pre @ w # post) reg e logd"
    "locked_by w = []" "looked_up w = []" "locked_by w' = []" "looked_up w' = []"
  shows "books_follow clk (pre @ w' # post) reg e logd"
proof -
  have "settle clk sy v b = b" "ids_due clk reg v = 0" if "locked_by v = []" for sy v b
    using that by (cases v; simp add: worker_defs)+
  then show ?thesis using assms by (simp add: books_follow_def)
qed

lemma books_follow_lookup:
  assumes "books_follow clk (pre @ Has_task task # post) reg e logd" "get_order_book (task_symbol task) reg = (b, reg')"
  shows "books_follow clk (pre @ Has_book task # post) reg' e logd"
proof -
  note get = book_at_get [OF assms(2)]
  have due: "ids_due clk reg' = ids_due clk reg" by (auto simp: ids_due_def get(2) fun_eq_iff split: worker.splits)
  have ws: "settle clk sy (Has_task task) c = c" "settle clk sy (Has_book task) c = c" "ids_due clk reg (Has_task task) = 0"
    "ids_due clk reg (Has_book task) = 0" "locked_by (Has_task task) = []" "locked_by (Has_book task) = []"
    "looked_up (Has_task task) = []" "looked_up (Has_book task) = [task_symbol task]" for sy c
    by (simp_all add: worker_defs)
  obtain reg1 e1 where r: "apply_tasks clk logd BookRegistry_init Env_init = Inr (reg1, e1)"
    "\<forall>sy. book_at sy reg1 = fold (settle clk sy) (pre @ Has_task task # post) (book_at sy reg)"
    "\<And>sy. books reg sy \<noteq> None \<longleftrightarrow> books reg1 sy \<noteq> None \<or> sy \<in> set (concat (map looked_up (pre @ Has_task task # post)))"
    "counter e1 = counter e + sum_list (map (ids_due clk reg) (pre @ Has_task task # post))"
    "\<And>sy. sy \<in> set (locked (pre @ Has_task task # post)) \<Longrightarrow> books reg sy \<noteq> None"
    using assms(1) unfolding books_follow_def by blast
  have "books reg' sy \<noteq> None \<longleftrightarrow> books reg1 sy \<noteq> None \<or> sy \<in> set (concat (map looked_up (pre @ Has_book task # post)))" for sy
    using r(3) [of sy] get(3) [of sy] by (simp add: ws) blast
  moreover have "books reg' sy \<noteq> None" if "sy \<in> set (locked (pre @ Has_book task # post))" for sy
    using r(5) [of sy] get(3) [of sy] that by (simp add: ws)
  ultimately show ?thesis unfolding books_follow_def
    by (intro conjI exI [of _ reg1] exI [of _ e1] ballI allI) (use r(1,2,4) in \<open>simp_all add: ws due get(2)\<close>)
qed

lemma books_follow_lock:
  assumes fol: "books_follow clk (pre @ Has_book task # post) reg e logd" and inv: "registry_inv reg" and op: "op_of_task task = Some op"
    and free: "task_symbol task \<notin> set (locked (pre @ Has_book task # post))"
  shows "books_follow clk (pre @ In_book task # post) reg e (logd @ [task])"
proof -
  let ?sy = "task_symbol task"
  obtain reg1 e1 where r: "apply_tasks clk logd BookRegistry_init Env_init = Inr (reg1, e1)"
    "\<And>sy. book_at sy reg1 = fold (settle clk sy) (pre @ Has_book task # post) (book_at sy reg)"
    "\<And>sy. books reg sy \<noteq> None \<longleftrightarrow> books reg1 sy \<noteq> None \<or> sy \<in> set (concat (map looked_up (pre @ Has_book task # post)))"
    "counter e1 = counter e + sum_list (map (ids_due clk reg) (pre @ Has_book task # post))"
    using fol by (auto simp: books_follow_def)
  obtain b reg2 where get: "get_order_book ?sy reg1 = (b, reg2)" by fastforce
  note get' = book_at_get [OF get]
  have b: "b = book_at ?sy reg" using get'(1) r(2) [of ?sy] settle_unlocked [OF free] by simp
  have "book_inv b" using registry_inv_get(2) [OF inv, of ?sy] b by (metis book_at_def prod.collapse)
  then obtain b' res e' where ap: "book_apply clk op b e1 = Inr (b', res, e')" using book_apply_inv by blast
  note ap' = book_apply_after [OF ap]
  let ?reg = "store_book ?sy b' reg2"
  have "apply_tasks clk (logd @ [task]) BookRegistry_init Env_init = Inr (?reg, e')"
    using r(1) get op ap by (simp add: apply_tasks_append)
  moreover have "book_at sy ?reg = fold (settle clk sy) (pre @ In_book task # post) (book_at sy reg)" for sy
  proof (cases "sy = ?sy")
    case True
    have "fold (settle clk ?sy) pre c = c" "fold (settle clk ?sy) post c = c" for c using free by (simp_all add: settle_unlocked)
    then show ?thesis using True ap'(1) b op by (simp add: book_at_store settle_def)
  next
    case False
    then show ?thesis using get'(2) r(2) [of sy] by (simp add: book_at_store settle_def)
  qed
  moreover have "books reg sy \<noteq> None \<longleftrightarrow> books ?reg sy \<noteq> None \<or> sy \<in> set (concat (map looked_up (pre @ In_book task # post)))" for sy
    using r(3) [of sy] get'(3) [of sy] by (auto simp: store_book_sel looked_up_def)
  moreover have "counter e' = counter e + sum_list (map (ids_due clk reg) (pre @ In_book task # post))"
    using r(4) ap'(2) b op by (simp add: ids_due_def algebra_simps)
  moreover have "\<forall>sy \<in> set (locked (pre @ In_book task # post)). books reg sy \<noteq> None"
    using fol r(3) [of ?sy] by (simp add: books_follow_def locked_by_def looked_up_def)
  ultimately show ?thesis unfolding books_follow_def by blast
qed

lemma books_follow_match:
  assumes fol: "books_follow clk (pre @ In_book task # post) reg e logd" and op: "op_of_task task = Some op"
    and free: "task_symbol task \<notin> set (locked (pre @ post))" and get: "get_order_book (task_symbol task) reg = (b, reg1)"
    and ap: "book_apply clk op b e = Inr (b', res, e')"
  shows "books_follow clk (pre @ After_book fs rs ts # post) (store_book (task_symbol task) b' reg1) e' logd"
proof -
  let ?sy = "task_symbol task" and ?reg = "store_book (task_symbol task) b' reg1"
  note get' = book_at_get [OF get] and ap' = book_apply_after [OF ap]
  have at: "book_at sy ?reg = (if sy = ?sy then b' else book_at sy reg)" for sy using get'(2) by (simp add: book_at_store)
  have ds: "books reg ?sy \<noteq> None" using fol by (simp add: books_follow_def locked_by_def)
  have unl: "fold (settle clk ?sy) pre c = c" "fold (settle clk ?sy) post c = c" for c using free by (simp_all add: settle_unlocked)
  have due: "ids_due clk ?reg w = ids_due clk reg w" if "w \<in> set (pre @ post)" for w
    using that free at by (cases w rule: worker.exhaust) (auto simp: ids_due_def locked_by_def)
  have due_m: "map (ids_due clk ?reg) pre = map (ids_due clk reg) pre" "map (ids_due clk ?reg) post = map (ids_due clk reg) post"
    using due by auto
  have "fold (settle clk sy) (pre @ In_book task # post) (book_at sy reg) =
      fold (settle clk sy) (pre @ After_book fs rs ts # post) (book_at sy ?reg)" for sy
    using unl ap'(1) get'(1) op at by (cases "sy = ?sy") (simp_all add: settle_def)
  moreover have "books ?reg sy \<noteq> None \<longleftrightarrow> books reg sy \<noteq> None" for sy using get'(3) ds by (auto simp: store_book_sel)
  moreover have "counter e + sum_list (map (ids_due clk reg) (pre @ In_book task # post)) =
      counter e' + sum_list (map (ids_due clk ?reg) (pre @ After_book fs rs ts # post))"
    using ap'(2) get'(1) op by (simp add: due_m ids_due_def)
  moreover have "\<forall>sy \<in> set (locked (pre @ After_book fs rs ts # post)). books ?reg sy \<noteq> None"
    using fol get'(3) by (auto simp: books_follow_def locked_by_def store_book_sel)
  ultimately show ?thesis using fol by (simp add: books_follow_def looked_up_def)
qed


section \<open>The log and the pipeline\<close>

text \<open>
  Entries that replay like given requests: all of them together, and up to each request some beginning of the
  entries.
\<close>

definition replays_like :: "WALEntry list \<Rightarrow> Task list \<Rightarrow> bool" where
  "replays_like ens logd \<longleftrightarrow>
     (\<forall>clk s. replay_entries clk ens s = replay_logged clk logd s) \<and>
     (\<forall>j \<le> length logd. \<exists>n \<le> length ens. \<forall>clk s. replay_entries clk (take n ens) s = replay_logged clk (take j logd) s)"

lemma replays_like_Nil [simp]: "replays_like [] []"
  by (simp add: replays_like_def)

lemma replays_like_all: "replays_like ens logd \<Longrightarrow> replay_entries clk ens s = replay_logged clk logd s"
  unfolding replays_like_def by blast

lemma replays_like_extend:
  assumes "replays_like ens logd" "\<And>clk s. replay_entries clk (ens @ added) s = replay_logged clk (logd @ new) s" "length new \<le> 1"
  shows "replays_like (ens @ added) (logd @ new)"
proof -
  have "\<exists>n \<le> length (ens @ added). \<forall>clk s. replay_entries clk (take n (ens @ added)) s = replay_logged clk (take j (logd @ new)) s"
    if j: "j \<le> length (logd @ new)" for j
  proof (cases "j \<le> length logd")
    case True
    then obtain n where "n \<le> length ens" "\<And>clk s. replay_entries clk (take n ens) s = replay_logged clk (take j logd) s"
      using assms(1) by (auto simp: replays_like_def)
    then show ?thesis using True by (intro exI [of _ n]) simp
  next
    case False
    then have "j = length (logd @ new)" using j assms(3) by simp
    then show ?thesis using assms(2) by (intro exI [of _ "length (ens @ added)"]) simp
  qed
  then show ?thesis using assms(2) by (simp add: replays_like_def)
qed

text \<open>What has been written and what is queued replays like the logged requests; the log is running.\<close>

definition log_follows :: "WAL \<Rightarrow> Task list \<Rightarrow> bool" where
  "log_follows w logd \<longleftrightarrow>
     (\<exists>flushed es. wal_ok w es \<and> wal_running w \<and> wal_file w = concat (map WALEntry_image flushed) \<and>
        (\<forall>en \<in> set flushed. length (we_data en) = 52) \<and> replays_like (flushed @ es) logd)"

lemma log_follows_action:
  assumes "log_follows w logd" "gateway_task task" "op_of_task task = Some op" "mem_ok mem"
  shows "\<exists>w'. log_action mem task (Some w) = done_with (Some w') \<and> log_follows w' (logd @ [task])"
proof -
  obtain flushed es where w: "wal_ok w es" "wal_running w" "wal_file w = concat (map WALEntry_image flushed)"
    "\<forall>en \<in> set flushed. length (we_data en) = 52" "replays_like (flushed @ es) logd"
    using assms(1) by (auto simp: log_follows_def)
  let ?en = "request_entry (mem (wal_calls w)) (request task)"
  obtain w' where w': "log_action mem task (Some w) = done_with (Some w')" "wal_ok w' (es @ [?en])" "wal_running w'" "wal_file w' = wal_file w"
    using log_action_ok [OF assms(3) w(1,2) assms(4)] by blast
  have "replay_entries clk ((flushed @ es) @ [?en]) s = replay_logged clk (logd @ [task]) s" for clk s
    unfolding replay_entries_append [of clk "flushed @ es"] replays_like_all [OF w(5)] replay_logged_append
    by (cases "replay_logged clk logd s") (simp_all add: replay_request_entry [OF assms(4,2,3)] assms(3) split: sum.split)
  then have "replays_like (flushed @ es @ [?en]) (logd @ [task])" using replays_like_extend [OF w(5), of "[?en]" "[task]"] by simp
  then show ?thesis using w(3,4) w' unfolding log_follows_def by metis
qed

lemma log_follows_fill:
  assumes "log_follows w logd" "mem_ok mem"
  shows "\<exists>w'. log_fills mem [f] (Some w) = done_with (Some w') \<and> log_follows w' logd"
proof -
  obtain flushed es where w: "wal_ok w es" "wal_running w" "wal_file w = concat (map WALEntry_image flushed)"
    "\<forall>en \<in> set flushed. length (we_data en) = 52" "replays_like (flushed @ es) logd"
    using assms(1) by (auto simp: log_follows_def)
  let ?es = "fill_entries mem (wal_calls w) [f]"
  obtain w' where w': "log_fills mem [f] (Some w) = done_with (Some w')" "wal_ok w' (es @ ?es)" "wal_running w'" "wal_file w' = wal_file w"
    using log_fills_ok [OF w(1,2) assms(2)] by blast
  have "replay_entries clk ((flushed @ es) @ ?es) s = replay_logged clk logd s" for clk s
    unfolding replay_entries_append [of clk "flushed @ es"] replays_like_all [OF w(5)]
    by (cases "replay_logged clk logd s") (simp_all only: replay_fill_entries sum.case)
  then have "replays_like (flushed @ es @ ?es) logd" using replays_like_extend [OF w(5), of ?es "[]"] by simp
  then show ?thesis using w(3,4) w' unfolding log_follows_def by metis
qed

lemma log_follows_flush:
  assumes "log_follows w logd"
  shows "\<exists>w'. flush_once w = Inr w' \<and> log_follows w' logd"
proof -
  obtain flushed es where w: "wal_ok w es" "wal_running w" "wal_file w = concat (map WALEntry_image flushed)"
    "\<forall>en \<in> set flushed. length (we_data en) = 52" "replays_like (flushed @ es) logd"
    using assms(1) by (auto simp: log_follows_def)
  have idle: "mpsc_idle (wal_queue w) es" using w(1) by (simp add: wal_ok_def)
  show ?thesis
  proof (cases es)
    case Nil
    then have "flush_once w = Inr w" using mpsc_idle_dequeue(1) [OF idle] by (simp add: flush_once_def)
    then show ?thesis using assms by simp
  next
    case (Cons en es')
    then obtain q where q: "mpsc_dequeue (wal_queue w) = Inr (Some en, q)" "mpsc_idle q es'" "closed q = closed (wal_queue w)"
      using mpsc_idle_dequeue(2) [OF idle] by blast
    let ?w = "w\<lparr>wal_queue := q, wal_file := wal_file w @ WALEntry_image en\<rparr>"
    have "wal_ok ?w es'" "length (we_data en) = 52" using w(1) q Cons by (auto simp: wal_ok_def)
    moreover have "wal_file ?w = concat (map WALEntry_image (flushed @ [en]))" using w(3) by simp
    moreover have "replays_like ((flushed @ [en]) @ es') logd" using w(5) Cons by simp
    ultimately have "log_follows ?w logd" using w(2,4) unfolding log_follows_def
      by (intro exI [of _ "flushed @ [en]"] exI [of _ es']) simp
    then show ?thesis using q(1) by (simp add: flush_once_def)
  qed
qed

lemma log_follows_stopped:
  assumes "log_follows w logd"
  obtains w' ens where "wal_stop w = done_with w'" "wal_file w' = concat (map WALEntry_image ens)"
    "\<forall>en \<in> set ens. length (we_data en) = 52" "replays_like ens logd"
proof -
  obtain flushed es where w: "wal_ok w es" "wal_running w" "wal_file w = concat (map WALEntry_image flushed)"
    "\<forall>en \<in> set flushed. length (we_data en) = 52" "replays_like (flushed @ es) logd"
    using assms(1) by (auto simp: log_follows_def)
  let ?w = "w\<lparr>wal_running := False, wal_queue := mpsc_close (wal_queue w)\<rparr>"
  have "mpsc_idle (wal_queue ?w) es" using w(1) by (simp add: wal_ok_def mpsc_idle_close)
  from flush_loop_stopped [OF this] obtain q where
    "flush_loop ?w = Some (Inr (?w\<lparr>wal_queue := q, wal_file := wal_file w @ concat (map WALEntry_image es)\<rparr>))" by auto
  moreover have "\<forall>en \<in> set (flushed @ es). length (we_data en) = 52" using w(1,4) by (auto simp: wal_ok_def)
  ultimately show thesis using that [of _ "flushed @ es"] w(2,3,5) by (simp add: wal_stop_def)
qed

lemma replay_of_entries:
  assumes "\<forall>en \<in> set ens. length (we_data en) = 52" "replay_entries clk ens (reg, TradeIDGenerator_reset 1 e0, 0) = Inr (reg', e', n)"
  shows "replay clk (Some (concat (map WALEntry_image ens))) reg e0 = Inr (True, reg', e')"
  using replay_loop_entries [OF assms(1), of "[]" clk] assms(2) by (simp add: replay_def sizeof_WALEntry_def)

lemma log_follows_stop:
  assumes "log_follows w logd" "replay_logged clk logd (reg, TradeIDGenerator_reset 1 e0, 0) = Inr (reg', e', n)"
  shows "\<exists>w'. wal_stop w = done_with w' \<and> replay clk (Some (wal_file w')) reg e0 = Inr (True, reg', e')"
  by (rule log_follows_stopped [OF assms(1)]) (use assms(2) in \<open>auto simp: replays_like_all intro: replay_of_entries\<close>)

text \<open>Replaying the stopped log only up to one of its requests.\<close>

lemma log_follows_stop_prefix:
  assumes "log_follows w logd" "wal_stop w = done_with w'" "j \<le> length logd"
  obtains n where "\<And>clk reg e0 reg' e' k. replay_logged clk (take j logd) (reg, TradeIDGenerator_reset 1 e0, 0) = Inr (reg', e', k) \<Longrightarrow>
    replay clk (Some (take n (wal_file w'))) reg e0 = Inr (True, reg', e')"
proof -
  obtain ens where ens: "wal_file w' = concat (map WALEntry_image ens)" "\<forall>en \<in> set ens. length (we_data en) = 52" "replays_like ens logd"
    by (rule log_follows_stopped [OF assms(1)]) (use assms(2) in auto)
  obtain n where n: "n \<le> length ens" "\<And>clk s. replay_entries clk (take n ens) s = replay_logged clk (take j logd) s"
    using ens(3) assms(3) by (auto simp: replays_like_def)
  have len: "\<forall>en \<in> set (take n ens). length (we_data en) = 52" using ens(2) by (meson in_set_takeD)
  obtain torn where "take (n * 53) (wal_file w') = concat (map WALEntry_image (take n ens)) @ torn" "length torn < 53"
    using concat_images_take [OF ens(2), of "n * 53"] ens(1) by auto
  then have "replay clk (Some (take (n * 53) (wal_file w'))) reg e0 = Inr (True, reg', e')"
    if "replay_logged clk (take j logd) (reg, TradeIDGenerator_reset 1 e0, 0) = Inr (reg', e', k)" for clk reg e0 reg' e' k
    using replay_loop_entries [OF len, of torn clk] n(2) that by (simp add: replay_def sizeof_WALEntry_def)
  then show thesis by (rule that)
qed

definition pipeline_running :: "ExecutionPipeline \<Rightarrow> bool" where
  "pipeline_running p \<longleftrightarrow> (\<exists>rs ts. pipeline_ok p rs ts) \<and> ep_running p"

lemma pipeline_running_publish:
  "pipeline_running p \<Longrightarrow> \<exists>p'. publish_result res (Some p) = done_with (Some p') \<and> pipeline_running p'"
  using publish_result_ok by (fastforce simp: pipeline_running_def)

lemma pipeline_running_dispatch:
  assumes "pipeline_running p" "dispatch_once cm p = Inr (out, p')"
  shows "pipeline_running p'"
proof -
  obtain rs ts where ok: "mpsc_idle (report_queue p) rs" "mpsc_idle (trade_queue p) ts" "\<not> closed (report_queue p)" "\<not> closed (trade_queue p)"
    "ep_running p" using assms(1) by (auto simp: pipeline_running_def pipeline_ok_def)
  obtain rq tq where q: "mpsc_dequeue (report_queue p) = Inr (case rs of [] \<Rightarrow> None | v # ws \<Rightarrow> Some v, rq)" "mpsc_idle rq (tl rs)" "\<not> closed rq"
    "mpsc_dequeue (trade_queue p) = Inr (case ts of [] \<Rightarrow> None | v # ws \<Rightarrow> Some v, tq)" "mpsc_idle tq (tl ts)" "\<not> closed tq"
    using mpsc_idle_dequeue_any [OF ok(1)] mpsc_idle_dequeue_any [OF ok(2)] ok(3,4) by auto
  have "p' = p\<lparr>report_queue := rq, trade_queue := tq\<rparr>" using assms(2) q(1,4) by (simp add: dispatch_once_def)
  then show ?thesis using q ok(5) by (auto simp: pipeline_running_def pipeline_ok_def)
qed


section \<open>The invariant of the pool\<close>

definition tasks_of :: "worker \<Rightarrow> Task list" where
  "tasks_of w = (case w of Has_task task \<Rightarrow> [task] | Has_book task \<Rightarrow> [task] | _ \<Rightarrow> [])"

definition exchange_follows :: "clock \<Rightarrow> worker list \<Rightarrow> Exchange \<Rightarrow> Task list \<Rightarrow> bool" where
  "exchange_follows clk ws x logd \<longleftrightarrow>
     registry_inv (registry x) \<and> books_follow clk ws (registry x) (env x) logd \<and>
     (\<exists>w. wal x = Some w \<and> log_follows w logd) \<and> (\<exists>p. pipeline x = Some p \<and> pipeline_running p)"

text \<open>
  No book's mutex is held twice, every submitted task is queued, taken but not logged yet, or logged, and the exchange
  follows the logged requests.
\<close>

definition pool_inv :: "clock \<Rightarrow> Workers \<Rightarrow> Task list \<Rightarrow> Task list \<Rightarrow> bool" where
  "pool_inv clk s subs logd \<longleftrightarrow>
     exchange_follows clk (wk_workers s) (wk_exchange s) logd \<and> distinct (locked (wk_workers s)) \<and>
     mset subs = mset (sq_queue (wk_queue s)) + mset (concat (map tasks_of (wk_workers s))) + mset logd \<and>
     (\<forall>task \<in> set subs. gateway_task task) \<and>
     (\<forall>task. In_book task \<in> set (wk_workers s) \<longrightarrow> op_of_task task \<noteq> None)"

lemma worker_split:
  assumes "i < length ws"
  obtains pre post where "ws = pre @ ws ! i # post" "\<And>w. ws[i := w] = pre @ w # post"
  using that [of "take i ws" "drop (Suc i) ws"] assms by (simp add: id_take_nth_drop upd_conv_take_nth_drop)

lemma pool_inv_task:
  assumes "pool_inv clk s subs logd" "w \<in> set (wk_workers s)" "task \<in> set (tasks_of w)"
  shows "gateway_task task"
proof -
  have "task \<in># mset subs" using assms by (auto simp: pool_inv_def)
  then show ?thesis using assms(1) by (simp add: pool_inv_def)
qed

text \<open>A step of a worker, on a pool split at that worker.\<close>

lemma worker_dequeue_inv:
  assumes inv: "pool_inv clk s subs logd" and ws: "wk_workers s = pre @ Dequeuing # post" "\<And>w. (wk_workers s)[i := w] = pre @ w # post"
    and step: "worker_dequeue i s = done_with s'"
  shows "pool_inv clk s' subs logd"
proof -
  have fol: "books_follow clk (pre @ w # post) (registry (wk_exchange s)) (env (wk_exchange s)) logd" if "locked_by w = []" "looked_up w = []" for w
    using books_follow_other [of clk pre Dequeuing post] inv that ws by (auto simp: pool_inv_def exchange_follows_def locked_by_def looked_up_def)
  obtain r q where d: "sq_dequeue (wk_queue s) = Returns (r, q)" using step by (auto simp: worker_dequeue_def split: outcome.splits)
  from d show ?thesis
  proof (cases rule: sq_dequeue_cases)
    case 1
    then have "s' = set_worker i Exited (s\<lparr>wk_queue := q\<rparr>)" using step d by (simp add: worker_dequeue_def)
    then show ?thesis using inv fol [of Exited] ws 1
      by (auto simp: pool_inv_def exchange_follows_def set_worker_def tasks_of_def locked_by_def looked_up_def)
  next
    case (2 task tasks)
    then have "s' = set_worker i (Has_task task) (s\<lparr>wk_queue := q\<rparr>)" using step d by (simp add: worker_dequeue_def)
    then show ?thesis using inv fol [of "Has_task task"] ws 2
      by (auto simp: pool_inv_def exchange_follows_def set_worker_def tasks_of_def locked_by_def looked_up_def)
  qed
qed

lemma worker_lookup_inv:
  assumes inv: "pool_inv clk s subs logd" and ws: "wk_workers s = pre @ Has_task task # post" "\<And>w. (wk_workers s)[i := w] = pre @ w # post"
    and step: "worker_lookup i task s = done_with s'"
  shows "pool_inv clk s' subs logd"
proof -
  obtain b reg where get: "get_order_book (task_symbol task) (registry (wk_exchange s)) = (b, reg)" by fastforce
  have "books_follow clk (pre @ Has_book task # post) reg (env (wk_exchange s)) logd"
    using books_follow_lookup [OF _ get] inv ws by (simp add: pool_inv_def exchange_follows_def)
  moreover have "registry_inv reg" using registry_inv_get(1) [OF _ get] inv by (simp add: pool_inv_def exchange_follows_def)
  moreover have "s' = set_worker i (Has_book task) (s\<lparr>wk_exchange := (wk_exchange s)\<lparr>registry := reg\<rparr>\<rparr>)"
    using step get by (simp add: worker_lookup_def)
  ultimately show ?thesis using inv ws
    by (auto simp: pool_inv_def exchange_follows_def set_worker_def tasks_of_def locked_by_def)
qed

lemma worker_lock_inv:
  assumes inv: "pool_inv clk s subs logd" and ws: "wk_workers s = pre @ Has_book task # post" "\<And>w. (wk_workers s)[i := w] = pre @ w # post"
    and step: "worker_lock mem i task s = done_with s'" and mem: "mem_ok mem"
  shows "pool_inv clk s' subs (logd @ [task])"
proof -
  let ?x = "wk_exchange s"
  have task: "gateway_task task" using pool_inv_task [OF inv, of "Has_book task"] ws by (simp add: tasks_of_def)
  then obtain op where op: "op_of_task task = Some op" using gateway_task_op by blast
  have free: "task_symbol task \<notin> set (locked (pre @ Has_book task # post))"
    using step op ws by (auto simp: worker_lock_def Let_def split: if_splits)
  obtain w where w: "wal ?x = Some w" "log_follows w logd" using inv by (auto simp: pool_inv_def exchange_follows_def)
  obtain w' where w': "log_action mem task (Some w) = done_with (Some w')" "log_follows w' (logd @ [task])"
    using log_follows_action [OF w(2) task op mem] by blast
  have s': "s' = set_worker i (In_book task) (s\<lparr>wk_exchange := ?x\<lparr>wal := Some w'\<rparr>\<rparr>)"
    using step op w(1) w'(1) free ws by (auto simp: worker_lock_def Let_def split: if_splits)
  have "books_follow clk (pre @ In_book task # post) (registry ?x) (env ?x) (logd @ [task])"
    using books_follow_lock [OF _ _ op free] inv ws by (simp add: pool_inv_def exchange_follows_def)
  then show ?thesis using inv ws w'(2) op free
    by (auto simp: pool_inv_def exchange_follows_def set_worker_def tasks_of_def locked_by_def s')
qed

lemma worker_match_inv:
  assumes inv: "pool_inv clk s subs logd" and ws: "wk_workers s = pre @ In_book task # post" "\<And>w. (wk_workers s)[i := w] = pre @ w # post"
    and step: "worker_match clk i task s = done_with s'"
  shows "pool_inv clk s' subs logd"
proof -
  let ?x = "wk_exchange s"
  obtain op where op: "op_of_task task = Some op" using step by (auto simp: worker_match_def Let_def split: option.splits)
  obtain b reg where get: "get_order_book (task_symbol task) (registry ?x) = (b, reg)" by fastforce
  have rinv: "registry_inv (registry ?x)" using inv by (simp add: pool_inv_def exchange_follows_def)
  note R = registry_inv_get [OF rinv get]
  obtain b' res e where ap: "book_apply clk op b (env ?x) = Inr (b', res, e)" "book_inv b'" using book_apply_inv [OF R(2)] by blast
  have s': "s' = set_worker i (After_book (fills res) (execution_reports res) (fills res))
      (s\<lparr>wk_exchange := ?x\<lparr>registry := store_book (task_symbol task) b' reg, env := e\<rparr>\<rparr>)"
    using step op get ap(1) by (simp add: worker_match_def)
  have free: "task_symbol task \<notin> set (locked (pre @ post))" using inv ws by (auto simp: pool_inv_def locked_by_def)
  have "books_follow clk (pre @ In_book task # post) (registry ?x) (env ?x) logd"
    using inv ws by (simp add: pool_inv_def exchange_follows_def)
  from books_follow_match [OF this op free get ap(1)]
  have "books_follow clk (pre @ After_book (fills res) (execution_reports res) (fills res) # post) (store_book (task_symbol task) b' reg) e logd" .
  moreover have "registry_inv (store_book (task_symbol task) b' reg)"
    using registry_inv_store [OF R(1) ap(2)] book_apply_symbol [OF ap(1)] R(3) by simp
  ultimately show ?thesis using inv ws
    by (auto simp: pool_inv_def exchange_follows_def set_worker_def tasks_of_def locked_by_def s')
qed

lemma worker_publish_inv:
  assumes inv: "pool_inv clk s subs logd" and ws: "wk_workers s = pre @ After_book fs rs ts # post" "\<And>w. (wk_workers s)[i := w] = pre @ w # post"
    and step: "worker_publish mem i fs rs ts s = done_with s'" and mem: "mem_ok mem"
  shows "pool_inv clk s' subs logd"
proof -
  let ?x = "wk_exchange s"
  obtain w p where w: "wal ?x = Some w" "log_follows w logd" "pipeline ?x = Some p" "pipeline_running p"
    using inv by (auto simp: pool_inv_def exchange_follows_def)
  have fol: "books_follow clk (pre @ v # post) (registry ?x) (env ?x) logd" if "locked_by v = []" "looked_up v = []" for v
    using books_follow_other [of clk pre "After_book fs rs ts" post] inv that ws
    by (auto simp: pool_inv_def exchange_follows_def locked_by_def looked_up_def)
  have upd: "pool_inv clk (set_worker i v (s\<lparr>wk_exchange := ?x\<lparr>wal := Some w', pipeline := Some p'\<rparr>\<rparr>)) subs logd"
    if "log_follows w' logd" "pipeline_running p'" "locked_by v = []" "looked_up v = []" "tasks_of v = []" "\<And>task. v \<noteq> In_book task" for v w' p'
    using inv fol [OF that(3,4)] that ws by (auto simp: pool_inv_def exchange_follows_def set_worker_def tasks_of_def locked_by_def)
  have same: "?x\<lparr>wal := Some w', pipeline := Some p\<rparr> = ?x\<lparr>wal := Some w'\<rparr>" "?x\<lparr>wal := Some w, pipeline := Some p'\<rparr> = ?x\<lparr>pipeline := Some p'\<rparr>" for w' p'
    using w(1,3) by (cases ?x; simp)+
  have here: "s\<lparr>wk_exchange := ?x\<lparr>wal := Some w, pipeline := Some p\<rparr>\<rparr> = s" using w(1,3) by simp
  note kinds = locked_by_def looked_up_def tasks_of_def
  consider f fs' where "fs = f # fs'" | r rs' where "fs = []" "rs = r # rs'" | f ts' where "fs = []" "rs = []" "ts = f # ts'"
    | "fs = []" "rs = []" "ts = []" by (meson neq_Nil_conv)
  then show ?thesis
  proof cases
    case (1 f fs')
    obtain w' where "log_fills mem [f] (Some w) = done_with (Some w')" "log_follows w' logd" using log_follows_fill [OF w(2) mem] by blast
    then show ?thesis using step 1 w upd [of w' p "After_book fs' rs ts"] by (simp add: Let_def same kinds)
  next
    case (2 r rs')
    obtain p' where "publish_result (MatchResult_init\<lparr>execution_reports := [r]\<rparr>) (Some p) = done_with (Some p')" "pipeline_running p'"
      using pipeline_running_publish [OF w(4)] by blast
    then show ?thesis using step 2 w upd [of w p' "After_book [] rs' ts"] by (simp add: Let_def same kinds)
  next
    case (3 f ts')
    obtain p' where "publish_result (MatchResult_init\<lparr>fills := [f]\<rparr>) (Some p) = done_with (Some p')" "pipeline_running p'"
      using pipeline_running_publish [OF w(4)] by blast
    then show ?thesis using step 3 w upd [of w p' "After_book [] [] ts'"] by (simp add: Let_def same kinds)
  next
    case 4
    then show ?thesis using step w upd [of w p Dequeuing] here by (simp add: kinds)
  qed
qed


lemma worker_step_inv:
  assumes inv: "pool_inv clk s subs logd" and i: "i < length (wk_workers s)" and step: "worker_step clk mem i s = done_with s'" and mem: "mem_ok mem"
  shows "pool_inv clk s' subs (logd @ logged_by i s)"
proof -
  obtain pre post where ws: "wk_workers s = pre @ wk_workers s ! i # post" "\<And>w. (wk_workers s)[i := w] = pre @ w # post"
    using worker_split [OF i] by metis
  show ?thesis
  proof (cases "wk_workers s ! i")
    case Dequeuing
    then show ?thesis using worker_dequeue_inv [OF inv _ ws(2)] ws(1) step by (simp add: worker_step_def logged_by_def)
  next
    case (Has_task task)
    then show ?thesis using worker_lookup_inv [OF inv _ ws(2)] ws(1) step by (simp add: worker_step_def logged_by_def)
  next
    case (Has_book task)
    have "Has_book task \<in> set (wk_workers s)" using i Has_book by (metis nth_mem)
    then have "gateway_task task" using pool_inv_task [OF inv] by (simp add: tasks_of_def)
    then have "logged_by i s = [task]" using Has_book gateway_task_op by (auto simp: logged_by_def)
    then show ?thesis using worker_lock_inv [OF inv _ ws(2) _ mem] ws(1) step Has_book by (simp add: worker_step_def)
  next
    case (In_book task)
    then show ?thesis using worker_match_inv [OF inv _ ws(2)] ws(1) step by (simp add: worker_step_def logged_by_def)
  next
    case (After_book fs rs ts)
    then show ?thesis using worker_publish_inv [OF inv _ ws(2) _ mem] ws(1) step by (simp add: worker_step_def logged_by_def)
  qed (use step in \<open>simp add: worker_step_def\<close>)
qed

lemma pool_step_inv:
  assumes "pool_step clk mem s a b s'" "pool_inv clk s subs logd" "mem_ok mem"
  shows "pool_inv clk s' (subs @ a) (logd @ b)"
  using assms(1)
proof cases
  case (works i)
  then show ?thesis using worker_step_inv [OF assms(2) _ _ assms(3)] by simp
next
  case (submits task q)
  from submits(5) show ?thesis
    by (cases rule: sq_enqueue_cases) (use submits assms(2) in \<open>auto simp: pool_inv_def\<close>)
next
  case closes
  then show ?thesis using assms(2) by (simp add: pool_inv_def sq_close_def)
next
  case (flushes w w')
  then show ?thesis using assms(2) log_follows_flush [of w logd] by (auto simp: pool_inv_def exchange_follows_def)
next
  case (dispatches p cm out p')
  then show ?thesis using assms(2) pipeline_running_dispatch [of p cm out p'] by (auto simp: pool_inv_def exchange_follows_def)
qed

lemma fresh_workers_inv: "pool_inv clk (fresh_workers n path) [] []"
proof -
  have "log_follows (wal_start True (WAL_init path [])) []"
    unfolding log_follows_def by (rule exI [of _ "[]"], rule exI [of _ "[]"])
      (use wal_ok_init [of path "[]"] in \<open>simp add: wal_start_def wal_ok_def WAL_init_def MPSCQueue_init_def\<close>)
  moreover have "pipeline_running (pipeline_start ExecutionPipeline_init)"
    unfolding pipeline_running_def
    by (intro conjI exI [of _ "[]"] pipeline_ok_start) (simp add: pipeline_start_def)
  moreover have "locked (replicate n Dequeuing) = []" "concat (map looked_up (replicate n Dequeuing)) = []"
    "concat (map tasks_of (replicate n Dequeuing)) = []" "sum_list (map (ids_due clk reg) (replicate n Dequeuing)) = 0"
    "fold (settle clk sy) (replicate n Dequeuing) b = b" for reg sy b
    by (induction n) (simp_all add: worker_defs tasks_of_def)
  moreover have "locked_by Dequeuing = []" "looked_up Dequeuing = []" "distinct (locked (replicate n Dequeuing))"
    by (simp_all add: worker_defs)
  ultimately show ?thesis
    by (simp add: pool_inv_def exchange_follows_def books_follow_def fresh_workers_def fresh_exchange_def SafeQueue_init_def
        registry_inv_init del: map_replicate)
qed

lemma pool_run_inv: "pool_run clk mem (fresh_workers n path) subs logd s \<Longrightarrow> mem_ok mem \<Longrightarrow> pool_inv clk s subs logd"
proof (induction rule: pool_run.induct)
  case pool_begin
  show ?case by (rule fresh_workers_inv)
qed (blast intro: pool_step_inv)

section \<open>Between two tasks\<close>

definition quiet :: "Workers \<Rightarrow> bool" where
  "quiet s \<longleftrightarrow> (\<forall>w \<in> set (wk_workers s). w = Dequeuing \<or> w = Exited)"

lemma quiet_workers:
  assumes "quiet s"
  shows "fold (settle clk sy) (wk_workers s) b = b" "concat (map looked_up (wk_workers s)) = []"
    "concat (map tasks_of (wk_workers s)) = []" "sum_list (map (ids_due clk reg) (wk_workers s)) = 0"
proof -
  have "v \<in> {Dequeuing, Exited} \<Longrightarrow> looked_up v = [] \<and> tasks_of v = [] \<and> locked_by v = [] \<and> ids_due clk reg v = 0" for v
    by (auto simp: worker_defs tasks_of_def)
  then have k: "\<forall>v \<in> set (wk_workers s). looked_up v = [] \<and> tasks_of v = [] \<and> locked_by v = [] \<and> ids_due clk reg v = 0"
    using assms by (simp add: quiet_def)
  then show "concat (map looked_up (wk_workers s)) = []" "concat (map tasks_of (wk_workers s)) = []" by simp_all
  show "fold (settle clk sy) (wk_workers s) b = b" using k by (intro settle_unlocked) simp
  have "map (ids_due clk reg) (wk_workers s) = replicate (length (wk_workers s)) 0" using k by (intro nth_equalityI) auto
  then show "sum_list (map (ids_due clk reg) (wk_workers s)) = 0" by (simp add: sum_list_replicate)
qed

lemma registry_eqI:
  assumes "\<And>sy. book_at sy reg = book_at sy reg'" "\<And>sy. books reg sy \<noteq> None \<longleftrightarrow> books reg' sy \<noteq> None"
  shows "reg = reg'"
proof -
  have "books reg sy = books reg' sy" for sy
    using assms(1) [of sy] assms(2) [of sy] by (cases "books reg sy"; cases "books reg' sy") (auto simp: book_at_def get_order_book_def)
  then show ?thesis by (cases reg; cases reg') auto
qed

lemma quiet_books:
  assumes "pool_inv clk s subs logd" "quiet s"
  obtains e where "apply_tasks clk logd BookRegistry_init Env_init = Inr (registry (wk_exchange s), e)" "counter e = counter (env (wk_exchange s))"
    "mset subs = mset (sq_queue (wk_queue s)) + mset logd" "\<forall>task \<in> set logd. gateway_task task"
proof -
  obtain reg e where r: "apply_tasks clk logd BookRegistry_init Env_init = Inr (reg, e)"
    "\<And>sy. book_at sy reg = book_at sy (registry (wk_exchange s))"
    "\<And>sy. books (registry (wk_exchange s)) sy \<noteq> None \<longleftrightarrow> books reg sy \<noteq> None" "counter e = counter (env (wk_exchange s))"
    using assms(1) by (auto simp: pool_inv_def exchange_follows_def books_follow_def quiet_workers [OF assms(2)])
  have m: "mset subs = mset (sq_queue (wk_queue s)) + mset logd" using assms(1) quiet_workers(3) [OF assms(2)] by (simp add: pool_inv_def)
  have "set_mset (mset logd) \<subseteq> set_mset (mset subs)" unfolding m by auto
  then have "\<forall>task \<in> set logd. gateway_task task" using assms(1) by (auto simp: pool_inv_def)
  then show thesis using that r registry_eqI [of reg "registry (wk_exchange s)"] m by metis
qed

end
