(* ===== verification/Worker_Runs.thy ===== *)
theory Worker_Runs
  imports Worker_Pool
begin

text \<open>
  Runs of the pool of \<^verbatim>\<open>Worker_Pool\<close>: which worker can move, that a closed pool comes to an end, and the properties
  of interleaved workers.
\<close>

section \<open>Progress\<close>

lemma worker_step_progress:
  assumes inv: "pool_inv clk s subs logd" and i: "i < length (wk_workers s)" and mem: "mem_ok mem"
  obtains s' where "worker_step clk mem i s = done_with s'"
  | "worker_step clk mem i s = None" "wk_workers s ! i = Exited"
  | "worker_step clk mem i s = None" "wk_workers s ! i = Dequeuing" "sq_queue (wk_queue s) = []" "\<not> shutdown (wk_queue s)"
  | task where "worker_step clk mem i s = None" "wk_workers s ! i = Has_book task" "task_symbol task \<in> set (locked (wk_workers s))"
proof -
  let ?x = "wk_exchange s"
  have mem_i: "wk_workers s ! i \<in> set (wk_workers s)" using i by simp
  obtain w p where w: "wal ?x = Some w" "log_follows w logd" "pipeline ?x = Some p" "pipeline_running p" and rinv: "registry_inv (registry ?x)"
    using inv by (auto simp: pool_inv_def exchange_follows_def)
  show thesis
  proof (cases "wk_workers s ! i")
    case Dequeuing
    then have st: "worker_step clk mem i s = worker_dequeue i s" by (simp add: worker_step_def)
    show thesis
    proof (cases "sq_dequeue (wk_queue s)")
      case Waits
      moreover have "sq_queue (wk_queue s) = []" "\<not> shutdown (wk_queue s)" using Waits by (simp_all add: sq_waits_iff)
      ultimately show thesis using that(3) Dequeuing st by (simp add: worker_dequeue_def)
    next
      case (Returns r)
      then show thesis using that(1) st by (cases r; cases "fst r") (auto simp: worker_dequeue_def)
    qed
  next
    case (Has_task task)
    then show thesis using that(1) by (simp add: worker_step_def worker_lookup_def Let_def split_beta)
  next
    case (Has_book task)
    then have task: "gateway_task task" using pool_inv_task [OF inv mem_i] by (simp add: tasks_of_def)
    then obtain op where op: "op_of_task task = Some op" using gateway_task_op by blast
    obtain w' where "log_action mem task (Some w) = done_with (Some w')" using log_follows_action [OF w(2) task op mem] by blast
    then show thesis using that(1,4) Has_book w(1) op
      by (cases "task_symbol task \<in> set (locked (wk_workers s))") (auto simp: worker_step_def worker_lock_def Let_def)
  next
    case (In_book task)
    then obtain op where op: "op_of_task task = Some op" using inv mem_i by (fastforce simp: pool_inv_def)
    obtain b reg where get: "get_order_book (task_symbol task) (registry ?x) = (b, reg)" by fastforce
    obtain b' res e where "book_apply clk op b (env ?x) = Inr (b', res, e)" using book_apply_inv [OF registry_inv_get(2) [OF rinv get]] by blast
    then show thesis using that(1) In_book op get by (simp add: worker_step_def worker_match_def Let_def)
  next
    case (After_book fs rs ts)
    obtain w' where w': "\<And>f. log_fills mem [f] (Some w) = done_with (Some (w' f))" using log_follows_fill [OF w(2) mem] by metis
    obtain p' where p': "\<And>res. publish_result res (Some p) = done_with (Some (p' res))" using pipeline_running_publish [OF w(4)] by metis
    have "\<exists>s'. worker_publish mem i fs rs ts s = done_with s'"
      by (cases fs; cases rs; cases ts) (simp_all add: Let_def w(1,3) w' p')
    then show thesis using that(1) After_book by (auto simp: worker_step_def)
  next
    case Exited
    then show thesis using that(2) by (simp add: worker_step_def)
  qed
qed

text \<open>A worker's step brings it closer to the end of its task, or takes a task from the queue.\<close>

fun stage :: "worker \<Rightarrow> nat" where
  "stage (Has_task task) = 3"
| "stage (Has_book task) = 2"
| "stage (In_book task) = 1"
| "stage _ = 0"

fun left_over :: "worker \<Rightarrow> nat" where
  "left_over (After_book fs rs ts) = 2 + length fs + length rs + length ts"
| "left_over Dequeuing = 1"
| "left_over _ = 0"

definition pool_rank :: "Workers \<Rightarrow> nat \<times> nat" where
  "pool_rank s = (4 * length (sq_queue (wk_queue s)) + sum_list (map stage (wk_workers s)), sum_list (map left_over (wk_workers s)))"

lemma worker_step_change:
  assumes "i < length (wk_workers s)" "worker_step clk mem i s = done_with s'"
  obtains pre u v post where "wk_workers s = pre @ u # post" "wk_workers s' = pre @ v # post" "shutdown (wk_queue s') = shutdown (wk_queue s)"
    "wk_queue s' = wk_queue s \<and> (stage v < stage u \<or> stage v = stage u \<and> left_over v < left_over u) \<and>
       (v = Exited \<longrightarrow> shutdown (wk_queue s) \<and> sq_queue (wk_queue s) = [])
     \<or> length (sq_queue (wk_queue s)) = Suc (length (sq_queue (wk_queue s'))) \<and> stage v < 4 + stage u \<and> v \<noteq> Exited"
proof -
  obtain pre post where ws: "wk_workers s = pre @ wk_workers s ! i # post" "\<And>w. (wk_workers s)[i := w] = pre @ w # post"
    using worker_split [OF assms(1)] by metis
  note change = that [OF ws(1)]
  show thesis
  proof (cases "wk_workers s ! i")
    case Dequeuing
    then obtain r q where d: "sq_dequeue (wk_queue s) = Returns (r, q)"
      using assms(2) by (auto simp: worker_step_def worker_dequeue_def split: outcome.splits)
    from d show thesis
      by (cases rule: sq_dequeue_cases)
        (use assms(2) d Dequeuing change ws(2) in \<open>auto simp: worker_step_def worker_dequeue_def set_worker_def\<close>)
  next
    case (Has_task task)
    then show thesis using assms(2) change [of "Has_book task"] ws(2)
      by (auto simp: worker_step_def worker_lookup_def set_worker_def Let_def split: prod.splits)
  next
    case (Has_book task)
    then show thesis using assms(2) change [of "In_book task"] change [of Dequeuing] ws(2)
      by (auto simp: worker_step_def worker_lock_def set_worker_def Let_def split: if_splits elim!: run_bind_done)
  next
    case (In_book task)
    then show thesis using assms(2) change ws(2)
      by (auto simp: worker_step_def worker_match_def set_worker_def Let_def split: option.splits prod.splits sum.splits)
  next
    case (After_book fs rs ts)
    then show thesis using assms(2) change ws(2)
      by (cases "(mem, i, fs, rs, ts, s)" rule: worker_publish.cases)
        (auto simp: worker_step_def set_worker_def Let_def elim!: run_bind_done)
  qed (use assms(2) in \<open>simp add: worker_step_def\<close>)
qed

lemma worker_step_rank:
  assumes "i < length (wk_workers s)" "worker_step clk mem i s = done_with s'"
  shows "(pool_rank s', pool_rank s) \<in> less_than <*lex*> less_than"
  by (rule worker_step_change [OF assms]) (auto simp: pool_rank_def)

lemma workers_exit_last:
  assumes "pool_run clk mem (fresh_workers n path) subs logd s"
  shows "length (wk_workers s) = n \<and> (Exited \<in> set (wk_workers s) \<longrightarrow> shutdown (wk_queue s) \<and> sq_queue (wk_queue s) = [])"
  using assms
proof (induction rule: pool_run.induct)
  case pool_begin
  then show ?case by (simp add: fresh_workers_def)
next
  case (pool_next subs logd s a b s')
  from pool_next(2) show ?case
  proof cases
    case (works i)
    show ?thesis by (rule worker_step_change [OF works(3,4)]) (use pool_next(3) in auto)
  qed (use pool_next(3) in \<open>auto simp: sq_close_def elim: sq_enqueue_cases\<close>)
qed

text \<open>Only a lock can hold up a worker of a closed pool, and whoever holds the lock can move.\<close>

lemma closed_pool_moves:
  assumes inv: "pool_inv clk s subs logd" and mem: "mem_ok mem" and closed: "shutdown (wk_queue s)"
    and left: "\<exists>w \<in> set (wk_workers s). w \<noteq> Exited"
  shows "\<exists>i < length (wk_workers s). \<exists>s'. worker_step clk mem i s = done_with s'"
proof -
  obtain i where i: "i < length (wk_workers s)" "wk_workers s ! i \<noteq> Exited" using left by (auto simp: in_set_conv_nth)
  from inv i(1) mem show ?thesis
  proof (cases rule: worker_step_progress)
    case (4 task)
    then obtain u where u: "u \<in> set (wk_workers s)" "locked_by u \<noteq> []" by fastforce
    then obtain j t where j: "j < length (wk_workers s)" "wk_workers s ! j = In_book t"
      by (auto simp: in_set_conv_nth locked_by_def split: worker.splits)
    from inv j(1) mem show ?thesis by (cases rule: worker_step_progress) (use j in auto)
  qed (use i closed in auto)
qed

lemma no_infinite_worker_run:
  "\<not> (\<exists>f. f 0 = s \<and> (\<forall>k. \<exists>i < length (wk_workers (f k)). worker_step clk mem i (f k) = done_with (f (Suc k))))"
proof
  assume "\<exists>f. f 0 = s \<and> (\<forall>k. \<exists>i < length (wk_workers (f k)). worker_step clk mem i (f k) = done_with (f (Suc k)))"
  then obtain f where f: "\<forall>k. (pool_rank (f (Suc k)), pool_rank (f k)) \<in> less_than <*lex*> less_than"
    using worker_step_rank by metis
  have "wf (less_than <*lex*> less_than)" by (simp add: wf_lex_prod)
  then show False unfolding wf_iff_no_infinite_down_chain using f by (auto dest!: spec [of _ "\<lambda>k. pool_rank (f k)"])
qed

text \<open>A closed pool can finish.\<close>

lemma closed_pool_finishes:
  assumes "pool_run clk mem s0 subs logd s" "pool_inv clk s subs logd" "mem_ok mem" "shutdown (wk_queue s)"
  shows "\<exists>logd' s'. pool_run clk mem s0 subs logd' s' \<and> (\<forall>w \<in> set (wk_workers s'). w = Exited)"
  using assms
proof (induction "pool_rank s" arbitrary: s logd rule: wf_induct_rule [OF wf_lex_prod [OF wf_less_than wf_less_than]])
  case 1
  show ?case
  proof (cases "\<forall>w \<in> set (wk_workers s). w = Exited")
    case True
    then show ?thesis using 1(2) by blast
  next
    case False
    then obtain i s' where i: "i < length (wk_workers s)" "worker_step clk mem i s = done_with s'"
      using closed_pool_moves [OF 1(3,4,5)] by blast
    have "shutdown (wk_queue s')" by (rule worker_step_change [OF i]) (use 1(5) in simp)
    moreover have "pool_run clk mem s0 subs (logd @ logged_by i s) s'" using pool_next [OF 1(2) works [OF i]] by simp
    ultimately show ?thesis using 1(1) [OF worker_step_rank [OF i]] worker_step_inv [OF 1(3) i 1(4)] 1(4) by blast
  qed
qed

lemma submitted_run:
  assumes "\<forall>task \<in> set tasks. gateway_task task" "length tasks \<le> MAX_QUEUE_CAPACITY"
  shows "pool_run clk mem (fresh_workers n path) tasks [] ((fresh_workers n path)\<lparr>wk_queue := (SafeQueue_init MAX_QUEUE_CAPACITY)\<lparr>sq_queue := tasks\<rparr>\<rparr>)"
  using assms
proof (induction tasks rule: rev_induct)
  case Nil
  have "(fresh_workers n path)\<lparr>wk_queue := (SafeQueue_init MAX_QUEUE_CAPACITY)\<lparr>sq_queue := []\<rparr>\<rparr> = fresh_workers n path"
    by (simp add: fresh_workers_def SafeQueue_init_def)
  then show ?case using pool_begin by simp
next
  case (snoc task tasks)
  let ?s = "(fresh_workers n path)\<lparr>wk_queue := (SafeQueue_init MAX_QUEUE_CAPACITY)\<lparr>sq_queue := tasks\<rparr>\<rparr>"
  have "sq_enqueue task (wk_queue ?s) = Returns (True, (SafeQueue_init MAX_QUEUE_CAPACITY)\<lparr>sq_queue := tasks @ [task]\<rparr>)"
    using snoc.prems by (simp add: sq_enqueue_def SafeQueue_init_def)
  from pool_next [OF snoc.IH submits [OF _ this]] snoc.prems show ?case by simp
qed

lemma finished_run:
  assumes "\<forall>task \<in> set tasks. gateway_task task" "length tasks \<le> MAX_QUEUE_CAPACITY" "mem_ok mem"
  shows "\<exists>logd s. pool_run clk mem (fresh_workers n path) tasks logd s \<and> (\<forall>w \<in> set (wk_workers s). w = Exited)"
proof -
  note run = pool_next [OF submitted_run [OF assms(1,2)] closes, simplified]
  show ?thesis
    by (rule closed_pool_finishes [OF run pool_run_inv [OF run assms(3)] assms(3)]) (simp add: sq_close_def SafeQueue_init_def)
qed

section \<open>One worker running alone\<close>

lemma worker_step_own:
  assumes "worker_step clk mem i s = done_with s'" "wk_workers s ! i \<noteq> Dequeuing" "\<And>task. wk_workers s ! i = Has_book task \<Longrightarrow> op_of_task task \<noteq> None"
  obtains v where "wk_workers s' = (wk_workers s)[i := v]" "wk_queue s' = wk_queue s" "v \<noteq> Exited"
    "logged_by i s @ tasks_of v = tasks_of (wk_workers s ! i)"
proof (cases "wk_workers s ! i")
  case (Has_task task)
  then show thesis using assms(1) that [of "Has_book task"]
    by (auto simp: worker_step_def worker_lookup_def set_worker_def logged_by_def tasks_of_def Let_def split: prod.splits)
next
  case (Has_book task)
  then show thesis using assms(1,3) that [of "In_book task"]
    by (auto simp: worker_step_def worker_lock_def set_worker_def logged_by_def tasks_of_def Let_def split: if_splits elim!: run_bind_done)
next
  case (In_book task)
  then show thesis using assms(1) that
    by (fastforce simp: worker_step_def worker_match_def set_worker_def logged_by_def tasks_of_def Let_def split: option.splits prod.splits sum.splits)
next
  case (After_book fs rs ts)
  then show thesis using assms(1) that
    by (cases fs; cases rs; cases ts) (fastforce simp: worker_step_def set_worker_def logged_by_def tasks_of_def Let_def elim!: run_bind_done)+
qed (use assms in \<open>simp_all add: worker_step_def\<close>)

lemma worker_alone:
  assumes "pool_run clk mem s0 subs logd s" "pool_inv clk s subs logd" "mem_ok mem" "i < length (wk_workers s)" "wk_workers s ! i \<noteq> Exited"
    "\<And>j. j < length (wk_workers s) \<Longrightarrow> j \<noteq> i \<Longrightarrow> locked_by (wk_workers s ! j) = []"
  shows "\<exists>s'. pool_run clk mem s0 subs (logd @ tasks_of (wk_workers s ! i)) s' \<and> pool_inv clk s' subs (logd @ tasks_of (wk_workers s ! i)) \<and>
    wk_workers s' = (wk_workers s)[i := Dequeuing] \<and> wk_queue s' = wk_queue s"
  using assms
proof (induction "pool_rank s" arbitrary: s logd rule: wf_induct_rule [OF wf_lex_prod [OF wf_less_than wf_less_than]])
  case 1
  show ?case
  proof (cases "wk_workers s ! i = Dequeuing")
    case True
    then have "(wk_workers s)[i := Dequeuing] = wk_workers s" by (metis list_update_id)
    then show ?thesis using True 1(2,3) by (auto simp: tasks_of_def)
  next
    case False
    have "task_symbol task \<notin> set (locked (wk_workers s))" if "wk_workers s ! i = Has_book task" for task
      using 1(7) that by (fastforce simp: in_set_conv_nth locked_by_def split: worker.splits)
    with False 1(6) obtain s' where st: "worker_step clk mem i s = done_with s'"
      using worker_step_progress [OF 1(3,5,4)] by metis
    have "op_of_task task \<noteq> None" if "wk_workers s ! i = Has_book task" for task
      using pool_inv_task [OF 1(3) nth_mem [OF 1(5)], of task] that gateway_task_op by (fastforce simp: tasks_of_def)
    with st False obtain v where v: "wk_workers s' = (wk_workers s)[i := v]" "wk_queue s' = wk_queue s" "v \<noteq> Exited"
      "logged_by i s @ tasks_of v = tasks_of (wk_workers s ! i)"
      by (rule worker_step_own)
    have run: "pool_run clk mem s0 subs (logd @ logged_by i s) s'" using pool_next [OF 1(2) works [OF 1(5) st]] by simp
    from 1(1) [OF worker_step_rank [OF 1(5) st] run worker_step_inv [OF 1(3,5) st 1(4)] 1(4)] v 1(5,7)
    show ?thesis by simp
  qed
qed

lemma take_step:
  assumes "pool_run clk mem s0 subs logd s" "i < length (wk_workers s)" "wk_workers s ! i = Dequeuing" "sq_queue (wk_queue s) = task # tasks"
  shows "pool_run clk mem s0 subs logd (set_worker i (Has_task task) (s\<lparr>wk_queue := (wk_queue s)\<lparr>sq_queue := tasks\<rparr>\<rparr>))"
proof -
  have "worker_step clk mem i s = done_with (set_worker i (Has_task task) (s\<lparr>wk_queue := (wk_queue s)\<lparr>sq_queue := tasks\<rparr>\<rparr>))"
    using assms(3,4) by (simp add: worker_step_def worker_dequeue_def sq_dequeue_def)
  from pool_next [OF assms(1) works [OF assms(2) this]] assms(3) show ?thesis by (simp add: logged_by_def)
qed

lemma two_tasks_taken:
  assumes "gateway_task t" "gateway_task u"
  obtains s where "pool_run clk mem (fresh_workers 2 path) [t, u] [] s" "wk_workers s = [Has_task t, Has_task u]" "sq_queue (wk_queue s) = []"
proof -
  let ?s = "(fresh_workers 2 path)\<lparr>wk_queue := (SafeQueue_init MAX_QUEUE_CAPACITY)\<lparr>sq_queue := [t, u]\<rparr>\<rparr>"
  have "pool_run clk mem (fresh_workers 2 path) [t, u] [] ?s"
    using submitted_run [of "[t, u]"] assms by (simp add: MAX_QUEUE_CAPACITY_def)
  moreover have ws: "wk_workers ?s = [Dequeuing, Dequeuing]" by (simp add: fresh_workers_def numeral_2_eq_2)
  ultimately have r: "pool_run clk mem (fresh_workers 2 path) [t, u] [] (set_worker 0 (Has_task t) (?s\<lparr>wk_queue := (wk_queue ?s)\<lparr>sq_queue := [u]\<rparr>\<rparr>))"
    by (intro take_step) simp_all
  show thesis
    by (rule that [OF take_step [OF r, of 1 u "[]"]]) (use ws in \<open>simp_all add: set_worker_def\<close>)
qed

lemma lookup_step:
  assumes "pool_run clk mem s0 subs logd s" "i < length (wk_workers s)" "wk_workers s ! i = Has_task task"
    "books (registry (wk_exchange s)) (task_symbol task) = Some b"
  shows "pool_run clk mem s0 subs logd (set_worker i (Has_book task) s)"
proof -
  have "worker_step clk mem i s = done_with (set_worker i (Has_book task) s)"
    using assms(3,4) by (simp add: worker_step_def worker_lookup_def get_order_book_def)
  from pool_next [OF assms(1) works [OF assms(2) this]] assms(3) show ?thesis by (simp add: logged_by_def)
qed

lemma lock_step:
  assumes "pool_run clk mem (fresh_workers n path) subs logd s" "mem_ok mem" "i < length (wk_workers s)" "wk_workers s ! i = Has_book task"
    "gateway_task task" "task_symbol task \<notin> set (locked (wk_workers s))"
  shows "\<exists>w. pool_run clk mem (fresh_workers n path) subs (logd @ [task])
    (set_worker i (In_book task) (s\<lparr>wk_exchange := (wk_exchange s)\<lparr>wal := w\<rparr>\<rparr>))"
proof -
  obtain op where op: "op_of_task task = Some op" using gateway_task_op [OF assms(5)] by blast
  obtain w where w: "wal (wk_exchange s) = Some w" "log_follows w logd"
    using pool_run_inv [OF assms(1,2)] by (auto simp: pool_inv_def exchange_follows_def)
  obtain w' where "log_action mem task (Some w) = done_with (Some w')" using log_follows_action [OF w(2) assms(5) op assms(2)] by blast
  then have "worker_step clk mem i s = done_with (set_worker i (In_book task) (s\<lparr>wk_exchange := (wk_exchange s)\<lparr>wal := Some w'\<rparr>\<rparr>))"
    using assms(4,6) op w(1) by (simp add: worker_step_def worker_lock_def Let_def)
  from pool_next [OF assms(1) works [OF assms(3) this]] assms(4) op show ?thesis by (auto simp: logged_by_def)
qed

lemma match_step:
  assumes "pool_run clk mem s0 subs logd s" "i < length (wk_workers s)" "wk_workers s ! i = In_book task" "op_of_task task = Some op"
    "books (registry (wk_exchange s)) (task_symbol task) = Some b" "book_apply clk op b (env (wk_exchange s)) = Inr (b', res, e)"
  shows "pool_run clk mem s0 subs logd (set_worker i (After_book (fills res) (execution_reports res) (fills res))
    (s\<lparr>wk_exchange := (wk_exchange s)\<lparr>registry := store_book (task_symbol task) b' (registry (wk_exchange s)), env := e\<rparr>\<rparr>))"
proof -
  let ?s = "set_worker i (After_book (fills res) (execution_reports res) (fills res))
    (s\<lparr>wk_exchange := (wk_exchange s)\<lparr>registry := store_book (task_symbol task) b' (registry (wk_exchange s)), env := e\<rparr>\<rparr>)"
  have "worker_step clk mem i s = done_with ?s"
    using assms(3-6) by (simp add: worker_step_def worker_match_def get_order_book_def Let_def)
  from pool_next [OF assms(1) works [OF assms(2) this]] assms(3) show ?thesis by (simp add: logged_by_def)
qed

lemma handle_next:
  assumes "pool_run clk mem (fresh_workers n path) subs logd s" "mem_ok mem" "quiet s" "0 < n" "wk_workers s ! 0 = Dequeuing"
    "sq_queue (wk_queue s) = task # tasks"
  shows "\<exists>s'. pool_run clk mem (fresh_workers n path) subs (logd @ [task]) s' \<and> wk_workers s' = wk_workers s \<and> sq_queue (wk_queue s') = tasks"
proof -
  have n: "0 < length (wk_workers s)" using workers_exit_last [OF assms(1)] assms(4) by simp
  let ?s = "set_worker 0 (Has_task task) (s\<lparr>wk_queue := (wk_queue s)\<lparr>sq_queue := tasks\<rparr>\<rparr>)"
  note run = take_step [OF assms(1) n assms(5,6)]
  have ws: "wk_workers ?s = (wk_workers s)[0 := Has_task task]" "wk_workers ?s ! 0 = Has_task task" using n by (simp_all add: set_worker_def)
  have "locked_by (wk_workers ?s ! j) = []" if "j < length (wk_workers ?s)" "j \<noteq> 0" for j
    using that assms(3) ws(1) by (auto simp: quiet_def locked_by_def dest!: nth_mem)
  then obtain s' where "pool_run clk mem (fresh_workers n path) subs (logd @ [task]) s'" "wk_workers s' = (wk_workers s)[0 := Dequeuing]" "wk_queue s' = wk_queue ?s"
    using worker_alone [OF run pool_run_inv [OF run assms(2)] assms(2), of 0] n ws by (auto simp: tasks_of_def)
  moreover have "(wk_workers s)[0 := Dequeuing] = wk_workers s" using assms(5) by (metis list_update_id)
  ultimately show ?thesis by (auto simp: set_worker_def)
qed

lemma quiet_replay:
  assumes "pool_inv clk s subs logd" "quiet s"
  shows "\<exists>w w' reg e. wal (wk_exchange s) = Some w \<and> wal_stop w = done_with w' \<and>
    replay clk1 (Some (wal_file w')) BookRegistry_init e0 = Inr (True, reg, e) \<and>
    (\<forall>sy. books reg sy = map_option anon_book (books (registry (wk_exchange s)) sy)) \<and> counter e = counter (env (wk_exchange s))"
proof -
  obtain e where e: "apply_tasks clk logd BookRegistry_init Env_init = Inr (registry (wk_exchange s), e)"
    "counter e = counter (env (wk_exchange s))" "\<forall>task \<in> set logd. gateway_task task"
    by (rule quiet_books [OF assms])
  have ops: "\<forall>task \<in> set logd. op_of_task task \<noteq> None" using e(3) gateway_task_op by fastforce
  have "same_books BookRegistry_init BookRegistry_init" by (simp add: same_books_def BookRegistry_init_def)
  moreover have "counter (TradeIDGenerator_reset 1 e0) = counter Env_init"
    by (simp add: TradeIDGenerator_reset_def Env_init_def TradeIDGenerator_init_def)
  ultimately obtain reg f k where f: "replay_logged clk1 logd (BookRegistry_init, TradeIDGenerator_reset 1 e0, 0) = Inr (reg, f, k)"
    "same_books (registry (wk_exchange s)) reg" "counter f = counter e"
    using replay_logged_follows [OF e(1) ops, of BookRegistry_init "TradeIDGenerator_reset 1 e0" clk1 0] by blast
  obtain w where w: "wal (wk_exchange s) = Some w" "log_follows w logd" using assms(1) by (auto simp: pool_inv_def exchange_follows_def)
  show ?thesis using log_follows_stop [OF w(2) f(1)] w(1) f(2,3) e(2) by (auto simp: same_books_def)
qed


section \<open>Properties\<close>

text \<open>
  C16: Many workers act like one: however the steps of any number of workers, of the threads that submit tasks, of the flush thread and of the
  dispatch thread interleave, whenever all workers are between two tasks every submitted task is still queued or has been
  handled exactly once, and the books and the trade-id counter are those of a single worker that handles the requests in the order of the log.
\<close>

theorem workers_act_like_one:
  assumes "mem_ok mem" "pool_run clk mem (fresh_workers n path) subs logd s" "quiet s"
  shows "mset subs = mset (sq_queue (wk_queue s)) + mset logd \<and>
    (\<exists>x. process_tasks clk mem logd (fresh_exchange path) = done_with x \<and> registry (wk_exchange s) = registry x \<and>
       counter (env (wk_exchange s)) = counter (env x))"
proof -
  note inv = pool_run_inv [OF assms(2,1)]
  obtain e where e: "apply_tasks clk logd BookRegistry_init Env_init = Inr (registry (wk_exchange s), e)"
    "counter e = counter (env (wk_exchange s))" "mset subs = mset (sq_queue (wk_queue s)) + mset logd" "\<forall>task \<in> set logd. gateway_task task"
    by (rule quiet_books [OF inv assms(3)])
  have "\<forall>task \<in> set logd. op_of_task task \<noteq> None" using e(4) gateway_task_op by fastforce
  from process_tasks_books [OF fresh_exchange_ok [of path] assms(1) this, of clk] obtain x where
    "process_tasks clk mem logd (fresh_exchange path) = done_with x" "apply_tasks clk logd BookRegistry_init Env_init = Inr (registry x, env x)"
    by (auto simp: fresh_exchange_def)
  then show ?thesis using e by auto
qed

text \<open>
  Recovery with many workers: whenever all workers are between two tasks, stopping the log and replaying its file
  rebuilds every book up to the client ids and restores the trade-id counter, whatever the interleaving was and
  however much of the log had been flushed.
\<close>

theorem workers_replay_rebuilds:
  assumes "mem_ok mem" "pool_run clk mem (fresh_workers n path) subs logd s" "quiet s"
  shows "\<exists>w w' reg e. wal (wk_exchange s) = Some w \<and> wal_stop w = done_with w' \<and>
    replay clk1 (Some (wal_file w')) BookRegistry_init e0 = Inr (True, reg, e) \<and>
    (\<forall>sy. books reg sy = map_option anon_book (books (registry (wk_exchange s)) sy)) \<and> counter e = counter (env (wk_exchange s))"
  by (rule quiet_replay [OF pool_run_inv [OF assms(2,1)] assms(3)])

text \<open>
  C17: Closing the pool ends it: the workers of a closed pool cannot run forever, whatever the schedule; as long as one has not ended, some worker
  can make a step without undefined behaviour; and when all have ended, every submitted task has been handled exactly once.
\<close>

theorem closed_pool_ends:
  assumes "mem_ok mem" "pool_run clk mem (fresh_workers n path) subs logd s" "shutdown (wk_queue s)" "0 < n"
  shows "\<not> (\<exists>f. f 0 = s \<and> (\<forall>k. \<exists>i < length (wk_workers (f k)). worker_step clk mem i (f k) = done_with (f (Suc k)))) \<and>
    (\<forall>i ub. i < n \<longrightarrow> worker_step clk mem i s \<noteq> Some (Inl ub)) \<and>
    ((\<forall>i < n. worker_step clk mem i s = None) \<longleftrightarrow> (\<forall>w \<in> set (wk_workers s). w = Exited)) \<and>
    ((\<forall>w \<in> set (wk_workers s). w = Exited) \<longrightarrow> mset logd = mset subs)"
proof (intro conjI allI impI)
  note inv = pool_run_inv [OF assms(2,1)] and ex = workers_exit_last [OF assms(2)]
  show "\<not> (\<exists>f. f 0 = s \<and> (\<forall>k. \<exists>i < length (wk_workers (f k)). worker_step clk mem i (f k) = done_with (f (Suc k))))"
    by (rule no_infinite_worker_run)
  show "worker_step clk mem i s \<noteq> Some (Inl ub)" if "i < n" for i ub
    by (rule worker_step_progress [OF inv _ assms(1), of i]) (use that ex in auto)
  show "(\<forall>i < n. worker_step clk mem i s = None) \<longleftrightarrow> (\<forall>w \<in> set (wk_workers s). w = Exited)"
  proof
    assume stuck: "\<forall>i < n. worker_step clk mem i s = None"
    show "\<forall>w \<in> set (wk_workers s). w = Exited"
      using closed_pool_moves [OF inv assms(1,3)] stuck ex by force
  next
    assume all: "\<forall>w \<in> set (wk_workers s). w = Exited"
    show "\<forall>i < n. worker_step clk mem i s = None"
    proof (intro allI impI)
      fix i assume "i < n"
      then have "wk_workers s ! i = Exited" using all ex by simp
      then show "worker_step clk mem i s = None" by (simp add: worker_step_def)
    qed
  qed
  assume all: "\<forall>w \<in> set (wk_workers s). w = Exited"
  then have "quiet s" "sq_queue (wk_queue s) = []" using ex assms(4) by (auto simp: quiet_def) (metis length_greater_0_conv nth_mem)
  then show "mset logd = mset subs" using quiet_workers(3) [of s] inv by (simp add: pool_inv_def)
qed


theorem workers_act_like_one_witness:
  "\<exists>logd s. pool_run (\<lambda>_. 0) ex_mem (fresh_workers 2 ''f'') [ex_task 1 Buy 100 10, ex_task 2 Sell 100 4] logd s \<and> quiet s \<and>
     mset logd = mset [ex_task 1 Buy 100 10, ex_task 2 Sell 100 4] \<and>
     (\<exists>x. process_tasks (\<lambda>_. 0) ex_mem logd (fresh_exchange ''f'') = done_with x \<and> registry (wk_exchange s) = registry x)"
proof -
  let ?ts = "[ex_task 1 Buy 100 10, ex_task 2 Sell 100 4]"
  have ts: "\<forall>task \<in> set ?ts. gateway_task task" "length ?ts \<le> MAX_QUEUE_CAPACITY"
    by (simp_all add: gateway_task_def ex_task_def ex_order_def symbol_ok_def proper_enums_def MAX_QUEUE_CAPACITY_def)
  from finished_run [OF ts ex_mem_ok, of "\<lambda>_. 0" 2 "''f''"] obtain logd s where
    s: "pool_run (\<lambda>_. 0) ex_mem (fresh_workers 2 ''f'') ?ts logd s" "\<forall>w \<in> set (wk_workers s). w = Exited" by blast
  have "length (wk_workers s) = 2" "Exited \<in> set (wk_workers s) \<Longrightarrow> sq_queue (wk_queue s) = []" using workers_exit_last [OF s(1)] by auto
  then have q: "sq_queue (wk_queue s) = []" using s(2) by (metis nth_mem zero_less_numeral)
  have "quiet s" using s(2) by (simp add: quiet_def)
  from workers_act_like_one [OF ex_mem_ok s(1) this] s(1) this q show ?thesis by auto
qed

theorem workers_replay_rebuilds_witness:
  "\<exists>logd s w w' reg e. pool_run (\<lambda>_. 0) ex_mem (fresh_workers 2 ''f'') [ex_task 1 Buy 100 10, ex_task 2 Sell 100 4] logd s \<and>
     wal (wk_exchange s) = Some w \<and> wal_stop w = done_with w' \<and>
     replay (\<lambda>_. 1) (Some (wal_file w')) BookRegistry_init Env_init = Inr (True, reg, e) \<and>
     (\<forall>sy. books reg sy = map_option anon_book (books (registry (wk_exchange s)) sy))"
proof -
  let ?ts = "[ex_task 1 Buy 100 10, ex_task 2 Sell 100 4]"
  have ts: "\<forall>task \<in> set ?ts. gateway_task task" "length ?ts \<le> MAX_QUEUE_CAPACITY"
    by (simp_all add: gateway_task_def ex_task_def ex_order_def symbol_ok_def proper_enums_def MAX_QUEUE_CAPACITY_def)
  from finished_run [OF ts ex_mem_ok, of "\<lambda>_. 0" 2 "''f''"] obtain logd s where
    s: "pool_run (\<lambda>_. 0) ex_mem (fresh_workers 2 ''f'') ?ts logd s" "\<forall>w \<in> set (wk_workers s). w = Exited" by blast
  have "quiet s" using s(2) by (simp add: quiet_def)
  from workers_replay_rebuilds [OF ex_mem_ok s(1) this] s(1) show ?thesis by blast
qed

theorem closed_pool_ends_witness:
  "\<exists>s. pool_run (\<lambda>_. 0) ex_mem (fresh_workers 2 ''f'') [ex_task 1 Buy 100 10] [] s \<and> shutdown (wk_queue s) \<and>
     \<not> (\<exists>f. f 0 = s \<and> (\<forall>k. \<exists>i < length (wk_workers (f k)). worker_step (\<lambda>_. 0) ex_mem i (f k) = done_with (f (Suc k))))"
proof -
  have ts: "\<forall>task \<in> set [ex_task 1 Buy 100 10]. gateway_task task" "length [ex_task 1 Buy 100 10] \<le> MAX_QUEUE_CAPACITY"
    by (simp_all add: gateway_task_def ex_task_def ex_order_def symbol_ok_def proper_enums_def MAX_QUEUE_CAPACITY_def)
  note run = pool_next [OF submitted_run [OF ts, of "\<lambda>_. 0" ex_mem 2 "''f''"] closes, simplified]
  have "shutdown (snd (sq_close ((SafeQueue_init MAX_QUEUE_CAPACITY)\<lparr>sq_queue := [ex_task 1 Buy 100 10]\<rparr>)))"
    by (simp add: sq_close_def SafeQueue_init_def)
  with closed_pool_ends [OF ex_mem_ok run] run show ?thesis by (intro exI [of _ "fresh_workers 2 ''f''\<lparr>wk_queue := snd (sq_close ((SafeQueue_init MAX_QUEUE_CAPACITY)\<lparr>sq_queue := [ex_task 1 Buy 100 10]\<rparr>))\<rparr>"]) simp
qed


text \<open>
  C18: The pool does not keep the order of requests: with two workers, of any two requests that were submitted one after the other the
  later one can be handled first.  So the cancellation that a client sends after its order can find no order and be
  dropped without a report, and the order then rests in the book.
\<close>

theorem later_request_handled_first:
  assumes "mem_ok mem" "gateway_task t" "gateway_task u"
  shows "\<exists>s e. pool_run clk mem (fresh_workers 2 path) [t, u] [u, t] s \<and> quiet s \<and> sq_queue (wk_queue s) = [] \<and>
    apply_tasks clk [u, t] BookRegistry_init Env_init = Inr (registry (wk_exchange s), e)"
proof -
  obtain s where s: "pool_run clk mem (fresh_workers 2 path) [t, u] [] s" "wk_workers s = [Has_task t, Has_task u]" "sq_queue (wk_queue s) = []"
    by (rule two_tasks_taken [OF assms(2,3)])
  have "locked_by (wk_workers s ! j) = []" if "j < length (wk_workers s)" for j
    using that s(2) by (auto simp: locked_by_def less_Suc_eq)
  then obtain s1 where s1: "pool_run clk mem (fresh_workers 2 path) [t, u] [u] s1" "wk_workers s1 = [Has_task t, Dequeuing]" "wk_queue s1 = wk_queue s"
    using worker_alone [OF s(1) pool_run_inv [OF s(1) assms(1)] assms(1), of 1] s(2) by (auto simp: tasks_of_def)
  have "locked_by (wk_workers s1 ! j) = []" if "j < length (wk_workers s1)" for j
    using that s1(2) by (auto simp: locked_by_def less_Suc_eq)
  then obtain s2 where s2: "pool_run clk mem (fresh_workers 2 path) [t, u] [u, t] s2" "wk_workers s2 = [Dequeuing, Dequeuing]" "wk_queue s2 = wk_queue s"
    using worker_alone [OF s1(1) pool_run_inv [OF s1(1) assms(1)] assms(1), of 0] s1(2,3) by (auto simp: tasks_of_def locked_by_def)
  then have "quiet s2" by (simp add: quiet_def)
  then show ?thesis using quiet_books [OF pool_run_inv [OF s2(1) assms(1)]] s2 s(3) by metis
qed

definition ex_cancel :: "OrderID \<Rightarrow> Task" where
  "ex_cancel oid = \<lparr>task_type = Task_Cancel,
     request = Req_Cancel \<lparr>creq_order_id = oid, creq_symbol = ''AAPL'', creq_timestamp = 2, creq_client_id = 7\<rparr>, task_symbol = ''AAPL''\<rparr>"

theorem later_request_handled_first_witness:
  "\<exists>s b. pool_run (\<lambda>_. 0) ex_mem (fresh_workers 2 ''f'') [ex_task 1 Buy 100 10, ex_cancel 1] [ex_cancel 1, ex_task 1 Buy 100 10] s \<and> quiet s \<and>
     books (registry (wk_exchange s)) ''AAPL'' = Some b \<and> buy_orders b = [(100, [(0, ex_order 1 Buy Limit 100 10 1 7)])]"
proof -
  have ts: "gateway_task (ex_task 1 Buy 100 10)" "gateway_task (ex_cancel 1)"
    by (simp_all add: gateway_task_def ex_task_def ex_cancel_def ex_order_def symbol_ok_def proper_enums_def)
  obtain s e where s: "pool_run (\<lambda>_. 0) ex_mem (fresh_workers 2 ''f'') [ex_task 1 Buy 100 10, ex_cancel 1] [ex_cancel 1, ex_task 1 Buy 100 10] s" "quiet s"
    "apply_tasks (\<lambda>_. 0) [ex_cancel 1, ex_task 1 Buy 100 10] BookRegistry_init Env_init = Inr (registry (wk_exchange s), e)"
    using later_request_handled_first [OF ex_mem_ok ts, of "\<lambda>_. 0" "''f''"] by blast
  have "\<exists>b. books (registry (wk_exchange s)) ''AAPL'' = Some b \<and> buy_orders b = [(100, [(0, ex_order 1 Buy Limit 100 10 1 7)])]"
    using s(3) by (cases "registry (wk_exchange s)") (auto simp: book_eval ex_cancel_def ex_task_def ex_order_def)
  then show ?thesis using s(1,2) by blast
qed


definition ex_msft :: "OrderID \<Rightarrow> Side \<Rightarrow> Task" where
  "ex_msft oid sd = \<lparr>task_type = Task_Submit, request = Req_Order ((ex_order oid sd Limit 100 10 1 7)\<lparr>symbol := ''MSFT''\<rparr>), task_symbol = ''MSFT''\<rparr>"

definition ex_cross :: "Task list" where
  "ex_cross = [ex_task 1 Buy 100 10, ex_msft 2 Buy, ex_task 3 Sell 100 10, ex_msft 4 Sell]"

lemmas ex_cross_defs = ex_cross_def ex_msft_def ex_task_def ex_order_def

lemma ex_cross_tasks: "\<forall>task \<in> set ex_cross. gateway_task task"
  by (simp add: ex_cross_defs gateway_task_def symbol_ok_def proper_enums_def)

definition ex_buy_book :: "uint32_t \<Rightarrow> Symbol \<Rightarrow> OrderID \<Rightarrow> OrderBook" where
  "ex_buy_book cl sy oid = \<lparr>book_symbol = sy, buy_orders = [(100, [(0, (ex_order oid Buy Limit 100 10 1 cl)\<lparr>symbol := sy\<rparr>)])], sell_orders = [],
     order_index = [oid \<mapsto> \<lparr>ie_side = Buy, price_level = 100, position = 0\<rparr>], next_node = Suc 0\<rparr>"

lemma ex_cross_rested:
  "\<exists>e. apply_tasks clk (take 2 ex_cross) BookRegistry_init Env_init =
     Inr (\<lparr>books = [''AAPL'' \<mapsto> ex_buy_book 7 ''AAPL'' 1, ''MSFT'' \<mapsto> ex_buy_book 7 ''MSFT'' 2]\<rparr>, e) \<and> counter e = 1"
  by (simp add: ex_cross_defs book_eval ex_buy_book_def TradeIDGenerator_init_def)

lemma ex_cross_sells:
  "\<exists>b' res e' f. book_apply clk (Submit_op ((ex_order oid Sell Limit 100 10 1 cl)\<lparr>symbol := sy\<rparr>)) (ex_buy_book cl sy bid) e = Inr (b', res, e') \<and>
     fills res = [f] \<and> fill_symbol f = sy \<and> fill_trade_id f = counter e \<and> counter e' = counter e + 1"
  by (simp add: ex_order_def book_eval ex_buy_book_def)

text \<open>The same requests as the replay of the log handles them: without client ids, in the order of the log.\<close>

lemma ex_cross_replay_rested:
  "\<exists>e. replay_logged clk (take 2 ex_cross) (BookRegistry_init, TradeIDGenerator_reset 1 e0, 0) =
     Inr (\<lparr>books = [''AAPL'' \<mapsto> ex_buy_book 0 ''AAPL'' 1, ''MSFT'' \<mapsto> ex_buy_book 0 ''MSFT'' 2]\<rparr>, e, 2) \<and> counter e = 1"
  by (simp add: ex_cross_defs book_eval ex_buy_book_def replay_op_def relabel_def TradeIDGenerator_reset_def)

lemma ex_cross_looked_up:
  assumes "mem_ok mem"
  obtains s where "pool_run clk mem (fresh_workers 2 path) ex_cross (take 2 ex_cross) s"
    "wk_workers s = [Has_book (ex_task 3 Sell 100 10), Has_book (ex_msft 4 Sell)]" "counter (env (wk_exchange s)) = 1"
    "registry (wk_exchange s) = \<lparr>books = [''AAPL'' \<mapsto> ex_buy_book 7 ''AAPL'' 1, ''MSFT'' \<mapsto> ex_buy_book 7 ''MSFT'' 2]\<rparr>"
proof -
  let ?F = "fresh_workers 2 path" and ?t3 = "ex_task 3 Sell 100 10" and ?t4 = "ex_msft 4 Sell"
  let ?s0 = "?F\<lparr>wk_queue := (SafeQueue_init MAX_QUEUE_CAPACITY)\<lparr>sq_queue := ex_cross\<rparr>\<rparr>"
  have s0: "pool_run clk mem ?F ex_cross [] ?s0" by (rule submitted_run [OF ex_cross_tasks]) (simp add: ex_cross_def MAX_QUEUE_CAPACITY_def)
  have ws0: "wk_workers ?s0 = [Dequeuing, Dequeuing]" by (simp add: fresh_workers_def numeral_2_eq_2)
  then have q0: "quiet ?s0" "wk_workers ?s0 ! 0 = Dequeuing" by (simp_all add: quiet_def)
  have "sq_queue (wk_queue ?s0) = ex_task 1 Buy 100 10 # [ex_msft 2 Buy, ?t3, ?t4]" by (simp add: ex_cross_def)
  from handle_next [OF s0 assms q0(1) _ q0(2) this] obtain s1 where s1: "pool_run clk mem ?F ex_cross [ex_task 1 Buy 100 10] s1" "wk_workers s1 = [Dequeuing, Dequeuing]"
    "sq_queue (wk_queue s1) = [ex_msft 2 Buy, ?t3, ?t4]"
    unfolding ws0 by auto
  then have "quiet s1" "wk_workers s1 ! 0 = Dequeuing" by (simp_all add: quiet_def)
  then obtain s2 where s2: "pool_run clk mem ?F ex_cross (take 2 ex_cross) s2" "wk_workers s2 = [Dequeuing, Dequeuing]"
    "sq_queue (wk_queue s2) = [?t3, ?t4]"
    using handle_next [OF s1(1) assms, of "ex_msft 2 Buy" "[?t3, ?t4]"] s1(2,3) by (auto simp: ex_cross_def)
  let ?R = "\<lparr>books = [''AAPL'' \<mapsto> ex_buy_book 7 ''AAPL'' 1, ''MSFT'' \<mapsto> ex_buy_book 7 ''MSFT'' 2]\<rparr>"
  have "quiet s2" using s2(2) by (simp add: quiet_def)
  then obtain e where "apply_tasks clk (take 2 ex_cross) BookRegistry_init Env_init = Inr (registry (wk_exchange s2), e)"
    "counter e = counter (env (wk_exchange s2))" by (rule quiet_books [OF pool_run_inv [OF s2(1) assms]])
  then have reg: "registry (wk_exchange s2) = ?R" "counter (env (wk_exchange s2)) = 1" using ex_cross_rested [of clk] by auto
  note s3 = take_step [OF s2(1), of 0 ?t3 "[?t4]", unfolded s2(2,3), simplified]
  let ?s3 = "set_worker 0 (Has_task ?t3) (s2\<lparr>wk_queue := (wk_queue s2)\<lparr>sq_queue := [?t4]\<rparr>\<rparr>)"
  have "pool_run clk mem ?F ex_cross (take 2 ex_cross) (set_worker 1 (Has_task ?t4) (?s3\<lparr>wk_queue := (wk_queue ?s3)\<lparr>sq_queue := []\<rparr>\<rparr>))"
    by (intro take_step [OF s3]) (simp_all add: set_worker_def s2(2))
  then obtain s4 where s4: "pool_run clk mem ?F ex_cross (take 2 ex_cross) s4" "wk_workers s4 = [Has_task ?t3, Has_task ?t4]"
    "registry (wk_exchange s4) = ?R" "counter (env (wk_exchange s4)) = 1"
    using s2(2) reg by (fastforce simp: set_worker_def)
  have sy: "task_symbol ?t3 = ''AAPL''" "task_symbol ?t4 = ''MSFT''" by (simp_all add: ex_task_def ex_msft_def)
  have "pool_run clk mem ?F ex_cross (take 2 ex_cross) (set_worker 1 (Has_book ?t4) (set_worker 0 (Has_book ?t3) s4))"
    by (intro lookup_step [where b = "ex_buy_book 7 ''MSFT'' 2"] lookup_step [where b = "ex_buy_book 7 ''AAPL'' 1"] s4(1))
      (simp_all add: set_worker_def s4 sy)
  then show thesis using that [of "set_worker 1 (Has_book ?t4) (set_worker 0 (Has_book ?t3) s4)"] s4 by (simp add: set_worker_def)
qed

lemma ex_cross_replay:
  "\<exists>reg1 e1 b b' res e2 c c' res' e3. replay_logged clk (take 2 ex_cross) (BookRegistry_init, TradeIDGenerator_reset 1 e0, 0) = Inr (reg1, e1, 2) \<and>
     books reg1 ''AAPL'' = Some b \<and> books reg1 ''MSFT'' = Some c \<and>
     book_apply clk (Submit_op (ex_order 3 Sell Limit 100 10 1 0)) b e1 = Inr (b', res, e2) \<and>
     map (\<lambda>f. (fill_symbol f, fill_trade_id f)) (fills res) = [(''AAPL'', 1)] \<and>
     replay_logged clk (take 3 ex_cross) (BookRegistry_init, TradeIDGenerator_reset 1 e0, 0) = Inr (store_book ''AAPL'' b' reg1, e2, 3) \<and>
     book_apply clk (Submit_op ((ex_order 4 Sell Limit 100 10 1 0)\<lparr>symbol := ''MSFT''\<rparr>)) c e2 = Inr (c', res', e3) \<and>
     map (\<lambda>f. (fill_symbol f, fill_trade_id f)) (fills res') = [(''MSFT'', 2)] \<and>
     replay_logged clk ex_cross (BookRegistry_init, TradeIDGenerator_reset 1 e0, 0) = Inr (store_book ''MSFT'' c' (store_book ''AAPL'' b' reg1), e3, 4)"
proof -
  let ?reg = "\<lparr>books = [''AAPL'' \<mapsto> ex_buy_book 0 ''AAPL'' 1, ''MSFT'' \<mapsto> ex_buy_book 0 ''MSFT'' 2]\<rparr>"
  let ?sell = "ex_order 3 Sell Limit 100 10 1 0" and ?sell' = "(ex_order 4 Sell Limit 100 10 1 0)\<lparr>symbol := ''MSFT''\<rparr>"
  have aapl: "?sell\<lparr>symbol := ''AAPL''\<rparr> = ?sell" by (simp add: ex_order_def)
  obtain e1 where e1: "replay_logged clk (take 2 ex_cross) (BookRegistry_init, TradeIDGenerator_reset 1 e0, 0) = Inr (?reg, e1, 2)" "counter e1 = 1"
    using ex_cross_replay_rested by blast
  obtain b' res e2 where b': "book_apply clk (Submit_op ?sell) (ex_buy_book 0 ''AAPL'' 1) e1 = Inr (b', res, e2)"
    "map (\<lambda>f. (fill_symbol f, fill_trade_id f)) (fills res) = [(''AAPL'', 1)]" "counter e2 = 2"
    using ex_cross_sells [where clk = clk and oid = 3 and cl = 0 and sy = "''AAPL''" and bid = 1 and e = e1] e1(2) aapl by auto
  obtain c' res' e3 where c': "book_apply clk (Submit_op ?sell') (ex_buy_book 0 ''MSFT'' 2) e2 = Inr (c', res', e3)"
    "map (\<lambda>f. (fill_symbol f, fill_trade_id f)) (fills res') = [(''MSFT'', 2)]"
    using ex_cross_sells [where clk = clk and oid = 4 and cl = 0 and sy = "''MSFT''" and bid = 2 and e = e2] b'(3) by auto
  have cut: "take 3 ex_cross = take 2 ex_cross @ [ex_task 3 Sell 100 10]" "take 3 ex_cross @ [ex_msft 4 Sell] = ex_cross"
    by (simp_all add: ex_cross_def)
  have op: "anon_op (the (op_of_task (ex_task 3 Sell 100 10))) = Submit_op ?sell" "anon_op (the (op_of_task (ex_msft 4 Sell))) = Submit_op ?sell'"
    "task_symbol (ex_task 3 Sell 100 10) = ''AAPL''" "task_symbol (ex_msft 4 Sell) = ''MSFT''"
    by (simp_all add: op_of_task_def ex_task_def ex_msft_def ex_order_def relabel_def)
  have three: "replay_logged clk (take 3 ex_cross) (BookRegistry_init, TradeIDGenerator_reset 1 e0, 0) = Inr (store_book ''AAPL'' b' ?reg, e2, 3)"
    unfolding cut(1) replay_logged_append e1(1) by (simp add: op replay_op_def get_order_book_def b'(1) del: book_apply.simps)
  have "replay_logged clk (take 3 ex_cross @ [ex_msft 4 Sell]) (BookRegistry_init, TradeIDGenerator_reset 1 e0, 0) =
      Inr (store_book ''MSFT'' c' (store_book ''AAPL'' b' ?reg), e3, 4)"
    unfolding replay_logged_append three by (simp add: op replay_op_def get_order_book_def store_book_def c'(1) del: book_apply.simps)
  then show ?thesis using e1(1) b'(1,2) c' three unfolding cut(2) by (intro exI [of _ ?reg] exI conjI) auto
qed

text \<open>
  C19: Replay does not always give trades their original ids: an order of one book can be logged before an order of
  another and matched after it.  Two workers can handle the sell orders of AAPL and MSFT, which are logged in this order, so that the
  MSFT trade gets id 1 and the AAPL trade id 2.  When the log is then stopped, \<^verbatim>\<open>replay\<close> of its file up to the AAPL
  sell order has executed this order with trade id 1, and the rest of the file the MSFT order with id 2.
\<close>

theorem replayed_trade_ids_differ:
  assumes "mem_ok mem"
  shows "\<exists>s f g rs rs' w w'. pool_run clk mem (fresh_workers 2 path) ex_cross ex_cross s \<and>
    wk_workers s = [After_book [f] rs [f], After_book [g] rs' [g]] \<and>
    (fill_symbol f, fill_trade_id f) = (''AAPL'', 2) \<and> (fill_symbol g, fill_trade_id g) = (''MSFT'', 1) \<and>
    wal (wk_exchange s) = Some w \<and> wal_stop w = done_with w' \<and>
    (\<exists>n n' reg1 e1 b b' res e2 c c' res' e3. replay clk1 (Some (take n (wal_file w'))) BookRegistry_init e0 = Inr (True, reg1, e1) \<and>
      books reg1 ''AAPL'' = Some b \<and> books reg1 ''MSFT'' = Some c \<and>
      book_apply clk1 (Submit_op (ex_order 3 Sell Limit 100 10 1 0)) b e1 = Inr (b', res, e2) \<and>
      map (\<lambda>f. (fill_symbol f, fill_trade_id f)) (fills res) = [(''AAPL'', 1)] \<and>
      replay clk1 (Some (take n' (wal_file w'))) BookRegistry_init e0 = Inr (True, store_book ''AAPL'' b' reg1, e2) \<and>
      book_apply clk1 (Submit_op ((ex_order 4 Sell Limit 100 10 1 0)\<lparr>symbol := ''MSFT''\<rparr>)) c e2 = Inr (c', res', e3) \<and>
      map (\<lambda>f. (fill_symbol f, fill_trade_id f)) (fills res') = [(''MSFT'', 2)] \<and>
      replay clk1 (Some (wal_file w')) BookRegistry_init e0 = Inr (True, store_book ''MSFT'' c' (store_book ''AAPL'' b' reg1), e3))"
proof -
  let ?F = "fresh_workers 2 path" and ?t3 = "ex_task 3 Sell 100 10" and ?t4 = "ex_msft 4 Sell"
  let ?R = "\<lparr>books = [''AAPL'' \<mapsto> ex_buy_book 7 ''AAPL'' 1, ''MSFT'' \<mapsto> ex_buy_book 7 ''MSFT'' 2]\<rparr>"
  have sy: "task_symbol ?t3 = ''AAPL''" "task_symbol ?t4 = ''MSFT''" by (simp_all add: ex_task_def ex_msft_def)
  have gt: "gateway_task ?t3" "gateway_task ?t4" using ex_cross_tasks by (simp_all add: ex_cross_def)
  have op: "op_of_task ?t3 = Some (Submit_op ((ex_order 3 Sell Limit 100 10 1 7)\<lparr>symbol := ''AAPL''\<rparr>))"
    "op_of_task ?t4 = Some (Submit_op ((ex_order 4 Sell Limit 100 10 1 7)\<lparr>symbol := ''MSFT''\<rparr>))"
    by (simp_all add: op_of_task_def ex_task_def ex_msft_def ex_order_def relabel_def)
  obtain s where s: "pool_run clk mem ?F ex_cross (take 2 ex_cross) s" "wk_workers s = [Has_book ?t3, Has_book ?t4]"
    "counter (env (wk_exchange s)) = 1" "registry (wk_exchange s) = ?R"
    by (rule ex_cross_looked_up [OF assms])
  obtain s1 where s1: "pool_run clk mem ?F ex_cross (take 2 ex_cross @ [?t3]) s1" "wk_workers s1 = [In_book ?t3, Has_book ?t4]"
    "counter (env (wk_exchange s1)) = 1" "registry (wk_exchange s1) = ?R"
    using lock_step [OF s(1) assms, of 0 ?t3] s(2-4) gt by (fastforce simp: set_worker_def locked_by_def)
  obtain s2 where s2: "pool_run clk mem ?F ex_cross (take 2 ex_cross @ [?t3, ?t4]) s2" "wk_workers s2 = [In_book ?t3, In_book ?t4]"
    "counter (env (wk_exchange s2)) = 1" "registry (wk_exchange s2) = ?R"
    using lock_step [OF s1(1) assms, of 1 ?t4] s1(2-4) gt sy by (fastforce simp: set_worker_def locked_by_def)
  obtain b res e g where m: "book_apply clk (Submit_op ((ex_order 4 Sell Limit 100 10 1 7)\<lparr>symbol := ''MSFT''\<rparr>)) (ex_buy_book 7 ''MSFT'' 2) (env (wk_exchange s2)) = Inr (b, res, e)"
    "fills res = [g]" "fill_symbol g = ''MSFT''" "fill_trade_id g = 1" "counter e = 2"
    using ex_cross_sells [where clk = clk and oid = 4 and cl = 7 and sy = "''MSFT''" and bid = 2 and e = "env (wk_exchange s2)"] s2(3) by auto
  obtain s3 rs' where s3: "pool_run clk mem ?F ex_cross (take 2 ex_cross @ [?t3, ?t4]) s3" "wk_workers s3 = [In_book ?t3, After_book [g] rs' [g]]"
    "counter (env (wk_exchange s3)) = 2" "books (registry (wk_exchange s3)) ''AAPL'' = Some (ex_buy_book 7 ''AAPL'' 1)"
    using match_step [OF s2(1) _ _ op(2) _ m(1)] s2(2,4) m(2,5) sy by (fastforce simp: set_worker_def store_book_def)
  obtain b' res' e' f where l: "book_apply clk (Submit_op ((ex_order 3 Sell Limit 100 10 1 7)\<lparr>symbol := ''AAPL''\<rparr>)) (ex_buy_book 7 ''AAPL'' 1) (env (wk_exchange s3)) = Inr (b', res', e')"
    "fills res' = [f]" "fill_symbol f = ''AAPL''" "fill_trade_id f = 2"
    using ex_cross_sells [where clk = clk and oid = 3 and cl = 7 and sy = "''AAPL''" and bid = 1 and e = "env (wk_exchange s3)"] s3(3) by auto
  have all: "take 2 ex_cross @ [?t3, ?t4] = ex_cross" by (simp add: ex_cross_def)
  obtain s4 rs where s4: "pool_run clk mem ?F ex_cross ex_cross s4" "wk_workers s4 = [After_book [f] rs [f], After_book [g] rs' [g]]"
    using match_step [OF s3(1) _ _ op(1) _ l(1), of 0] s3(2,4) l(2) sy unfolding all by (fastforce simp: set_worker_def)
  obtain w where w: "wal (wk_exchange s4) = Some w" "log_follows w ex_cross"
    using pool_run_inv [OF s4(1) assms] by (auto simp: pool_inv_def exchange_follows_def)
  obtain w' where w': "wal_stop w = done_with w'" by (rule log_follows_stopped [OF w(2)])
  note whole = log_follows_stop [OF w(2), of clk1 BookRegistry_init e0, unfolded w', simplified]
  obtain n where n: "\<And>clk reg e0 reg' e' k. replay_logged clk (take 2 ex_cross) (reg, TradeIDGenerator_reset 1 e0, 0) = Inr (reg', e', k) \<Longrightarrow>
      replay clk (Some (take n (wal_file w'))) reg e0 = Inr (True, reg', e')"
    by (rule log_follows_stop_prefix [OF w(2) w', of 2]) (auto simp: ex_cross_def)
  obtain n' where n': "\<And>clk reg e0 reg' e' k. replay_logged clk (take 3 ex_cross) (reg, TradeIDGenerator_reset 1 e0, 0) = Inr (reg', e', k) \<Longrightarrow>
      replay clk (Some (take n' (wal_file w'))) reg e0 = Inr (True, reg', e')"
    by (rule log_follows_stop_prefix [OF w(2) w', of 3]) (auto simp: ex_cross_def)
  from ex_cross_replay [of clk1 e0] show ?thesis
    by (elim exE conjE, intro exI conjI) (rule s4 w(1) w' | assumption | erule n n' whole | simp add: l(3,4) m(3,4))+
qed

theorem replayed_trade_ids_differ_witness:
  "\<exists>s f g rs rs' w w' reg e. pool_run (\<lambda>_. 0) ex_mem (fresh_workers 2 ''f'') ex_cross ex_cross s \<and>
    wk_workers s = [After_book [f] rs [f], After_book [g] rs' [g]] \<and> fill_trade_id f = 2 \<and> fill_trade_id g = 1 \<and>
    wal (wk_exchange s) = Some w \<and> wal_stop w = done_with w' \<and> replay (\<lambda>_. 1) (Some (wal_file w')) BookRegistry_init Env_init = Inr (True, reg, e)"
  using replayed_trade_ids_differ [OF ex_mem_ok, of "\<lambda>_. 0" "''f''" "\<lambda>_. 1" Env_init] by blast

end
