(* ===== verification/Exchange_System.thy ===== *)
theory Exchange_System
  imports Gateway_Runs Worker_Runs
begin

text \<open>
  The whole exchange: the gateway's io thread, the workers, the flush thread of the log and the dispatch thread of the
  pipeline, sharing the pool's queue, the log, the pipeline and the table of sessions as the objects in \<^verbatim>\<open>demo_main.cpp\<close>
  do.  A run has a trace of events, whose projections are the histories of the parts.
\<close>

section \<open>State and events\<close>

record System =
  sys_gw :: Gateway
  sys_exchange :: Exchange
  sys_workers :: "worker list"

text \<open>The pool's queue is the gateway's; the workers see it with the exchange.\<close>

definition workers_of :: "System \<Rightarrow> Workers" where
  "workers_of y = \<lparr>wk_exchange = sys_exchange y, wk_queue = task_queue (g_pool (sys_gw y)), wk_workers = sys_workers y\<rparr>"

definition put_workers :: "Workers \<Rightarrow> System \<Rightarrow> System" where
  "put_workers s y =
     y\<lparr>sys_gw := (sys_gw y)\<lparr>g_pool := (g_pool (sys_gw y))\<lparr>task_queue := wk_queue s\<rparr>\<rparr>,
       sys_exchange := wk_exchange s, sys_workers := wk_workers s\<rparr>"

text \<open>
  A task enters the queue; a request is logged; an operation is executed with its reports; a report is published; the dispatch thread takes
  a report and hands it to the session of its client, if there is one; the gateway refuses an order with a report
  to its session; the io thread makes a report of a session into a frame.
\<close>

datatype sys_event =
    Queued Task
  | Logged Task
  | Executed Task "ExecutionReport list"
  | Published ExecutionReport
  | Routed ExecutionReport "session_ref option"
  | Refused session_ref ExecutionReport
  | Framed session_ref ExecutionReport "byte list"

definition executed_by :: "nat \<Rightarrow> Workers \<Rightarrow> Workers \<Rightarrow> sys_event list" where
  "executed_by i s s' =
     (case (wk_workers s ! i, wk_workers s' ! i) of (In_book task, After_book fs rs ts) \<Rightarrow> [Executed task rs] | _ \<Rightarrow> [])"

definition published_by :: "nat \<Rightarrow> Workers \<Rightarrow> ExecutionReport list" where
  "published_by i s = (case wk_workers s ! i of After_book [] (r # rs) ts \<Rightarrow> [r] | _ \<Rightarrow> [])"

definition reports_waiting :: "Exchange \<Rightarrow> ExecutionReport list" where
  "reports_waiting x = (case pipeline x of None \<Rightarrow> [] | Some p \<Rightarrow> mpsc_contents (report_queue p))"

definition hand_over :: "dispatched \<Rightarrow> Gateway \<Rightarrow> Gateway" where
  "hand_over out g = fold (\<lambda>(i, r). send_execution_report i r) out g"

text \<open>
  The steps of the io thread (a connection, a header, a body, a posted report, a completed write), of a worker, of the flush
  thread and of the dispatch thread.  A handler that waits for space in the pool's queue has its step when there is
  space.  A body whose decoding is undefined behaviour (an unterminated symbol) has no
  step: runs are those without such a packet.
\<close>

inductive sys_step :: "clock \<Rightarrow> (nat \<Rightarrow> uninit) \<Rightarrow> System \<Rightarrow> sys_event list \<Rightarrow> System \<Rightarrow> bool" for clk mem where
  sys_accepts: "sys_step clk mem y [] (y\<lparr>sys_gw := on_accept hdr ok (sys_gw y)\<rparr>)"
| sys_header: "i < length (g_sessions (sys_gw y)) \<Longrightarrow> reading (the_session (sys_gw y) i) = Reading_header \<Longrightarrow>
     (\<And>bs. bytes = Some bs \<Longrightarrow> length bs = sizeof_MsgHeader) \<Longrightarrow>
     sys_step clk mem y [] (y\<lparr>sys_gw := on_header i bytes (sys_gw y)\<rparr>)"
| sys_body: "i < length (g_sessions (sys_gw y)) \<Longrightarrow> reading (the_session (sys_gw y) i) = Reading_body n \<Longrightarrow>
     (\<And>bs. bytes = Some bs \<Longrightarrow> length bs = n) \<Longrightarrow> on_body clk i bytes (sys_gw y) = Inr (Returns g) \<Longrightarrow>
     sys_step clk mem y
       (map Queued (drop (length (queued_tasks (sys_gw y))) (queued_tasks g)) @
        map (\<lambda>(j, r). Refused j r) (drop (length (posted (sys_gw y))) (posted g)))
       (y\<lparr>sys_gw := g\<rparr>)"
| sys_posted: "posted (sys_gw y) = (i, r) # rest \<Longrightarrow> length (nr_symbol net) = 8 \<Longrightarrow> length (nr_reject_reason net) = 32 \<Longrightarrow>
     sys_step clk mem y [Framed i r (report_frame net r)] (y\<lparr>sys_gw := run_posted net i r ((sys_gw y)\<lparr>posted := rest\<rparr>)\<rparr>)"
| sys_written: "i < length (g_sessions (sys_gw y)) \<Longrightarrow> writing (the_session (sys_gw y) i) = Some buf \<Longrightarrow>
     sys_step clk mem y [] (y\<lparr>sys_gw := on_written i ok (sys_gw y)\<rparr>)"
| sys_works: "i < length (sys_workers y) \<Longrightarrow> worker_step clk mem i (workers_of y) = done_with s \<Longrightarrow>
     sys_step clk mem y
       (map Logged (logged_by i (workers_of y)) @ executed_by i (workers_of y) s @ map Published (published_by i (workers_of y)))
       (put_workers s y)"
| sys_flushes: "wal (sys_exchange y) = Some w \<Longrightarrow> flush_once w = Inr w' \<Longrightarrow>
     sys_step clk mem y [] (y\<lparr>sys_exchange := (sys_exchange y)\<lparr>wal := Some w'\<rparr>\<rparr>)"
| sys_dispatches: "pipeline (sys_exchange y) = Some p \<Longrightarrow> dispatch_once (g_cm (sys_gw y)) p = Inr (out, p') \<Longrightarrow>
     sys_step clk mem y
       (map (\<lambda>r. Routed r (get_session (rep_client_id r) (g_cm (sys_gw y)))) (take 1 (reports_waiting (sys_exchange y))))
       (y\<lparr>sys_gw := hand_over out (sys_gw y), sys_exchange := (sys_exchange y)\<lparr>pipeline := Some p'\<rparr>\<rparr>)"

inductive sys_run :: "clock \<Rightarrow> (nat \<Rightarrow> uninit) \<Rightarrow> System \<Rightarrow> sys_event list \<Rightarrow> System \<Rightarrow> bool" for clk mem y0 where
  sys_begin: "sys_run clk mem y0 [] y0"
| sys_next: "sys_run clk mem y0 tr y \<Longrightarrow> sys_step clk mem y es y' \<Longrightarrow> sys_run clk mem y0 (tr @ es) y'"

definition fresh_system :: "nat \<Rightarrow> RiskChecker \<Rightarrow> string \<Rightarrow> System" where
  "fresh_system n risk path =
     \<lparr>sys_gw = Gateway_init risk (pool_start (ThreadPool_init n)) Env_init, sys_exchange = fresh_exchange path,
      sys_workers = replicate n Dequeuing\<rparr>"

lemma fresh_system_workers: "workers_of (fresh_system n risk path) = fresh_workers n path"
  by (simp add: workers_of_def fresh_system_def fresh_workers_def Gateway_init_def pool_start_def ThreadPool_init_def)

section \<open>Projections of a trace\<close>

definition queued_in :: "sys_event list \<Rightarrow> Task list" where
  "queued_in tr = concat (map (\<lambda>e. case e of Queued t \<Rightarrow> [t] | _ \<Rightarrow> []) tr)"

definition logged_in :: "sys_event list \<Rightarrow> Task list" where
  "logged_in tr = concat (map (\<lambda>e. case e of Logged t \<Rightarrow> [t] | _ \<Rightarrow> []) tr)"

definition executed_in :: "sys_event list \<Rightarrow> ExecutionReport list" where
  "executed_in tr = concat (map (\<lambda>e. case e of Executed t rs \<Rightarrow> rs | _ \<Rightarrow> []) tr)"

definition published_in :: "sys_event list \<Rightarrow> ExecutionReport list" where
  "published_in tr = concat (map (\<lambda>e. case e of Published r \<Rightarrow> [r] | _ \<Rightarrow> []) tr)"

definition routed_in :: "sys_event list \<Rightarrow> ExecutionReport list" where
  "routed_in tr = concat (map (\<lambda>e. case e of Routed r i \<Rightarrow> [r] | _ \<Rightarrow> []) tr)"

text \<open>What was handed to the sessions: reports the dispatch thread found a session for, and refusals.\<close>

definition posted_in :: "sys_event list \<Rightarrow> (session_ref \<times> ExecutionReport) list" where
  "posted_in tr = concat (map (\<lambda>e. case e of Routed r (Some i) \<Rightarrow> [(i, r)] | Refused i r \<Rightarrow> [(i, r)] | _ \<Rightarrow> []) tr)"

definition framed_in :: "sys_event list \<Rightarrow> (session_ref \<times> ExecutionReport \<times> byte list) list" where
  "framed_in tr = concat (map (\<lambda>e. case e of Framed i r f \<Rightarrow> [(i, r, f)] | _ \<Rightarrow> []) tr)"

lemmas trace_defs = queued_in_def logged_in_def executed_in_def published_in_def routed_in_def posted_in_def framed_in_def

lemma trace_append [simp]:
  "queued_in (tr @ es) = queued_in tr @ queued_in es" "logged_in (tr @ es) = logged_in tr @ logged_in es"
  "executed_in (tr @ es) = executed_in tr @ executed_in es" "published_in (tr @ es) = published_in tr @ published_in es"
  "routed_in (tr @ es) = routed_in tr @ routed_in es" "posted_in (tr @ es) = posted_in tr @ posted_in es"
  "framed_in (tr @ es) = framed_in tr @ framed_in es"
  by (simp_all add: trace_defs)

lemma concat_singletons: "concat (map (\<lambda>x. [f x]) xs) = map f xs"
  by (induction xs) auto

lemma trace_simps [simp]:
  "queued_in [] = []" "queued_in (map Queued ts) = ts" "queued_in (map Logged ts) = []" "queued_in (map Published rs) = []"
  "queued_in (map (\<lambda>(j, r). Refused j r) ps) = []" "queued_in (map (\<lambda>r. Routed r (to r)) rs) = []"
  "queued_in [Framed j r f] = []"
  "logged_in [] = []" "logged_in (map Queued ts) = []" "logged_in (map Logged ts) = ts" "logged_in (map Published rs) = []"
  "logged_in (map (\<lambda>(j, r). Refused j r) ps) = []" "logged_in (map (\<lambda>r. Routed r (to r)) rs) = []"
  "logged_in [Framed j r f] = []"
  "executed_in [] = []" "executed_in (map Queued ts) = []" "executed_in (map Logged ts) = []" "executed_in (map Published rs) = []"
  "executed_in (map (\<lambda>(j, r). Refused j r) ps) = []" "executed_in (map (\<lambda>r. Routed r (to r)) rs) = []" "executed_in [Framed j r f] = []"
  "published_in [] = []" "published_in (map Queued ts) = []" "published_in (map Logged ts) = []" "published_in (map Published rs) = rs"
  "published_in (map (\<lambda>(j, r). Refused j r) ps) = []" "published_in (map (\<lambda>r. Routed r (to r)) rs) = []"
  "published_in [Framed j r f] = []"
  "routed_in [] = []" "routed_in (map Queued ts) = []" "routed_in (map Logged ts) = []" "routed_in (map Published rs) = []"
  "routed_in (map (\<lambda>(j, r). Refused j r) ps) = []" "routed_in (map (\<lambda>r. Routed r (to r)) rs) = rs"
  "routed_in [Framed j r f] = []"
  "posted_in [] = []" "posted_in (map Queued ts) = []" "posted_in (map Logged ts) = []" "posted_in (map Published rs) = []"
  "posted_in (map (\<lambda>(j, r). Refused j r) ps) = ps" "posted_in [Framed j r f] = []"
  "framed_in [] = []" "framed_in (map Queued ts) = []" "framed_in (map Logged ts) = []" "framed_in (map Published rs) = []"
  "framed_in (map (\<lambda>(j, r). Refused j r) ps) = []" "framed_in (map (\<lambda>r. Routed r (to r)) rs) = []"
  "framed_in [Framed j r f] = [(j, r, f)]"
  by (simp_all add: trace_defs o_def split_beta concat_singletons)

lemma trace_executed [simp]:
  "queued_in (executed_by i s s') = []" "logged_in (executed_by i s s') = []" "published_in (executed_by i s s') = []"
  "routed_in (executed_by i s s') = []" "posted_in (executed_by i s s') = []" "framed_in (executed_by i s s') = []"
  by (auto simp: trace_defs executed_by_def)

lemma posted_in_routed:
  "posted_in (map (\<lambda>r. Routed r (get_session (rep_client_id r) cm)) rs) = deliverable cm rs"
  by (induction rs) (auto simp: posted_in_def deliverable_def split: option.splits)


section \<open>The sessions\<close>

definition client_ids :: "Gateway \<Rightarrow> uint32_t list" where
  "client_ids g = map sess_client_id (g_sessions g)"

lemma client_ids_set: "sess_client_id s = sess_client_id (the_session g i) \<Longrightarrow> client_ids (set_session i s g) = client_ids g"
  by (cases "i < length (g_sessions g)") (auto simp: client_ids_def map_update intro!: nth_equalityI simp: nth_list_update)

lemma client_ids_gateway [simp]:
  "client_ids (g\<lparr>g_cm := c\<rparr>) = client_ids g" "client_ids (g\<lparr>g_risk := k\<rparr>) = client_ids g" "client_ids (g\<lparr>g_pool := t\<rparr>) = client_ids g"
  "client_ids (g\<lparr>g_env := e\<rparr>) = client_ids g" "client_ids (g\<lparr>posted := ps\<rparr>) = client_ids g"
  by (simp_all add: client_ids_def)

lemma client_ids_close [simp]: "client_ids (session_close i g) = client_ids g"
  by (simp add: session_close_def client_ids_set)

lemma client_ids_read [simp]: "client_ids (read_header i g) = client_ids g" "client_ids (read_body i g) = client_ids g"
  by (simp_all add: read_header_def read_body_def client_ids_set Let_def)

lemma client_ids_write [simp]: "client_ids (write_next i g) = client_ids g"
  by (simp add: write_next_def client_ids_set)

lemma posted_sessions [simp]:
  "posted (session_close i g) = posted g" "posted (read_header i g) = posted g" "posted (read_body i g) = posted g" "posted (write_next i g) = posted g"
  by (simp_all add: session_close_def read_header_def read_body_def write_next_def Let_def)

lemma io_steps [simp]:
  "client_ids (on_header i bytes g) = client_ids g" "posted (on_header i bytes g) = posted g"
  "client_ids (on_written i ok g) = client_ids g" "posted (on_written i ok g) = posted g"
  "client_ids (run_posted net i r g) = client_ids g" "posted (run_posted net i r g) = posted g"
  "posted (on_accept hdr ok g) = posted g"
  by (simp_all add: on_header_def on_written_def run_posted_def on_accept_def session_start_def Session_init_def client_ids_set Let_def
      split: option.split)

lemma accept_client_ids: "\<exists>new. client_ids (on_accept hdr ok g) = client_ids g @ new"
  by (simp add: on_accept_def session_start_def Session_init_def Let_def) (simp add: client_ids_def)

lemma packet_sessions:
  assumes "process_packet clk i g = Inr (Returns g')"
  shows "client_ids g' = client_ids g \<and> (\<exists>rs. posted g' = posted g @ map (Pair i) rs \<and> (\<forall>r \<in> set rs. rep_client_id r = sess_client_id (the_session g i)))"
proof -
  have sub: "client_ids g' = client_ids h" "posted g' = posted h" if "submit_task t h = Returns g'" for t h
    using that by (auto elim!: submit_task_cases)
  have "\<exists>rs. posted g' = posted g @ map (Pair i) rs \<and> (\<forall>r \<in> set rs. rep_client_id r = sess_client_id (the_session g i))"
    if "posted g' = posted g \<or> posted g' = posted g @ [(i, reject_report order reason now (sess_client_id (the_session g i)))]" for order reason now
    using that by (auto simp: reject_report_def intro: exI [of _ "[]"] exI [of _ "[reject_report order reason now (sess_client_id (the_session g i))]"])
  then show ?thesis
    using assms sub
    by (auto simp: process_packet_def process_order_def Let_def map_sum_def get_current_time_ns_def send_execution_report_def
        split: if_splits sum.splits prod.splits)
qed

lemma body_sessions:
  assumes "on_body clk i bytes g = Inr (Returns g')"
  shows "client_ids g' = client_ids g \<and> (\<exists>rs. posted g' = posted g @ map (Pair i) rs \<and> (\<forall>r \<in> set rs. rep_client_id r = sess_client_id (the_session g i)))"
proof (cases bytes)
  case None
  then show ?thesis using assms by (auto simp: on_body_def client_ids_set intro!: exI [of _ "[]"])
next
  case (Some bs)
  let ?g = "set_session i ((the_session g i)\<lparr>incoming_body := bs, reading := Not_reading\<rparr>) g"
  obtain g2 where g2: "process_packet clk i ?g = Inr (Returns g2)" "g' = read_header i g2"
    using assms Some by (auto simp: on_body_def map_sum_def split: sum.splits outcome.splits)
  have "sess_client_id (the_session ?g i) = sess_client_id (the_session g i)" 
    by (cases "i < length (g_sessions g)") (simp_all add: list_update_beyond)
  then show ?thesis using packet_sessions [OF g2(1)] g2(2) by (simp add: client_ids_set)
qed

lemma hand_over_sel [simp]:
  "posted (hand_over out g) = posted g @ out" "client_ids (hand_over out g) = client_ids g" "g_sessions (hand_over out g) = g_sessions g"
  "g_cm (hand_over out g) = g_cm g" "g_pool (hand_over out g) = g_pool g" "g_risk (hand_over out g) = g_risk g"
  by (induction out arbitrary: g) (auto simp: hand_over_def send_execution_report_def client_ids_def)


section \<open>The workers\<close>

definition reports_held :: "worker \<Rightarrow> ExecutionReport list" where
  "reports_held w = (case w of After_book fs rs ts \<Rightarrow> rs | _ \<Rightarrow> [])"

lemma worker_step_queue:
  assumes "worker_step clk mem i s = done_with s'"
  shows "\<exists>taken. sq_queue (wk_queue s) = taken @ sq_queue (wk_queue s')"
proof (cases "wk_workers s ! i")
  case Dequeuing
  then obtain r q where d: "sq_dequeue (wk_queue s) = Returns (r, q)" "wk_queue s' = q"
    using assms by (auto simp: worker_step_def worker_dequeue_def set_worker_def split: outcome.splits option.splits)
  from d(1) show ?thesis by (cases rule: sq_dequeue_cases) (use d(2) in auto)
next
  case (After_book fs rs ts)
  then have "wk_queue s' = wk_queue s" using assms
    by (cases fs; cases rs; cases ts) (auto simp: worker_step_def set_worker_def Let_def elim!: run_bind_done)
  then show ?thesis by simp
qed (use assms in \<open>auto simp: worker_step_def worker_lookup_def worker_lock_def worker_match_def set_worker_def Let_def
      split: prod.splits if_splits option.splits sum.splits elim!: run_bind_done\<close>)

lemma pipeline_ok_contents: "pipeline_ok p rs ts \<Longrightarrow> mpsc_contents (report_queue p) = rs"
  by (simp add: pipeline_ok_def mpsc_idle_contents)

lemma publish_result_reports:
  assumes "pipeline_running p"
  shows "\<exists>p'. publish_result res (Some p) = done_with (Some p') \<and> mpsc_contents (report_queue p') = mpsc_contents (report_queue p) @ execution_reports res"
proof -
  obtain rs ts where "pipeline_ok p rs ts" "ep_running p" using assms by (auto simp: pipeline_running_def)
  from publish_result_ok [OF this, of res] show ?thesis using pipeline_ok_contents [OF \<open>pipeline_ok p rs ts\<close>] pipeline_ok_contents by metis
qed

lemma worker_publish_reports:
  assumes "pipeline x = Some p" "pipeline_running p" "worker_publish mem i fs rs ts s = done_with s'" "x = wk_exchange s" "i < length (wk_workers s)"
  obtains v where "wk_workers s' = (wk_workers s)[i := v]"
    "reports_waiting (wk_exchange s') = reports_waiting x @ (if fs = [] then take 1 rs else [])"
    "rs = (if fs = [] then take 1 rs else []) @ reports_held v"
proof -
  obtain p' where p': "\<And>res. publish_result res (Some p) = done_with (Some (p' res))"
    "\<And>res. mpsc_contents (report_queue (p' res)) = mpsc_contents (report_queue p) @ execution_reports res"
    using publish_result_reports [OF assms(2)] by metis
  consider f fs' where "fs = f # fs'" | r rs' where "fs = []" "rs = r # rs'" | f ts' where "fs = []" "rs = []" "ts = f # ts'"
    | "fs = []" "rs = []" "ts = []" by (meson neq_Nil_conv)
  then show thesis
  proof cases
    case (1 f fs')
    then obtain w where "s' = set_worker i (After_book fs' rs ts) (s\<lparr>wk_exchange := x\<lparr>wal := w\<rparr>\<rparr>)"
      using assms(3,4) by (auto simp: Let_def elim!: run_bind_done)
    then show thesis using that [of "After_book fs' rs ts"] 1 by (simp add: set_worker_def reports_waiting_def reports_held_def)
  next
    case (2 r rs')
    then have "s' = set_worker i (After_book [] rs' ts) (s\<lparr>wk_exchange := x\<lparr>pipeline := Some (p' (MatchResult_init\<lparr>execution_reports := [r]\<rparr>))\<rparr>\<rparr>)"
      using assms p'(1) by (simp add: Let_def)
    then show thesis using that [of "After_book [] rs' ts"] 2 assms(1) p'(2) by (simp add: set_worker_def reports_waiting_def reports_held_def)
  next
    case (3 f ts')
    then have "s' = set_worker i (After_book [] [] ts') (s\<lparr>wk_exchange := x\<lparr>pipeline := Some (p' (MatchResult_init\<lparr>fills := [f]\<rparr>))\<rparr>\<rparr>)"
      using assms p'(1) by (simp add: Let_def)
    then show thesis using that [of "After_book [] [] ts'"] 3 assms(1) p'(2)
      by (simp add: set_worker_def reports_waiting_def reports_held_def MatchResult_init_def)
  next
    case 4
    then have "s' = set_worker i Dequeuing s" using assms(3) by simp
    then show thesis using that [of Dequeuing] 4 assms(4) by (simp add: set_worker_def reports_held_def)
  qed
qed

lemma worker_step_reports:
  assumes inv: "pool_inv clk s subs logd" and i: "i < length (wk_workers s)" and step: "worker_step clk mem i s = done_with s'"
  shows "reports_waiting (wk_exchange s') = reports_waiting (wk_exchange s) @ published_by i s"
    and "mset (concat (map reports_held (wk_workers s'))) + mset (published_by i s) =
      mset (concat (map reports_held (wk_workers s))) + mset (executed_in (executed_by i s s'))"
proof -
  obtain pre post where ws: "wk_workers s = pre @ wk_workers s ! i # post" "\<And>w. (wk_workers s)[i := w] = pre @ w # post"
    using worker_split [OF i] by metis
  obtain p where p: "pipeline (wk_exchange s) = Some p" "pipeline_running p" using inv by (auto simp: pool_inv_def exchange_follows_def)
  have "reports_waiting (wk_exchange s') = reports_waiting (wk_exchange s) @ published_by i s \<and>
    (\<exists>v. wk_workers s' = (wk_workers s)[i := v] \<and>
       mset (reports_held v) + mset (published_by i s) = mset (reports_held (wk_workers s ! i)) + mset (executed_in (executed_by i s s')))"
  proof (cases "wk_workers s ! i")
    case (After_book fs rs ts)
    then have pub: "worker_publish mem i fs rs ts s = done_with s'" using step by (simp add: worker_step_def)
    obtain v where v: "wk_workers s' = (wk_workers s)[i := v]"
      "reports_waiting (wk_exchange s') = reports_waiting (wk_exchange s) @ (if fs = [] then take 1 rs else [])"
      "rs = (if fs = [] then take 1 rs else []) @ reports_held v"
      by (rule worker_publish_reports [OF p pub refl i])
    have "published_by i s = (if fs = [] then take 1 rs else [])" using After_book by (auto simp: published_by_def split: list.splits)
    moreover have "executed_by i s s' = []" using After_book by (simp add: executed_by_def)
    moreover have "reports_held (wk_workers s ! i) = rs" using After_book by (simp add: reports_held_def)
    moreover have "mset rs = mset (if fs = [] then take 1 rs else []) + mset (reports_held v)" by (subst v(3)) simp
    ultimately show ?thesis using v(1,2) by (auto intro!: exI [of _ v])
  qed (use step i in \<open>auto simp: worker_step_def worker_dequeue_def worker_lookup_def worker_lock_def worker_match_def set_worker_def Let_def
        published_by_def executed_by_def executed_in_def reports_waiting_def reports_held_def
        split: prod.splits if_splits option.splits sum.splits outcome.splits elim!: run_bind_done\<close>)
  then obtain v where v: "reports_waiting (wk_exchange s') = reports_waiting (wk_exchange s) @ published_by i s" "wk_workers s' = pre @ v # post"
    "mset (reports_held v) + mset (published_by i s) = mset (reports_held (wk_workers s ! i)) + mset (executed_in (executed_by i s s'))"
    using ws(2) by auto
  show "reports_waiting (wk_exchange s') = reports_waiting (wk_exchange s) @ published_by i s" by (rule v(1))
  let ?others = "mset (concat (map reports_held pre)) + mset (concat (map reports_held post))"
  have "mset (concat (map reports_held (wk_workers s'))) + mset (published_by i s) = ?others + (mset (reports_held v) + mset (published_by i s))"
    by (simp add: v(2) ac_simps)
  also have "\<dots> = ?others + mset (reports_held (wk_workers s ! i)) + mset (executed_in (executed_by i s s'))" by (simp add: v(3))
  also have "?others + mset (reports_held (wk_workers s ! i)) = mset (concat (map reports_held (wk_workers s)))"
    by (subst (2) ws(1)) (simp add: ac_simps)
  finally show "mset (concat (map reports_held (wk_workers s'))) + mset (published_by i s) =
      mset (concat (map reports_held (wk_workers s))) + mset (executed_in (executed_by i s s'))" .
qed


section \<open>The invariant of the system\<close>

text \<open>Every report goes to a session of its client.\<close>

definition own_reports :: "uint32_t list \<Rightarrow> (session_ref \<times> ExecutionReport) list \<Rightarrow> bool" where
  "own_reports ids ps \<longleftrightarrow> (\<forall>(i, r) \<in> set ps. i < length ids \<and> rep_client_id r = ids ! i)"

lemma own_reports_append [simp]: "own_reports ids (ps @ qs) \<longleftrightarrow> own_reports ids ps \<and> own_reports ids qs"
  by (auto simp: own_reports_def)

lemma own_reports_more: "own_reports ids ps \<Longrightarrow> own_reports (ids @ new) ps"
  by (auto simp: own_reports_def nth_append)

definition sys_inv :: "clock \<Rightarrow> System \<Rightarrow> sys_event list \<Rightarrow> bool" where
  "sys_inv clk y tr \<longleftrightarrow>
     run_ok (sys_gw y) (queued_in tr) (map (\<lambda>(i, r, f). (i, f)) (framed_in tr)) \<and>
     pool_inv clk (workers_of y) (queued_in tr) (logged_in tr) \<and>
     published_in tr = routed_in tr @ reports_waiting (sys_exchange y) \<and>
     posted_in tr = map (\<lambda>(i, r, f). (i, r)) (framed_in tr) @ posted (sys_gw y) \<and>
     mset (executed_in tr) = mset (published_in tr) + mset (concat (map reports_held (sys_workers y))) \<and>
     own_reports (client_ids (sys_gw y)) (posted_in tr)"

lemma sys_invD:
  assumes "sys_inv clk y tr"
  shows "run_ok (sys_gw y) (queued_in tr) (map (\<lambda>(i, r, f). (i, f)) (framed_in tr))"
    "pool_inv clk (workers_of y) (queued_in tr) (logged_in tr)" "published_in tr = routed_in tr @ reports_waiting (sys_exchange y)"
    "posted_in tr = map (\<lambda>(i, r, f). (i, r)) (framed_in tr) @ posted (sys_gw y)"
    "mset (executed_in tr) = mset (published_in tr) + mset (concat (map reports_held (sys_workers y)))"
    "own_reports (client_ids (sys_gw y)) (posted_in tr)"
  using assms unfolding sys_inv_def by blast+

lemma sys_inv_io:
  assumes inv: "sys_inv clk y tr" and run: "run_ok g (queued_in tr) (map (\<lambda>(i, r, f). (i, f)) (framed_in tr) @ map (\<lambda>(i, r, f). (i, f)) fs)"
    and same: "g_pool g = g_pool (sys_gw y)" "client_ids g = client_ids (sys_gw y) @ new"
    and posts: "posted (sys_gw y) = map (\<lambda>(i, r, f). (i, r)) fs @ posted g"
    and es: "queued_in es = []" "logged_in es = []" "published_in es = []" "routed_in es = []" "executed_in es = []" "posted_in es = []" "framed_in es = fs"
  shows "sys_inv clk (y\<lparr>sys_gw := g\<rparr>) (tr @ es)"
proof -
  have "own_reports (client_ids (sys_gw y) @ new) (posted_in tr)" by (intro own_reports_more sys_invD(6) [OF inv])
  then show ?thesis using sys_invD [OF inv] assms(2-) by (simp add: sys_inv_def workers_of_def)
qed

lemma pool_inv_queue:
  assumes "pool_inv clk s subs logd" "sq_queue q = sq_queue (wk_queue s) @ ts" "\<forall>t \<in> set ts. gateway_task t"
  shows "pool_inv clk (s\<lparr>wk_queue := q\<rparr>) (subs @ ts) logd"
  using assms by (auto simp: pool_inv_def)

lemma sys_inv_body:
  assumes inv: "sys_inv clk y tr" and i: "i < length (g_sessions (sys_gw y))" and b: "on_body clk i bytes (sys_gw y) = Inr (Returns g)"
  shows "sys_inv clk (y\<lparr>sys_gw := g\<rparr>) (tr @ map Queued (drop (length (queued_tasks (sys_gw y))) (queued_tasks g)) @
    map (\<lambda>(j, r). Refused j r) (drop (length (posted (sys_gw y))) (posted g)))"
proof -
  let ?g = "sys_gw y" and ?new = "drop (length (queued_tasks (sys_gw y))) (queued_tasks g)"
  have ok: "run_ok ?g (queued_in tr) (map (\<lambda>(i, r, f). (i, f)) (framed_in tr))" using inv by (simp add: sys_inv_def)
  have run: "run_ok g (queued_in tr @ ?new) (map (\<lambda>(i, r, f). (i, f)) (framed_in tr))" using run_ok_body [OF ok i b] by simp
  have "queue_effect ?g g" using ok body_step(2) [OF _ i b] by (auto simp: run_ok_def)
  then have q: "queued_tasks g = queued_tasks ?g @ ?new" "\<forall>t \<in> set ?new. gateway_task t" by (auto simp: queue_effect_def)
  have "workers_of (y\<lparr>sys_gw := g\<rparr>) = (workers_of y)\<lparr>wk_queue := task_queue (g_pool g)\<rparr>" by (simp add: workers_of_def)
  moreover have "sq_queue (task_queue (g_pool g)) = sq_queue (wk_queue (workers_of y)) @ ?new"
    using q(1) by (simp add: workers_of_def queued_tasks_def)
  ultimately have pool: "pool_inv clk (workers_of (y\<lparr>sys_gw := g\<rparr>)) (queued_in tr @ ?new) (logged_in tr)"
    using pool_inv_queue q(2) inv by (simp add: sys_inv_def)
  obtain rs where rs: "client_ids g = client_ids ?g" "posted g = posted ?g @ map (Pair i) rs"
    "\<forall>r \<in> set rs. rep_client_id r = sess_client_id (the_session ?g i)" using body_sessions [OF b] by blast
  have "i < length (client_ids ?g)" "client_ids ?g ! i = sess_client_id (the_session ?g i)" using i by (simp_all add: client_ids_def)
  then have "own_reports (client_ids ?g) (map (Pair i) rs)" using rs(3) by (auto simp: own_reports_def)
  moreover have "drop (length (posted ?g)) (posted g) = map (Pair i) rs" using rs(2) by simp
  ultimately show ?thesis using run pool rs(1,2) sys_invD(3-6) [OF inv] by (simp add: sys_inv_def del: map_map)
qed

lemma sys_inv_works:
  assumes inv: "sys_inv clk y tr" and i: "i < length (sys_workers y)" and st: "worker_step clk mem i (workers_of y) = done_with s" and mem: "mem_ok mem"
  shows "sys_inv clk (put_workers s y) (tr @ map Logged (logged_by i (workers_of y)) @ executed_by i (workers_of y) s @ map Published (published_by i (workers_of y)))"
proof -
  have i': "i < length (wk_workers (workers_of y))" using i by (simp add: workers_of_def)
  have p: "pool_inv clk (workers_of y) (queued_in tr) (logged_in tr)" using inv by (simp add: sys_inv_def)
  note r = worker_step_reports [OF p i' st]
  have "workers_of (put_workers s y) = s" by (simp add: workers_of_def put_workers_def)
  moreover obtain taken where "queued_tasks (sys_gw y) = taken @ sq_queue (wk_queue s)"
    using worker_step_queue [OF st] by (auto simp: workers_of_def queued_tasks_def)
  then have "run_ok (sys_gw (put_workers s y)) (queued_in tr) (map (\<lambda>(i, r, f). (i, f)) (framed_in tr))"
    using inv sessions_ok_other [of "sys_gw y" _ "sys_gw (put_workers s y)"]
    by (auto simp: sys_inv_def run_ok_def tasks_ok_def put_workers_def queued_tasks_def)
  moreover have "mset (executed_in tr) + mset (executed_in (executed_by i (workers_of y) s)) =
      mset (published_in tr) + mset (published_by i (workers_of y)) + mset (concat (map reports_held (wk_workers s)))"
    using inv r(2) by (simp add: sys_inv_def workers_of_def ac_simps)
  moreover have "sys_exchange (put_workers s y) = wk_exchange s" "sys_workers (put_workers s y) = wk_workers s"
    "posted (sys_gw (put_workers s y)) = posted (sys_gw y)" "client_ids (sys_gw (put_workers s y)) = client_ids (sys_gw y)"
    by (simp_all add: put_workers_def)
  moreover have "sys_exchange y = wk_exchange (workers_of y)" by (simp add: workers_of_def)
  ultimately show ?thesis using sys_invD(3-6) [OF inv] worker_step_inv [OF p i' st mem] r(1) by (simp add: sys_inv_def)
qed

lemma sys_inv_dispatches:
  assumes inv: "sys_inv clk y tr" and p: "pipeline (sys_exchange y) = Some p" and d: "dispatch_once (g_cm (sys_gw y)) p = Inr (out, p')"
  shows "sys_inv clk (y\<lparr>sys_gw := hand_over out (sys_gw y), sys_exchange := (sys_exchange y)\<lparr>pipeline := Some p'\<rparr>\<rparr>)
    (tr @ map (\<lambda>r. Routed r (get_session (rep_client_id r) (g_cm (sys_gw y)))) (take 1 (reports_waiting (sys_exchange y))))"
proof -
  let ?g = "sys_gw y" and ?x = "sys_exchange y" and ?outs = "map (\<lambda>(i, r, f). (i, f)) (framed_in tr)"
  have ok: "run_ok ?g (queued_in tr) ?outs" and pi: "pool_inv clk (workers_of y) (queued_in tr) (logged_in tr)" using inv by (simp_all add: sys_inv_def)
  have run: "pipeline_running p" using pi p by (auto simp: pool_inv_def exchange_follows_def workers_of_def)
  then obtain rs ts where "pipeline_ok p rs ts" by (auto simp: pipeline_running_def)
  then have idle: "mpsc_idle (report_queue p) rs" "mpsc_idle (trade_queue p) ts" by (simp_all add: pipeline_ok_def)
  have w: "reports_waiting ?x = rs" using p mpsc_idle_contents [OF idle(1)] by (simp add: reports_waiting_def)
  obtain rq tq where q: "dispatch_once (g_cm ?g) p = Inr (deliverable (g_cm ?g) (take 1 rs), p\<lparr>report_queue := rq, trade_queue := tq\<rparr>)" "mpsc_idle rq (tl rs)"
    using dispatch_once_ok [OF idle] by blast
  then have out: "out = deliverable (g_cm ?g) (take 1 rs)" and w': "mpsc_contents (report_queue p') = tl rs" using d mpsc_idle_contents by auto
  have routed: "(i, r) \<in> set out \<Longrightarrow> i < length (g_sessions ?g) \<and> rep_client_id r = sess_client_id (the_session ?g i)" for i r
    using ok unfolding out by (auto simp: deliverable_def run_ok_def sessions_ok_def split: option.splits)
  have "sessions_ok (hand_over out ?g) ?outs" 
  proof (rule sessions_ok_other [of ?g])
    show "sessions_ok ?g ?outs" using ok by (simp add: run_ok_def)
  qed (use routed in auto)
  then have "run_ok (hand_over out ?g) (queued_in tr) ?outs" using ok by (simp add: run_ok_def tasks_ok_def queued_tasks_def)
  moreover have "pool_inv clk ((workers_of y)\<lparr>wk_exchange := ?x\<lparr>pipeline := Some p'\<rparr>\<rparr>) (queued_in tr) (logged_in tr)"
    using pi pipeline_running_dispatch [OF run d] by (auto simp: pool_inv_def exchange_follows_def workers_of_def)
  moreover have "take 1 rs @ tl rs = rs" by (cases rs) auto
  moreover have "reports_waiting (?x\<lparr>pipeline := Some p'\<rparr>) = tl rs" by (simp add: reports_waiting_def w')
  moreover have "own_reports (client_ids ?g) out" using routed by (auto simp: client_ids_def own_reports_def)
  moreover have "deliverable (g_cm ?g) (take (Suc 0) rs) = out" using out by simp
  ultimately show ?thesis using sys_invD(3-6) [OF inv] by (simp add: sys_inv_def workers_of_def posted_in_routed w)
qed


lemma sys_step_inv:
  assumes "sys_step clk mem y es y'" "sys_inv clk y tr" "mem_ok mem"
  shows "sys_inv clk y' (tr @ es)"
proof -
  let ?outs = "map (\<lambda>(i, r, f). (i, f)) (framed_in tr)"
  have ok: "run_ok (sys_gw y) (queued_in tr) ?outs" using assms(2) by (simp add: sys_inv_def)
  from assms(1) show ?thesis
  proof cases
    case (sys_accepts hdr ok')
    obtain new where "client_ids (on_accept hdr ok' (sys_gw y)) = client_ids (sys_gw y) @ new" using accept_client_ids by blast
    moreover have "run_ok (on_accept hdr ok' (sys_gw y)) (queued_in tr @ []) (?outs @ [])" by (rule run_ok_step [OF accepts ok])
    ultimately show ?thesis using sys_accepts sys_inv_io [OF assms(2), of "on_accept hdr ok' (sys_gw y)" "[]" new "[]"] by simp
  next
    case (sys_header i bytes)
    then have "run_ok (on_header i bytes (sys_gw y)) (queued_in tr @ []) (?outs @ [])" by (intro run_ok_step [OF header ok])
    then show ?thesis using sys_header sys_inv_io [OF assms(2), of "on_header i bytes (sys_gw y)" "[]" "[]" "[]"] by simp
  next
    case (sys_body i n bytes g)
    then show ?thesis using sys_inv_body [OF assms(2)] by simp
  next
    case (sys_posted i r rest net)
    let ?g = "run_posted net i r ((sys_gw y)\<lparr>posted := rest\<rparr>)"
    have "run_ok ?g (queued_in tr @ []) (?outs @ [(i, report_frame net r)])" by (rule run_ok_step [OF posted_runs ok]) (use sys_posted in auto)
    then show ?thesis using sys_posted sys_inv_io [OF assms(2), of ?g "[(i, r, report_frame net r)]" "[]" "[Framed i r (report_frame net r)]"] by simp
  next
    case (sys_written i buf ok')
    then have "run_ok (on_written i ok' (sys_gw y)) (queued_in tr @ []) (?outs @ [])" by (intro run_ok_step [OF written ok])
    then show ?thesis using sys_written sys_inv_io [OF assms(2), of "on_written i ok' (sys_gw y)" "[]" "[]" "[]"] by simp
  next
    case (sys_works i s)
    then show ?thesis using sys_inv_works [OF assms(2) _ _ assms(3)] by simp
  next
    case (sys_flushes w w')
    then have "pool_inv clk ((workers_of y)\<lparr>wk_exchange := (sys_exchange y)\<lparr>wal := Some w'\<rparr>\<rparr>) (queued_in tr) (logged_in tr)"
      using assms(2) log_follows_flush [of w "logged_in tr"] by (auto simp: sys_inv_def pool_inv_def exchange_follows_def workers_of_def)
    then show ?thesis using sys_flushes sys_invD [OF assms(2)] by (simp add: sys_inv_def workers_of_def reports_waiting_def)
  next
    case (sys_dispatches p out p')
    then show ?thesis using sys_inv_dispatches [OF assms(2)] by simp
  qed
qed

lemma fresh_system_inv: "sys_inv clk (fresh_system n risk path) []"
proof -
  have "mpsc_contents (report_queue (pipeline_start ExecutionPipeline_init)) = []"
    by (rule pipeline_ok_contents [OF pipeline_ok_start])
  moreover have "concat (map reports_held (replicate n Dequeuing)) = []" by (simp add: reports_held_def)
  moreover have "run_ok (Gateway_init risk (pool_start (ThreadPool_init n)) Env_init) [] []"
    by (rule gw_run_ok [OF gw_start]) (simp add: pool_start_def ThreadPool_init_def SafeQueue_init_def)
  moreover have "pool_inv clk (workers_of (fresh_system n risk path)) [] []" by (simp add: fresh_system_workers fresh_workers_inv)
  moreover have "posted (sys_gw (fresh_system n risk path)) = []" "sys_workers (fresh_system n risk path) = replicate n Dequeuing"
    "sys_gw (fresh_system n risk path) = Gateway_init risk (pool_start (ThreadPool_init n)) Env_init"
    "pipeline (sys_exchange (fresh_system n risk path)) = Some (pipeline_start ExecutionPipeline_init)"
    by (simp_all add: fresh_system_def Gateway_init_def fresh_exchange_def)
  ultimately show ?thesis by (simp add: sys_inv_def reports_waiting_def own_reports_def)
qed

lemma sys_run_inv: "sys_run clk mem (fresh_system n risk path) tr y \<Longrightarrow> mem_ok mem \<Longrightarrow> sys_inv clk y tr"
proof (induction rule: sys_run.induct)
  case sys_begin
  show ?case by (rule fresh_system_inv)
qed (blast intro: sys_step_inv)


section \<open>An example run\<close>

definition ex_system :: System where
  "ex_system = fresh_system 4 (register_symbol ''AAPL'' RiskChecker_init) ''f''"

text \<open>One client connects and sends a buy order, which is queued.\<close>

lemma ex_system_run:
  "\<exists>tr y. sys_run clk mem ex_system tr y \<and> quiet (workers_of y) \<and> queued_in tr = [ex_received_task] \<and> queued_tasks (sys_gw y) = [ex_received_task] \<and>
     logged_in tr = [] \<and> executed_in tr = [] \<and> sys_workers y = replicate 4 Dequeuing \<and> length (g_sessions (sys_gw y)) = 1"
proof -
  let ?y1 = "ex_system\<lparr>sys_gw := ex_connected\<rparr>" and ?y2 = "ex_system\<lparr>sys_gw := ex_order_header\<rparr>"
  have gw: "sys_gw ex_system = ex_gateway" by (simp add: ex_system_def fresh_system_def ex_gateway_def)
  have "sys_step clk mem ex_system [] (ex_system\<lparr>sys_gw := on_accept \<lparr>hdr_type = 0, hdr_length = 0\<rparr> True (sys_gw ex_system)\<rparr>)" by (rule sys_accepts)
  from sys_next [OF sys_begin this] have r1: "sys_run clk mem ex_system [] ?y1" by (simp add: gw ex_connected_def)
  have "sys_step clk mem ?y1 [] (?y1\<lparr>sys_gw := on_header 0 (Some (MsgHeader_image \<lparr>hdr_type = MsgType_Order, hdr_length = 38\<rparr>)) (sys_gw ?y1)\<rparr>)"
  proof (rule sys_header)
    fix bs assume "Some (MsgHeader_image \<lparr>hdr_type = MsgType_Order, hdr_length = 38\<rparr>) = Some bs"
    then show "length bs = sizeof_MsgHeader" using header.image_length by auto
  qed (simp_all add: ex_gateway_defs)
  from sys_next [OF r1 this] have r2: "sys_run clk mem ex_system [] ?y2" by (simp add: ex_order_header_def)
  obtain g where g: "on_body clk 0 (Some (NetOrder_image ex_net_order)) ex_order_header = Inr (Returns g)" "queued_tasks g = [ex_received_task]"
    using ex_order_body by blast
  have h: "length (g_sessions ex_order_header) = 1" "reading (the_session ex_order_header 0) = Reading_body 38" "queued_tasks ex_order_header = []"
    by (simp_all add: ex_gateway_defs header.load_image queued_tasks_def pool_start_def ThreadPool_init_def SafeQueue_init_def)
  have len: "length (NetOrder_image ex_net_order) = 38"
    using net_order.image_length [of ex_net_order] by (simp add: ex_net_order_def sizeof_NetOrder_def)
  let ?es = "map Queued (drop (length (queued_tasks (sys_gw ?y2))) (queued_tasks g)) @
     map (\<lambda>(j, r). Refused j r) (drop (length (posted (sys_gw ?y2))) (posted g))"
  have "sys_step clk mem ?y2 ?es (?y2\<lparr>sys_gw := g\<rparr>)"
    by (rule sys_body [where i = 0 and n = 38 and bytes = "Some (NetOrder_image ex_net_order)"]) (use g(1) h len in auto)
  from sys_next [OF r2 this] have "sys_run clk mem ex_system ?es (?y2\<lparr>sys_gw := g\<rparr>)" by simp
  moreover have "queued_in ?es = [ex_received_task]" "logged_in ?es = []" "executed_in ?es = []"
    unfolding trace_append trace_simps using g(2) h(3) by simp_all
  moreover have "queued_tasks (sys_gw (?y2\<lparr>sys_gw := g\<rparr>)) = [ex_received_task]" "sys_workers (?y2\<lparr>sys_gw := g\<rparr>) = replicate 4 Dequeuing"
    using g(2) by (simp_all add: ex_system_def fresh_system_def)
  moreover have "quiet (workers_of (?y2\<lparr>sys_gw := g\<rparr>))" by (simp add: quiet_def workers_of_def ex_system_def fresh_system_def)
  moreover have "length (client_ids g) = 1" using body_sessions [OF g(1)] h(1) by (simp add: client_ids_def)
  then have "length (g_sessions (sys_gw (?y2\<lparr>sys_gw := g\<rparr>))) = 1" by (simp add: client_ids_def)
  ultimately show ?thesis by blast
qed

text \<open>The pool's worker lemmas carry over to the whole system: a worker that no other one blocks finishes its task.\<close>

lemma sys_works_run:
  assumes "sys_run clk mem y0 tr y" "i < length (sys_workers y)" "worker_step clk mem i (workers_of y) = done_with s"
  shows "\<exists>y' es. sys_run clk mem y0 (tr @ es) y' \<and> workers_of y' = s \<and> g_sessions (sys_gw y') = g_sessions (sys_gw y) \<and>
    queued_in es = [] \<and> logged_in es = logged_by i (workers_of y) \<and> executed_in es = executed_in (executed_by i (workers_of y) s)"
  by (rule exI, rule exI, rule conjI, rule sys_next [OF assms(1) sys_works [OF assms(2,3)]]) (simp add: workers_of_def put_workers_def)

lemma sys_publishes:
  assumes "sys_run clk mem (fresh_system n risk path) tr y" "mem_ok mem" "i < length (sys_workers y)" "sys_workers y ! i = After_book fs rs ts"
  shows "\<exists>y' es. sys_run clk mem (fresh_system n risk path) (tr @ es) y' \<and> sys_workers y' = (sys_workers y)[i := Dequeuing] \<and>
    g_sessions (sys_gw y') = g_sessions (sys_gw y) \<and> queued_in es = [] \<and> logged_in es = [] \<and> executed_in es = []"
  using assms
proof (induction "pool_rank (workers_of y)" arbitrary: y tr fs rs ts rule: wf_induct_rule [OF wf_lex_prod [OF wf_less_than wf_less_than]])
  case 1
  have inv: "pool_inv clk (workers_of y) (queued_in tr) (logged_in tr)" using sys_run_inv [OF 1(2,3)] by (simp add: sys_inv_def)
  have ws: "wk_workers (workers_of y) = sys_workers y" for y by (simp add: workers_of_def)
  obtain s where s: "worker_step clk mem i (workers_of y) = done_with s"
    by (rule worker_step_progress [OF inv _ 1(3), of i]) (use 1(4,5) in \<open>simp_all add: ws\<close>)
  obtain y1 es where y1: "sys_run clk mem (fresh_system n risk path) (tr @ es) y1" "workers_of y1 = s" "g_sessions (sys_gw y1) = g_sessions (sys_gw y)"
    "queued_in es = []" "logged_in es = []" "executed_in es = []"
    using sys_works_run [OF 1(2,4) s] 1(5) by (auto simp: logged_by_def executed_by_def ws)
  have "wk_workers s = (sys_workers y)[i := Dequeuing] \<or> (\<exists>fs rs ts. wk_workers s = (sys_workers y)[i := After_book fs rs ts])"
    using s 1(5) by (cases fs; cases rs; cases ts) (fastforce simp: worker_step_def ws set_worker_def Let_def elim!: run_bind_done)+
  then show ?case
  proof (elim disjE exE)
    assume "wk_workers s = (sys_workers y)[i := Dequeuing]"
    then show ?case using y1 ws [of y1] by auto
  next
    fix fs' rs' ts' assume w: "wk_workers s = (sys_workers y)[i := After_book fs' rs' ts']"
    have "(pool_rank (workers_of y1), pool_rank (workers_of y)) \<in> less_than <*lex*> less_than"
      using worker_step_rank [OF _ s] 1(4) y1(2) by (simp add: ws)
    from 1(1) [OF this y1(1) 1(3)] show ?case using w ws [of y1] y1 1(4) by fastforce
  qed
qed

text \<open>The order of the example is taken by a worker, logged, put into its book and reported.\<close>

lemma ex_received_matched:
  "\<exists>b res e'. book_apply clk (Submit_op ex_received) (OrderBook_init ''AAPL'') e = Inr (b, res, e') \<and> length (execution_reports res) = 1"
  by (simp add: book_eval ex_received_def)

abbreviation ex_empty_books :: BookRegistry where
  "ex_empty_books \<equiv> \<lparr>books = [''AAPL'' \<mapsto> OrderBook_init ''AAPL'']\<rparr>"

lemma ex_received_task_sel:
  "task_symbol ex_received_task = ''AAPL''" "op_of_task ex_received_task = Some (Submit_op ex_received)" "gateway_task ex_received_task"
  by (simp_all add: ex_received_task_def op_of_task_def gateway_task_def ex_received_def symbol_ok_def proper_enums_def)

lemma workers_of_workers: "wk_workers (workers_of y) = sys_workers y"
  by (simp add: workers_of_def)

lemma ex_looked_up_run:
  assumes mem: "mem_ok mem"
  obtains tr y where "sys_run clk mem ex_system tr y" "sys_workers y = [Has_book ex_received_task, Dequeuing, Dequeuing, Dequeuing]"
    "registry (wk_exchange (workers_of y)) = ex_empty_books" "length (g_sessions (sys_gw y)) = 1"
    "queued_in tr = [ex_received_task]" "logged_in tr = []" "executed_in tr = []"
proof -
  let ?t = ex_received_task and ?reg = ex_empty_books
  note ws = workers_of_workers and t = ex_received_task_sel
  obtain tr y where y: "sys_run clk mem ex_system tr y" "quiet (workers_of y)" "queued_in tr = [?t]" "queued_tasks (sys_gw y) = [?t]"
    "logged_in tr = []" "executed_in tr = []" "sys_workers y = replicate 4 Dequeuing" "length (g_sessions (sys_gw y)) = 1"
    using ex_system_run by blast
  have "pool_inv clk (workers_of y) (queued_in tr) (logged_in tr)" using sys_run_inv [OF y(1) [unfolded ex_system_def] mem] by (simp add: sys_inv_def)
  then have reg: "registry (wk_exchange (workers_of y)) = BookRegistry_init" using quiet_books [OF _ y(2)] y(5) by fastforce
  let ?s1 = "set_worker 0 (Has_task ?t) ((workers_of y)\<lparr>wk_queue := (wk_queue (workers_of y))\<lparr>sq_queue := []\<rparr>\<rparr>)"
  have "worker_step clk mem 0 (workers_of y) = done_with ?s1"
    using y(4,7) by (simp add: worker_step_def worker_dequeue_def sq_dequeue_def ws queued_tasks_def workers_of_def)
  from sys_works_run [OF y(1) _ this] y(7) obtain y1 es1 where y1: "sys_run clk mem ex_system (tr @ es1) y1" "workers_of y1 = ?s1"
    "g_sessions (sys_gw y1) = g_sessions (sys_gw y)" "queued_in es1 = []" "logged_in es1 = []" "executed_in es1 = []"
    by (auto simp: logged_by_def executed_by_def ws)
  have w1: "sys_workers y1 = [Has_task ?t, Dequeuing, Dequeuing, Dequeuing]" using y1(2) ws [of y1] y(7)
    by (simp add: set_worker_def ws numeral_eq_Suc)
  let ?s2 = "set_worker 0 (Has_book ?t) (?s1\<lparr>wk_exchange := (wk_exchange ?s1)\<lparr>registry := ?reg\<rparr>\<rparr>)"
  have "worker_step clk mem 0 (workers_of y1) = done_with ?s2"
    using y1(2) y(7) reg t by (simp add: worker_step_def worker_lookup_def ws get_order_book_def BookRegistry_init_def set_worker_def Let_def)
  from sys_works_run [OF y1(1) _ this] w1 obtain y2 es2 where y2: "sys_run clk mem ex_system (tr @ es1 @ es2) y2" "workers_of y2 = ?s2"
    "g_sessions (sys_gw y2) = g_sessions (sys_gw y1)" "queued_in es2 = []" "logged_in es2 = []" "executed_in es2 = []"
    by (auto simp: logged_by_def executed_by_def ws)
  have w2: "sys_workers y2 = [Has_book ?t, Dequeuing, Dequeuing, Dequeuing]" "registry (wk_exchange (workers_of y2)) = ?reg"
    using y2(2) ws [of y2] y(7) by (simp_all add: set_worker_def ws numeral_eq_Suc)
  show thesis by (rule that [OF y2(1) w2]) (use y1(3-6) y2(3-6) y(3,5,6,8) in simp_all)
qed

lemma ex_handled_run:
  assumes mem: "mem_ok mem"
  shows "\<exists>tr y. sys_run clk mem ex_system tr y \<and> quiet (workers_of y) \<and> queued_in tr = [ex_received_task] \<and>
    logged_in tr = [ex_received_task] \<and> length (executed_in tr) = 1 \<and> length (g_sessions (sys_gw y)) = 1"
proof -
  let ?t = ex_received_task and ?reg = ex_empty_books
  note ws = workers_of_workers and t = ex_received_task_sel
  obtain tr y2 where y2: "sys_run clk mem ex_system tr y2" "length (g_sessions (sys_gw y2)) = 1" "queued_in tr = [?t]" "logged_in tr = []" "executed_in tr = []"
    and w2: "sys_workers y2 = [Has_book ?t, Dequeuing, Dequeuing, Dequeuing]" "registry (wk_exchange (workers_of y2)) = ?reg"
    by (rule ex_looked_up_run [OF mem])
  have "pool_inv clk (workers_of y2) (queued_in tr) (logged_in tr)"
    using sys_run_inv [OF y2(1) [unfolded ex_system_def] mem] by (simp add: sys_inv_def)
  then obtain s3 where s3: "worker_step clk mem 0 (workers_of y2) = done_with s3"
    by (rule worker_step_progress [OF _ _ mem, of _ _ _ _ 0]) (use w2 in \<open>auto simp: ws locked_by_def\<close>)
  then obtain w where "s3 = set_worker 0 (In_book ?t) ((workers_of y2)\<lparr>wk_exchange := (wk_exchange (workers_of y2))\<lparr>wal := w\<rparr>\<rparr>)"
    using w2 t by (auto simp: worker_step_def worker_lock_def ws Let_def split: if_splits elim!: run_bind_done)
  then have w3: "wk_workers s3 = [In_book ?t, Dequeuing, Dequeuing, Dequeuing]" "registry (wk_exchange s3) = ?reg"
    using w2 by (simp_all add: set_worker_def ws)
  from sys_works_run [OF y2(1) _ s3] w2 t obtain y3 es3 where y3: "sys_run clk mem ex_system (tr @ es3) y3" "workers_of y3 = s3"
    "g_sessions (sys_gw y3) = g_sessions (sys_gw y2)" "queued_in es3 = []" "logged_in es3 = [?t]" "executed_in es3 = []"
    by (auto simp: logged_by_def executed_by_def ws)
  note w3 = w3 [folded y3(2), unfolded ws]
  obtain b res e where m: "book_apply clk (Submit_op ex_received) (OrderBook_init ''AAPL'') (env (wk_exchange (workers_of y3))) = Inr (b, res, e)"
    "length (execution_reports res) = 1"
    using ex_received_matched by blast
  obtain s4 where s4: "worker_step clk mem 0 (workers_of y3) = done_with s4"
    "wk_workers s4 = [After_book (fills res) (execution_reports res) (fills res), Dequeuing, Dequeuing, Dequeuing]"
    using w3 t m(1) by (simp add: worker_step_def worker_match_def ws get_order_book_def Let_def set_worker_def)
  from sys_works_run [OF y3(1) _ s4(1)] w3 obtain y4 es4 where y4: "sys_run clk mem ex_system ((tr @ es3) @ es4) y4" "workers_of y4 = s4"
    "g_sessions (sys_gw y4) = g_sessions (sys_gw y3)" "queued_in es4 = []" "logged_in es4 = []" "executed_in es4 = execution_reports res"
    using s4(2) by (auto simp: logged_by_def executed_by_def ws executed_in_def)
  have w4: "sys_workers y4 = [After_book (fills res) (execution_reports res) (fills res), Dequeuing, Dequeuing, Dequeuing]"
    using s4(2) y4(2) ws [of y4] by simp
  obtain y5 es5 where y5: "sys_run clk mem ex_system (((tr @ es3) @ es4) @ es5) y5"
    "sys_workers y5 = [Dequeuing, Dequeuing, Dequeuing, Dequeuing]" "g_sessions (sys_gw y5) = g_sessions (sys_gw y4)"
    "queued_in es5 = []" "logged_in es5 = []" "executed_in es5 = []"
    using sys_publishes [OF y4(1) [unfolded ex_system_def] mem, of 0, folded ex_system_def, unfolded w4] by auto
  have "quiet (workers_of y5)" using y5(2) by (simp add: quiet_def ws)
  then show ?thesis using y5 y4(3-6) y3(3-6) y2(2-5) m(2)
    by (intro exI [of _ "((tr @ es3) @ es4) @ es5"] exI [of _ y5]) simp
qed

section \<open>Properties\<close>

text \<open>
  C7: The exchange as a whole, from the bytes of the clients to the books: in every run of the io thread, the workers, the
  flush thread and the dispatch thread, at every moment, no order id has been submitted twice, every task the gateway queued is still queued, held by a worker
  that has not logged it yet, or logged, exactly once, and all books satisfy their invariant.  Whenever no worker is handling a task, the
  books and the trade-id counter are those of the logged requests handled one after another, and stopping the log and replaying its file
  rebuilds them up to the client ids.
\<close>

theorem exchange_end_to_end:
  assumes "mem_ok mem" "sys_run clk mem (fresh_system n risk path) tr y"
  shows "distinct (submitted_ids (queued_in tr)) \<and>
    mset (queued_in tr) = mset (queued_tasks (sys_gw y)) + mset (concat (map tasks_of (sys_workers y))) + mset (logged_in tr) \<and>
    registry_inv (registry (sys_exchange y)) \<and>
    (quiet (workers_of y) \<longrightarrow>
      (\<exists>w w' reg e e'. apply_tasks clk (logged_in tr) BookRegistry_init Env_init = Inr (registry (sys_exchange y), e) \<and>
        counter e = counter (env (sys_exchange y)) \<and>
        wal (sys_exchange y) = Some w \<and> wal_stop w = done_with w' \<and>
        replay clk1 (Some (wal_file w')) BookRegistry_init e0 = Inr (True, reg, e') \<and>
        (\<forall>sy. books reg sy = map_option anon_book (books (registry (sys_exchange y)) sy)) \<and> counter e' = counter (env (sys_exchange y))))"
proof -
  have inv: "sys_inv clk y tr" by (rule sys_run_inv [OF assms(2,1)])
  then have p: "pool_inv clk (workers_of y) (queued_in tr) (logged_in tr)" by (simp add: sys_inv_def)
  have x: "wk_exchange (workers_of y) = sys_exchange y" "sq_queue (wk_queue (workers_of y)) = queued_tasks (sys_gw y)"
    "wk_workers (workers_of y) = sys_workers y"
    by (simp_all add: workers_of_def queued_tasks_def)
  have "distinct (submitted_ids (queued_in tr))" using inv by (simp add: sys_inv_def run_ok_def tasks_ok_def)
  moreover have "registry_inv (registry (sys_exchange y))" using p by (simp add: pool_inv_def exchange_follows_def x)
  moreover have "mset (queued_in tr) = mset (queued_tasks (sys_gw y)) + mset (concat (map tasks_of (sys_workers y))) + mset (logged_in tr)"
    using p by (simp add: pool_inv_def x)
  ultimately show ?thesis using quiet_books [OF p] quiet_replay [OF p, of clk1 e0] unfolding x by metis
qed

theorem exchange_end_to_end_witness:
  "\<exists>tr y w w' reg b e. sys_run (\<lambda>_. 0) ex_mem ex_system tr y \<and> logged_in tr = [ex_received_task] \<and>
     wal (sys_exchange y) = Some w \<and> wal_stop w = done_with w' \<and> replay (\<lambda>_. 1) (Some (wal_file w')) BookRegistry_init Env_init = Inr (True, reg, e) \<and>
     books reg ''AAPL'' = Some b \<and> buy_orders b = [(15000, [(0, ex_received\<lparr>client_id := 0\<rparr>)])]"
proof -
  obtain tr y where y: "sys_run (\<lambda>_. 0) ex_mem ex_system tr y" "quiet (workers_of y)" "logged_in tr = [ex_received_task]"
    using ex_handled_run [OF ex_mem_ok] by blast
  obtain w w' reg e e' where r: "apply_tasks (\<lambda>_. 0) [ex_received_task] BookRegistry_init Env_init = Inr (registry (sys_exchange y), e)"
    "wal (sys_exchange y) = Some w" "wal_stop w = done_with w'" "replay (\<lambda>_. 1) (Some (wal_file w')) BookRegistry_init Env_init = Inr (True, reg, e')"
    "\<forall>sy. books reg sy = map_option anon_book (books (registry (sys_exchange y)) sy)"
    using exchange_end_to_end [OF ex_mem_ok y(1) [unfolded ex_system_def], of "\<lambda>_. 1" Env_init] y(2,3) by auto
  have "\<exists>b. books reg ''AAPL'' = Some b \<and> buy_orders b = [(15000, [(0, ex_received\<lparr>client_id := 0\<rparr>)])]"
    using r(1) r(5) by (cases "registry (sys_exchange y)") (auto simp: book_eval ex_received_task_def ex_received_def relabel_book_def relabel_levels_def relabel_queue_def relabel_def)
  then show ?thesis using y(1,3) r(2-4) by blast
qed

text \<open>
  C8: Reports reach the clients they belong to: in every run, the reports of executed operations have been published exactly once
  or are still held by a worker; the dispatch thread takes the published reports in order, without loss or duplication; what was handed to sessions
  is made into frames in that order; the bytes sent to a client and its queued frames are exactly these frames; and no session gets a
  report of another client.
\<close>

theorem reports_reach_clients:
  assumes "mem_ok mem" "sys_run clk mem (fresh_system n risk path) tr y"
  shows "mset (executed_in tr) = mset (published_in tr) + mset (concat (map reports_held (sys_workers y))) \<and>
    published_in tr = routed_in tr @ reports_waiting (sys_exchange y) \<and>
    posted_in tr = map (\<lambda>(i, r, f). (i, r)) (framed_in tr) @ posted (sys_gw y) \<and>
    (\<forall>i < length (g_sessions (sys_gw y)).
       sent_bytes (the_session (sys_gw y) i) @ concat (write_queue (the_session (sys_gw y) i)) =
         concat (map (\<lambda>(j, r, f). f) (filter (\<lambda>(j, r, f). j = i) (framed_in tr))) \<and>
       (\<forall>r. (i, r) \<in> set (posted_in tr) \<longrightarrow> rep_client_id r = sess_client_id (the_session (sys_gw y) i)))"
proof -
  have inv: "sys_inv clk y tr" by (rule sys_run_inv [OF assms(2,1)])
  let ?outs = "map (\<lambda>(i, r, f). (i, f)) (framed_in tr)"
  have ok: "sessions_ok (sys_gw y) ?outs" using inv by (simp add: sys_inv_def run_ok_def)
  have "frames_of i ?outs = map (\<lambda>(j, r, f). f) (filter (\<lambda>(j, r, f). j = i) (framed_in tr))" for i
    by (induction "framed_in tr" rule: list.induct) (auto simp: frames_of_def filter_map o_def split_beta)
  then have "sent_bytes (the_session (sys_gw y) i) @ concat (write_queue (the_session (sys_gw y) i)) =
      concat (map (\<lambda>(j, r, f). f) (filter (\<lambda>(j, r, f). j = i) (framed_in tr)))" if "i < length (g_sessions (sys_gw y))" for i
    using session_okD [OF ok that] by (simp add: session_ok_def)
  moreover have "rep_client_id r = sess_client_id (the_session (sys_gw y) i)" if "(i, r) \<in> set (posted_in tr)" for i r
    using bspec [OF sys_invD(6) [OF inv, unfolded own_reports_def] that] by (auto simp: client_ids_def)
  ultimately show ?thesis using sys_invD(3-5) [OF inv] by blast
qed


theorem reports_reach_clients_witness:
  "\<exists>tr y r. sys_run (\<lambda>_. 0) ex_mem ex_system tr y \<and> length (g_sessions (sys_gw y)) = 1 \<and> executed_in tr = [r] \<and>
     routed_in tr @ reports_waiting (sys_exchange y) = [r] \<and>
     sent_bytes (the_session (sys_gw y) 0) @ concat (write_queue (the_session (sys_gw y) 0)) =
       concat (map (\<lambda>(j, r, f). f) (filter (\<lambda>(j, r, f). j = 0) (framed_in tr)))"
proof -
  obtain tr y where y: "sys_run (\<lambda>_. 0) ex_mem ex_system tr y" "quiet (workers_of y)" "length (executed_in tr) = 1" "length (g_sessions (sys_gw y)) = 1"
    using ex_handled_run [OF ex_mem_ok] by blast
  then obtain r where r: "executed_in tr = [r]" by (auto simp: length_Suc_conv)
  have "concat (map reports_held (sys_workers y)) = []" using y(2) by (auto simp: quiet_def workers_of_def reports_held_def split: worker.split)
  then have "mset (published_in tr) = {#r#}" and w: "published_in tr = routed_in tr @ reports_waiting (sys_exchange y)"
    using reports_reach_clients [OF ex_mem_ok y(1) [unfolded ex_system_def]] r by auto
  then have "published_in tr = [r]" by (metis mset_single_iff)
  then have "routed_in tr @ reports_waiting (sys_exchange y) = [r]" using w by simp
  with reports_reach_clients [OF ex_mem_ok y(1) [unfolded ex_system_def]] y(1,4) r show ?thesis by auto
qed

end
