(* ===== verification/Logger.thy ===== *)
theory Logger
  imports Book_Registry Ip_Address
begin

text \<open>
  \<^verbatim>\<open>src/logger\<close>, \<^verbatim>\<open>time_utils::format_timestamp\<close> and \<^verbatim>\<open>OrderBook::print_book\<close>: what the program prints.  The local
  time of a second is a parameter (\<^verbatim>\<open>localtime_r\<close>); the output is the list of lines written to \<^verbatim>\<open>std::cout\<close>.
  The logger's level is atomic and a line is written under its mutex, so \<open>log_message\<close> is one step; the second
  test of the level, under the mutex, sees the level of the moment.
\<close>

section \<open>Time stamps as text\<close>

record tm =
  tm_sec :: nat
  tm_min :: nat
  tm_hour :: nat
  tm_mday :: nat
  tm_mon :: nat
  tm_year :: nat

text \<open>A number in a field of the given width, filled with zeros on the left.\<close>

definition zero_padded :: "nat \<Rightarrow> nat \<Rightarrow> string" where
  "zero_padded width n = replicate (width - length (decimal n)) CHR ''0'' @ decimal n"

definition put_time :: "tm \<Rightarrow> string" where
  "put_time t =
     zero_padded 4 (1900 + tm_year t) @ ''-'' @ zero_padded 2 (tm_mon t + 1) @ ''-'' @ zero_padded 2 (tm_mday t) @ '' '' @
     zero_padded 2 (tm_hour t) @ '':'' @ zero_padded 2 (tm_min t) @ '':'' @ zero_padded 2 (tm_sec t)"

definition format_timestamp :: "(uint64_t \<Rightarrow> tm) \<Rightarrow> Timestamp \<Rightarrow> string" where
  "format_timestamp localtime_r ts =
     (let nanos = ts mod 1000000000;
          secs = ts div 1000000000
      in put_time (localtime_r secs) @ ''.'' @ zero_padded 9 (unat nanos))"

section \<open>The logger\<close>

datatype LogLevel = DEBUG | INFO | WARN | ERROR

definition level_number :: "LogLevel \<Rightarrow> nat" where
  "level_number l = (case l of DEBUG \<Rightarrow> 0 | INFO \<Rightarrow> 1 | WARN \<Rightarrow> 2 | ERROR \<Rightarrow> 3)"

definition level_str :: "LogLevel \<Rightarrow> string" where
  "level_str l = (case l of DEBUG \<Rightarrow> ''DEBUG'' | INFO \<Rightarrow> ''INFO '' | WARN \<Rightarrow> ''WARN '' | ERROR \<Rightarrow> ''ERROR'')"

record Logger =
  log_level :: LogLevel
  cout :: "string list"

definition Logger_init :: "string list \<Rightarrow> Logger" where
  "Logger_init out = \<lparr>log_level = INFO, cout = out\<rparr>"

definition set_level :: "LogLevel \<Rightarrow> Logger \<Rightarrow> Logger" where
  "set_level l lg = lg\<lparr>log_level := l\<rparr>"

definition get_level :: "Logger \<Rightarrow> LogLevel" where
  "get_level lg = log_level lg"

text \<open>\<open>level_now\<close> is the level at the second test.\<close>

definition log_message ::
  "(uint64_t \<Rightarrow> tm) \<Rightarrow> clock \<Rightarrow> LogLevel \<Rightarrow> LogLevel \<Rightarrow> string \<Rightarrow> Logger \<times> Env \<Rightarrow> Logger \<times> Env" where
  "log_message localtime_r clk level_now level message s =
     (case s of (lg, e) \<Rightarrow>
        if level_number level < level_number (log_level lg) then (lg, e)
        else if level_number level < level_number level_now then (lg, e)
        else
          let (now, e') = get_current_time_ns clk e;
              line = ''['' @ format_timestamp localtime_r now @ ''] ['' @ level_str level @ ''] '' @ message
          in (lg\<lparr>cout := cout lg @ [line]\<rparr>, e'))"

definition log_info :: "(uint64_t \<Rightarrow> tm) \<Rightarrow> clock \<Rightarrow> string \<Rightarrow> Logger \<times> Env \<Rightarrow> Logger \<times> Env" where
  "log_info localtime_r clk message s = log_message localtime_r clk (log_level (fst s)) INFO message s"

section \<open>Printing a book\<close>

definition qty_at_price :: "Queue \<Rightarrow> uint32_t" where
  "qty_at_price queue = foldl (\<lambda>qty p. qty + remaining_quantity (snd p)) 0 queue"

definition level_line :: "Price \<times> Queue \<Rightarrow> string" where
  "level_line l =
     ''    Price: '' @ decimal (unat (fst l)) @ '' | Qty: '' @ decimal (unat (qty_at_price (snd l))) @
     '' ('' @ decimal (length (snd l)) @ '' orders)''"

definition print_book_lines :: "OrderBook \<Rightarrow> string list" where
  "print_book_lines b =
     [''Order Book: '' @ book_symbol b, ''  ASKS:''] @ map level_line (rev (sell_orders b)) @
     [''  BIDS:''] @ map level_line (buy_orders b)"

definition print_book :: "(uint64_t \<Rightarrow> tm) \<Rightarrow> clock \<Rightarrow> OrderBook \<Rightarrow> Logger \<times> Env \<Rightarrow> Logger \<times> Env" where
  "print_book localtime_r clk b s = foldl (\<lambda>s line. log_info localtime_r clk line s) s (print_book_lines b)"

section \<open>What is printed\<close>

lemma length_zero_padded: "length (decimal n) \<le> w \<Longrightarrow> length (zero_padded w n) = w"
  by (simp add: zero_padded_def)

text \<open>The fraction of a time stamp has nine digits, and they are the nanoseconds.\<close>

lemma digits_value_zeros: "digits_value (replicate k CHR ''0'' @ cs) = digits_value cs"
  by (induction k) (simp_all add: digits_value_def digit_value_def)

lemma format_timestamp_fraction:
  "\<exists>frac. format_timestamp lt ts = put_time (lt (ts div 1000000000)) @ ''.'' @ frac \<and> length frac = 9 \<and>
     digits_value frac = unat ts mod 1000000000"
proof -
  have n: "unat (ts mod 1000000000) = unat ts mod 1000000000" by (simp add: unat_mod)
  then have "length (decimal (unat (ts mod 1000000000))) \<le> 9" by (intro length_decimal) simp_all
  then show ?thesis using n
    by (auto simp: format_timestamp_def length_zero_padded zero_padded_def digits_value_zeros intro!: exI [of _ "zero_padded 9 (unat (ts mod 1000000000))"])
qed

lemma qty_at_price_sum: "unat (qty_at_price queue) = (\<Sum>p\<leftarrow>queue. unat (remaining_quantity (snd p))) mod 2 ^ 32"
proof -
  have "unat (foldl (\<lambda>qty p. qty + remaining_quantity (snd p)) a queue) =
      (unat a + (\<Sum>p\<leftarrow>queue. unat (remaining_quantity (snd p)))) mod 2 ^ 32" for a :: uint32_t
  proof (induction queue arbitrary: a)
    case Nil
    then show ?case using unsigned_less [of a, where ?'a = nat] by simp
  next
    case (Cons p queue)
    have "unat (a + remaining_quantity (snd p)) = (unat a + unat (remaining_quantity (snd p))) mod 2 ^ 32"
      by (simp add: unat_word_ariths)
    then show ?case
      using Cons.IH [of "a + remaining_quantity (snd p)"]
      by (simp only: foldl_Cons list.map sum_list.Cons mod_add_left_eq add.assoc)
  qed
  from this [of 0] show ?thesis by (simp add: qty_at_price_def)
qed

lemma qty_at_price_relabel: "qty_at_price (relabel_queue h queue) = qty_at_price queue"
proof -
  have "foldl (\<lambda>qty p. qty + remaining_quantity (snd p)) a (relabel_queue h queue) =
      foldl (\<lambda>qty p. qty + remaining_quantity (snd p)) a queue" for a :: uint32_t
    by (induction queue arbitrary: a) simp_all
  then show ?thesis by (simp add: qty_at_price_def)
qed

text \<open>The printed book does not show client ids.\<close>

lemma print_book_relabel: "print_book_lines (relabel_book h b) = print_book_lines b"
proof -
  have "level_line (p, relabel_queue h q) = level_line (p, q)" for p q
    by (simp add: level_line_def qty_at_price_relabel) (simp add: relabel_queue_def)
  then show ?thesis by (simp add: print_book_lines_def relabel_levels_def rev_map)
qed

text \<open>At level \<open>INFO\<close> every line of the book is written, once and in order.\<close>

lemma print_book_written:
  assumes "level_number (log_level lg) \<le> level_number INFO"
  shows "\<exists>ls. cout (fst (print_book lt clk b (lg, e))) = cout lg @ ls \<and>
    list_all2 (\<lambda>l m. \<exists>ts. l = ''['' @ format_timestamp lt ts @ ''] [INFO ] '' @ m) ls (print_book_lines b)"
proof -
  have "\<exists>ls. cout (fst (foldl (\<lambda>s line. log_info lt clk line s) (lg, e) ms)) = cout lg @ ls \<and>
    list_all2 (\<lambda>l m. \<exists>ts. l = ''['' @ format_timestamp lt ts @ ''] [INFO ] '' @ m) ls ms"
    if "level_number (log_level lg) \<le> level_number INFO" for ms lg e
    using that
  proof (induction ms arbitrary: lg e)
    case (Cons m ms)
    obtain now e' where t: "get_current_time_ns clk e = (now, e')" by fastforce
    let ?l = "''['' @ format_timestamp lt now @ ''] [INFO ] '' @ m"
    have s: "log_info lt clk m (lg, e) = (lg\<lparr>cout := cout lg @ [?l]\<rparr>, e')"
      using Cons.prems t by (simp add: log_info_def log_message_def level_str_def)
    from Cons.IH [of "lg\<lparr>cout := cout lg @ [?l]\<rparr>" e'] Cons.prems obtain ls where
      "cout (fst (foldl (\<lambda>s line. log_info lt clk line s) (lg\<lparr>cout := cout lg @ [?l]\<rparr>, e') ms)) = (cout lg @ [?l]) @ ls"
      "list_all2 (\<lambda>l m. \<exists>ts. l = ''['' @ format_timestamp lt ts @ ''] [INFO ] '' @ m) ls ms" by auto
    then show ?case using s by (intro exI [of _ "?l # ls"]) auto
  qed simp
  from this [OF assms] show ?thesis by (simp add: print_book_def)
qed

end
