(* ===== verification/Demo_Client.thy ===== *)
theory Demo_Client
  imports Gateway_Runs Worker_Pool Logger Composed_Io
begin

text \<open>
  \<^verbatim>\<open>src/demo_main.cpp\<close>: the client, which sends requests as frames and counts the reports it gets, and the end of the
  demonstration, which prints the original and the recovered books.  A blocking read or write of the network library
  either transfers everything it was asked to or throws; what the socket has accepted so far is
  \<open>cl_out\<close>.
\<close>

section \<open>The client\<close>

record DemoClient =
  cl_connected :: bool
  cl_running :: bool
  cl_sent_count :: uint32_t
  cl_received_count :: uint32_t
  cl_out :: "byte list"

definition DemoClient_init :: DemoClient where
  "DemoClient_init = \<lparr>cl_connected = False, cl_running = False, cl_sent_count = 0, cl_received_count = 0, cl_out = []\<rparr>"

text \<open>An operation that throws has the error as the first part of its result.\<close>

definition client_connect :: "error_code \<Rightarrow> DemoClient \<Rightarrow> error_code \<times> DemoClient" where
  "client_connect ec c =
     (if cl_connected c then (no_error, c)
      else if ec = no_error then (no_error, c\<lparr>cl_connected := True\<rparr>) else (ec, c))"

definition client_disconnect :: "DemoClient \<Rightarrow> DemoClient" where
  "client_disconnect c = c\<lparr>cl_running := False, cl_connected := False\<rparr>"

definition order_frame :: "NetOrder \<Rightarrow> Order \<Rightarrow> byte list" where
  "order_frame net order =
     MsgHeader_image \<lparr>hdr_type = MsgType_Order, hdr_length = of_nat sizeof_NetOrder\<rparr> @ NetOrder_image (to_net_order net order)"

definition modify_frame :: "NetModify \<Rightarrow> ModifyRequest \<Rightarrow> byte list" where
  "modify_frame net req =
     MsgHeader_image \<lparr>hdr_type = MsgType_Modify, hdr_length = of_nat sizeof_NetModify\<rparr> @ NetModify_image (to_net_modify net req)"

definition cancel_frame :: "NetCancel \<Rightarrow> CancelRequest \<Rightarrow> byte list" where
  "cancel_frame net req =
     MsgHeader_image \<lparr>hdr_type = MsgType_Cancel, hdr_length = of_nat sizeof_NetCancel\<rparr> @ NetCancel_image (to_net_cancel net req)"

text \<open>\<^verbatim>\<open>asio::write\<close> of a frame: \<open>k\<close> is how much of it is out when an error is thrown.\<close>

definition client_write :: "nat \<times> error_code \<Rightarrow> byte list \<Rightarrow> DemoClient \<Rightarrow> error_code \<times> DemoClient" where
  "client_write io frame c =
     (case io of (k, ec) \<Rightarrow>
        if ec = no_error then (no_error, c\<lparr>cl_out := cl_out c @ frame, cl_sent_count := cl_sent_count c + 1\<rparr>)
        else (ec, c\<lparr>cl_out := cl_out c @ take k frame\<rparr>))"

definition send_order :: "nat \<times> error_code \<Rightarrow> NetOrder \<Rightarrow> Order \<Rightarrow> DemoClient \<Rightarrow> error_code \<times> DemoClient" where
  "send_order io net order c = client_write io (order_frame net order) c"

definition send_modify :: "nat \<times> error_code \<Rightarrow> NetModify \<Rightarrow> ModifyRequest \<Rightarrow> DemoClient \<Rightarrow> error_code \<times> DemoClient" where
  "send_modify io net req c = client_write io (modify_frame net req) c"

definition send_cancel :: "nat \<times> error_code \<Rightarrow> NetCancel \<Rightarrow> CancelRequest \<Rightarrow> DemoClient \<Rightarrow> error_code \<times> DemoClient" where
  "send_cancel io net req c = client_write io (cancel_frame net req) c"

text \<open>
  The reading thread on the bytes that arrive before the connection ends: a read beyond them throws, which ends
  the thread.  \<open>running i\<close> is what the flag says before round \<open>i\<close>.
\<close>

function client_read_loop :: "(nat \<Rightarrow> bool) \<Rightarrow> nat \<Rightarrow> byte list \<Rightarrow> uint32_t \<Rightarrow> uint32_t" where
  "client_read_loop running i stream received =
     (if running i then
        if length stream < sizeof_MsgHeader then received
        else if hdr_type (MsgHeader_load (take sizeof_MsgHeader stream)) \<noteq> MsgType_ExecutionReport then received
        else if length (drop sizeof_MsgHeader stream) < sizeof_NetExecutionReport then received
        else client_read_loop running (Suc i) (drop sizeof_NetExecutionReport (drop sizeof_MsgHeader stream)) (received + 1)
      else received)"
  by pat_completeness auto
termination
  by (relation "measure (\<lambda>(running, i, stream, received). length stream)")
    (auto simp: sizeof_MsgHeader_def sizeof_NetExecutionReport_def)

declare client_read_loop.simps [simp del]

definition start_read_loop :: "(nat \<Rightarrow> bool) \<Rightarrow> byte list \<Rightarrow> DemoClient \<Rightarrow> DemoClient" where
  "start_read_loop running stream c =
     c\<lparr>cl_running := True, cl_received_count := client_read_loop running 0 stream (cl_received_count c)\<rparr>"

section \<open>From the client to the gateway\<close>

lemmas frame_sizes = sizeof_MsgHeader_def sizeof_NetOrder_def sizeof_NetModify_def sizeof_NetCancel_def
  sizeof_NetExecutionReport_def

lemma header_length [simp]: "length (MsgHeader_image h) = 4"
  using header.image_length [of h] by (simp add: sizeof_MsgHeader_def)

lemma load_header [simp]: "MsgHeader_load (MsgHeader_image h) = h"
  by (rule header.load_image) simp

text \<open>The gateway's session after it has read the header and the body of a frame.\<close>

definition packet_read :: "session_ref \<Rightarrow> MsgHeader \<Rightarrow> byte list \<Rightarrow> Gateway \<Rightarrow> Gateway" where
  "packet_read i h body g =
     set_session i ((the_session g i)\<lparr>incoming_header := h, incoming_body := body, reading := Not_reading\<rparr>) g"

lemma frame_read:
  assumes "i < length (g_sessions g)" and "frame = MsgHeader_image h @ body" and "unat (hdr_length h) = length body"
  shows "reading (the_session (on_header i (Some (take 4 frame)) g) i) = Reading_body (length (drop 4 frame))"
    and "on_body clk i (Some (drop 4 frame)) (on_header i (Some (take 4 frame)) g) =
      map_sum id (\<lambda>r. case r of Waits \<Rightarrow> Waits | Returns g' \<Rightarrow> Returns (read_header i g'))
        (process_packet clk i (packet_read i h body g))"
  using assms by (simp_all add: on_header_def on_body_def read_body_def packet_read_def set_session_def Let_def)


definition then_read_header :: "session_ref \<Rightarrow> Gateway outcome \<Rightarrow> Gateway outcome" where
  "then_read_header i r = (case r of Waits \<Rightarrow> Waits | Returns g \<Rightarrow> Returns (read_header i g))"

lemma packet_read_sel [simp]:
  assumes "i < length (g_sessions g)"
  shows "the_session (packet_read i h body g) i = (the_session g i)\<lparr>incoming_header := h, incoming_body := body, reading := Not_reading\<rparr>"
  using assms by (simp add: packet_read_def set_session_def)

lemma map_then: "map_sum id (\<lambda>r. case r of Waits \<Rightarrow> Waits | Returns g' \<Rightarrow> Returns (read_header i g')) = map_sum id (then_read_header i)"
  by (simp add: then_read_header_def [abs_def])

lemma order_arrives:
  assumes "i < length (g_sessions g)" and net: "length (no_symbol net) = 8" and "NUL \<notin> set (symbol order)" "proper_enums order"
  defines "frame \<equiv> order_frame net order"
  shows "\<exists>h body. reading (the_session (on_header i (Some (take 4 frame)) g) i) = Reading_body (length (drop 4 frame)) \<and>
    on_body clk i (Some (drop 4 frame)) (on_header i (Some (take 4 frame)) g) =
      Inr (then_read_header i (process_order clk i
        (order\<lparr>symbol := take 7 (symbol order), remaining_quantity := quantity order,
               client_id := sess_client_id (the_session g i)\<rparr>) (packet_read i h body g)))"
proof -
  let ?h = "\<lparr>hdr_type = MsgType_Order, hdr_length = of_nat sizeof_NetOrder\<rparr>" and ?b = "NetOrder_image (to_net_order net order)"
  have b: "length ?b = sizeof_NetOrder" by (rule net_order.image_length [OF wf_to_net_order [OF net]])
  have d: "from_net_order (NetOrder_load ?b) = Inr (order\<lparr>symbol := take 7 (symbol order), remaining_quantity := quantity order, client_id := 0\<rparr>)"
    using assms(3,4) net_order.load_image [OF wf_to_net_order [OF net]]
    by (simp add: from_net_order_def to_net_order_def c_string_safe_strncpy proper_enums_def Side_u8 OrderType_u8)
  have f: "frame = MsgHeader_image ?h @ ?b" by (simp add: frame_def order_frame_def)
  have l: "unat (hdr_length ?h) = length ?b" using b by (simp add: sizeof_NetOrder_def)
  show ?thesis
    using frame_read(1) [OF assms(1) f l] frame_read(2) [OF assms(1) f l, of clk] d b assms(1)
    by (intro exI [of _ ?h] exI [of _ ?b]) (simp add: process_packet_def Let_def map_then)
qed

lemma modify_arrives:
  assumes "i < length (g_sessions g)" and net: "length (nm_symbol net) = 8" and "NUL \<notin> set (mreq_symbol req)"
  defines "frame \<equiv> modify_frame net req"
  shows "\<exists>h body. reading (the_session (on_header i (Some (take 4 frame)) g) i) = Reading_body (length (drop 4 frame)) \<and>
    on_body clk i (Some (drop 4 frame)) (on_header i (Some (take 4 frame)) g) =
      Inr (then_read_header i (submit_task \<lparr>task_type = Task_Modify,
        request = Req_Modify (req\<lparr>mreq_symbol := take 7 (mreq_symbol req), mreq_client_id := sess_client_id (the_session g i)\<rparr>),
        task_symbol = take 7 (mreq_symbol req)\<rparr> (packet_read i h body g)))"
proof -
  let ?h = "\<lparr>hdr_type = MsgType_Modify, hdr_length = of_nat sizeof_NetModify\<rparr>" and ?b = "NetModify_image (to_net_modify net req)"
  have b: "length ?b = sizeof_NetModify" using net by (intro net_modify.image_length) (simp add: to_net_modify_def length_safe_strncpy)
  have d: "from_net_modify (NetModify_load ?b) = Inr (req\<lparr>mreq_symbol := take 7 (mreq_symbol req), mreq_client_id := 0\<rparr>)"
    using modify_over_wire_eq [OF net assms(3)] by (simp add: modify_over_wire_def)
  have f: "frame = MsgHeader_image ?h @ ?b" by (simp add: frame_def modify_frame_def)
  have l: "unat (hdr_length ?h) = length ?b" using b by (simp add: sizeof_NetModify_def)
  show ?thesis
    using frame_read(1) [OF assms(1) f l] frame_read(2) [OF assms(1) f l, of clk] d b assms(1)
    by (intro exI [of _ ?h] exI [of _ ?b])
      (simp add: process_packet_def Let_def map_then MsgType_Order_def MsgType_Cancel_def MsgType_Modify_def)
qed

lemma cancel_arrives:
  assumes "i < length (g_sessions g)" and net: "length (nc_symbol net) = 8" and "NUL \<notin> set (creq_symbol req)"
  defines "frame \<equiv> cancel_frame net req"
  shows "\<exists>h body. reading (the_session (on_header i (Some (take 4 frame)) g) i) = Reading_body (length (drop 4 frame)) \<and>
    on_body clk i (Some (drop 4 frame)) (on_header i (Some (take 4 frame)) g) =
      Inr (then_read_header i (submit_task \<lparr>task_type = Task_Cancel,
        request = Req_Cancel (req\<lparr>creq_symbol := take 7 (creq_symbol req), creq_client_id := sess_client_id (the_session g i)\<rparr>),
        task_symbol = take 7 (creq_symbol req)\<rparr> (packet_read i h body g)))"
proof -
  let ?h = "\<lparr>hdr_type = MsgType_Cancel, hdr_length = of_nat sizeof_NetCancel\<rparr>" and ?b = "NetCancel_image (to_net_cancel net req)"
  have b: "length ?b = sizeof_NetCancel" using net by (intro net_cancel.image_length) (simp add: to_net_cancel_def length_safe_strncpy)
  have d: "from_net_cancel (NetCancel_load ?b) = Inr (req\<lparr>creq_symbol := take 7 (creq_symbol req), creq_client_id := 0\<rparr>)"
    using cancel_over_wire_eq [OF net assms(3)] by (simp add: cancel_over_wire_def)
  have f: "frame = MsgHeader_image ?h @ ?b" by (simp add: frame_def cancel_frame_def)
  have l: "unat (hdr_length ?h) = length ?b" using b by (simp add: sizeof_NetCancel_def)
  show ?thesis
    using frame_read(1) [OF assms(1) f l] frame_read(2) [OF assms(1) f l, of clk] d b assms(1)
    by (intro exI [of _ ?h] exI [of _ ?b])
      (simp add: process_packet_def Let_def map_then MsgType_Order_def MsgType_Cancel_def MsgType_Modify_def)
qed

text \<open>
  C20: A request sent by the client arrives as it was sent.  The gateway's reads of the header and of the body take exactly the
  bytes of the frame.  An order then goes to the risk check with its own fields, its whole quantity open and the
  session's client id; a cancel or modify request becomes the task of the same kind for its symbol.  Symbols
  are cut to seven characters.
\<close>

theorem client_request_arrives:
  assumes "i < length (g_sessions g)"
    and "length (no_symbol no) = 8" "length (nm_symbol nm) = 8" "length (nc_symbol nc) = 8"
    and "NUL \<notin> set (symbol order)" "proper_enums order" "NUL \<notin> set (mreq_symbol mreq)" "NUL \<notin> set (creq_symbol creq)"
  shows "(\<exists>h body. reading (the_session (on_header i (Some (take 4 (order_frame no order))) g) i) = Reading_body (length (drop 4 (order_frame no order))) \<and>
      on_body clk i (Some (drop 4 (order_frame no order))) (on_header i (Some (take 4 (order_frame no order))) g) =
      Inr (then_read_header i (process_order clk i
        (order\<lparr>symbol := take 7 (symbol order), remaining_quantity := quantity order,
               client_id := sess_client_id (the_session g i)\<rparr>) (packet_read i h body g))))
    \<and> (\<exists>h body. reading (the_session (on_header i (Some (take 4 (modify_frame nm mreq))) g) i) = Reading_body (length (drop 4 (modify_frame nm mreq))) \<and>
      on_body clk i (Some (drop 4 (modify_frame nm mreq))) (on_header i (Some (take 4 (modify_frame nm mreq))) g) =
      Inr (then_read_header i (submit_task \<lparr>task_type = Task_Modify,
        request = Req_Modify (mreq\<lparr>mreq_symbol := take 7 (mreq_symbol mreq), mreq_client_id := sess_client_id (the_session g i)\<rparr>),
        task_symbol = take 7 (mreq_symbol mreq)\<rparr> (packet_read i h body g))))
    \<and> (\<exists>h body. reading (the_session (on_header i (Some (take 4 (cancel_frame nc creq))) g) i) = Reading_body (length (drop 4 (cancel_frame nc creq))) \<and>
      on_body clk i (Some (drop 4 (cancel_frame nc creq))) (on_header i (Some (take 4 (cancel_frame nc creq))) g) =
      Inr (then_read_header i (submit_task \<lparr>task_type = Task_Cancel,
        request = Req_Cancel (creq\<lparr>creq_symbol := take 7 (creq_symbol creq), creq_client_id := sess_client_id (the_session g i)\<rparr>),
        task_symbol = take 7 (creq_symbol creq)\<rparr> (packet_read i h body g))))"
  using order_arrives [OF assms(1,2,5,6), of clk] modify_arrives [OF assms(1,3,7), of clk] cancel_arrives [OF assms(1,4,8), of clk]
  by (intro conjI)

theorem client_request_arrives_witness:
  "\<exists>h body. on_body (\<lambda>_. 0) 0 (Some (drop 4 (order_frame ex_net_order (ex_order 5 Buy Limit 100 10 1 0))))
      (on_header 0 (Some (take 4 (order_frame ex_net_order (ex_order 5 Buy Limit 100 10 1 0)))) ex_connected) =
    Inr (then_read_header 0 (process_order (\<lambda>_. 0) 0 (ex_order 5 Buy Limit 100 10 1 1) (packet_read 0 h body ex_connected)))"
proof -
  have s: "0 < length (g_sessions ex_connected)" "sess_client_id (the_session ex_connected 0) = 1" by (simp_all add: ex_gateway_defs)
  have o1: "length (no_symbol ex_net_order) = 8" "NUL \<notin> set (symbol (ex_order 5 Buy Limit 100 10 1 0))"
    "proper_enums (ex_order 5 Buy Limit 100 10 1 0)" by (simp_all add: ex_net_order_def ex_order_def proper_enums_def)
  have n: "length (nm_symbol \<lparr>nm_order_id = 0, nm_symbol = replicate 8 NUL, nm_price = 0, nm_quantity = 0, nm_timestamp = 0\<rparr>) = 8"
    "length (nc_symbol \<lparr>nc_order_id = 0, nc_symbol = replicate 8 NUL, nc_timestamp = 0\<rparr>) = 8" by simp_all
  have r: "NUL \<notin> set (mreq_symbol \<lparr>mreq_order_id = 1, mreq_symbol = ''A'', mreq_price = 1, mreq_quantity = 1, mreq_timestamp = 1, mreq_client_id = 1\<rparr>)"
    "NUL \<notin> set (creq_symbol \<lparr>creq_order_id = 1, creq_symbol = ''A'', creq_timestamp = 1, creq_client_id = 1\<rparr>)" by simp_all
  show ?thesis
    using client_request_arrives [OF s(1) o1(1) n o1(2,3) r, of "\<lambda>_. 0", THEN conjunct1] s(2) by (simp add: ex_order_def)
qed

section \<open>From the gateway to the client\<close>

definition report_frames :: "byte list list \<Rightarrow> bool" where
  "report_frames fs \<longleftrightarrow> (\<forall>f \<in> set fs. \<exists>net r. f = report_frame net r \<and> length f = 90)"

lemma report_frame_header:
  "length (report_frame net r) = 90 \<Longrightarrow> take 4 (report_frame net r) =
     MsgHeader_image \<lparr>hdr_type = MsgType_ExecutionReport, hdr_length = of_nat sizeof_NetExecutionReport\<rparr>"
  by (simp add: report_frame_def)

lemma gw_run_report_frames: "gw_run clk g0 hist outs g \<Longrightarrow> report_frames (frames_of i outs)"
proof (induction rule: gw_run.induct)
  case (gw_next hist outs g ts os g')
  have "(j, f) \<in> set os \<Longrightarrow> \<exists>net r. f = report_frame net r \<and> length f = 90" for j f
    using gw_next.hyps(2) by (cases rule: gw_step.cases) (auto simp: length_report_frame)
  then show ?case using gw_next by (auto simp: report_frames_def frames_of_def)
qed (simp add: report_frames_def)

lemma read_loop_frame:
  assumes "report_frames [f]"
  shows "client_read_loop (\<lambda>_. True) i (f @ rest) c = client_read_loop (\<lambda>_. True) (Suc i) rest (c + 1)"
proof -
  obtain net r where f: "f = report_frame net r" "length f = 90" using assms by (auto simp: report_frames_def)
  have "take 4 (f @ rest) = MsgHeader_image \<lparr>hdr_type = MsgType_ExecutionReport, hdr_length = of_nat sizeof_NetExecutionReport\<rparr>"
    using report_frame_header [of net r] f by simp
  then show ?thesis
    using f(2) by (subst client_read_loop.simps) (simp add: sizeof_MsgHeader_def sizeof_NetExecutionReport_def)
qed

lemma read_loop_torn: "length torn < 90 \<Longrightarrow> client_read_loop (\<lambda>_. True) i torn c = c"
  by (subst client_read_loop.simps) (auto simp: sizeof_MsgHeader_def sizeof_NetExecutionReport_def)

lemma take_frames: "report_frames fs \<Longrightarrow> take (90 * k) (concat fs) = concat (take k fs)"
proof (induction fs arbitrary: k)
  case (Cons f fs)
  then have "length f = 90" "report_frames fs" by (auto simp: report_frames_def)
  then show ?case using Cons.IH by (cases k) simp_all
qed simp

lemma length_frames: "report_frames fs \<Longrightarrow> length (concat fs) = 90 * length fs"
  by (induction fs) (auto simp: report_frames_def)

lemma read_loop_frames:
  "report_frames fs \<Longrightarrow> n \<le> length (concat fs) \<Longrightarrow>
   client_read_loop (\<lambda>_. True) i (take n (concat fs)) c = c + of_nat (n div 90)"
proof (induction fs arbitrary: n i c)
  case Nil
  then show ?case using read_loop_torn [of "[]"] by simp
next
  case (Cons f fs)
  have f: "length f = 90" "report_frames [f]" "report_frames fs" using Cons.prems(1) by (auto simp: report_frames_def)
  show ?case
  proof (cases "n < 90")
    case True
    then show ?thesis using read_loop_torn [of "take n (concat (f # fs))"] by simp
  next
    case False
    then have "take n (concat (f # fs)) = f @ take (n - 90) (concat fs)" using f(1) by simp
    moreover have "n - 90 \<le> length (concat fs)" using Cons.prems(2) f(1) by simp
    moreover have "n div 90 = Suc ((n - 90) div 90)" using False by (simp add: le_div_geq)
    ultimately show ?thesis using Cons.IH [OF f(3)] read_loop_frame [OF f(2)] by simp
  qed
qed

text \<open>
  The client counts every report it is sent: in every run of the gateway the bytes sent to a client begin with the frames of its first
  reports, and when the bytes have arrived the client's reading thread has counted exactly the
  reports of which all 90 bytes were sent.
\<close>

theorem client_counts_reports:
  assumes "gw_run clk (Gateway_init risk tp e) hist outs g" and "sq_queue (task_queue tp) = []" and "i < length (g_sessions g)"
  shows "\<exists>k \<le> length (frames_of i outs).
    take (90 * k) (sent_bytes (the_session g i)) = concat (take k (frames_of i outs)) \<and>
    90 * k \<le> length (sent_bytes (the_session g i)) \<and> length (sent_bytes (the_session g i)) < 90 * Suc k \<and>
    cl_received_count (start_read_loop (\<lambda>_. True) (sent_bytes (the_session g i)) DemoClient_init) = of_nat k"
proof -
  let ?sent = "sent_bytes (the_session g i)" and ?fs = "frames_of i outs"
  have "session_ok (the_session g i) ?fs" using gw_run_ok [OF assms(1,2)] session_okD assms(3) by (auto simp: run_ok_def)
  then have s: "?sent @ concat (write_queue (the_session g i)) = concat ?fs" by (simp add: session_ok_def)
  then have le: "length ?sent \<le> length (concat ?fs)" and t: "?sent = take (length ?sent) (concat ?fs)"
    by (metis length_append le_add1) (metis append_eq_conv_conj s)
  have fs: "report_frames ?fs" by (rule gw_run_report_frames [OF assms(1)])
  let ?k = "length ?sent div 90"
  have "90 * ?k \<le> length ?sent" "length ?sent < 90 * Suc ?k" by simp_all
  moreover have "?k \<le> length ?fs" using le length_frames [OF fs] by simp
  moreover have "take (90 * ?k) ?sent = concat (take ?k ?fs)"
  proof -
    have "take (90 * ?k) ?sent = take (90 * ?k) (concat ?fs)" using t by (metis calculation(1) min.absorb1 take_take)
    then show ?thesis using take_frames [OF fs] by simp
  qed
  moreover have "client_read_loop (\<lambda>_. True) 0 ?sent 0 = of_nat ?k"
    using read_loop_frames [OF fs le, of 0 0] t by simp
  ultimately show ?thesis
    by (intro exI [of _ ?k]) (simp add: start_read_loop_def DemoClient_init_def)
qed


theorem client_counts_reports_witness:
  "\<exists>k \<le> length (frames_of 0 []). cl_received_count (start_read_loop (\<lambda>_. True) (sent_bytes (the_session ex_order_header 0)) DemoClient_init) = of_nat k"
proof -
  have "0 < length (g_sessions ex_order_header)" by (simp add: ex_gateway_defs)
  from client_counts_reports [OF ex_header_run [unfolded ex_gateway_init(1)] ex_gateway_init(2) this] show ?thesis by blast
qed

section \<open>Printing the recovered books\<close>

text \<open>The lines \<^verbatim>\<open>registry.get_order_book(sy)->print_book()\<close> logs.\<close>

definition shown_book :: "BookRegistry \<Rightarrow> Symbol \<Rightarrow> string list" where
  "shown_book reg sy = print_book_lines (fst (get_order_book sy reg))"

lemma shown_book_recovered:
  assumes "\<forall>sy. books reg sy = map_option anon_book (books reg0 sy)"
  shows "shown_book reg sy = shown_book reg0 sy"
proof -
  have "fst (get_order_book sy reg) = anon_book (fst (get_order_book sy reg0))"
    using assms by (auto simp: get_order_book_def split: option.splits)
  then show ?thesis by (simp add: shown_book_def print_book_relabel)
qed

text \<open>
  The end of the demonstration, for any requests: after any tasks of the gateway, with the log stopped and its file
  replayed into an empty registry, \<^verbatim>\<open>print_book\<close> shows the same lines for the original and the recovered book of every symbol.
\<close>

theorem recovered_books_print_same:
  assumes "mem_ok mem" and "\<forall>task \<in> set tasks. gateway_task task"
  shows "\<exists>x w w' reg e. process_tasks clk mem tasks (fresh_exchange path) = done_with x \<and> wal x = Some w \<and>
    wal_stop w = done_with w' \<and> replay clk1 (Some (wal_file w')) BookRegistry_init e0 = Inr (True, reg, e) \<and>
    (\<forall>sy. shown_book reg sy = shown_book (registry x) sy)"
  using replay_rebuilds [OF assms, of clk path clk1 e0] shown_book_recovered by meson


theorem recovered_books_print_same_witness:
  "\<exists>x w w' reg e. process_tasks (\<lambda>_. 0) ex_mem [ex_task 1 Buy 100 10, ex_task 2 Sell 100 4] (fresh_exchange ''f'') = done_with x \<and>
    wal x = Some w \<and> wal_stop w = done_with w' \<and>
    replay (\<lambda>_. 1) (Some (wal_file w')) BookRegistry_init Env_init = Inr (True, reg, e) \<and>
    (\<forall>sy. shown_book reg sy = shown_book (registry x) sy)"
proof -
  have "\<forall>task \<in> set [ex_task 1 Buy 100 10, ex_task 2 Sell 100 4]. gateway_task task"
    by (simp add: gateway_task_def ex_task_def ex_order_def symbol_ok_def proper_enums_def)
  from recovered_books_print_same [OF ex_mem_ok this] show ?thesis .
qed

end
