(* ===== verification/Spec2Isabelle.thy ===== *)
theory Spec2Isabelle
  imports Book_Requests Gateway_Runs Composed_Io Ip_Network6 Timer_Wait Hash_Map Scheduler_Wakeups Exchange_System Demo_Client
begin

text \<open>
  \<^bold>\<open>The program.\<close>  A stock exchange in C++: clients connect over TCP and send limit and market orders, cancellations
  and modifications as packed binary frames; the exchange checks new orders, matches them by price and time priority, logs
  what it does to a write-ahead log from which the books can be rebuilt, and sends execution reports to the clients.
  The parts and how they work together (paths are under \<^verbatim>\<open>src/src\<close>):

  \<^item> \<^verbatim>\<open>gateway/\<close>: \<^verbatim>\<open>GatewayServer\<close> accepts connections, a \<^verbatim>\<open>Session\<close> reads a header and a body for each
    request, decodes it with \<^verbatim>\<open>binary_serializer.hpp\<close>, asks the risk checker about new orders and submits a task; all of this
    runs on one io thread.  \<^verbatim>\<open>ConnectionManager\<close> maps client ids to sessions.
  \<^item> \<^verbatim>\<open>threadpool/\<close>: tasks wait in the bounded \<^verbatim>\<open>SafeQueue\<close>; workers take the book of the task's symbol from
    \<^verbatim>\<open>registry/\<close>, log the request, run the operation under the book's mutex and publish reports and trades.
  \<^item> \<^verbatim>\<open>engine/\<close>: \<^verbatim>\<open>OrderBook\<close> with its two maps of price levels and its \<^verbatim>\<open>OrderIndex\<close> of list iterators;
    \<^verbatim>\<open>MatchingEngine\<close> crosses two orders; \<^verbatim>\<open>RiskChecker\<close>; \<^verbatim>\<open>ReplayEngine\<close> reads a log file.
  \<^item> \<^verbatim>\<open>pipeline/\<close>: the lock-free \<^verbatim>\<open>MPSCQueue\<close> carries log entries to the flush thread of the \<^verbatim>\<open>WAL\<close> and
    reports and trades to the dispatch thread of the \<^verbatim>\<open>ExecutionPipeline\<close>, which posts reports to the sessions.
  \<^item> \<^verbatim>\<open>demo_main.cpp\<close>: a client, and a run that connects everything, replays the log and prints both sets of books.
  \<^item> \<^verbatim>\<open>asio/\<close>: the vendored network library, of which the parts with algorithms of their own are modelled.

  \<^bold>\<open>The theories.\<close>

  \<^enum> \<^emph>\<open>Foundations.\<close>  \<^verbatim>\<open>Prelude\<close>: widths of the C++ integers, undefined behaviour as a value, rule collections, shared
    lemmas.  \<^verbatim>\<open>Types\<close>: \<^verbatim>\<open>common/\<close>.  \<^verbatim>\<open>Std_Map\<close>: \<^verbatim>\<open>std::map\<close> as the sequence of its entries, with the locale
    \<^verbatim>\<open>comparator\<close> (interpreted for the descending bids and the ascending asks).  \<^verbatim>\<open>Order_Index\<close>: the index, and the
    locale \<^verbatim>\<open>id_table\<close> of what a table by id promises, which the connection manager provides too.
  \<^enum> \<^emph>\<open>The order book.\<close>  \<^verbatim>\<open>Matching_Engine\<close> and \<^verbatim>\<open>Order_Book\<close> are the code, with list nodes as addresses, so that a
    stale index entry is a dangling iterator and following it an error value.  \<^verbatim>\<open>Book_Invariant\<close> and \<^verbatim>\<open>Book_Preserve\<close>: the
    invariant, kept by every operation, under which no iterator dangles.  \<^verbatim>\<open>Book_Spec\<close>: the abstract book, two lists in
    priority order.  \<^verbatim>\<open>Book_Match\<close>, \<^verbatim>\<open>Book_Trade\<close>, \<^verbatim>\<open>Book_Properties\<close>: the matching loops refine one pass over such a list;
    price-time priority, limits, conservation of quantity, reports, the execution price.  \<^verbatim>\<open>Book_Requests\<close>: cancel, modify
    and the queries.  \<^verbatim>\<open>Book_Recovery\<close>: books that agree up to client ids stay so.  \<^verbatim>\<open>Risk_Checker\<close>: the checks are exactly
    the documented rules and accepted ids are unique.
  \<^enum> \<^emph>\<open>Bytes.\<close>  \<^verbatim>\<open>Wire\<close>, \<^verbatim>\<open>Binary_Serializer\<close> and \<^verbatim>\<open>Wire_Layout\<close>: the memory images of the packed structs, the
    conversions in both directions, round trips, and the unterminated symbol.  The locale \<^verbatim>\<open>packed_struct\<close> has one
    interpretation for each struct, the log entry included.
  \<^enum> \<^emph>\<open>Queues and threads.\<close>  \<^verbatim>\<open>Safe_Queue\<close> and \<^verbatim>\<open>Mpsc_Queue\<close>: the operations, and step relations in which every shared access
    is a step of any number of threads, with first-in first-out order, no lost wake-up, no use of a freed node; both
    provide the locale \<^verbatim>\<open>fifo\<close> to their clients.  \<^verbatim>\<open>Thread_Pool\<close>, \<^verbatim>\<open>Execution_Pipeline\<close>, \<^verbatim>\<open>Wal\<close>: the
    handlers and loops; stopping returns with everything written or handed over.
    \<^verbatim>\<open>Worker_Pool\<close> and \<^verbatim>\<open>Worker_Runs\<close> (which rest on \<^verbatim>\<open>Replay_Engine\<close>): any number of workers, cut at every point where another thread
    can come between, with the flush and dispatch threads; their books are those of one worker in the order of the log,
    the log rebuilds them, and a closed pool ends with every task handled once.
  \<^enum> \<^emph>\<open>The system.\<close>  \<^verbatim>\<open>Book_Registry\<close> and \<^verbatim>\<open>Replay_Engine\<close>: the effect of a task on books, log and queues, and that replaying
    the file rebuilds the books.  \<^verbatim>\<open>Connection_Manager\<close>, \<^verbatim>\<open>Session\<close>, \<^verbatim>\<open>Gateway_Runs\<close>: every handler, and runs of the gateway
    as a step relation over completions, workers and dispatcher, with the history of tasks and frames.  \<^verbatim>\<open>Logger\<close>: log
    lines, \<^verbatim>\<open>format_timestamp\<close> and \<^verbatim>\<open>print_book\<close>.  \<^verbatim>\<open>Demo_Client\<close>: client and gateway speak the same frames, the client
    counts the reports it is sent, and recovered books print the same.  \<^verbatim>\<open>Exchange_System\<close>: gateway, workers, log and dispatcher in one step relation with a trace;
    what holds of a whole run from the bytes of the clients to the books, the log and the bytes sent back.
  \<^enum> \<^emph>\<open>The network library.\<close>  \<^verbatim>\<open>Asio_Buffers\<close>, \<^verbatim>\<open>Consuming_Buffers\<close>, \<^verbatim>\<open>Composed_Io\<close>: buffer sequences on a memory of bytes,
    the cursor over a sequence (locale \<^verbatim>\<open>consuming\<close>, three implementations), and \<^verbatim>\<open>async_read\<close> and \<^verbatim>\<open>async_write\<close>
    (locale \<^verbatim>\<open>composed_io\<close>), which deliver what the sessions rely on.  \<^verbatim>\<open>Op_Queue\<close>, \<^verbatim>\<open>Timer_Queue\<close>, \<^verbatim>\<open>Timer_Runs\<close>,
    \<^verbatim>\<open>Timer_Wait\<close>: operation queues, the heap of timers, waiting times with saturating clock arithmetic, sets of queues.
    \<^verbatim>\<open>Asio_Scheduler\<close>, \<^verbatim>\<open>Scheduler_Runs\<close>, \<^verbatim>\<open>Scheduler_Wakeups\<close>: the scheduler behind \<^verbatim>\<open>io_context\<close> with any number of threads,
    cut at every critical section and every access outside of one; operations run once and in order, the work count is
    exact, and no wake-up is lost by threads in \<^verbatim>\<open>run\<close> and \<^verbatim>\<open>poll\<close>.
    \<^verbatim>\<open>Hash_Map\<close>: the table of the reactors, refining a partial function.  \<^verbatim>\<open>Ip_Address\<close>, \<^verbatim>\<open>Word_Prefix\<close>, \<^verbatim>\<open>Ip_Network\<close>,
    \<^verbatim>\<open>Ip_Network6\<close>: addresses, their texts, networks and ranges.

  \<^bold>\<open>State and effects.\<close>  Structs and classes are records, enumerations are datatypes, integers have their width as words.
  An operation returns its new state; undefined behaviour (dangling iterator, freed node, read past an array) is an
  error value of its own, so that safety is a theorem.  Locks are modelled where their protocol is the point (the
  bounded queue, the mutex of a book under several workers); elsewhere an operation under a mutex is one step.  In the
  runs of the workers putting an entry into a lock-free queue is one step, and so is the matching of one operation.

  \<^bold>\<open>Parameters.\<close>  The clock, the contents of uninitialised memory, the local time zone, the stream under the composed reads
  and writes, and the hash function of the hash map are arguments; what handlers and the task of the scheduler do is left open in its step relation; statements hold for all of them or name what they need.

  \<^bold>\<open>Loops.\<close>  No definition has fuel.  Loops over data recurse on it; loops that end only by what they read (\<^verbatim>\<open>flush_loop\<close>,
  \<^verbatim>\<open>dispatch_loop\<close>, \<^verbatim>\<open>mpsc_drain\<close>, \<^verbatim>\<open>spin_enqueue\<close>, \<^verbatim>\<open>write_loop\<close>, \<^verbatim>\<open>read_loop\<close>, \<^verbatim>\<open>ready_loop\<close>, \<^verbatim>\<open>all_loop\<close>, the loops
  over linked sets) are partial functions in which not returning is \<open>None\<close>; that they return is proved, and \<^verbatim>\<open>wal_restart_spins\<close>
  proves of one call that it does not.

  \<^bold>\<open>What the proofs showed of the code.\<close>  A packet with an unterminated symbol makes the gateway read past the field.  The
  execution price is that of the order with the older client-supplied time stamp, not of the resting order, so that a market order with an old
  time stamp trades at a price of its own choice, outside the limits of the resting orders.  Market orders
  with price 0 never pass the risk check, and modifications are not checked at all.  Recovered orders have lost their
  client ids.  With several workers a cancellation can overtake its order, and replay can give trades other ids than they
  had.  On a stopped pool an accepted order disappears without a report.  A log that is stopped and started again blocks its callers for good.  A stalled producer hides the values
  of others from the consumer, and \<^verbatim>\<open>stop\<close> could lose them.  In the library: an operation that a handler posts to itself under \<^verbatim>\<open>run_one\<close>
  wakes nobody, the waiting time of a set of timer queues can
  hide a timer that is due, the hosts of the IPv6 network with prefix 0 are an empty range, and large numbers in prefixes
  and scope identifiers overflow \<^verbatim>\<open>atoi\<close>.

  \<^bold>\<open>Not modelled.\<close>  Allocation failure; weak memory (the queues use sequentially consistent atomics, which are interleavings, and
  of the relaxed trade-id counter only atomicity is used); the requests that the demonstration sends, its sleeps and progress messages;
  runs of the whole system after a packet whose decoding is undefined; of asio: sockets, acceptors, resolvers, reactors, the
  shutdown of the scheduler and run functions called from within handlers, executors, coroutines, \<^verbatim>\<open>read_until\<close>, streambufs and dynamic buffers, serial ports, files, SSL and everything
  for Windows, which are wrappers of the operating system or type-level code that the exchange does not depend on beyond
  the promises above.  \<^verbatim>\<open>README.md\<close>, \<^verbatim>\<open>build.bat\<close> and the compiled \<^verbatim>\<open>exchange_demo.exe\<close> have no logic to model.
\<close>

end
